(* ===== verification/Matchbook_Prelude.thy ===== *)
theory Matchbook_Prelude
  imports Main "HOL-Library.Word" "HOL-Library.Monad_Syntax"
begin

unbundle bit_operations_syntax

text \<open>
  Shared vocabulary of the development: the core types of
  \<^verbatim>\<open>include/matchbook/types.hpp\<close>, checked vector access, and the generic lemmas on
  words, lists and options that the component theories use.

  Conventions.  A quantity (\<^verbatim>\<open>Qty\<close>, a \<^verbatim>\<open>uint64_t\<close>) is a 64-bit word, so every
  aggregate the code keeps wraps exactly where the code's does.  A price (an
  \<^verbatim>\<open>int64_t\<close>) is an unbounded integer tick, and the band's own sums are taken without
  overflow: that is the code's arithmetic as long as the band starts at -2^63 or above
  and ends below 2^63 - 1.  An order id (a \<^verbatim>\<open>uint64_t\<close>) is an unbounded natural number: ids
  are handed out from 1 and each takes an entry of a vector, so memory ends before they do.

  An operation that could read out of bounds, dereference a dead node or loop for
  ever is a function into \<open>option\<close>, and \<open>None\<close> stands for exactly those
  failures.  A theorem that an operation returns \<open>Some\<close> therefore says
  that it terminates and makes no invalid access.
\<close>

section \<open>Core types\<close>

type_synonym OrderId = nat
type_synonym Price = int
type_synonym Qty = "64 word"
type_synonym OwnerId = "16 word"

definition kInvalidOrderId :: OrderId where
  "kInvalidOrderId = 0"

datatype Side = Buy | Sell

datatype TimeInForce = GTC | IOC | FOK | PostOnly

datatype StpPolicy = CancelTaker | CancelMaker | CancelBoth

text \<open>The enumerators' values.\<close>

definition tif_code :: "TimeInForce \<Rightarrow> 8 word" where
  "tif_code t = (case t of GTC \<Rightarrow> 0 | IOC \<Rightarrow> 1 | FOK \<Rightarrow> 2 | PostOnly \<Rightarrow> 3)"

definition stp_code :: "StpPolicy \<Rightarrow> 8 word" where
  "stp_code p = (case p of CancelTaker \<Rightarrow> 0 | CancelMaker \<Rightarrow> 1 | CancelBoth \<Rightarrow> 2)"

fun opposite :: "Side \<Rightarrow> Side" where
  "opposite Buy = Sell"
| "opposite Sell = Buy"

record Trade =
  t_taker :: OrderId
  t_maker :: OrderId
  t_price :: Price
  t_qty :: Qty
  t_side :: Side

text \<open>
  The calls an engine makes on its handler, as data.  The order of the list an
  operation produces is the order of the calls.
\<close>

datatype event =
    Accept OrderId Side Price Qty
  | Traded Trade
  | Cancelled OrderId
  | Rejected OrderId
  | Rested OrderId Side Price Qty

lemma opposite_opposite [simp]: "opposite (opposite s) = s"
  by (cases s) auto

lemma opposite_neq [simp]: "opposite s \<noteq> s" "s \<noteq> opposite s"
  by (cases s; auto)+

lemma Side_ex: "(\<exists>s. P s) \<longleftrightarrow> P Buy \<or> P Sell"
  by (metis Side.exhaust)

lemma Side_all: "(\<forall>s. P s) \<longleftrightarrow> P Buy \<and> P Sell"
  by (metis Side.exhaust)

lemma opposite_inj [simp]: "opposite s = opposite t \<longleftrightarrow> s = t"
  by (cases s; cases t) auto

section \<open>Checked vector access\<close>

definition vec_at :: "'a list \<Rightarrow> nat \<Rightarrow> 'a option" where
  "vec_at xs i = (if i < length xs then Some (xs ! i) else None)"

definition vec_set :: "'a list \<Rightarrow> nat \<Rightarrow> 'a \<Rightarrow> 'a list option" where
  "vec_set xs i x = (if i < length xs then Some (xs[i := x]) else None)"

lemma vec_at_Some [simp]: "vec_at xs i = Some x \<longleftrightarrow> i < length xs \<and> xs ! i = x"
  by (auto simp: vec_at_def)

lemma vec_at_None [simp]: "vec_at xs i = None \<longleftrightarrow> length xs \<le> i"
  by (auto simp: vec_at_def)

lemma vec_at_in: "i < length xs \<Longrightarrow> vec_at xs i = Some (xs ! i)"
  by simp

lemma vec_set_Some [simp]: "vec_set xs i x = Some ys \<longleftrightarrow> i < length xs \<and> ys = xs[i := x]"
  by (auto simp: vec_set_def)

lemma vec_set_in: "i < length xs \<Longrightarrow> vec_set xs i x = Some (xs[i := x])"
  by simp

section \<open>Words\<close>

lemma unat_minus_le: "b \<le> a \<Longrightarrow> unat (a - b) = unat a - unat (b :: 'a::len word)"
  by (simp add: unat_sub)

lemma word_neq_0_unat: "(x :: 'a::len word) \<noteq> 0 \<longleftrightarrow> 0 < unat x"
  by (simp add: unat_gt_0)

lemma unat_if_min: "unat (if (a :: 'a::len word) < b then a else b) = min (unat a) (unat b)"
  by (auto simp: word_less_nat_alt)

lemma sum_list_update_word:
  "i < length xs \<Longrightarrow> sum_list (xs[i := x]) = sum_list xs - xs ! i + (x :: 'a::ab_group_add)"
  by (induction xs arbitrary: i) (auto split: nat.splits simp: algebra_simps)

section \<open>Lists\<close>

lemma takeWhile_all_append:
  "(\<And>x. x \<in> set xs \<Longrightarrow> P x) \<Longrightarrow> takeWhile P (xs @ ys) = xs @ takeWhile P ys"
  by (induction xs) auto

lemma dropWhile_all_append:
  "(\<And>x. x \<in> set xs \<Longrightarrow> P x) \<Longrightarrow> dropWhile P (xs @ ys) = dropWhile P ys"
  by (induction xs) auto

lemma takeWhile_none: "(\<And>x. x \<in> set xs \<Longrightarrow> \<not> P x) \<Longrightarrow> takeWhile P xs = []"
  by (cases xs) auto

lemma dropWhile_none: "(\<And>x. x \<in> set xs \<Longrightarrow> \<not> P x) \<Longrightarrow> dropWhile P xs = xs"
  by (cases xs) auto

lemma bex_set_nth: "(\<exists>x\<in>set xs. P x) \<longleftrightarrow> (\<exists>i<length xs. P (xs ! i))"
  by (metis in_set_conv_nth)

lemma map_cong_except:
  "(\<And>x. x \<in> set xs \<Longrightarrow> x \<noteq> k) \<Longrightarrow> map (f(k := v)) xs = map f xs"
  by (induction xs) auto

end
