(* ===== verification/Refinement.thy ===== *)
theory Refinement
  imports Matchbook_Prelude
begin

text \<open>
  Machines driven by calls.  A detailed machine answers a call with a reply and a new state,
  or fails (an invalid access, an endless loop); an abstract one always answers.  The locale
  is the contract between the two, a forward simulation, and what follows from it for every
  history of calls.
\<close>

fun history :: "('c \<Rightarrow> 's \<Rightarrow> ('r \<times> 's) option) \<Rightarrow> 'c list \<Rightarrow> 's \<Rightarrow> ('r list \<times> 's) option" where
  "history step [] s = Some ([], s)"
| "history step (c # cs) s = do {
     (r, s1) \<leftarrow> step c s;
     (rs, s2) \<leftarrow> history step cs s1;
     Some (r # rs, s2) }"

fun a_history :: "('c \<Rightarrow> 'a \<Rightarrow> 'r \<times> 'a) \<Rightarrow> 'c list \<Rightarrow> 'a \<Rightarrow> 'r list \<times> 'a" where
  "a_history astep [] a = ([], a)"
| "a_history astep (c # cs) a =
     (let (r, a1) = astep c a; (rs, a2) = a_history astep cs a1 in (r # rs, a2))"

lemma a_history_Cons [simp]:
  "fst (a_history astep (c # cs) a) = fst (astep c a) # fst (a_history astep cs (snd (astep c a)))"
  "snd (a_history astep (c # cs) a) = snd (a_history astep cs (snd (astep c a)))"
  by (simp_all add: Let_def case_prod_beta)

declare a_history.simps(2) [simp del]

lemma a_history_append:
  "snd (a_history astep (cs @ ds) a) = snd (a_history astep ds (snd (a_history astep cs a)))"
  by (induction cs arbitrary: a) simp_all

lemma a_history_invariant:
  assumes "I a" "\<And>c a. c \<in> set cs \<Longrightarrow> I a \<Longrightarrow> I (snd (astep c a))"
  shows "I (snd (a_history astep cs a))"
  using assms
proof (induction cs arbitrary: a)
  case (Cons c cs)
  have "I (snd (astep c a))" using Cons.prems by simp
  with Cons.prems(2) show ?case by (auto intro!: Cons.IH)
qed simp

lemma history_append:
  "history step (cs @ ds) s = do {
     (rs, s1) \<leftarrow> history step cs s;
     (rs', s2) \<leftarrow> history step ds s1;
     Some (rs @ rs', s2) }"
  by (induction cs arbitrary: s) (auto split: Option.bind_splits)

locale refinement =
  fixes step :: "'c \<Rightarrow> 's \<Rightarrow> ('r \<times> 's) option"
    and astep :: "'c \<Rightarrow> 'a \<Rightarrow> 'r \<times> 'a"
    and rel :: "'s \<Rightarrow> 'a \<Rightarrow> bool"
  assumes forward: "rel s a \<Longrightarrow> \<exists>s'. step c s = Some (fst (astep c a), s') \<and> rel s' (snd (astep c a))"
begin

lemma histories:
  "rel s a \<Longrightarrow> \<exists>s'. history step cs s = Some (fst (a_history astep cs a), s') \<and>
     rel s' (snd (a_history astep cs a))"
proof (induction cs arbitrary: s a)
  case (Cons c cs)
  obtain s1 where s1: "step c s = Some (fst (astep c a), s1)" "rel s1 (snd (astep c a))"
    using forward [OF Cons.prems] by blast
  from Cons.IH [OF s1(2)] s1(1) show ?case by auto
qed simp

lemma never_fails: "rel s a \<Longrightarrow> history step cs s \<noteq> None"
  using histories by fastforce

lemma transfer_invariant:
  assumes "rel s a" "I a" "\<And>c a. c \<in> set cs \<Longrightarrow> I a \<Longrightarrow> I (snd (astep c a))"
    "history step cs s = Some (rs, s')"
  shows "\<exists>a'. rel s' a' \<and> I a'"
  using histories [OF assms(1), of cs] a_history_invariant [where I = I, OF assms(2), of cs astep] assms(3,4) by auto

end

end
