(* ===== verification/Level_Bitmap.thy ===== *)
theory Level_Bitmap
  imports Matchbook_Prelude
begin

text \<open>
  \<^verbatim>\<open>include/matchbook/level_bitmap.hpp\<close>: one occupancy bit per price level in 64-bit
  words, with masked count-trailing/leading-zeros scans for the next occupied
  level on either side.  \<open>None\<close> is a read outside the word vector.
\<close>

section \<open>Definitions\<close>

record level_bitmap =
  bm_words :: "64 word list"
  bm_n :: nat

definition bm_new :: "nat \<Rightarrow> level_bitmap" where
  "bm_new n_levels = \<lparr>bm_words = replicate ((n_levels + 63) div 64) 0, bm_n = n_levels\<rparr>"

definition bm_set :: "level_bitmap \<Rightarrow> nat \<Rightarrow> level_bitmap option" where
  "bm_set bm i = do {
     w \<leftarrow> vec_at (bm_words bm) (i div 64);
     ws \<leftarrow> vec_set (bm_words bm) (i div 64) (w OR push_bit (i mod 64) 1);
     Some (bm\<lparr>bm_words := ws\<rparr>) }"

definition bm_clear :: "level_bitmap \<Rightarrow> nat \<Rightarrow> level_bitmap option" where
  "bm_clear bm i = do {
     w \<leftarrow> vec_at (bm_words bm) (i div 64);
     ws \<leftarrow> vec_set (bm_words bm) (i div 64) (w AND NOT (push_bit (i mod 64) 1));
     Some (bm\<lparr>bm_words := ws\<rparr>) }"

definition bm_test :: "level_bitmap \<Rightarrow> nat \<Rightarrow> bool option" where
  "bm_test bm i = do {
     w \<leftarrow> vec_at (bm_words bm) (i div 64);
     Some (drop_bit (i mod 64) w AND 1 \<noteq> 0) }"

text \<open>The compiler builtins on a nonzero word: leading and trailing zero counts.\<close>

definition clz64 :: "64 word \<Rightarrow> nat" where
  "clz64 v = length (takeWhile (\<lambda>k. \<not> bit v k) (rev [0..<64]))"

definition ctz64 :: "64 word \<Rightarrow> nat" where
  "ctz64 v = length (takeWhile (\<lambda>k. \<not> bit v k) [0..<64])"

fun scan_down :: "64 word list \<Rightarrow> nat \<Rightarrow> 64 word \<Rightarrow> int option" where
  "scan_down ws w v =
     (if v \<noteq> 0 then Some (int (w * 64) + 63 - int (clz64 v))
      else case w of
        0 \<Rightarrow> Some (- 1)
      | Suc w' \<Rightarrow> do { v' \<leftarrow> vec_at ws w'; scan_down ws w' v' })"

definition bm_find_le :: "level_bitmap \<Rightarrow> int \<Rightarrow> int option" where
  "bm_find_le bm i0 =
     (if i0 < 0 then Some (- 1)
      else
        let i = (if nat i0 \<ge> bm_n bm then int (bm_n bm) - 1 else i0);
            w = unat (of_int i :: 64 word) div 64;
            b = unat (of_int i :: 64 word) mod 64;
            mask = (if b = 63 then NOT 0 else push_bit (b + 1) 1 - 1)
        in do { v \<leftarrow> vec_at (bm_words bm) w; scan_down (bm_words bm) w (v AND mask) })"

function scan_up :: "64 word list \<Rightarrow> nat \<Rightarrow> 64 word \<Rightarrow> int option" where
  "scan_up ws w v =
     (if v \<noteq> 0 then Some (int (w * 64) + int (ctz64 v))
      else if Suc w \<ge> length ws then Some (- 1)
      else scan_up ws (Suc w) (ws ! Suc w))"
  by pat_completeness auto
termination
  by (relation "measure (\<lambda>(ws, w, v). length ws - w)") auto

definition bm_find_ge :: "level_bitmap \<Rightarrow> int \<Rightarrow> int option" where
  "bm_find_ge bm i0 =
     (let i = (if i0 < 0 then 0 else i0)
      in if nat i \<ge> bm_n bm then Some (- 1)
         else
           let w = nat i div 64
           in do { v \<leftarrow> vec_at (bm_words bm) w;
                   scan_up (bm_words bm) w (v AND push_bit (nat i mod 64) (NOT 0)) })"

declare scan_up.simps [simp del] scan_down.simps [simp del]

section \<open>What the bitmap stands for\<close>

definition bm_bits :: "level_bitmap \<Rightarrow> nat set" where
  "bm_bits bm = {i. i div 64 < length (bm_words bm) \<and> bit (bm_words bm ! (i div 64)) (i mod 64)}"

definition bm_ok :: "level_bitmap \<Rightarrow> bool" where
  "bm_ok bm \<longleftrightarrow> length (bm_words bm) = (bm_n bm + 63) div 64 \<and> bm_bits bm \<subseteq> {..<bm_n bm}
     \<and> bm_n bm < 2 ^ 63"

text \<open>The highest (lowest) index of a set, -1 when it is empty: what the scans return
  and what the engine caches as its best bid and best ask.\<close>

definition is_max :: "nat set \<Rightarrow> int \<Rightarrow> bool" where
  "is_max S r \<longleftrightarrow> (if S = {} then r = - 1 else \<exists>k\<in>S. r = int k \<and> (\<forall>j\<in>S. j \<le> k))"

definition is_min :: "nat set \<Rightarrow> int \<Rightarrow> bool" where
  "is_min S r \<longleftrightarrow> (if S = {} then r = - 1 else \<exists>k\<in>S. r = int k \<and> (\<forall>j\<in>S. k \<le> j))"

lemma is_maxI: "k \<in> S \<Longrightarrow> (\<And>j. j \<in> S \<Longrightarrow> j \<le> k) \<Longrightarrow> is_max S (int k)"
  by (auto simp: is_max_def)

lemma is_minI: "k \<in> S \<Longrightarrow> (\<And>j. j \<in> S \<Longrightarrow> k \<le> j) \<Longrightarrow> is_min S (int k)"
  by (auto simp: is_min_def)

lemma is_max_empty [simp]: "is_max {} r \<longleftrightarrow> r = - 1"
  by (simp add: is_max_def)

lemma is_min_empty [simp]: "is_min {} r \<longleftrightarrow> r = - 1"
  by (simp add: is_min_def)

section \<open>The zero counts\<close>

lemma last_set_index:
  "\<exists>k<n. P k \<Longrightarrow> let c = length (takeWhile (\<lambda>k. \<not> P k) (rev [0..<n]))
     in c < n \<and> P (n - 1 - c) \<and> (\<forall>k<n. P k \<longrightarrow> k \<le> n - 1 - c)"
proof (induction n)
  case 0
  then show ?case by simp
next
  case (Suc n)
  show ?case
  proof (cases "P n")
    case True
    then show ?thesis by (auto simp: Let_def)
  next
    case False
    with Suc.prems have "\<exists>k<n. P k" by (auto simp: less_Suc_eq)
    with Suc.IH False show ?thesis by (auto simp: Let_def less_Suc_eq)
  qed
qed

lemma first_set_index:
  assumes "\<exists>k<n. P k"
  shows "let c = length (takeWhile (\<lambda>k. \<not> P k) [0..<n])
     in c < n \<and> P c \<and> (\<forall>k<n. P k \<longrightarrow> c \<le> k)"
proof -
  let ?c = "length (takeWhile (\<lambda>k. \<not> P k) [0..<n])"
  have lt: "?c < n"
  proof (rule ccontr)
    assume "\<not> ?c < n"
    then have "takeWhile (\<lambda>k. \<not> P k) [0..<n] = [0..<n]"
      by (metis diff_zero length_takeWhile_le length_upt linorder_not_less
          nat_less_le takeWhile_eq_take take_all)
    with assms show False
      by (auto simp: takeWhile_eq_all_conv)
  qed
  have "P ?c"
    using nth_length_takeWhile [of "\<lambda>k. \<not> P k" "[0..<n]"] lt by simp
  moreover have "\<forall>k<?c. \<not> P k"
  proof (intro allI impI)
    fix k assume "k < ?c"
    then have "takeWhile (\<lambda>k. \<not> P k) [0..<n] ! k = k"
      using lt by (simp add: takeWhile_nth)
    with \<open>k < ?c\<close> show "\<not> P k"
      by (metis nth_mem set_takeWhileD)
  qed
  ultimately show ?thesis
    using lt by (auto simp: Let_def not_less [symmetric])
qed

lemma word_bit_exists: "(v :: 64 word) \<noteq> 0 \<longleftrightarrow> (\<exists>k<64. bit v k)"
proof
  assume nz: "v \<noteq> 0"
  show "\<exists>k<64. bit v k"
  proof (rule ccontr)
    assume "\<not> ?thesis"
    then have "v = 0" by (intro bit_word_eqI) auto
    with nz show False ..
  qed
qed auto

lemma clz64_spec:
  assumes "v \<noteq> 0"
  shows "clz64 v < 64 \<and> bit v (63 - clz64 v) \<and> (\<forall>k<64. bit v k \<longrightarrow> k \<le> 63 - clz64 v)"
  using last_set_index [of 64 "bit v"] assms
  by (simp add: clz64_def word_bit_exists Let_def)

lemma ctz64_spec:
  assumes "v \<noteq> 0"
  shows "ctz64 v < 64 \<and> bit v (ctz64 v) \<and> (\<forall>k<64. bit v k \<longrightarrow> ctz64 v \<le> k)"
  using first_set_index [of 64 "bit v"] assms
  by (simp add: ctz64_def word_bit_exists Let_def)

section \<open>The scans\<close>

definition word_bits :: "nat \<Rightarrow> 64 word \<Rightarrow> nat set" where
  "word_bits w v = {j. j div 64 = w \<and> bit v (j mod 64)}"

definition vec_bits :: "64 word list \<Rightarrow> nat set" where
  "vec_bits ws = {j. j div 64 < length ws \<and> bit (ws ! (j div 64)) (j mod 64)}"

lemma word_bits_0 [simp]: "word_bits w 0 = {}"
  by (simp add: word_bits_def)

lemma word_bits_iff: "j \<in> word_bits w v \<longleftrightarrow> (\<exists>k<64. j = w * 64 + k \<and> bit v k)"
proof
  assume "j \<in> word_bits w v"
  then have "j = w * 64 + j mod 64" "bit v (j mod 64)" "j mod 64 < 64"
    by (auto simp: word_bits_def)
  then show "\<exists>k<64. j = w * 64 + k \<and> bit v k" by blast
qed (auto simp: word_bits_def)

lemma scan_down_spec:
  "w < length ws \<Longrightarrow>
   \<exists>r. scan_down ws w v = Some r \<and> is_max (word_bits w v \<union> {j \<in> vec_bits ws. j div 64 < w}) r"
proof (induction w arbitrary: v)
  case 0
  show ?case
  proof (cases "v = 0")
    case True
    then show ?thesis by (simp add: scan_down.simps)
  next
    case False
    let ?k = "63 - clz64 v"
    from clz64_spec [OF False] have k: "clz64 v < 64" "bit v ?k" "\<forall>k<64. bit v k \<longrightarrow> k \<le> ?k"
      by auto
    have "is_max (word_bits 0 v \<union> {j \<in> vec_bits ws. j div 64 < 0}) (int ?k)"
      by (rule is_maxI) (use k in \<open>auto simp: word_bits_def\<close>)
    then show ?thesis using False k by (simp add: scan_down.simps of_nat_diff)
  qed
next
  case (Suc w)
  show ?case
  proof (cases "v = 0")
    case True
    from Suc.prems have "w < length ws" by simp
    from Suc.IH [OF this] obtain r where r: "scan_down ws w (ws ! w) = Some r"
      "is_max (word_bits w (ws ! w) \<union> {j \<in> vec_bits ws. j div 64 < w}) r" by blast
    moreover have "word_bits w (ws ! w) \<union> {j \<in> vec_bits ws. j div 64 < w}
        = word_bits (Suc w) v \<union> {j \<in> vec_bits ws. j div 64 < Suc w}"
      using Suc.prems True by (auto simp: word_bits_def vec_bits_def less_Suc_eq)
    ultimately show ?thesis
      using True Suc.prems by (simp add: scan_down.simps [of ws "Suc w"] vec_at_in)
  next
    case False
    let ?k = "63 - clz64 v"
    from clz64_spec [OF False] have k: "clz64 v < 64" "bit v ?k" "\<forall>k<64. bit v k \<longrightarrow> k \<le> ?k"
      by auto
    have "is_max (word_bits (Suc w) v \<union> {j \<in> vec_bits ws. j div 64 < Suc w})
        (int (Suc w * 64 + ?k))"
    proof (rule is_maxI)
      show "Suc w * 64 + ?k \<in> word_bits (Suc w) v \<union> {j \<in> vec_bits ws. j div 64 < Suc w}"
        using k(1,2) unfolding word_bits_iff Un_iff
        by (intro disjI1 exI [of _ ?k]) (simp only: diff_less_Suc, simp)
    next
      fix j assume j: "j \<in> word_bits (Suc w) v \<union> {j \<in> vec_bits ws. j div 64 < Suc w}"
      then consider "\<exists>k<64. j = Suc w * 64 + k \<and> bit v k" | "j div 64 < Suc w"
        by (auto simp only: word_bits_iff)
      then show "j \<le> Suc w * 64 + ?k"
        using k(3) by cases auto
    qed
    moreover have "scan_down ws (Suc w) v = Some (int (Suc w * 64 + ?k))"
      using False k(1) by (simp add: scan_down.simps [of ws "Suc w"] of_nat_diff)
    ultimately show ?thesis by blast
  qed
qed

lemma scan_up_spec:
  "w < length ws \<Longrightarrow>
   \<exists>r. scan_up ws w v = Some r \<and> is_min (word_bits w v \<union> {j \<in> vec_bits ws. w < j div 64}) r"
proof (induction ws w v rule: scan_up.induct)
  case (1 ws w v)
  show ?case
  proof (cases "v = 0")
    case False
    let ?k = "ctz64 v"
    from ctz64_spec [OF False] have k: "?k < 64" "bit v ?k" "\<forall>k<64. bit v k \<longrightarrow> ?k \<le> k"
      by auto
    have "is_min (word_bits w v \<union> {j \<in> vec_bits ws. w < j div 64}) (int (w * 64 + ?k))"
    proof (rule is_minI)
      show "w * 64 + ?k \<in> word_bits w v \<union> {j \<in> vec_bits ws. w < j div 64}"
        using k by (simp add: word_bits_def)
    next
      fix j assume j: "j \<in> word_bits w v \<union> {j \<in> vec_bits ws. w < j div 64}"
      then consider "\<exists>k<64. j = w * 64 + k \<and> bit v k" | "w < j div 64"
        by (auto simp only: word_bits_iff)
      then show "w * 64 + ?k \<le> j"
        using k(1,3) by cases auto
    qed
    then show ?thesis using False by (simp add: scan_up.simps [of ws w v])
  next
    case True
    show ?thesis
    proof (cases "Suc w \<ge> length ws")
      case last: True
      then have "word_bits w v \<union> {j \<in> vec_bits ws. w < j div 64} = {}"
        using True by (auto simp: vec_bits_def)
      moreover have "scan_up ws w v = Some (- 1)"
        unfolding True by (simp add: scan_up.simps [of ws w 0] last)
      ultimately show ?thesis by (simp only: is_min_empty) simp
    next
      case False
      then have lt: "Suc w < length ws" by simp
      with 1 True False obtain r where r: "scan_up ws (Suc w) (ws ! Suc w) = Some r"
        "is_min (word_bits (Suc w) (ws ! Suc w) \<union> {j \<in> vec_bits ws. Suc w < j div 64}) r"
        by blast
      moreover have "word_bits (Suc w) (ws ! Suc w) \<union> {j \<in> vec_bits ws. Suc w < j div 64}
          = word_bits w v \<union> {j \<in> vec_bits ws. w < j div 64}"
      proof (rule set_eqI)
        fix j
        show "j \<in> word_bits (Suc w) (ws ! Suc w) \<union> {j \<in> vec_bits ws. Suc w < j div 64} \<longleftrightarrow>
            j \<in> word_bits w v \<union> {j \<in> vec_bits ws. w < j div 64}"
          using lt True by (cases "j div 64 = Suc w") (auto simp: word_bits_def vec_bits_def)
      qed
      ultimately show ?thesis
        using False unfolding True by (simp add: scan_up.simps [of ws w 0])
    qed
  qed
qed

section \<open>Laws of the operations\<close>

lemma bm_bits_eq: "bm_bits bm = vec_bits (bm_words bm)"
  by (simp add: bm_bits_def vec_bits_def)

lemma bm_ok_new: "n < 2 ^ 63 \<Longrightarrow> bm_ok (bm_new n)"
  by (auto simp: bm_ok_def bm_new_def bm_bits_def)

lemma bm_bits_new [simp]: "bm_bits (bm_new n) = {}"
  by (auto simp: bm_new_def bm_bits_def)

lemma bm_n_new [simp]: "bm_n (bm_new n) = n"
  by (simp add: bm_new_def)

lemma bm_index:
  assumes "bm_ok bm" "i < bm_n bm"
  shows "i div 64 < length (bm_words bm)"
proof -
  have "i div 64 < (bm_n bm + 63) div 64" using assms(2) by simp
  with assms(1) show ?thesis by (simp add: bm_ok_def)
qed

lemma div_mod_64_eq: "(i :: nat) div 64 = j div 64 \<Longrightarrow> i mod 64 = j mod 64 \<Longrightarrow> i = j"
  by (metis div_mult_mod_eq)

lemma bm_set_spec:
  assumes "bm_ok bm" "i < bm_n bm"
  shows "\<exists>bm'. bm_set bm i = Some bm' \<and> bm_ok bm' \<and> bm_n bm' = bm_n bm \<and>
    bm_bits bm' = insert i (bm_bits bm)"
proof -
  note ix = bm_index [OF assms]
  let ?ws = "(bm_words bm)[i div 64 := bm_words bm ! (i div 64) OR push_bit (i mod 64) 1]"
  have "bm_set bm i = Some (bm\<lparr>bm_words := ?ws\<rparr>)"
    using ix by (simp add: bm_set_def vec_at_in vec_set_in)
  moreover have "bm_bits (bm\<lparr>bm_words := ?ws\<rparr>) = insert i (bm_bits bm)"
    using ix by (auto simp: bm_bits_def nth_list_update bit_or_iff bit_exp_iff
        split: if_splits intro: div_mod_64_eq)
  ultimately show ?thesis using assms by (auto simp: bm_ok_def)
qed

lemma bm_clear_spec:
  assumes "bm_ok bm" "i < bm_n bm"
  shows "\<exists>bm'. bm_clear bm i = Some bm' \<and> bm_ok bm' \<and> bm_n bm' = bm_n bm \<and>
    bm_bits bm' = bm_bits bm - {i}"
proof -
  note ix = bm_index [OF assms]
  let ?ws = "(bm_words bm)[i div 64 := bm_words bm ! (i div 64) AND NOT (push_bit (i mod 64) 1)]"
  have "bm_clear bm i = Some (bm\<lparr>bm_words := ?ws\<rparr>)"
    using ix by (simp add: bm_clear_def vec_at_in vec_set_in)
  moreover have "bm_bits (bm\<lparr>bm_words := ?ws\<rparr>) = bm_bits bm - {i}"
    using ix by (auto simp: bm_bits_def nth_list_update bit_and_iff bit_not_iff bit_exp_iff
        split: if_splits intro: div_mod_64_eq)
  ultimately show ?thesis using assms by (auto simp: bm_ok_def)
qed

lemma bm_test_spec:
  assumes "bm_ok bm" "i < bm_n bm"
  shows "bm_test bm i = Some (i \<in> bm_bits bm)"
proof -
  note ix = bm_index [OF assms]
  have "(drop_bit (i mod 64) w AND 1 \<noteq> 0) = bit w (i mod 64)" for w :: "64 word"
    by (simp add: bit_iff_odd_drop_bit and_one_eq odd_iff_mod_2_eq_one)
  with ix show ?thesis by (simp add: bm_test_def bm_bits_def vec_at_in)
qed

lemma le_by_blocks: "(j :: nat) \<le> i \<longleftrightarrow> j div 64 < i div 64 \<or> j div 64 = i div 64 \<and> j mod 64 \<le> i mod 64"
proof -
  have "j = 64 * (j div 64) + j mod 64" "i = 64 * (i div 64) + i mod 64" by simp_all
  moreover have "j mod 64 < 64" "i mod 64 < 64" by simp_all
  ultimately show ?thesis by linarith
qed

lemma bit_low_mask:
  assumes "b < 64" "k < 64"
  shows "bit (if b = 63 then NOT 0 else push_bit (b + 1) 1 - (1 :: 64 word)) k \<longleftrightarrow> k \<le> b"
proof (cases "b = 63")
  case False
  have "push_bit (b + 1) 1 - (1 :: 64 word) = mask (b + 1)"
    by (simp only: mask_eq_exp_minus_1 push_bit_eq_mult mult_1)
  with False assms show ?thesis by (simp add: bit_mask_iff) auto
qed (use assms in \<open>simp add: bit_not_iff\<close>)

lemma bm_find_le_spec:
  assumes ok: "bm_ok bm" and dom: "i < 0 \<or> 0 < bm_n bm"
  shows "\<exists>r. bm_find_le bm i = Some r \<and> is_max {j \<in> bm_bits bm. int j \<le> i} r"
proof (cases "i < 0")
  case True
  then have "{j \<in> bm_bits bm. int j \<le> i} = {}" by auto
  with True show ?thesis by (simp add: bm_find_le_def)
next
  case False
  define i' where "i' = (if nat i \<ge> bm_n bm then int (bm_n bm) - 1 else i)"
  have rng: "0 \<le> i'" "nat i' < bm_n bm" "i' < 2 ^ 63"
    using False dom ok by (auto simp: i'_def bm_ok_def)
  have un: "unat (of_int i' :: 64 word) = nat i'"
    using rng by (simp add: unsigned_of_int take_bit_int_eq_self)
  let ?w = "nat i' div 64" and ?b = "nat i' mod 64"
  let ?mask = "if ?b = 63 then NOT 0 else push_bit (?b + 1) 1 - (1 :: 64 word)"
  have ix: "?w < length (bm_words bm)" by (rule bm_index [OF ok rng(2)])
  from scan_down_spec [OF ix, of "bm_words bm ! ?w AND ?mask"] obtain r where
    r: "scan_down (bm_words bm) ?w (bm_words bm ! ?w AND ?mask) = Some r"
      "is_max (word_bits ?w (bm_words bm ! ?w AND ?mask)
        \<union> {j \<in> vec_bits (bm_words bm). j div 64 < ?w}) r" by blast
  have "bm_find_le bm i = Some r"
    using False ix r(1) unfolding bm_find_le_def i'_def [symmetric] Let_def un
    by (simp add: vec_at_in)
  moreover have "word_bits ?w (bm_words bm ! ?w AND ?mask)
      \<union> {j \<in> vec_bits (bm_words bm). j div 64 < ?w} = {j \<in> bm_bits bm. int j \<le> i}"
  proof (rule set_eqI)
    fix j
    have "j \<in> word_bits ?w (bm_words bm ! ?w AND ?mask)
        \<union> {j \<in> vec_bits (bm_words bm). j div 64 < ?w} \<longleftrightarrow> j \<in> bm_bits bm \<and> j \<le> nat i'"
      unfolding le_by_blocks [of j] using ix
      by (auto simp only: word_bits_def vec_bits_def bm_bits_def bit_and_iff bit_low_mask
          mod_less_divisor zero_less_numeral Un_iff mem_Collect_eq)
    also have "\<dots> \<longleftrightarrow> j \<in> bm_bits bm \<and> int j \<le> i"
      using ok False by (auto simp: i'_def bm_ok_def)
    finally show "j \<in> word_bits ?w (bm_words bm ! ?w AND ?mask)
        \<union> {j \<in> vec_bits (bm_words bm). j div 64 < ?w} \<longleftrightarrow> j \<in> {j \<in> bm_bits bm. int j \<le> i}"
      by simp
  qed
  ultimately show ?thesis using r(2) by simp
qed

lemma bm_find_ge_spec:
  assumes ok: "bm_ok bm"
  shows "\<exists>r. bm_find_ge bm i = Some r \<and> is_min {j \<in> bm_bits bm. i \<le> int j} r"
proof -
  define i' where "i' = nat (if i < 0 then 0 else i)"
  have set_eq: "{j \<in> bm_bits bm. i \<le> int j} = {j \<in> bm_bits bm. i' \<le> j}"
    by (auto simp: i'_def)
  show ?thesis
  proof (cases "i' \<ge> bm_n bm")
    case True
    then have "{j \<in> bm_bits bm. i' \<le> j} = {}" using ok by (auto simp: bm_ok_def)
    moreover have "bm_find_ge bm i = Some (- 1)"
      using True by (simp add: bm_find_ge_def i'_def Let_def)
    ultimately show ?thesis unfolding set_eq by (simp only: is_min_empty) simp
  next
    case False
    let ?w = "i' div 64" and ?b = "i' mod 64"
    let ?v = "bm_words bm ! ?w AND push_bit ?b (NOT 0)"
    have ix: "?w < length (bm_words bm)" using bm_index [OF ok, of i'] False by simp
    from scan_up_spec [OF ix, of ?v] obtain r where r: "scan_up (bm_words bm) ?w ?v = Some r"
      "is_min (word_bits ?w ?v \<union> {j \<in> vec_bits (bm_words bm). ?w < j div 64}) r" by blast
    have "bm_find_ge bm i = Some r"
      using False ix r(1) by (simp add: bm_find_ge_def i'_def Let_def vec_at_in)
    moreover have "word_bits ?w ?v \<union> {j \<in> vec_bits (bm_words bm). ?w < j div 64}
        = {j \<in> bm_bits bm. i' \<le> j}"
      using ix unfolding le_by_blocks [of i']
      by (auto simp: word_bits_def vec_bits_def bm_bits_def bit_and_iff bit_mask_iff bit_not_iff)
    ultimately show ?thesis using r(2) set_eq by simp
  qed
qed

section \<open>The interface the book relies on\<close>

text \<open>
  What a price book asks of its occupancy index: setting and clearing a level, and the
  two scans.  The lemma the book needs is proved from the contract alone: once the best
  level has emptied, clearing its bit and scanning past it yields the next best level.
\<close>

locale level_index =
  fixes mark :: "'m \<Rightarrow> nat \<Rightarrow> 'm option"
    and unmark :: "'m \<Rightarrow> nat \<Rightarrow> 'm option"
    and next_le :: "'m \<Rightarrow> int \<Rightarrow> int option"
    and next_ge :: "'m \<Rightarrow> int \<Rightarrow> int option"
    and occupied :: "'m \<Rightarrow> nat set"
    and size_of :: "'m \<Rightarrow> nat"
    and ok :: "'m \<Rightarrow> bool"
  assumes mark: "ok m \<Longrightarrow> i < size_of m \<Longrightarrow>
      \<exists>m'. mark m i = Some m' \<and> ok m' \<and> size_of m' = size_of m \<and> occupied m' = insert i (occupied m)"
    and unmark: "ok m \<Longrightarrow> i < size_of m \<Longrightarrow>
      \<exists>m'. unmark m i = Some m' \<and> ok m' \<and> size_of m' = size_of m \<and> occupied m' = occupied m - {i}"
    and next_le: "ok m \<Longrightarrow> b < 0 \<or> 0 < size_of m \<Longrightarrow>
      \<exists>r. next_le m b = Some r \<and> is_max {j \<in> occupied m. int j \<le> b} r"
    and next_ge: "ok m \<Longrightarrow> \<exists>r. next_ge m b = Some r \<and> is_min {j \<in> occupied m. b \<le> int j} r"
begin

lemma retire_highest:
  assumes "ok m" "i < size_of m" "\<forall>j\<in>occupied m. j \<le> i"
  shows "\<exists>m' r. unmark m i = Some m' \<and> next_le m' (int i - 1) = Some r \<and> ok m' \<and>
    size_of m' = size_of m \<and> occupied m' = occupied m - {i} \<and> is_max (occupied m') r"
proof -
  from unmark [OF assms(1,2)] obtain m' where m': "unmark m i = Some m'" "ok m'"
    "size_of m' = size_of m" "occupied m' = occupied m - {i}" by blast
  have "int i - 1 < 0 \<or> 0 < size_of m'" using assms(2) m'(3) by simp
  from next_le [OF m'(2) this] obtain r where
    r: "next_le m' (int i - 1) = Some r" "is_max {j \<in> occupied m'. int j \<le> int i - 1} r" by blast
  have "{j \<in> occupied m'. int j \<le> int i - 1} = occupied m'"
    using assms(3) m'(4) by (auto simp: le_less)
  with m' r show ?thesis by auto
qed

lemma retire_lowest:
  assumes "ok m" "i < size_of m" "\<forall>j\<in>occupied m. i \<le> j"
  shows "\<exists>m' r. unmark m i = Some m' \<and> next_ge m' (int i + 1) = Some r \<and> ok m' \<and>
    size_of m' = size_of m \<and> occupied m' = occupied m - {i} \<and> is_min (occupied m') r"
proof -
  from unmark [OF assms(1,2)] obtain m' where m': "unmark m i = Some m'" "ok m'"
    "size_of m' = size_of m" "occupied m' = occupied m - {i}" by blast
  from next_ge [OF m'(2)] obtain r where
    r: "next_ge m' (int i + 1) = Some r" "is_min {j \<in> occupied m'. int i + 1 \<le> int j} r" by blast
  have "{j \<in> occupied m'. int i + 1 \<le> int j} = occupied m'"
    using assms(3) m'(4) by (auto simp: le_less)
  with m' r show ?thesis by auto
qed

end

interpretation bm: level_index bm_set bm_clear bm_find_le bm_find_ge bm_bits bm_n bm_ok
  by unfold_locales (fact bm_set_spec bm_clear_spec bm_find_le_spec bm_find_ge_spec)+

section \<open>Histories\<close>

text \<open>A history of updates, \<open>True\<close> for a set and \<open>False\<close> for a clear, and the set it leaves.\<close>

fun bm_history :: "(bool \<times> nat) list \<Rightarrow> level_bitmap \<Rightarrow> level_bitmap option" where
  "bm_history [] bm = Some bm"
| "bm_history ((b, i) # ops) bm = do {
     bm' \<leftarrow> (if b then bm_set bm i else bm_clear bm i);
     bm_history ops bm' }"

definition marked :: "(bool \<times> nat) list \<Rightarrow> nat set" where
  "marked ops = foldl (\<lambda>S (b, i). if b then insert i S else S - {i}) {} ops"

lemma bm_history_spec:
  assumes "bm_ok bm" "\<forall>(b, i)\<in>set ops. i < bm_n bm"
  shows "\<exists>bm'. bm_history ops bm = Some bm' \<and> bm_ok bm' \<and> bm_n bm' = bm_n bm \<and>
    bm_bits bm' = foldl (\<lambda>S (b, i). if b then insert i S else S - {i}) (bm_bits bm) ops"
  using assms
proof (induction ops arbitrary: bm)
  case (Cons x ops)
  obtain b i where x: "x = (b, i)" by (cases x)
  from Cons.prems x have i: "i < bm_n bm" by simp
  obtain bm1 where bm1: "(if b then bm_set bm i else bm_clear bm i) = Some bm1" "bm_ok bm1"
    "bm_n bm1 = bm_n bm" "bm_bits bm1 = (if b then insert i (bm_bits bm) else bm_bits bm - {i})"
    using bm.mark [OF Cons.prems(1) i] bm.unmark [OF Cons.prems(1) i] by (cases b) auto
  with Cons.IH [of bm1] Cons.prems(2) x show ?case by auto
qed simp

text \<open>C14. Starting from an empty bitmap over \<open>n\<close> levels, any history of in-range \<^verbatim>\<open>set\<close> and
  \<^verbatim>\<open>clear\<close> calls stays inside the word vector; afterwards \<^verbatim>\<open>test\<close> answers membership in
  the set of marked levels, and \<^verbatim>\<open>find_le\<close> and \<^verbatim>\<open>find_ge\<close> return, for every start index
  (negative and past the end included), the highest marked level at or below it and the
  lowest at or above it, -1 when there is none.\<close>

theorem level_bitmap_correct:
  assumes "0 < n" "n < 2 ^ 63" "\<forall>(b, i)\<in>set ops. i < n"
  shows "\<exists>bm. bm_history ops (bm_new n) = Some bm \<and>
    (\<forall>i<n. bm_test bm i = Some (i \<in> marked ops)) \<and>
    (\<forall>i. \<exists>r. bm_find_le bm i = Some r \<and> is_max {j \<in> marked ops. int j \<le> i} r) \<and>
    (\<forall>i. \<exists>r. bm_find_ge bm i = Some r \<and> is_min {j \<in> marked ops. i \<le> int j} r)"
proof -
  obtain bm where bm: "bm_history ops (bm_new n) = Some bm" "bm_ok bm" "bm_n bm = n"
    "bm_bits bm = marked ops"
    using bm_history_spec [OF bm_ok_new [OF assms(2)], of ops] assms(3) by (auto simp: marked_def)
  with bm.next_le [OF bm(2)] bm.next_ge [OF bm(2)] bm_test_spec [OF bm(2)] assms(1) show ?thesis
    by auto
qed

theorem level_bitmap_correct_witness:
  "\<exists>bm. bm_history [(True, 3), (True, 70), (True, 130), (False, 70)] (bm_new 200) = Some bm \<and>
    bm_find_le bm 129 = Some 3 \<and> bm_find_ge bm 4 = Some 130"
proof -
  let ?ops = "[(True, 3), (True, 70), (True, 130), (False, 70)] :: (bool \<times> nat) list"
  have S: "marked ?ops = {3, 130}" by (auto simp: marked_def)
  have sets: "{j \<in> {3, 130 :: nat}. int j \<le> 129} = {3}" "{j \<in> {3, 130 :: nat}. 4 \<le> int j} = {130}"
    by auto
  from level_bitmap_correct [of 200 ?ops] obtain bm where
    bm: "bm_history ?ops (bm_new 200) = Some bm"
      "\<forall>i. \<exists>r. bm_find_le bm i = Some r \<and> is_max {j \<in> {3, 130}. int j \<le> i} r"
      "\<forall>i. \<exists>r. bm_find_ge bm i = Some r \<and> is_min {j \<in> {3, 130}. i \<le> int j} r"
    by (auto simp: S)
  obtain r q where "bm_find_le bm 129 = Some r" "is_max {3} r" "bm_find_ge bm 4 = Some q" "is_min {130} q"
    using spec [OF bm(2), of 129] spec [OF bm(3), of 4] unfolding sets by blast
  with bm(1) show ?thesis by (auto simp: is_max_def is_min_def)
qed

end
