(* ===== verification/Order_Pool.thy ===== *)
theory Order_Pool
  imports Matchbook_Prelude
begin

text \<open>
  \<^verbatim>\<open>include/matchbook/pool.hpp\<close>: the chunked object pool.  A slot is named by its
  position in the concatenation of the chunks, so the address of element \<open>k\<close> of chunk
  \<open>c\<close> is \<open>c * ChunkSize + k\<close>; the free list is the vector \<^verbatim>\<open>free_\<close>, whose back
  is the last element.  \<open>ChunkSize\<close> is a field because it is a template parameter.
\<close>

section \<open>Definitions\<close>

record pool =
  pl_chunk_size :: nat
  pl_chunks :: nat
  pl_free :: "nat list"

definition pool_capacity :: "pool \<Rightarrow> nat" where
  "pool_capacity p = pl_chunks p * pl_chunk_size p"

definition pool_in_use :: "pool \<Rightarrow> nat" where
  "pool_in_use p = pool_capacity p - length (pl_free p)"

definition pool_grow :: "pool \<Rightarrow> pool" where
  "pool_grow p =
     (let base = pool_capacity p
      in p\<lparr>pl_free := pl_free p @ rev [base ..< base + pl_chunk_size p],
           pl_chunks := pl_chunks p + 1\<rparr>)"

partial_function (option) pool_reserve :: "nat \<Rightarrow> pool \<Rightarrow> pool option" where
  "pool_reserve n p = (if pool_capacity p < n then pool_reserve n (pool_grow p) else Some p)"

declare pool_reserve.simps [code]

definition pool_new :: "nat \<Rightarrow> nat \<Rightarrow> pool option" where
  "pool_new chunk_size initial_capacity =
     pool_reserve initial_capacity \<lparr>pl_chunk_size = chunk_size, pl_chunks = 0, pl_free = []\<rparr>"

definition pool_alloc :: "pool \<Rightarrow> (nat \<times> pool) option" where
  "pool_alloc p =
     (let p1 = (if pl_free p = [] then pool_grow p else p)
      in if pl_free p1 = [] then None
         else Some (last (pl_free p1), p1\<lparr>pl_free := butlast (pl_free p1)\<rparr>))"

definition pool_free :: "nat \<Rightarrow> pool \<Rightarrow> pool" where
  "pool_free a p = p\<lparr>pl_free := pl_free p @ [a]\<rparr>"

section \<open>The slots in use\<close>

definition pool_live :: "pool \<Rightarrow> nat set" where
  "pool_live p = {..<pool_capacity p} - set (pl_free p)"

definition pool_ok :: "pool \<Rightarrow> bool" where
  "pool_ok p \<longleftrightarrow> 0 < pl_chunk_size p \<and> distinct (pl_free p) \<and> set (pl_free p) \<subseteq> {..<pool_capacity p}"

lemma pool_capacity_grow [simp]:
  "pool_capacity (pool_grow p) = pool_capacity p + pl_chunk_size p"
  by (simp add: pool_capacity_def pool_grow_def Let_def)

lemma pl_free_grow:
  "pl_free (pool_grow p) = pl_free p @ rev [pool_capacity p ..< pool_capacity p + pl_chunk_size p]"
  by (simp add: pool_grow_def Let_def)

lemma pl_chunk_size_grow [simp]: "pl_chunk_size (pool_grow p) = pl_chunk_size p"
  by (simp add: pool_grow_def Let_def)

lemma pool_ok_grow: "pool_ok p \<Longrightarrow> pool_ok (pool_grow p)"
  by (fastforce simp: pool_ok_def pl_free_grow)

lemma pool_live_grow [simp]: "pool_live (pool_grow p) = pool_live p"
  by (auto simp: pool_live_def pl_free_grow)

lemma pool_free_grow_nonempty: "pool_ok p \<Longrightarrow> pl_free (pool_grow p) \<noteq> []"
  by (simp add: pool_ok_def pl_free_grow)

lemma pool_in_use_card: "pool_ok p \<Longrightarrow> pool_in_use p = card (pool_live p)"
  by (simp add: pool_in_use_def pool_live_def pool_ok_def card_Diff_subset distinct_card)

lemma pool_reserve_returns:
  "pool_ok p \<Longrightarrow> \<exists>p'. pool_reserve n p = Some p' \<and> pool_ok p' \<and> pool_live p' = pool_live p
     \<and> n \<le> pool_capacity p'"
proof (induction "n - pool_capacity p" arbitrary: p rule: less_induct)
  case less
  show ?case
  proof (cases "pool_capacity p < n")
    case True
    have "n - pool_capacity (pool_grow p) < n - pool_capacity p"
      using True less.prems by (simp add: pool_ok_def diff_less_mono2)
    from less.hyps [OF this pool_ok_grow [OF less.prems]] True show ?thesis
      by (simp add: pool_reserve.simps [of n p])
  next
    case False
    with less.prems show ?thesis by (simp add: pool_reserve.simps [of n p])
  qed
qed

lemma pool_new_returns:
  assumes "0 < c"
  shows "\<exists>p. pool_new c n = Some p \<and> pool_ok p \<and> pool_live p = {} \<and> n \<le> pool_capacity p"
proof -
  let ?p = "\<lparr>pl_chunk_size = c, pl_chunks = 0, pl_free = []\<rparr>"
  have "pool_ok ?p" "pool_live ?p = {}"
    using assms by (simp_all add: pool_ok_def pool_live_def pool_capacity_def)
  with pool_reserve_returns [of ?p n] show ?thesis by (simp add: pool_new_def)
qed

lemma pool_alloc_spec:
  assumes "pool_ok p"
  shows "\<exists>a p'. pool_alloc p = Some (a, p') \<and> pool_ok p' \<and> a \<notin> pool_live p \<and>
    pool_live p' = insert a (pool_live p)"
proof -
  define p1 where "p1 = (if pl_free p = [] then pool_grow p else p)"
  have p1: "pool_ok p1" "pool_live p1 = pool_live p" "pl_free p1 \<noteq> []"
    using assms by (auto simp: p1_def pool_ok_grow pool_free_grow_nonempty)
  let ?a = "last (pl_free p1)" and ?p' = "p1\<lparr>pl_free := butlast (pl_free p1)\<rparr>"
  have split: "pl_free p1 = butlast (pl_free p1) @ [?a]" using p1(3) by simp
  have cap: "pool_capacity ?p' = pool_capacity p1" by (simp add: pool_capacity_def)
  have dist: "distinct (butlast (pl_free p1) @ [?a])"
    "set (butlast (pl_free p1) @ [?a]) \<subseteq> {..<pool_capacity p1}" "0 < pl_chunk_size p1"
    using p1(1) unfolding split [symmetric] by (auto simp: pool_ok_def)
  have "pool_alloc p = Some (?a, ?p')"
    using p1(3) by (simp add: pool_alloc_def p1_def Let_def)
  moreover have "pool_ok ?p'"
    using dist by (simp add: pool_ok_def cap)
  moreover have "?a \<notin> pool_live p1" using p1(3) by (simp add: pool_live_def)
  moreover have "pool_live ?p' = insert ?a (pool_live p1)"
  proof -
    have "pool_live p1 = {..<pool_capacity p1} - set (butlast (pl_free p1) @ [?a])"
      unfolding pool_live_def using split by simp
    moreover have "pool_live ?p' = {..<pool_capacity p1} - set (butlast (pl_free p1))"
      by (simp add: pool_live_def cap)
    ultimately show ?thesis using dist by auto
  qed
  ultimately show ?thesis using p1(2) by auto
qed

lemma pool_free_spec:
  "pool_ok p \<Longrightarrow> a \<in> pool_live p \<Longrightarrow>
   pool_ok (pool_free a p) \<and> pool_live (pool_free a p) = pool_live p - {a}"
  by (auto simp: pool_ok_def pool_live_def pool_free_def pool_capacity_def)

lemma pool_live_finite: "pool_ok p \<Longrightarrow> finite (pool_live p)"
  by (simp add: pool_live_def)

section \<open>The interface the order store relies on\<close>

locale node_pool =
  fixes alloc :: "'p \<Rightarrow> ('a \<times> 'p) option"
    and dealloc :: "'a \<Rightarrow> 'p \<Rightarrow> 'p"
    and in_use :: "'p \<Rightarrow> nat"
    and live :: "'p \<Rightarrow> 'a set"
    and ok :: "'p \<Rightarrow> bool"
  assumes alloc: "ok p \<Longrightarrow> \<exists>a p'. alloc p = Some (a, p') \<and> ok p' \<and> a \<notin> live p \<and>
      live p' = insert a (live p)"
    and dealloc: "ok p \<Longrightarrow> a \<in> live p \<Longrightarrow> ok (dealloc a p) \<and> live (dealloc a p) = live p - {a}"
    and in_use: "ok p \<Longrightarrow> in_use p = card (live p)"
    and finite_live: "ok p \<Longrightarrow> finite (live p)"
begin

lemma alloc_counts:
  assumes "ok p" "alloc p = Some (a, p')"
  shows "in_use p' = Suc (in_use p)"
proof -
  from alloc [OF assms(1)] assms(2) have p': "ok p'" "a \<notin> live p" "live p' = insert a (live p)"
    by auto
  with in_use [OF assms(1)] in_use [OF p'(1)] finite_live [OF assms(1)] show ?thesis by simp
qed

lemma dealloc_counts:
  assumes "ok p" "a \<in> live p"
  shows "in_use p = Suc (in_use (dealloc a p))"
proof -
  have "card (live p) = Suc (card (live p - {a}))"
    by (rule card.remove [OF finite_live [OF assms(1)] assms(2)])
  moreover have "in_use (dealloc a p) = card (live p - {a})"
    using dealloc [OF assms] in_use [of "dealloc a p"] by metis
  ultimately show ?thesis using in_use [OF assms(1)] by linarith
qed

lemma alloc_dealloc:
  assumes "ok p" "alloc p = Some (a, p')"
  shows "live (dealloc a p') = live p"
proof -
  from alloc [OF assms(1)] assms(2) have p': "ok p'" "a \<notin> live p" "live p' = insert a (live p)"
    by auto
  with dealloc [of p' a] show ?thesis by simp
qed

end

interpretation pool: node_pool pool_alloc pool_free pool_in_use pool_live pool_ok
  by unfold_locales
     (fact pool_alloc_spec pool_free_spec pool_in_use_card pool_live_finite)+

section \<open>Histories\<close>

text \<open>
  A client's use of a pool: an allocation, or the return of the element it got from the
  allocation named by its number.
\<close>

datatype pool_call = Alloc | Free nat

fun pool_history :: "pool_call list \<Rightarrow> nat option list \<Rightarrow> pool \<Rightarrow> (nat option list \<times> pool) option" where
  "pool_history [] held p = Some (held, p)"
| "pool_history (Alloc # cs) held p = do {
     (a, p') \<leftarrow> pool_alloc p;
     pool_history cs (held @ [Some a]) p' }"
| "pool_history (Free k # cs) held p =
     (case (if k < length held then held ! k else None) of
        None \<Rightarrow> pool_history cs held p
      | Some a \<Rightarrow> pool_history cs (held[k := None]) (pool_free a p))"

definition holding :: "nat option list \<Rightarrow> nat set" where
  "holding held = {a. Some a \<in> set held}"

definition held_distinct :: "nat option list \<Rightarrow> bool" where
  "held_distinct held \<longleftrightarrow> (\<forall>j k a. j < length held \<longrightarrow> k < length held \<longrightarrow> held ! j = Some a \<longrightarrow>
     held ! k = Some a \<longrightarrow> j = k)"

lemma holding_update:
  assumes "held_distinct held" "k < length held" "held ! k = Some a"
  shows "holding (held[k := None]) = holding held - {a}" "held_distinct (held[k := None])"
proof -
  show "holding (held[k := None]) = holding held - {a}"
  proof (intro set_eqI)
    fix b
    have "Some b \<in> set (held[k := None]) \<longleftrightarrow> (\<exists>j<length held. j \<noteq> k \<and> held ! j = Some b)"
      unfolding in_set_conv_nth
      by (metis length_list_update nth_list_update_eq nth_list_update_neq option.distinct(1))
    also have "\<dots> \<longleftrightarrow> Some b \<in> set held \<and> b \<noteq> a"
      using assms unfolding held_distinct_def in_set_conv_nth by (metis option.inject)
    finally show "b \<in> holding (held[k := None]) \<longleftrightarrow> b \<in> holding held - {a}"
      by (simp add: holding_def)
  qed
  show "held_distinct (held[k := None])"
  proof -
    have "held ! j = Some b" if "j < length held" "held[k := None] ! j = Some b" for j b
      using that by (cases "j = k") auto
    with assms(1) show ?thesis unfolding held_distinct_def by (metis length_list_update)
  qed
qed

lemma pool_history_spec:
  assumes "pool_ok p" "pool_live p = holding held" "held_distinct held"
  shows "\<exists>held' p'. pool_history cs held p = Some (held', p') \<and> pool_ok p' \<and>
    pool_live p' = holding held' \<and> held_distinct held'"
  using assms
proof (induction cs held p rule: pool_history.induct)
  case (2 cs held p)
  from pool.alloc [OF 2(2)] obtain a p' where
    a: "pool_alloc p = Some (a, p')" "pool_ok p'" "a \<notin> pool_live p" "pool_live p' = insert a (pool_live p)"
    by blast
  have "held_distinct (held @ [Some a])" "pool_live p' = holding (held @ [Some a])"
    using a(3,4) 2(3,4) unfolding held_distinct_def holding_def in_set_conv_nth
    by (auto simp: nth_append less_Suc_eq split: if_splits)
  with 2(1) [of "(a, p')" a p'] a show ?case by auto
next
  case (3 k cs held p)
  show ?case
  proof (cases "if k < length held then held ! k else None")
    case None
    with 3 show ?thesis by simp
  next
    case (Some a)
    then have k: "k < length held" "held ! k = Some a" by (auto split: if_splits)
    then have "a \<in> pool_live p" using 3(4) by (auto simp: holding_def in_set_conv_nth)
    from pool.dealloc [OF 3(3) this] holding_update [OF 3(5) k] 3(4) 3(2) [OF Some] Some
    show ?thesis by simp
  qed
qed auto

text \<open>C13. A client that allocates and returns elements of the pool in any order, giving back
  each element at most once, always gets an element (growing the pool when the free list
  is empty), never gets one it still holds, and finds \<^verbatim>\<open>in_use\<close> equal to the number of
  elements it holds.\<close>

theorem pool_never_aliases:
  assumes "0 < chunk_size"
  shows "\<exists>p held p'. pool_new chunk_size initial = Some p \<and> pool_history cs [] p = Some (held, p') \<and>
    held_distinct held \<and> pool_in_use p' = card (holding held) \<and>
    (\<exists>a p''. pool_alloc p' = Some (a, p'') \<and> a \<notin> holding held)"
proof -
  obtain p where p: "pool_new chunk_size initial = Some p" "pool_ok p" "pool_live p = {}"
    using pool_new_returns [OF assms] by blast
  with pool_history_spec [of p "[]" cs] obtain held p' where
    h: "pool_history cs [] p = Some (held, p')" "pool_ok p'" "pool_live p' = holding held" "held_distinct held"
    by (auto simp: holding_def held_distinct_def)
  with pool.alloc [OF h(2)] pool.in_use [OF h(2)] p show ?thesis by auto
qed

theorem pool_never_aliases_witness:
  "\<exists>p held p'. pool_new 2 1 = Some p \<and> pool_history [Alloc, Alloc, Free 0, Alloc, Alloc] [] p = Some (held, p') \<and>
    held_distinct held \<and> pool_in_use p' = card (holding held)"
  using pool_never_aliases [of 2 1 "[Alloc, Alloc, Free 0, Alloc, Alloc]"] by auto

end
