(* ===== verification/Order_Store.thy ===== *)
theory Order_Store
  imports Order_Pool
begin

text \<open>
  The order nodes of \<^verbatim>\<open>matching_engine.hpp\<close> and where they live: the node pool, the
  side table of cold state (\<^verbatim>\<open>extras_\<close> with its free list) and the oid map
  (\<^verbatim>\<open>orders_\<close>).  An order is registered under its oid for exactly as long as its node
  is alive, so a node pointer is represented by the oid it is registered under, and
  \<open>st_orders\<close> holds the node contents directly: every alias of a node (the list links
  of its level, the oid map) reads and writes the same place.  The \<open>prev\<close> and \<open>next\<close>
  links are not fields here; a level holds its chain as the list of ids.
\<close>

section \<open>Nodes\<close>

record order =
  o_id :: OrderId
  o_price :: Price
  o_qty :: Qty
  o_ext :: "nat option"
  o_owner :: OwnerId
  o_side :: Side
  o_flags :: "8 word"
  o_addr :: nat

record extra =
  x_reserve :: Qty
  x_peak :: Qty
  x_limit :: Price

definition extra_zero :: extra where
  "extra_zero = \<lparr>x_reserve = 0, x_peak = 0, x_limit = 0\<rparr>"

definition kStpMask :: "8 word" where "kStpMask = 3"
definition kIceberg :: "8 word" where "kIceberg = 4"
definition kStopPending :: "8 word" where "kStopPending = 8"
definition kStopMarket :: "8 word" where "kStopMarket = 16"

definition flag :: "order \<Rightarrow> 8 word \<Rightarrow> bool" where
  "flag ord b \<longleftrightarrow> o_flags ord AND b \<noteq> 0"

definition o_stp :: "order \<Rightarrow> StpPolicy" where
  "o_stp ord =
     (let c = o_flags ord AND kStpMask
      in if c = 0 then CancelTaker else if c = 1 then CancelMaker else CancelBoth)"

section \<open>The store and its operations\<close>

record store =
  st_orders :: "order option list"
  st_extras :: "extra list"
  st_extra_free :: "nat list"
  st_pool :: pool

definition lookup :: "store \<Rightarrow> OrderId \<Rightarrow> order option" where
  "lookup st oid = (if oid < length (st_orders st) then st_orders st ! oid else None)"

definition next_id :: "store \<Rightarrow> OrderId \<times> store" where
  "next_id st = (let os = st_orders st @ [None] in (length os - 1, st\<lparr>st_orders := os\<rparr>))"

definition alloc_extra :: "store \<Rightarrow> nat \<times> store" where
  "alloc_extra st =
     (if st_extra_free st = []
      then (length (st_extras st), st\<lparr>st_extras := st_extras st @ [extra_zero]\<rparr>)
      else (last (st_extra_free st), st\<lparr>st_extra_free := butlast (st_extra_free st)\<rparr>))"

text \<open>Return a node and its side state to the pools.\<close>

definition release :: "store \<Rightarrow> order \<Rightarrow> store option" where
  "release st ord = do {
     st1 \<leftarrow> (case o_ext ord of
         None \<Rightarrow> Some st
       | Some x \<Rightarrow> do {
           xs \<leftarrow> vec_set (st_extras st) x extra_zero;
           Some (st\<lparr>st_extras := xs, st_extra_free := st_extra_free st @ [x]\<rparr>) });
     Some (st1\<lparr>st_pool := pool_free (o_addr ord) (st_pool st1)\<rparr>) }"

text \<open>
  \<^verbatim>\<open>orders_[id] = nullptr; release(o)\<close>, the pair every removal ends with.
\<close>

definition drop_node :: "store \<Rightarrow> OrderId \<Rightarrow> store option" where
  "drop_node st oid = do {
     ord \<leftarrow> lookup st oid;
     os \<leftarrow> vec_set (st_orders st) oid None;
     release (st\<lparr>st_orders := os\<rparr>) ord }"

text \<open>
  Allocate a node, give it a side-table slot when it needs one (the assignments to the
  slot's fields are the function \<open>upd\<close>), fill it and register it under its oid.
\<close>

definition insert_node :: "store \<Rightarrow> order \<Rightarrow> (extra \<Rightarrow> extra) option \<Rightarrow> store option" where
  "insert_node st ord ex = do {
     (a, pl) \<leftarrow> pool_alloc (st_pool st);
     let st1 = st\<lparr>st_pool := pl\<rparr>;
     (ext, st2) \<leftarrow> (case ex of
         None \<Rightarrow> Some (None, st1)
       | Some upd \<Rightarrow> do {
           let (x, st') = alloc_extra st1;
           old \<leftarrow> vec_at (st_extras st') x;
           xs \<leftarrow> vec_set (st_extras st') x (upd old);
           Some (Some x, st'\<lparr>st_extras := xs\<rparr>) });
     os \<leftarrow> vec_set (st_orders st2) (o_id ord) (Some (ord\<lparr>o_ext := ext, o_addr := a\<rparr>));
     Some (st2\<lparr>st_orders := os\<rparr>) }"

definition set_qty :: "store \<Rightarrow> OrderId \<Rightarrow> Qty \<Rightarrow> store option" where
  "set_qty st oid q = do {
     ord \<leftarrow> lookup st oid;
     os \<leftarrow> vec_set (st_orders st) oid (Some (ord\<lparr>o_qty := q\<rparr>));
     Some (st\<lparr>st_orders := os\<rparr>) }"

definition extra_of :: "store \<Rightarrow> order \<Rightarrow> extra option" where
  "extra_of st ord = do { x \<leftarrow> o_ext ord; vec_at (st_extras st) x }"

definition set_reserve :: "store \<Rightarrow> order \<Rightarrow> Qty \<Rightarrow> store option" where
  "set_reserve st ord r = do {
     x \<leftarrow> o_ext ord;
     old \<leftarrow> vec_at (st_extras st) x;
     xs \<leftarrow> vec_set (st_extras st) x (old\<lparr>x_reserve := r\<rparr>);
     Some (st\<lparr>st_extras := xs\<rparr>) }"

definition store_new :: "nat \<Rightarrow> nat \<Rightarrow> store option" where
  "store_new chunk_size expected_orders = do {
     pl \<leftarrow> pool_new chunk_size expected_orders;
     Some \<lparr>st_orders = [None], st_extras = [], st_extra_free = [], st_pool = pl\<rparr> }"

section \<open>The logical order behind a node\<close>

text \<open>
  What the rest of the engine needs to know of an order, with the side-table fields read
  through: the shape of the naive model's order in \<^verbatim>\<open>tests/reference_engine.hpp\<close>.
\<close>

record ro =
  r_id :: OrderId
  r_side :: Side
  r_price :: Price
  r_qty :: Qty
  r_reserve :: Qty
  r_peak :: Qty
  r_owner :: OwnerId
  r_stp :: StpPolicy
  r_stop :: bool
  r_market :: bool
  r_limit :: Price

definition ro_make :: "order \<Rightarrow> extra \<Rightarrow> ro" where
  "ro_make ord x =
     (let ice = flag ord kIceberg; stop = flag ord kStopPending; mkt = flag ord kStopMarket
      in \<lparr>r_id = o_id ord, r_side = o_side ord, r_price = o_price ord, r_qty = o_qty ord,
          r_reserve = (if ice then x_reserve x else 0), r_peak = (if ice then x_peak x else 0),
          r_owner = o_owner ord, r_stp = o_stp ord, r_stop = stop, r_market = mkt,
          r_limit = (if stop \<and> \<not> mkt then x_limit x else 0)\<rparr>)"

definition slot_of :: "extra list \<Rightarrow> order \<Rightarrow> extra" where
  "slot_of xs ord = (case o_ext ord of None \<Rightarrow> extra_zero | Some k \<Rightarrow> xs ! k)"

definition ro_of :: "extra list \<Rightarrow> order \<Rightarrow> ro" where
  "ro_of xs ord = ro_make ord (slot_of xs ord)"

definition view :: "store \<Rightarrow> OrderId \<Rightarrow> ro option" where
  "view st oid = map_option (ro_of (st_extras st)) (lookup st oid)"

text \<open>A node's address and its side-table slot belong to it alone.\<close>

definition node_ok :: "store \<Rightarrow> OrderId \<Rightarrow> order \<Rightarrow> bool" where
  "node_ok st oid ord \<longleftrightarrow> o_id ord = oid \<and>
     (flag ord kIceberg \<longrightarrow> o_ext ord \<noteq> None) \<and>
     (flag ord kStopPending \<and> \<not> flag ord kStopMarket \<longrightarrow> o_ext ord \<noteq> None) \<and>
     (\<forall>x. o_ext ord = Some x \<longrightarrow> x < length (st_extras st) \<and> x \<notin> set (st_extra_free st))"

definition exclusive :: "(OrderId \<Rightarrow> order option) \<Rightarrow> bool" where
  "exclusive lk \<longleftrightarrow> (\<forall>i j a b. lk i = Some a \<longrightarrow> lk j = Some b \<longrightarrow> i \<noteq> j \<longrightarrow>
     o_addr a \<noteq> o_addr b \<and> (o_ext a = None \<or> o_ext a \<noteq> o_ext b))"

definition node_addrs :: "(OrderId \<Rightarrow> order option) \<Rightarrow> nat set" where
  "node_addrs lk = {a. \<exists>i ord. lk i = Some ord \<and> o_addr ord = a}"

definition free_slots_ok :: "store \<Rightarrow> bool" where
  "free_slots_ok st \<longleftrightarrow> distinct (st_extra_free st) \<and>
     (\<forall>x\<in>set (st_extra_free st). x < length (st_extras st) \<and> st_extras st ! x = extra_zero)"

definition store_ok :: "store \<Rightarrow> bool" where
  "store_ok st \<longleftrightarrow> pool_ok (st_pool st) \<and> st_orders st \<noteq> [] \<and> lookup st 0 = None \<and>
     (\<forall>i ord. lookup st i = Some ord \<longrightarrow> node_ok st i ord) \<and> exclusive (lookup st) \<and>
     pool_live (st_pool st) = node_addrs (lookup st) \<and> free_slots_ok st"

section \<open>Laws of the operations\<close>

lemma store_okD:
  assumes "store_ok st"
  shows "pool_ok (st_pool st)" "st_orders st \<noteq> []" "lookup st 0 = None"
    "\<And>i ord. lookup st i = Some ord \<Longrightarrow> node_ok st i ord" "exclusive (lookup st)"
    "pool_live (st_pool st) = node_addrs (lookup st)" "free_slots_ok st"
  using assms by (simp_all add: store_ok_def)

lemma store_okI:
  assumes "pool_ok (st_pool st)" "st_orders st \<noteq> []" "lookup st 0 = None"
    "\<And>i ord. lookup st i = Some ord \<Longrightarrow> node_ok st i ord" "exclusive (lookup st)"
    "pool_live (st_pool st) = node_addrs (lookup st)" "free_slots_ok st"
  shows "store_ok st"
  using assms by (simp add: store_ok_def)

lemma exclusiveD:
  "exclusive lk \<Longrightarrow> lk i = Some a \<Longrightarrow> lk j = Some b \<Longrightarrow> i \<noteq> j \<Longrightarrow> o_addr a \<noteq> o_addr b"
  "exclusive lk \<Longrightarrow> lk i = Some a \<Longrightarrow> lk j = Some b \<Longrightarrow> i \<noteq> j \<Longrightarrow> o_ext a = Some x \<Longrightarrow> o_ext b \<noteq> Some x"
  unfolding exclusive_def by (blast, metis option.distinct(1))

lemma exclusive_replace:
  assumes "exclusive lk" "lk i = Some a" "o_addr b = o_addr a" "o_ext b = o_ext a"
  shows "exclusive (lk(i \<mapsto> b))"
  unfolding exclusive_def
proof (intro allI impI)
  fix j k c d
  assume h: "(lk(i \<mapsto> b)) j = Some c" "(lk(i \<mapsto> b)) k = Some d" "j \<noteq> k"
  then obtain c' d' where "lk j = Some c'" "o_addr c' = o_addr c" "o_ext c' = o_ext c"
    "lk k = Some d'" "o_addr d' = o_addr d" "o_ext d' = o_ext d"
    using assms by (auto split: if_splits)
  with assms(1) h(3) show "o_addr c \<noteq> o_addr d \<and> (o_ext c = None \<or> o_ext c \<noteq> o_ext d)"
    unfolding exclusive_def by metis
qed

lemma exclusive_remove: "exclusive lk \<Longrightarrow> exclusive (lk(i := None))"
  by (simp add: exclusive_def)

lemma exclusive_add:
  assumes "exclusive lk" "o_addr b \<notin> node_addrs lk"
    "\<And>j a x. lk j = Some a \<Longrightarrow> o_ext b = Some x \<Longrightarrow> o_ext a \<noteq> Some x"
  shows "exclusive (lk(i \<mapsto> b))"
  unfolding exclusive_def
proof (intro allI impI)
  fix j k c d
  assume h: "(lk(i \<mapsto> b)) j = Some c" "(lk(i \<mapsto> b)) k = Some d" "j \<noteq> k"
  have fresh: "o_addr b \<noteq> o_addr a \<and> (o_ext b = None \<or> o_ext b \<noteq> o_ext a)" if "lk m = Some a" for m a
    using assms(2,3) that unfolding node_addrs_def by (cases "o_ext b") fastforce+
  show "o_addr c \<noteq> o_addr d \<and> (o_ext c = None \<or> o_ext c \<noteq> o_ext d)"
  proof (cases "j = i \<or> k = i")
    case True
    then consider "j = i" "c = b" "lk k = Some d" | "k = i" "d = b" "lk j = Some c"
      using h by (auto split: if_splits)
    then show ?thesis using fresh by cases metis+
  next
    case False
    then have "lk j = Some c" "lk k = Some d" using h by auto
    with assms(1) h(3) show ?thesis unfolding exclusive_def by blast
  qed
qed

lemma node_addrs_replace:
  assumes "lk i = Some a" "o_addr b = o_addr a"
  shows "node_addrs (lk(i \<mapsto> b)) = node_addrs lk"
proof (intro set_eqI iffI)
  fix x assume "x \<in> node_addrs (lk(i \<mapsto> b))"
  with assms show "x \<in> node_addrs lk" by (auto simp: node_addrs_def split: if_splits)
next
  fix x assume "x \<in> node_addrs lk"
  then obtain j c where "lk j = Some c" "o_addr c = x" by (auto simp: node_addrs_def)
  then show "x \<in> node_addrs (lk(i \<mapsto> b))"
    using assms by (cases "j = i") (auto simp: node_addrs_def)
qed

lemma node_addrs_add: "lk i = None \<Longrightarrow> node_addrs (lk(i \<mapsto> b)) = insert (o_addr b) (node_addrs lk)"
  by (auto simp: node_addrs_def split: if_splits) (metis option.distinct(1))

lemma node_addrs_remove:
  assumes "exclusive lk" "lk i = Some a"
  shows "node_addrs (lk(i := None)) = node_addrs lk - {o_addr a}"
proof (intro set_eqI iffI)
  fix x assume "x \<in> node_addrs (lk(i := None))"
  then obtain j c where "lk j = Some c" "o_addr c = x" "j \<noteq> i"
    by (auto simp: node_addrs_def split: if_splits)
  with exclusiveD(1) [OF assms(1) \<open>lk j = Some c\<close> assms(2)] show "x \<in> node_addrs lk - {o_addr a}"
    by (auto simp: node_addrs_def)
next
  fix x assume "x \<in> node_addrs lk - {o_addr a}"
  then obtain j c where "lk j = Some c" "o_addr c = x" "x \<noteq> o_addr a" by (auto simp: node_addrs_def)
  then have "(lk(i := None)) j = Some c" using assms(2) by auto
  with \<open>o_addr c = x\<close> show "x \<in> node_addrs (lk(i := None))" unfolding node_addrs_def by blast
qed

lemma lookup_len: "lookup st i = Some ord \<Longrightarrow> i < length (st_orders st)"
  by (auto simp: lookup_def split: if_splits)

lemma view_len: "view st i = Some r \<Longrightarrow> i < length (st_orders st)"
  by (auto simp: view_def intro: lookup_len)

lemma view_lookup: "view st i = Some r \<longleftrightarrow> (\<exists>ord. lookup st i = Some ord \<and> r = ro_of (st_extras st) ord)"
  by (auto simp: view_def)

lemma view_None: "view st i = None \<longleftrightarrow> lookup st i = None"
  by (simp add: view_def)

lemma lookup_update_orders:
  "i < length (st_orders st) \<Longrightarrow>
   lookup (st\<lparr>st_orders := (st_orders st)[i := v]\<rparr>) = (lookup st)(i := v)"
  by (auto simp: lookup_def fun_eq_iff)

lemma lookup_other_fields [simp]:
  "lookup (st\<lparr>st_extras := xs\<rparr>) = lookup st"
  "lookup (st\<lparr>st_extra_free := fs\<rparr>) = lookup st"
  "lookup (st\<lparr>st_pool := pl\<rparr>) = lookup st"
  by (simp_all add: lookup_def fun_eq_iff)

text \<open>Node fields other than the address, the side-table slot and the flags are free.\<close>

lemma ro_make_fields [simp]:
  "r_id (ro_make ord x) = o_id ord" "r_side (ro_make ord x) = o_side ord"
  "r_price (ro_make ord x) = o_price ord" "r_qty (ro_make ord x) = o_qty ord"
  "r_owner (ro_make ord x) = o_owner ord" "r_stp (ro_make ord x) = o_stp ord"
  "r_stop (ro_make ord x) = flag ord kStopPending"
  "r_market (ro_make ord x) = flag ord kStopMarket"
  "r_reserve (ro_make ord x) = (if flag ord kIceberg then x_reserve x else 0)"
  "r_peak (ro_make ord x) = (if flag ord kIceberg then x_peak x else 0)"
  "r_limit (ro_make ord x) = (if flag ord kStopPending \<and> \<not> flag ord kStopMarket then x_limit x else 0)"
  by (simp_all add: ro_make_def Let_def)

lemma ro_make_qty: "ro_make (ord\<lparr>o_qty := q\<rparr>) x = (ro_make ord x)\<lparr>r_qty := q\<rparr>"
  by (simp add: ro_make_def flag_def o_stp_def Let_def)

lemma ro_make_reserve:
  "flag ord kIceberg \<Longrightarrow> ro_make ord (x\<lparr>x_reserve := q\<rparr>) = (ro_make ord x)\<lparr>r_reserve := q\<rparr>"
  by (simp add: ro_make_def Let_def)

lemma ro_make_addr: "ro_make (ord\<lparr>o_ext := e, o_addr := a\<rparr>) x = ro_make ord x"
  by (simp add: ro_make_def flag_def o_stp_def Let_def)

lemma slot_of_frame:
  "o_ext ord \<noteq> Some k \<Longrightarrow> slot_of (xs[k := v]) ord = slot_of xs ord"
  by (auto simp: slot_of_def split: option.splits)

lemma next_id_spec:
  assumes "store_ok st" "next_id st = (i, st')"
  shows "store_ok st'" "i = length (st_orders st)" "view st' = view st" "0 < i"
    "length (st_orders st') = Suc i" "view st i = None" "st_pool st' = st_pool st"
proof -
  from assms(2) have st': "i = length (st_orders st)" "st' = st\<lparr>st_orders := st_orders st @ [None]\<rparr>"
    by (auto simp: next_id_def Let_def)
  have lk: "lookup st' = lookup st" by (auto simp: st' lookup_def fun_eq_iff nth_append)
  then show "store_ok st'" using assms(1) by (simp add: store_ok_def st' node_ok_def free_slots_ok_def)
  show "view st' = view st" using lk by (simp add: view_def fun_eq_iff st')
  show "i = length (st_orders st)" "0 < i" "length (st_orders st') = Suc i" "view st i = None"
    "st_pool st' = st_pool st"
    using assms(1) by (auto simp: st' store_ok_def view_def lookup_def)
qed

lemma set_qty_spec:
  assumes ok: "store_ok st" and v: "view st i = Some r"
  shows "\<exists>st'. set_qty st i q = Some st' \<and> store_ok st' \<and> view st' = (view st)(i \<mapsto> r\<lparr>r_qty := q\<rparr>) \<and>
    length (st_orders st') = length (st_orders st) \<and> st_pool st' = st_pool st"
proof -
  from v obtain ord where l: "lookup st i = Some ord" "r = ro_of (st_extras st) ord"
    by (auto simp: view_lookup)
  note len = lookup_len [OF l(1)]
  define st' where "st' = st\<lparr>st_orders := (st_orders st)[i := Some (ord\<lparr>o_qty := q\<rparr>)]\<rparr>"
  have lk: "lookup st' = (lookup st)(i \<mapsto> ord\<lparr>o_qty := q\<rparr>)"
    using len by (simp add: st'_def lookup_update_orders)
  have flds: "st_pool st' = st_pool st" "st_extras st' = st_extras st"
    "st_extra_free st' = st_extra_free st" "st_orders st' \<noteq> []"
    using store_okD(2) [OF ok] by (simp_all add: st'_def)
  have "set_qty st i q = Some st'"
    using l len by (simp add: set_qty_def st'_def vec_set_in)
  moreover have "store_ok st'"
  proof (rule store_okI)
    fix j a assume "lookup st' j = Some a"
    then show "node_ok st' j a"
      using store_okD(4) [OF ok, of j] l by (auto simp: lk node_ok_def flds flag_def split: if_splits)
  next
    show "exclusive (lookup st')" unfolding lk
      by (rule exclusive_replace [OF store_okD(5) [OF ok] l(1)]) simp_all
    show "pool_live (st_pool st') = node_addrs (lookup st')"
      using store_okD(6) [OF ok] node_addrs_replace [of "lookup st" i ord] l(1) by (simp add: lk flds)
    show "lookup st' 0 = None" using store_okD(3) [OF ok] l(1) by (cases "i = 0") (auto simp: lk)
    show "free_slots_ok st'" using store_okD(7) [OF ok] by (simp add: free_slots_ok_def flds)
    show "pool_ok (st_pool st')" using store_okD(1) [OF ok] by (simp add: flds)
    show "st_orders st' \<noteq> []" by (fact flds(4))
  qed
  moreover have "view st' = (view st)(i \<mapsto> r\<lparr>r_qty := q\<rparr>)"
    by (auto simp: view_def fun_eq_iff lk flds l ro_of_def slot_of_def ro_make_qty)
  ultimately show ?thesis using flds(1) by (auto simp: st'_def)
qed

lemma extra_of_spec:
  assumes ok: "store_ok st" and l: "lookup st i = Some ord"
    and "flag ord kIceberg \<or> flag ord kStopPending \<and> \<not> flag ord kStopMarket"
  shows "\<exists>k. o_ext ord = Some k \<and> k < length (st_extras st) \<and> extra_of st ord = Some (st_extras st ! k) \<and>
    slot_of (st_extras st) ord = st_extras st ! k"
  using store_okD(4) [OF ok l] assms(3)
  by (auto simp: node_ok_def extra_of_def slot_of_def vec_at_in)

lemma set_reserve_spec:
  assumes ok: "store_ok st" and v: "view st i = Some r" and l: "lookup st i = Some ord"
    and ice: "flag ord kIceberg"
  shows "\<exists>st'. set_reserve st ord q = Some st' \<and> store_ok st' \<and>
    view st' = (view st)(i \<mapsto> r\<lparr>r_reserve := q\<rparr>) \<and> lookup st' = lookup st \<and>
    length (st_orders st') = length (st_orders st) \<and> st_pool st' = st_pool st"
proof -
  from extra_of_spec [OF ok l] ice obtain k where k: "o_ext ord = Some k" "k < length (st_extras st)"
    "slot_of (st_extras st) ord = st_extras st ! k" by blast
  define st' where "st' = st\<lparr>st_extras := (st_extras st)[k := (st_extras st ! k)\<lparr>x_reserve := q\<rparr>]\<rparr>"
  have kf: "k \<notin> set (st_extra_free st)" using store_okD(4) [OF ok l] k by (auto simp: node_ok_def)
  have "set_reserve st ord q = Some st'"
    using k by (simp add: set_reserve_def st'_def vec_set_in vec_at_in)
  moreover have "store_ok st'"
  proof (rule store_okI)
    fix j a assume "lookup st' j = Some a"
    then have "lookup st j = Some a" by (simp add: st'_def)
    from store_okD(4) [OF ok this] show "node_ok st' j a" by (simp add: node_ok_def st'_def)
  next
    have "st_extras st' ! x = st_extras st ! x" if "x \<in> set (st_extra_free st)" for x
      using kf that unfolding st'_def by (cases "x = k") auto
    then show "free_slots_ok st'"
      using store_okD(7) [OF ok] by (simp add: free_slots_ok_def st'_def)
  qed (use store_okD [OF ok] in \<open>simp_all add: st'_def\<close>)
  moreover have "view st' j = ((view st)(i \<mapsto> r\<lparr>r_reserve := q\<rparr>)) j" for j
  proof (cases "j = i")
    case True
    with v l k ice show ?thesis
      by (auto simp: view_def st'_def ro_of_def slot_of_def ro_make_reserve)
  next
    case False
    with exclusiveD(2) [OF store_okD(5) [OF ok] l, of j] k
    have "map_option (ro_of (st_extras st')) (lookup st j) = map_option (ro_of (st_extras st)) (lookup st j)"
      by (cases "lookup st j") (auto simp: st'_def ro_of_def slot_of_frame)
    with False show ?thesis by (simp add: view_def st'_def)
  qed
  ultimately show ?thesis by (auto simp: st'_def)
qed

text \<open>Registering a fresh node, with or without a slot of the side table.\<close>

lemma alloc_extra_spec:
  assumes "store_ok st" "alloc_extra st = (x, st')"
  shows "x < length (st_extras st')" "st_extras st' ! x = extra_zero" "x \<notin> set (st_extra_free st')"
    "\<And>i ord y. lookup st i = Some ord \<Longrightarrow> o_ext ord = Some y \<Longrightarrow> y \<noteq> x"
    "length (st_extras st) \<le> length (st_extras st')" "lookup st' = lookup st" "st_pool st' = st_pool st" "st_orders st' = st_orders st"
    "\<And>k. k < length (st_extras st) \<Longrightarrow> k < length (st_extras st') \<and> st_extras st' ! k = st_extras st ! k"
    "set (st_extra_free st') \<subseteq> set (st_extra_free st)" "free_slots_ok st'"
proof -
  let ?fr = "st_extra_free st"
  note fr = store_okD(7) [OF assms(1)]
  have ext: "y < length (st_extras st) \<and> y \<notin> set ?fr" if "lookup st j = Some ord" "o_ext ord = Some y" for j ord y
    using store_okD(4) [OF assms(1) that(1)] that(2) by (auto simp: node_ok_def)
  consider (empty) "?fr = []" "x = length (st_extras st)" "st' = st\<lparr>st_extras := st_extras st @ [extra_zero]\<rparr>"
    | (reuse) "?fr \<noteq> []" "x = last ?fr" "st' = st\<lparr>st_extra_free := butlast ?fr\<rparr>"
    using assms(2) by (auto simp: alloc_extra_def split: if_splits)
  note cs = this
  have spl: "?fr \<noteq> [] \<Longrightarrow> ?fr = butlast ?fr @ [last ?fr]" by simp
  show "x < length (st_extras st')" "st_extras st' ! x = extra_zero"
    using cs fr last_in_set [of ?fr] by (cases; auto simp: free_slots_ok_def)+
  show "x \<notin> set (st_extra_free st')"
  proof (cases rule: cs)
    case reuse
    from fr have "distinct (butlast ?fr @ [last ?fr])"
      unfolding spl [OF reuse(1), symmetric] by (simp add: free_slots_ok_def)
    then have "last ?fr \<notin> set (butlast ?fr)" by (simp only: distinct_append) simp
    with reuse show ?thesis by simp
  qed auto
  show "\<And>i ord y. lookup st i = Some ord \<Longrightarrow> o_ext ord = Some y \<Longrightarrow> y \<noteq> x"
    using cs ext last_in_set [of ?fr] by cases fastforce+
  show "length (st_extras st) \<le> length (st_extras st')" "lookup st' = lookup st"
    "st_pool st' = st_pool st" "st_orders st' = st_orders st"
    using cs by (cases; simp)+
  show "\<And>k. k < length (st_extras st) \<Longrightarrow> k < length (st_extras st') \<and> st_extras st' ! k = st_extras st ! k"
    using cs by cases (auto simp: nth_append)
  show "set (st_extra_free st') \<subseteq> set (st_extra_free st)"
    using cs by cases (auto dest: in_set_butlastD)
  show "free_slots_ok st'"
    using cs fr by cases (auto simp: free_slots_ok_def nth_append distinct_butlast dest: in_set_butlastD)
qed

definition slot_value :: "(extra \<Rightarrow> extra) option \<Rightarrow> extra" where
  "slot_value ex = (case ex of None \<Rightarrow> extra_zero | Some u \<Rightarrow> u extra_zero)"

lemma register_spec:
  assumes ok: "store_ok st" and pl: "pool_ok pl" "a \<notin> pool_live (st_pool st)"
      "pool_live pl = insert a (pool_live (st_pool st))"
    and len: "o_id ord < length (st_orders st)" and fresh: "lookup st (o_id ord) = None" "o_id ord \<noteq> 0"
    and flags: "flag ord kIceberg \<or> (flag ord kStopPending \<and> \<not> flag ord kStopMarket) \<longrightarrow> ext \<noteq> None"
    and free: "set fs \<subseteq> set (st_extra_free st)" "distinct fs" "\<forall>x\<in>set fs. x < length xs \<and> xs ! x = extra_zero"
    and ext: "\<And>x. ext = Some x \<Longrightarrow> x < length xs \<and> x \<notin> set fs \<and>
      (\<forall>j b. lookup st j = Some b \<longrightarrow> o_ext b \<noteq> Some x)"
    and keep: "length (st_extras st) \<le> length xs"
      "\<And>k. k < length (st_extras st) \<Longrightarrow> ext \<noteq> Some k \<Longrightarrow> xs ! k = st_extras st ! k"
  defines "new \<equiv> ord\<lparr>o_ext := ext, o_addr := a\<rparr>"
  defines "st' \<equiv> st\<lparr>st_orders := (st_orders st)[o_id ord := Some new], st_extras := xs,
      st_extra_free := fs, st_pool := pl\<rparr>"
  shows "store_ok st' \<and> view st' = (view st)(o_id ord \<mapsto> ro_make ord (slot_of xs new))"
proof
  have lk: "lookup st' = (lookup st)(o_id ord \<mapsto> new)"
    using lookup_update_orders [OF len, of "Some new"] by (simp add: st'_def lookup_def fun_eq_iff)
  show "store_ok st'"
  proof (rule store_okI)
    fix i b assume i: "lookup st' i = Some b"
    show "node_ok st' i b"
    proof (cases "i = o_id ord")
      case True
      from i True have "b = new" by (simp add: lk)
      with True flags ext show ?thesis by (auto simp: node_ok_def new_def st'_def flag_def)
    next
      case False
      with i have "lookup st i = Some b" by (simp add: lk)
      from store_okD(4) [OF ok this] free(1) keep(1) show ?thesis
        by (auto simp: node_ok_def st'_def)
    qed
  next
    show "exclusive (lookup st')" unfolding lk
      by (rule exclusive_add [OF store_okD(5) [OF ok]])
         (use pl store_okD(6) [OF ok] ext in \<open>auto simp: new_def\<close>)
    show "pool_live (st_pool st') = node_addrs (lookup st')"
      unfolding lk node_addrs_add [of "lookup st", OF fresh(1)] using pl store_okD(6) [OF ok] by (simp add: st'_def new_def)
    show "lookup st' 0 = None" using store_okD(3) [OF ok] fresh by (simp add: lk)
    show "free_slots_ok st'" using free by (simp add: free_slots_ok_def st'_def)
    show "st_orders st' \<noteq> []" using store_okD(2) [OF ok] by (simp add: st'_def)
  qed (use pl in \<open>simp add: st'_def\<close>)
  have "map_option (ro_of xs) (lookup st i) = map_option (ro_of (st_extras st)) (lookup st i)" for i
  proof (cases "lookup st i")
    case (Some b)
    have "slot_of xs b = slot_of (st_extras st) b"
      using store_okD(4) [OF ok Some] keep(2) ext Some
      by (auto simp: slot_of_def node_ok_def split: option.splits)
    with Some show ?thesis by (simp add: ro_of_def)
  qed simp
  then show "view st' = (view st)(o_id ord \<mapsto> ro_make ord (slot_of xs new))"
    by (auto simp: view_def fun_eq_iff lk) (simp_all add: st'_def ro_of_def new_def ro_make_addr)
qed

lemma insert_node_spec:
  assumes ok: "store_ok st"
    and len: "o_id ord < length (st_orders st)" and fresh: "lookup st (o_id ord) = None" "o_id ord \<noteq> 0"
    and flags: "flag ord kIceberg \<or> (flag ord kStopPending \<and> \<not> flag ord kStopMarket) \<longrightarrow> ex \<noteq> None"
  shows "\<exists>st'. insert_node st ord ex = Some st' \<and> store_ok st' \<and>
    view st' = (view st)(o_id ord \<mapsto> ro_make ord (slot_value ex)) \<and>
    length (st_orders st') = length (st_orders st)"
proof -
  from pool_alloc_spec [OF store_okD(1) [OF ok]] obtain a pl where
    pl: "pool_alloc (st_pool st) = Some (a, pl)" "pool_ok pl" "a \<notin> pool_live (st_pool st)"
      "pool_live pl = insert a (pool_live (st_pool st))" by blast
  note reg = register_spec [OF ok pl(2-4) len fresh]
  show ?thesis
  proof (cases ex)
    case None
    let ?new = "ord\<lparr>o_ext := None, o_addr := a\<rparr>"
    let ?st' = "st\<lparr>st_orders := (st_orders st)[o_id ord := Some ?new], st_pool := pl\<rparr>"
    have "insert_node st ord ex = Some ?st'"
      using None pl(1) len by (simp add: insert_node_def vec_set_in)
    moreover have "store_ok ?st' \<and> view ?st' = (view st)(o_id ord \<mapsto> ro_make ord (slot_value ex))"
      using reg [of None "st_extra_free st" "st_extras st"] flags None store_okD(7) [OF ok]
      by (simp add: free_slots_ok_def slot_of_def slot_value_def)
    ultimately show ?thesis by auto
  next
    case (Some u)
    define st1 where "st1 = st\<lparr>st_pool := pl\<rparr>"
    obtain x st2 where ax: "alloc_extra st = (x, st2)" by (cases "alloc_extra st") auto
    then have ax1: "alloc_extra st1 = (x, st2\<lparr>st_pool := pl\<rparr>)"
      by (auto simp: alloc_extra_def st1_def split: if_splits)
    note sp = alloc_extra_spec [OF ok ax]
    let ?xs = "(st_extras st2)[x := u extra_zero]"
    let ?new = "ord\<lparr>o_ext := Some x, o_addr := a\<rparr>"
    let ?st' = "st\<lparr>st_orders := (st_orders st)[o_id ord := Some ?new], st_extras := ?xs,
      st_extra_free := st_extra_free st2, st_pool := pl\<rparr>"
    have "insert_node st ord ex = Some ?st'"
      using Some pl(1) len sp ax1 st1_def [symmetric]
      by (simp add: insert_node_def vec_set_in vec_at_in Let_def)
    moreover have "store_ok ?st' \<and> view ?st' = (view st)(o_id ord \<mapsto> ro_make ord (slot_of ?xs ?new))"
    proof (rule reg)
      show "\<forall>y\<in>set (st_extra_free st2). y < length ?xs \<and> ?xs ! y = extra_zero"
        using sp by (auto simp: free_slots_ok_def nth_list_update)
      show "y < length ?xs \<and> y \<notin> set (st_extra_free st2) \<and>
          (\<forall>j b. lookup st j = Some b \<longrightarrow> o_ext b \<noteq> Some y)" if "Some x = Some y" for y
        using sp(1,3,4) that by auto
      show "?xs ! k = st_extras st ! k" if "k < length (st_extras st)" "Some x \<noteq> Some k" for k
        using sp(9) [OF that(1)] that(2) by simp
    qed (use sp in \<open>simp_all add: free_slots_ok_def\<close>)
    moreover have "slot_of ?xs ?new = slot_value ex"
      using sp Some by (simp add: slot_of_def slot_value_def)
    ultimately show ?thesis by auto
  qed
qed

lemma drop_node_spec:
  assumes ok: "store_ok st" and v: "view st i = Some r"
  shows "\<exists>st'. drop_node st i = Some st' \<and> store_ok st' \<and> view st' = (view st)(i := None) \<and>
    length (st_orders st') = length (st_orders st)"
proof -
  from v obtain ord where l: "lookup st i = Some ord" by (auto simp: view_lookup)
  note len = lookup_len [OF l]
  note nd = store_okD(4) [OF ok l, unfolded node_ok_def]
  have al: "o_addr ord \<in> pool_live (st_pool st)"
    unfolding store_okD(6) [OF ok] node_addrs_def using l by blast
  note pf = pool_free_spec [OF store_okD(1) [OF ok] al]
  define xs where "xs = (case o_ext ord of None \<Rightarrow> st_extras st | Some x \<Rightarrow> (st_extras st)[x := extra_zero])"
  define fs where "fs = (case o_ext ord of None \<Rightarrow> st_extra_free st | Some x \<Rightarrow> st_extra_free st @ [x])"
  define st' where "st' = st\<lparr>st_orders := (st_orders st)[i := None], st_extras := xs, st_extra_free := fs,
    st_pool := pool_free (o_addr ord) (st_pool st)\<rparr>"
  have lk: "lookup st' = (lookup st)(i := None)"
    using lookup_update_orders [OF len, of None] by (simp add: st'_def lookup_def fun_eq_iff)
  have other: "o_ext b \<noteq> o_ext ord \<or> o_ext ord = None" if "lookup st j = Some b" "j \<noteq> i" for j b
    using exclusiveD(2) [OF store_okD(5) [OF ok] l that(1)] that(2) by (cases "o_ext ord") auto
  have "drop_node st i = Some st'"
    using l len nd by (cases "o_ext ord")
      (simp_all add: drop_node_def release_def vec_set_in st'_def xs_def fs_def)
  moreover have "store_ok st'"
  proof (rule store_okI)
    fix j b assume "lookup st' j = Some b"
    then have j: "lookup st j = Some b" "j \<noteq> i" by (auto simp: lk split: if_splits)
    from store_okD(4) [OF ok j(1)] other [OF j] show "node_ok st' j b"
      by (auto simp: node_ok_def st'_def xs_def fs_def split: option.splits)
  next
    show "exclusive (lookup st')" unfolding lk by (rule exclusive_remove [OF store_okD(5) [OF ok]])
    show "pool_live (st_pool st') = node_addrs (lookup st')"
      unfolding lk node_addrs_remove [of "lookup st", OF store_okD(5) [OF ok] l]
      using pf store_okD(6) [OF ok] by (simp add: st'_def)
    show "free_slots_ok st'"
      using store_okD(7) [OF ok] nd
      by (auto simp: free_slots_ok_def st'_def xs_def fs_def nth_list_update split: option.splits)
    show "lookup st' 0 = None" using store_okD(3) [OF ok] by (simp add: lk)
  qed (use store_okD(2) [OF ok] pf in \<open>simp_all add: st'_def\<close>)
  moreover have "view st' j = ((view st)(i := None)) j" for j
  proof (cases "lookup st j")
    case (Some b)
    have "ro_of xs b = ro_of (st_extras st) b" if "j \<noteq> i"
      using other [OF Some that] by (auto simp: xs_def ro_of_def slot_of_frame split: option.splits)
    moreover have "st_extras st' = xs" by (simp add: st'_def)
    ultimately show ?thesis using Some by (simp add: view_def lk)
  qed (simp add: view_def lk)
  ultimately show ?thesis by (auto simp: st'_def)
qed

end
