(* ===== verification/Engine.thy ===== *)
theory Engine
  imports Level_Bitmap Order_Store
begin

text \<open>
  \<^verbatim>\<open>include/matchbook/matching_engine.hpp\<close>: the state of \<^verbatim>\<open>MatchingEngine\<close> and
  every operation on it, in the default event mode.  The handler's callbacks do not
  touch the engine in that mode, so the calls the engine makes are appended to a tape.

  A level keeps its aggregates and its chain of nodes, head first; a ladder is one flat
  array of levels with its occupancy bitmap (the stop books are ladders), and a book is
  a ladder with the cached best index.  The code writes each operation twice, once per
  side; the mirrored pair is one definition here with the side as an argument.
\<close>

section \<open>State\<close>

record level =
  l_total :: Qty
  l_hidden :: Qty
  l_fifo :: "OrderId list"
  l_count :: "32 word"

definition level_empty :: level where
  "level_empty = \<lparr>l_total = 0, l_hidden = 0, l_fifo = [], l_count = 0\<rparr>"

record ladder =
  ld_levels :: "level list"
  ld_map :: level_bitmap

record book = ladder +
  bk_best :: int

record engine =
  e_min :: Price
  e_n :: nat
  e_bids :: book
  e_asks :: book
  e_store :: store
  e_stop_bids :: ladder
  e_stop_asks :: ladder
  e_pending_stops :: nat
  e_last_px :: Price
  e_has_last :: bool
  e_pumping :: bool
  e_halted :: bool
  e_stp_halt :: bool
  e_tape :: "event list"

definition book_of :: "Side \<Rightarrow> engine \<Rightarrow> book" where
  "book_of s e = (case s of Buy \<Rightarrow> e_bids e | Sell \<Rightarrow> e_asks e)"

definition set_book :: "Side \<Rightarrow> book \<Rightarrow> engine \<Rightarrow> engine" where
  "set_book s b e = (case s of Buy \<Rightarrow> e\<lparr>e_bids := b\<rparr> | Sell \<Rightarrow> e\<lparr>e_asks := b\<rparr>)"

definition stops_of :: "Side \<Rightarrow> engine \<Rightarrow> ladder" where
  "stops_of s e = (case s of Buy \<Rightarrow> e_stop_bids e | Sell \<Rightarrow> e_stop_asks e)"

definition set_stops :: "Side \<Rightarrow> ladder \<Rightarrow> engine \<Rightarrow> engine" where
  "set_stops s b e = (case s of Buy \<Rightarrow> e\<lparr>e_stop_bids := b\<rparr> | Sell \<Rightarrow> e\<lparr>e_stop_asks := b\<rparr>)"

definition emit :: "event \<Rightarrow> engine \<Rightarrow> engine" where
  "emit ev e = e\<lparr>e_tape := e_tape e @ [ev]\<rparr>"

definition level_at :: "('a ladder_scheme) \<Rightarrow> nat \<Rightarrow> level option" where
  "level_at ld i = vec_at (ld_levels ld) i"

definition put_level :: "nat \<Rightarrow> level \<Rightarrow> ('a ladder_scheme) \<Rightarrow> ('a ladder_scheme) option" where
  "put_level i lvl ld = do { ls \<leftarrow> vec_set (ld_levels ld) i lvl; Some (ld\<lparr>ld_levels := ls\<rparr>) }"

definition in_band :: "engine \<Rightarrow> Price \<Rightarrow> bool" where
  "in_band e p \<longleftrightarrow> e_min e \<le> p \<and> p < e_min e + int (e_n e)"

definition idx :: "engine \<Rightarrow> Price \<Rightarrow> nat" where
  "idx e p = nat (p - e_min e)"

definition fresh_id :: "engine \<Rightarrow> OrderId \<times> engine" where
  "fresh_id e = (let (oid, st) = next_id (e_store e) in (oid, e\<lparr>e_store := st\<rparr>))"

definition engine_new :: "nat \<Rightarrow> Price \<Rightarrow> Price \<Rightarrow> nat \<Rightarrow> engine option" where
  "engine_new chunk_size min_price max_price expected_orders = do {
     st \<leftarrow> store_new chunk_size expected_orders;
     let n = nat (max_price - min_price + 1);
     let side = \<lparr>ld_levels = replicate n level_empty, ld_map = bm_new n, bk_best = - 1\<rparr>;
     let none = \<lparr>ld_levels = [], ld_map = bm_new 0\<rparr>;
     Some \<lparr>e_min = min_price, e_n = n, e_bids = side, e_asks = side, e_store = st,
           e_stop_bids = none, e_stop_asks = none, e_pending_stops = 0, e_last_px = 0,
           e_has_last = False, e_pumping = False, e_halted = False, e_stp_halt = False,
           e_tape = []\<rparr> }"

section \<open>Resting and unlinking\<close>

text \<open>The next best level on a side, strictly past index \<open>i\<close> in priority order.\<close>

definition next_best :: "Side \<Rightarrow> level_bitmap \<Rightarrow> int \<Rightarrow> int option" where
  "next_best s m i = (case s of Buy \<Rightarrow> bm_find_le m (i - 1) | Sell \<Rightarrow> bm_find_ge m (i + 1))"

definition improves :: "Side \<Rightarrow> int \<Rightarrow> int \<Rightarrow> bool" where
  "improves s i best = (case s of Buy \<Rightarrow> i > best | Sell \<Rightarrow> best < 0 \<or> i < best)"

definition rest :: "OrderId \<Rightarrow> Side \<Rightarrow> Price \<Rightarrow> Qty \<Rightarrow> OwnerId \<Rightarrow> StpPolicy \<Rightarrow> Qty \<Rightarrow>
    engine \<Rightarrow> engine option" where
  "rest oid side price qty owner stp peak e = do {
     let i = idx e price;
     let ice = (peak \<noteq> 0 \<and> qty > peak);
     let shown = (if ice then peak else qty);
     let reserve = (if ice then qty - peak else 0);
     let node = \<lparr>o_id = oid, o_price = price, o_qty = shown, o_ext = None, o_owner = owner,
                 o_side = side, o_flags = (if ice then stp_code stp OR kIceberg else stp_code stp),
                 o_addr = 0\<rparr>;
     st \<leftarrow> insert_node (e_store e) node
            (if ice then Some (\<lambda>x. x\<lparr>x_reserve := reserve, x_peak := peak\<rparr>) else None);
     let bk = book_of side e;
     lvl \<leftarrow> level_at bk i;
     bk1 \<leftarrow> (if l_fifo lvl \<noteq> [] then Some bk
             else do {
               m \<leftarrow> bm_set (ld_map bk) i;
               Some (bk\<lparr>ld_map := m,
                        bk_best := (if improves side (int i) (bk_best bk) then int i else bk_best bk)\<rparr>) });
     bk2 \<leftarrow> put_level i (lvl\<lparr>l_total := l_total lvl + shown, l_hidden := l_hidden lvl + reserve,
                             l_fifo := l_fifo lvl @ [oid], l_count := l_count lvl + 1\<rparr>) bk1;
     Some (emit (Rested oid side price shown) (set_book side bk2 (e\<lparr>e_store := st\<rparr>))) }"

text \<open>The reserve behind a node's displayed clip, 0 unless it is an iceberg.\<close>

definition reserve_of :: "store \<Rightarrow> order \<Rightarrow> Qty option" where
  "reserve_of st ord =
     (if flag ord kIceberg then do { x \<leftarrow> extra_of st ord; Some (x_reserve x) } else Some 0)"

definition remove_resting :: "order \<Rightarrow> engine \<Rightarrow> engine option" where
  "remove_resting ord e = do {
     let i = idx e (o_price ord);
     let side = o_side ord;
     let bk = book_of side e;
     lvl \<leftarrow> level_at bk i;
     res \<leftarrow> reserve_of (e_store e) ord;
     let fifo = remove1 (o_id ord) (l_fifo lvl);
     bk1 \<leftarrow> put_level i (lvl\<lparr>l_total := l_total lvl - o_qty ord, l_hidden := l_hidden lvl - res,
                             l_fifo := fifo, l_count := l_count lvl - 1\<rparr>) bk;
     bk2 \<leftarrow> (if fifo \<noteq> [] then Some bk1
             else do {
               m \<leftarrow> bm_clear (ld_map bk1) i;
               b \<leftarrow> (if bk_best bk1 = int i then next_best side m (bk_best bk1) else Some (bk_best bk1));
               Some (bk1\<lparr>ld_map := m, bk_best := b\<rparr>) });
     Some (set_book side bk2 e) }"

text \<open>\<^verbatim>\<open>orders_[id] = nullptr; release(o)\<close> on the engine.\<close>

definition drop_order :: "OrderId \<Rightarrow> engine \<Rightarrow> engine option" where
  "drop_order oid e = do { st \<leftarrow> drop_node (e_store e) oid; Some (e\<lparr>e_store := st\<rparr>) }"

section \<open>Matching\<close>

text \<open>
  Unlink and free the head of a level, the order a sweep is standing on.
\<close>

definition cancel_head :: "Side \<Rightarrow> nat \<Rightarrow> engine \<Rightarrow> engine option" where
  "cancel_head ms i e = do {
     lvl \<leftarrow> level_at (book_of ms e) i;
     case l_fifo lvl of
       [] \<Rightarrow> None
     | oid # others \<Rightarrow> do {
         ord \<leftarrow> lookup (e_store e) oid;
         res \<leftarrow> reserve_of (e_store e) ord;
         bk \<leftarrow> put_level i (lvl\<lparr>l_total := l_total lvl - o_qty ord, l_hidden := l_hidden lvl - res,
                               l_fifo := others, l_count := l_count lvl - 1\<rparr>) (book_of ms e);
         e1 \<leftarrow> drop_order oid (set_book ms bk e);
         Some (emit (Cancelled oid) e1) } }"

text \<open>
  The tail of a fill once the displayed clip of the head order is exhausted: an iceberg
  with reserve shows its next clip and moves to the back of the level, anything else
  leaves the level.
\<close>

definition exhaust_head :: "Side \<Rightarrow> nat \<Rightarrow> OrderId \<Rightarrow> Price \<Rightarrow> engine \<Rightarrow> engine option" where
  "exhaust_head ms i oid px e = do {
     lvl \<leftarrow> level_at (book_of ms e) i;
     ord \<leftarrow> lookup (e_store e) oid;
     res \<leftarrow> reserve_of (e_store e) ord;
     if res > 0 then do {
       x \<leftarrow> extra_of (e_store e) ord;
       let clip = (if x_peak x < x_reserve x then x_peak x else x_reserve x);
       st1 \<leftarrow> set_reserve (e_store e) ord (x_reserve x - clip);
       st2 \<leftarrow> set_qty st1 oid clip;
       bk \<leftarrow> put_level i (lvl\<lparr>l_total := l_total lvl + clip, l_hidden := l_hidden lvl - clip,
                             l_fifo := tl (l_fifo lvl) @ [oid]\<rparr>) (book_of ms e);
       Some (emit (Rested oid (o_side ord) px clip) (set_book ms bk (e\<lparr>e_store := st2\<rparr>))) }
     else do {
       bk \<leftarrow> put_level i (lvl\<lparr>l_fifo := tl (l_fifo lvl), l_count := l_count lvl - 1\<rparr>) (book_of ms e);
       drop_order oid (set_book ms bk e) } }"

partial_function (option) sweep_level ::
  "Side \<Rightarrow> nat \<Rightarrow> OrderId \<Rightarrow> Qty \<Rightarrow> Price \<Rightarrow> Side \<Rightarrow> OwnerId \<Rightarrow> StpPolicy \<Rightarrow> engine \<Rightarrow>
     (Qty \<times> engine) option" where
  "sweep_level ms i taker qty px taker_side taker_owner stp e = do {
     lvl \<leftarrow> level_at (book_of ms e) i;
     if l_fifo lvl = [] \<or> qty = 0 then Some (qty, e)
     else do {
       let oid = hd (l_fifo lvl);
       ord \<leftarrow> lookup (e_store e) oid;
       if taker_owner \<noteq> 0 \<and> o_owner ord = taker_owner then do {
         e1 \<leftarrow> (if stp \<noteq> CancelTaker then cancel_head ms i e else Some e);
         if stp = CancelMaker
         then sweep_level ms i taker qty px taker_side taker_owner stp e1
         else Some (qty, e1\<lparr>e_stp_halt := True\<rparr>) }
       else do {
         let fill = (if qty < o_qty ord then qty else o_qty ord);
         st \<leftarrow> set_qty (e_store e) oid (o_qty ord - fill);
         bk \<leftarrow> put_level i (lvl\<lparr>l_total := l_total lvl - fill\<rparr>) (book_of ms e);
         let e1 = emit (Traded \<lparr>t_taker = taker, t_maker = oid, t_price = px, t_qty = fill,
                                t_side = taker_side\<rparr>)
                    ((set_book ms bk e)\<lparr>e_store := st, e_last_px := px, e_has_last := True\<rparr>);
         e2 \<leftarrow> (if o_qty ord - fill = 0 then exhaust_head ms i oid px e1 else Some e1);
         sweep_level ms i taker (qty - fill) px taker_side taker_owner stp e2 } } }"

text \<open>Has the sweep reached a level at or better than the limit index?\<close>

definition within_limit :: "Side \<Rightarrow> int \<Rightarrow> int \<Rightarrow> bool" where
  "within_limit taker_side best limit_idx =
     (0 \<le> best \<and> (case taker_side of Buy \<Rightarrow> best \<le> limit_idx | Sell \<Rightarrow> best \<ge> limit_idx))"

text \<open>The best level emptied: clear its bit and move to the next best.\<close>

definition retire_level :: "Side \<Rightarrow> nat \<Rightarrow> engine \<Rightarrow> engine option" where
  "retire_level ms i e = do {
     lvl \<leftarrow> level_at (book_of ms e) i;
     if l_fifo lvl = [] then do {
       let bk = book_of ms e;
       m \<leftarrow> bm_clear (ld_map bk) i;
       b \<leftarrow> next_best ms m (bk_best bk);
       Some (set_book ms (bk\<lparr>ld_map := m, bk_best := b\<rparr>) e) }
     else Some e }"

partial_function (option) match_side ::
  "Side \<Rightarrow> OrderId \<Rightarrow> Qty \<Rightarrow> int \<Rightarrow> OwnerId \<Rightarrow> StpPolicy \<Rightarrow> engine \<Rightarrow> (Qty \<times> engine) option" where
  "match_side taker_side taker qty limit_idx owner stp e = do {
     let ms = opposite taker_side;
     let best = bk_best (book_of ms e);
     if qty > 0 \<and> within_limit taker_side best limit_idx then do {
       (qty1, e1) \<leftarrow> sweep_level ms (nat best) taker qty (e_min e + best) taker_side owner stp e;
       e2 \<leftarrow> retire_level ms (nat best) e1;
       if e_stp_halt e2 then Some (qty1, e2)
       else match_side taker_side taker qty1 limit_idx owner stp e2 }
     else Some (qty, e) }"

definition match_buy :: "OrderId \<Rightarrow> Qty \<Rightarrow> int \<Rightarrow> OwnerId \<Rightarrow> StpPolicy \<Rightarrow> engine \<Rightarrow> (Qty \<times> engine) option" where
  "match_buy = match_side Buy"

definition match_sell :: "OrderId \<Rightarrow> Qty \<Rightarrow> int \<Rightarrow> OwnerId \<Rightarrow> StpPolicy \<Rightarrow> engine \<Rightarrow> (Qty \<times> engine) option" where
  "match_sell = match_side Sell"

definition match_limit :: "Side \<Rightarrow> OrderId \<Rightarrow> Qty \<Rightarrow> int \<Rightarrow> OwnerId \<Rightarrow> StpPolicy \<Rightarrow> engine \<Rightarrow> (Qty \<times> engine) option" where
  "match_limit side oid qty limit_idx owner stp e =
     (if side = Buy then match_buy oid qty limit_idx owner stp e
      else match_sell oid qty limit_idx owner stp e)"

text \<open>Sweep the whole opposite side: the limit index is the far end of the band.\<close>

definition match_market :: "Side \<Rightarrow> OrderId \<Rightarrow> Qty \<Rightarrow> OwnerId \<Rightarrow> StpPolicy \<Rightarrow> engine \<Rightarrow> (Qty \<times> engine) option" where
  "match_market side oid qty owner stp e =
     (if side = Buy then match_buy oid qty (int (e_n e) - 1) owner stp e
      else match_sell oid qty 0 owner stp e)"

definition would_cross :: "Side \<Rightarrow> Price \<Rightarrow> engine \<Rightarrow> bool" where
  "would_cross side price e =
     (case side of
        Buy \<Rightarrow> 0 \<le> bk_best (e_asks e) \<and> e_min e + bk_best (e_asks e) \<le> price
      | Sell \<Rightarrow> 0 \<le> bk_best (e_bids e) \<and> e_min e + bk_best (e_bids e) \<ge> price)"

text \<open>
  The depth scan of fill-or-kill: levels of the opposite side at or better than the limit,
  best first, until enough is found.
\<close>

partial_function (option) fillable_from :: "Side \<Rightarrow> book \<Rightarrow> int \<Rightarrow> Qty \<Rightarrow> int \<Rightarrow> Qty \<Rightarrow> Qty option" where
  "fillable_from side bk limit_idx want i found =
     (if within_limit side i limit_idx \<and> found < want then do {
        lvl \<leftarrow> level_at bk (nat i);
        j \<leftarrow> next_best (opposite side) (ld_map bk) i;
        fillable_from side bk limit_idx want j (found + (l_total lvl + l_hidden lvl)) }
      else Some found)"

definition fillable :: "Side \<Rightarrow> Price \<Rightarrow> Qty \<Rightarrow> engine \<Rightarrow> Qty option" where
  "fillable side price want e =
     (let bk = book_of (opposite side) e
      in fillable_from side bk (int (idx e price)) want (bk_best bk) 0)"

definition place_limit :: "OrderId \<Rightarrow> Side \<Rightarrow> Price \<Rightarrow> Qty \<Rightarrow> TimeInForce \<Rightarrow> OwnerId \<Rightarrow> StpPolicy \<Rightarrow>
    Qty \<Rightarrow> engine \<Rightarrow> engine option" where
  "place_limit oid side price qty tif owner stp peak e =
     (if e_halted e then rest oid side price qty owner stp peak e
      else do {
        (remaining, e1) \<leftarrow> match_limit side oid qty (int (idx e price)) owner stp e;
        if e_stp_halt e1 then
          (let e2 = e1\<lparr>e_stp_halt := False\<rparr>
           in Some (if remaining > 0 then emit (Cancelled oid) e2 else e2))
        else if remaining > 0 then
          (if tif = IOC \<or> tif = FOK then Some (emit (Cancelled oid) e1)
           else rest oid side price remaining owner stp peak e1)
        else Some e1 })"

section \<open>Stop orders\<close>

definition stop_triggered :: "Side \<Rightarrow> Price \<Rightarrow> Price \<Rightarrow> bool" where
  "stop_triggered side stop last_px = (case side of Buy \<Rightarrow> last_px \<ge> stop | Sell \<Rightarrow> last_px \<le> stop)"

definition ensure_stop_books :: "engine \<Rightarrow> engine" where
  "ensure_stop_books e =
     (if ld_levels (e_stop_bids e) = []
      then let fresh = \<lparr>ld_levels = replicate (e_n e) level_empty, ld_map = bm_new (e_n e)\<rparr>
           in e\<lparr>e_stop_bids := fresh, e_stop_asks := fresh\<rparr>
      else e)"

definition rest_stop :: "OrderId \<Rightarrow> Side \<Rightarrow> Price \<Rightarrow> Price \<Rightarrow> Qty \<Rightarrow> bool \<Rightarrow> OwnerId \<Rightarrow> StpPolicy \<Rightarrow>
    engine \<Rightarrow> engine option" where
  "rest_stop oid side stop_price limit_price qty is_market owner stp e0 = do {
     let e = ensure_stop_books e0;
     let node = \<lparr>o_id = oid, o_price = stop_price, o_qty = qty, o_ext = None, o_owner = owner,
                 o_side = side,
                 o_flags = stp_code stp OR kStopPending OR (if is_market then kStopMarket else 0),
                 o_addr = 0\<rparr>;
     st \<leftarrow> insert_node (e_store e) node
            (if is_market then None else Some (\<lambda>x. x\<lparr>x_limit := limit_price\<rparr>));
     let i = idx e stop_price;
     let ld = stops_of side e;
     lvl \<leftarrow> level_at ld i;
     ld1 \<leftarrow> (if l_fifo lvl \<noteq> [] then Some ld
             else do { m \<leftarrow> bm_set (ld_map ld) i; Some (ld\<lparr>ld_map := m\<rparr>) });
     ld2 \<leftarrow> put_level i (lvl\<lparr>l_total := l_total lvl + qty, l_fifo := l_fifo lvl @ [oid],
                             l_count := l_count lvl + 1\<rparr>) ld1;
     Some ((set_stops side ld2 e)\<lparr>e_store := st, e_pending_stops := e_pending_stops e + 1\<rparr>) }"

definition remove_stop :: "order \<Rightarrow> engine \<Rightarrow> engine option" where
  "remove_stop ord e = do {
     let i = idx e (o_price ord);
     let ld = stops_of (o_side ord) e;
     lvl \<leftarrow> level_at ld i;
     let fifo = remove1 (o_id ord) (l_fifo lvl);
     ld1 \<leftarrow> put_level i (lvl\<lparr>l_total := l_total lvl - o_qty ord, l_fifo := fifo,
                             l_count := l_count lvl - 1\<rparr>) ld;
     ld2 \<leftarrow> (if fifo \<noteq> [] then Some ld1
             else do { m \<leftarrow> bm_clear (ld_map ld1) i; Some (ld1\<lparr>ld_map := m\<rparr>) });
     Some ((set_stops (o_side ord) ld2 e)\<lparr>e_pending_stops := e_pending_stops e - 1\<rparr>) }"

text \<open>
  The next stop the last trade arms: buy stops ascending, then sell stops descending, first
  in first out within a trigger.  The outer option is a failed access, the inner one
  \<^verbatim>\<open>nullptr\<close>.
\<close>

definition next_triggered_stop :: "engine \<Rightarrow> OrderId option option" where
  "next_triggered_stop e =
     (if \<not> e_has_last e \<or> ld_levels (e_stop_bids e) = [] then Some None
      else do {
        i \<leftarrow> bm_find_ge (ld_map (e_stop_bids e)) 0;
        if 0 \<le> i \<and> e_min e + i \<le> e_last_px e then do {
          lvl \<leftarrow> level_at (e_stop_bids e) (nat i);
          case l_fifo lvl of [] \<Rightarrow> Some None | oid # _ \<Rightarrow> Some (Some oid) }
        else do {
          j \<leftarrow> bm_find_le (ld_map (e_stop_asks e)) (int (e_n e) - 1);
          if 0 \<le> j \<and> e_min e + j \<ge> e_last_px e then do {
            lvl \<leftarrow> level_at (e_stop_asks e) (nat j);
            case l_fifo lvl of [] \<Rightarrow> Some None | oid # _ \<Rightarrow> Some (Some oid) }
          else Some None } })"

definition execute_stop :: "OrderId \<Rightarrow> Side \<Rightarrow> Price \<Rightarrow> Qty \<Rightarrow> bool \<Rightarrow> OwnerId \<Rightarrow> StpPolicy \<Rightarrow>
    engine \<Rightarrow> engine option" where
  "execute_stop oid side limit_price qty is_market owner stp e =
     (if is_market then do {
        (_, e1) \<leftarrow> match_market side oid qty owner stp e;
        Some (e1\<lparr>e_stp_halt := False\<rparr>) }
      else place_limit oid side limit_price qty GTC owner stp 0 e)"

partial_function (option) pump_loop :: "engine \<Rightarrow> engine option" where
  "pump_loop e = do {
     nxt \<leftarrow> next_triggered_stop e;
     case nxt of
       None \<Rightarrow> Some e
     | Some oid \<Rightarrow> do {
         s \<leftarrow> lookup (e_store e) oid;
         limit_price \<leftarrow> (if flag s kStopMarket then Some 0
                         else do { x \<leftarrow> extra_of (e_store e) s; Some (x_limit x) });
         e1 \<leftarrow> remove_stop s e;
         e2 \<leftarrow> drop_order oid e1;
         e3 \<leftarrow> execute_stop oid (o_side s) limit_price (o_qty s) (flag s kStopMarket)
                 (o_owner s) (o_stp s) e2;
         pump_loop e3 } }"

definition pump_stops :: "engine \<Rightarrow> engine option" where
  "pump_stops e = (if e_halted e then Some e else pump_loop e)"

section \<open>Operations\<close>

definition do_submit_limit :: "Side \<Rightarrow> Price \<Rightarrow> Qty \<Rightarrow> TimeInForce \<Rightarrow> OwnerId \<Rightarrow> StpPolicy \<Rightarrow>
    engine \<Rightarrow> (OrderId \<times> engine) option" where
  "do_submit_limit side price qty tif owner stp e0 =
     (if \<not> in_band e0 price \<or> qty = 0
      then Some (kInvalidOrderId, emit (Rejected kInvalidOrderId) e0)
      else do {
        let (oid, e1) = fresh_id e0;
        let e = emit (Accept oid side price qty) e1;
        if e_halted e then
          (if tif \<noteq> GTC then Some (oid, emit (Cancelled oid) e)
           else do { e2 \<leftarrow> rest oid side price qty owner stp 0 e; Some (oid, e2) })
        else do {
          have \<leftarrow> (if tif = FOK then fillable side price qty e else Some qty);
          if tif = FOK \<and> have < qty then Some (oid, emit (Cancelled oid) e)
          else if tif = PostOnly \<and> would_cross side price e then Some (oid, emit (Cancelled oid) e)
          else do { e2 \<leftarrow> place_limit oid side price qty tif owner stp 0 e; Some (oid, e2) } } })"

definition do_submit_market :: "Side \<Rightarrow> Qty \<Rightarrow> OwnerId \<Rightarrow> StpPolicy \<Rightarrow> engine \<Rightarrow> (Qty \<times> engine) option" where
  "do_submit_market side qty owner stp e0 =
     (if e_halted e0 then Some (qty, emit (Rejected kInvalidOrderId) e0)
      else do {
        let (oid, e1) = fresh_id e0;
        let e = emit (Accept oid side 0 qty) e1;
        (remaining, e2) \<leftarrow> match_market side oid qty owner stp e;
        Some (remaining, e2\<lparr>e_stp_halt := False\<rparr>) })"

definition do_submit_stop :: "Side \<Rightarrow> Price \<Rightarrow> Price \<Rightarrow> Qty \<Rightarrow> bool \<Rightarrow> OwnerId \<Rightarrow> StpPolicy \<Rightarrow>
    engine \<Rightarrow> (OrderId \<times> engine) option" where
  "do_submit_stop side stop_price limit_price qty is_market owner stp e0 =
     (if \<not> in_band e0 stop_price \<or> qty = 0 \<or> (\<not> is_market \<and> \<not> in_band e0 limit_price)
      then Some (kInvalidOrderId, emit (Rejected kInvalidOrderId) e0)
      else do {
        let (oid, e1) = fresh_id e0;
        let e = emit (Accept oid side stop_price qty) e1;
        if \<not> e_halted e \<and> e_has_last e \<and> stop_triggered side stop_price (e_last_px e) then do {
          e2 \<leftarrow> execute_stop oid side limit_price qty is_market owner stp e;
          Some (oid, e2) }
        else do {
          e2 \<leftarrow> rest_stop oid side stop_price limit_price qty is_market owner stp e;
          Some (oid, e2) } })"

definition do_submit_iceberg :: "Side \<Rightarrow> Price \<Rightarrow> Qty \<Rightarrow> Qty \<Rightarrow> TimeInForce \<Rightarrow> OwnerId \<Rightarrow> StpPolicy \<Rightarrow>
    engine \<Rightarrow> (OrderId \<times> engine) option" where
  "do_submit_iceberg side price total_qty display tif owner stp e0 =
     (if \<not> in_band e0 price \<or> total_qty = 0 \<or> display = 0
      then Some (kInvalidOrderId, emit (Rejected kInvalidOrderId) e0)
      else do {
        let (oid, e1) = fresh_id e0;
        let e = emit (Accept oid side price total_qty) e1;
        if e_halted e then
          (if tif \<noteq> GTC then Some (oid, emit (Cancelled oid) e)
           else do { e2 \<leftarrow> rest oid side price total_qty owner stp display e; Some (oid, e2) })
        else do {
          have \<leftarrow> (if tif = FOK then fillable side price total_qty e else Some total_qty);
          if tif = FOK \<and> have < total_qty then Some (oid, emit (Cancelled oid) e)
          else if tif = PostOnly \<and> would_cross side price e then Some (oid, emit (Cancelled oid) e)
          else do {
            e2 \<leftarrow> place_limit oid side price total_qty tif owner stp display e;
            Some (oid, e2) } } })"

definition cancel_impl :: "OrderId \<Rightarrow> engine \<Rightarrow> (bool \<times> engine) option" where
  "cancel_impl oid e =
     (case lookup (e_store e) oid of
        None \<Rightarrow> Some (False, e)
      | Some ord \<Rightarrow> do {
          e1 \<leftarrow> (if flag ord kStopPending then remove_stop ord e else remove_resting ord e);
          e2 \<leftarrow> drop_order oid e1;
          Some (True, emit (Cancelled oid) e2) })"

text \<open>The silent removal \<^verbatim>\<open>do_reduce\<close> ends in when nothing is left.\<close>

definition erase_order :: "order \<Rightarrow> engine \<Rightarrow> engine option" where
  "erase_order ord e = do { e1 \<leftarrow> remove_resting ord e; drop_order (o_id ord) e1 }"

definition do_reduce :: "OrderId \<Rightarrow> Qty \<Rightarrow> engine \<Rightarrow> (bool \<times> engine) option" where
  "do_reduce oid delta e =
     (case lookup (e_store e) oid of
        None \<Rightarrow> Some (False, e)
      | Some ord \<Rightarrow>
          if flag ord kStopPending then Some (False, e)
          else if flag ord kIceberg then do {
            x \<leftarrow> extra_of (e_store e) ord;
            if delta \<ge> o_qty ord + x_reserve x then do { e1 \<leftarrow> erase_order ord e; Some (True, e1) }
            else do {
              let bk = book_of (o_side ord) e;
              lvl \<leftarrow> level_at bk (idx e (o_price ord));
              let from_reserve = (if delta < x_reserve x then delta else x_reserve x);
              let rest_delta = delta - from_reserve;
              st1 \<leftarrow> set_reserve (e_store e) ord (x_reserve x - from_reserve);
              st2 \<leftarrow> set_qty st1 oid (o_qty ord - rest_delta);
              bk1 \<leftarrow> put_level (idx e (o_price ord))
                       (lvl\<lparr>l_hidden := l_hidden lvl - from_reserve,
                            l_total := l_total lvl - rest_delta\<rparr>) bk;
              Some (True, set_book (o_side ord) bk1 (e\<lparr>e_store := st2\<rparr>)) } }
          else if delta \<ge> o_qty ord then do { e1 \<leftarrow> erase_order ord e; Some (True, e1) }
          else do {
            let bk = book_of (o_side ord) e;
            lvl \<leftarrow> level_at bk (idx e (o_price ord));
            bk1 \<leftarrow> put_level (idx e (o_price ord)) (lvl\<lparr>l_total := l_total lvl - delta\<rparr>) bk;
            st \<leftarrow> set_qty (e_store e) oid (o_qty ord - delta);
            Some (True, set_book (o_side ord) bk1 (e\<lparr>e_store := st\<rparr>)) })"

definition do_modify :: "OrderId \<Rightarrow> Price \<Rightarrow> Qty \<Rightarrow> engine \<Rightarrow> (bool \<times> engine) option" where
  "do_modify oid new_price new_qty e =
     (case lookup (e_store e) oid of
        None \<Rightarrow> Some (False, e)
      | Some ord \<Rightarrow>
          if flag ord kStopPending \<and> new_qty \<noteq> 0 then Some (False, e)
          else if new_qty = 0 then cancel_impl oid e
          else if \<not> in_band e new_price then Some (False, e)
          else do {
            (reserve, peak) \<leftarrow> (if flag ord kIceberg
               then do { x \<leftarrow> extra_of (e_store e) ord; Some (x_reserve x, x_peak x) }
               else Some (0, 0));
            let cur_total = o_qty ord + reserve;
            if new_price = o_price ord \<and> new_qty \<le> cur_total
            then do_reduce oid (cur_total - new_qty) e
            else do {
              e1 \<leftarrow> remove_resting ord e;
              e2 \<leftarrow> drop_order oid e1;
              let e3 = emit (Accept oid (o_side ord) new_price new_qty) (emit (Cancelled oid) e2);
              e4 \<leftarrow> place_limit oid (o_side ord) new_price new_qty GTC (o_owner ord) (o_stp ord) peak e3;
              Some (True, e4) } })"

section \<open>The auction uncross\<close>

text \<open>
  Consume \<open>f\<close> from the head order \<open>oid\<close> of level \<open>i\<close>: the displayed clip first, then
  the reserve.  A part-consumed iceberg shows a fresh clip at the back of the level.  The
  result says whether the level emptied.  When the order is spent the code releases its node
  and then reads the node's next link (the pool leaves a freed node's bytes alone); here the
  queue is the level's list, so the order of that release and that read is not represented.
\<close>

definition auction_fill :: "Side \<Rightarrow> nat \<Rightarrow> OrderId \<Rightarrow> Qty \<Rightarrow> Price \<Rightarrow> engine \<Rightarrow> (bool \<times> engine) option" where
  "auction_fill s i oid f px e = do {
     lvl \<leftarrow> level_at (book_of s e) i;
     ord \<leftarrow> lookup (e_store e) oid;
     let from_disp = (if f < o_qty ord then f else o_qty ord);
     let left = f - from_disp;
     let shown = o_qty ord - from_disp;
     st1 \<leftarrow> set_qty (e_store e) oid shown;
     let lvl1 = lvl\<lparr>l_total := l_total lvl - from_disp\<rparr>;
     res \<leftarrow> reserve_of st1 ord;
     let reserve = res - left;
     st2 \<leftarrow> (if flag ord kIceberg then set_reserve st1 ord reserve else Some st1);
     let lvl2 = (if flag ord kIceberg then lvl1\<lparr>l_hidden := l_hidden lvl1 - left\<rparr> else lvl1);
     if flag ord kIceberg \<and> shown = 0 \<and> reserve > 0 then do {
       x \<leftarrow> extra_of st2 ord;
       let clip = (if x_peak x < reserve then x_peak x else reserve);
       st3 \<leftarrow> set_reserve st2 ord (reserve - clip);
       st4 \<leftarrow> set_qty st3 oid clip;
       bk \<leftarrow> put_level i (lvl2\<lparr>l_total := l_total lvl2 + clip, l_hidden := l_hidden lvl2 - clip,
                              l_fifo := tl (l_fifo lvl2) @ [oid]\<rparr>) (book_of s e);
       Some (False, emit (Rested oid (o_side ord) px clip) (set_book s bk (e\<lparr>e_store := st4\<rparr>))) }
     else if shown = 0 then do {
       bk \<leftarrow> put_level i (lvl2\<lparr>l_fifo := tl (l_fifo lvl2), l_count := l_count lvl2 - 1\<rparr>) (book_of s e);
       e1 \<leftarrow> drop_order oid (set_book s bk (e\<lparr>e_store := st2\<rparr>));
       Some (tl (l_fifo lvl2) = [], e1) }
     else do {
       bk \<leftarrow> put_level i lvl2 (book_of s e);
       Some (l_fifo lvl2 = [], set_book s bk (e\<lparr>e_store := st2\<rparr>)) } }"

text \<open>Executable quantity of one level, hidden reserve included.\<close>

definition level_qty :: "level \<Rightarrow> Qty" where
  "level_qty lvl = l_total lvl + l_hidden lvl"

text \<open>Running sums: \<open>supply\<close> from the low end of the overlap, \<open>demand\<close> from the high end.\<close>

fun prefix_sums :: "Qty \<Rightarrow> Qty list \<Rightarrow> Qty list" where
  "prefix_sums acc [] = []"
| "prefix_sums acc (q # qs) = (acc + q) # prefix_sums (acc + q) qs"

definition supply_of :: "level list \<Rightarrow> nat \<Rightarrow> nat \<Rightarrow> Qty list" where
  "supply_of asks lo n = prefix_sums 0 (map (\<lambda>k. level_qty (asks ! (lo + k))) [0..<n])"

definition demand_of :: "level list \<Rightarrow> nat \<Rightarrow> nat \<Rightarrow> Qty list" where
  "demand_of bids lo n = rev (prefix_sums 0 (map (\<lambda>k. level_qty (bids ! (lo + k))) (rev [0..<n])))"

text \<open>
  The choice of the clearing price: one step of the scan.  The accumulator is the best
  index so far with its executed volume and imbalance.
\<close>

definition clearing_step :: "(nat \<Rightarrow> Price) \<Rightarrow> Price option \<Rightarrow> Qty list \<Rightarrow> Qty list \<Rightarrow> nat \<Rightarrow>
    nat \<times> Qty \<times> Qty \<Rightarrow> nat \<times> Qty \<times> Qty" where
  "clearing_step price_at ref_px demand supply k acc =
     (case acc of (best_k, best_exec, best_imb) \<Rightarrow>
        let d = demand ! k; s = supply ! k;
            ex = (if d < s then d else s);
            imb = (if d > s then d - s else s - d);
            better = (ex > best_exec \<or>
              (ex = best_exec \<and> ex > 0 \<and>
                (if imb \<noteq> best_imb then imb < best_imb
                 else case ref_px of
                   None \<Rightarrow> False
                 | Some l \<Rightarrow> \<bar>price_at k - l\<bar> < \<bar>price_at best_k - l\<bar>)))
        in if better then (k, ex, imb) else (best_k, best_exec, best_imb))"

definition pick_clearing :: "(nat \<Rightarrow> Price) \<Rightarrow> Price option \<Rightarrow> Qty list \<Rightarrow> Qty list \<Rightarrow> nat \<Rightarrow> nat \<times> Qty \<times> Qty" where
  "pick_clearing price_at ref_px demand supply n =
     fold (clearing_step price_at ref_px demand supply) [0..<n] (0, 0, 0)"

text \<open>The executable quantity of one order in an auction.\<close>

definition order_total :: "store \<Rightarrow> order \<Rightarrow> Qty option" where
  "order_total st ord = do { r \<leftarrow> reserve_of st ord; Some (o_qty ord + r) }"

partial_function (option) cross_loop :: "int \<Rightarrow> Price \<Rightarrow> Qty \<Rightarrow> engine \<Rightarrow> (Qty \<times> engine) option" where
  "cross_loop p_idx p crossed e = do {
     let bb = bk_best (e_bids e);
     let ba = bk_best (e_asks e);
     if bb \<ge> p_idx \<and> 0 \<le> ba \<and> ba \<le> p_idx then do {
       bl \<leftarrow> level_at (e_bids e) (nat bb);
       al \<leftarrow> level_at (e_asks e) (nat ba);
       if l_fifo bl = [] \<or> l_fifo al = [] then None
       else do {
         let bid = hd (l_fifo bl);
         let aid = hd (l_fifo al);
         b \<leftarrow> lookup (e_store e) bid;
         a \<leftarrow> lookup (e_store e) aid;
         bq \<leftarrow> order_total (e_store e) b;
         aq \<leftarrow> order_total (e_store e) a;
         let f = (if bq < aq then bq else aq);
         let e1 = emit (Traded \<lparr>t_taker = bid, t_maker = aid, t_price = p, t_qty = f, t_side = Buy\<rparr>)
                    (e\<lparr>e_last_px := p, e_has_last := True\<rparr>);
         (bemp, e2) \<leftarrow> auction_fill Buy (nat bb) bid f p e1;
         e3 \<leftarrow> (if bemp then retire_level Buy (nat bb) e2 else Some e2);
         (aemp, e4) \<leftarrow> auction_fill Sell (nat ba) aid f p e3;
         e5 \<leftarrow> (if aemp then retire_level Sell (nat ba) e4 else Some e4);
         cross_loop p_idx p (crossed + f) e5 } }
     else Some (crossed, e) }"

definition do_uncross :: "engine \<Rightarrow> (Qty \<times> engine) option" where
  "do_uncross e =
     (let lo = bk_best (e_asks e); hi = bk_best (e_bids e)
      in if hi < 0 \<or> lo < 0 \<or> hi < lo then Some (0, e)
         else
           let n = nat (hi - lo + 1);
               supply = supply_of (ld_levels (e_asks e)) (nat lo) n;
               demand = demand_of (ld_levels (e_bids e)) (nat lo) n;
               (best_k, best_exec, _) =
                 pick_clearing (\<lambda>k. e_min e + lo + int k)
                   (if e_has_last e then Some (e_last_px e) else None) demand supply n
           in if best_exec = 0 then Some (0, e)
              else cross_loop (lo + int best_k) (e_min e + (lo + int best_k)) 0 e)"

section \<open>Public entry points\<close>

text \<open>
  Every public operation runs its body and then the stop pump; \<open>e_pumping\<close> guards the
  pump against a nested run.
\<close>

definition run :: "(engine \<Rightarrow> ('r \<times> engine) option) \<Rightarrow> engine \<Rightarrow> ('r \<times> engine) option" where
  "run f e = do {
     (r, e1) \<leftarrow> f e;
     if e_pumping e1 then Some (r, e1)
     else do {
       e2 \<leftarrow> pump_stops (e1\<lparr>e_pumping := True\<rparr>);
       Some (r, e2\<lparr>e_pumping := False\<rparr>) } }"

definition submit_limit :: "Side \<Rightarrow> Price \<Rightarrow> Qty \<Rightarrow> TimeInForce \<Rightarrow> OwnerId \<Rightarrow> StpPolicy \<Rightarrow>
    engine \<Rightarrow> (OrderId \<times> engine) option" where
  "submit_limit side price qty tif owner stp = run (do_submit_limit side price qty tif owner stp)"

definition submit_market :: "Side \<Rightarrow> Qty \<Rightarrow> OwnerId \<Rightarrow> StpPolicy \<Rightarrow> engine \<Rightarrow> (Qty \<times> engine) option" where
  "submit_market side qty owner stp = run (do_submit_market side qty owner stp)"

definition submit_iceberg :: "Side \<Rightarrow> Price \<Rightarrow> Qty \<Rightarrow> Qty \<Rightarrow> TimeInForce \<Rightarrow> OwnerId \<Rightarrow> StpPolicy \<Rightarrow>
    engine \<Rightarrow> (OrderId \<times> engine) option" where
  "submit_iceberg side price total_qty display tif owner stp =
     run (do_submit_iceberg side price total_qty display tif owner stp)"

definition submit_stop :: "Side \<Rightarrow> Price \<Rightarrow> Qty \<Rightarrow> OwnerId \<Rightarrow> StpPolicy \<Rightarrow> engine \<Rightarrow> (OrderId \<times> engine) option" where
  "submit_stop side stop_price qty owner stp = run (do_submit_stop side stop_price 0 qty True owner stp)"

definition submit_stop_limit :: "Side \<Rightarrow> Price \<Rightarrow> Price \<Rightarrow> Qty \<Rightarrow> OwnerId \<Rightarrow> StpPolicy \<Rightarrow>
    engine \<Rightarrow> (OrderId \<times> engine) option" where
  "submit_stop_limit side stop_price limit_price qty owner stp =
     run (do_submit_stop side stop_price limit_price qty False owner stp)"

definition cancel :: "OrderId \<Rightarrow> engine \<Rightarrow> (bool \<times> engine) option" where
  "cancel oid = run (cancel_impl oid)"

definition reduce :: "OrderId \<Rightarrow> Qty \<Rightarrow> engine \<Rightarrow> (bool \<times> engine) option" where
  "reduce oid delta = run (do_reduce oid delta)"

definition modify :: "OrderId \<Rightarrow> Price \<Rightarrow> Qty \<Rightarrow> engine \<Rightarrow> (bool \<times> engine) option" where
  "modify oid new_price new_qty = run (do_modify oid new_price new_qty)"

definition halt :: "engine \<Rightarrow> (unit \<times> engine) option" where
  "halt = run (\<lambda>e. Some ((), e\<lparr>e_halted := True\<rparr>))"

definition resume :: "engine \<Rightarrow> (unit \<times> engine) option" where
  "resume = run (\<lambda>e. Some ((), e\<lparr>e_halted := False\<rparr>))"

definition uncross :: "engine \<Rightarrow> (Qty \<times> engine) option" where
  "uncross = run do_uncross"

section \<open>Market data\<close>

definition has_bid :: "engine \<Rightarrow> bool" where
  "has_bid e \<longleftrightarrow> bk_best (e_bids e) \<ge> 0"

definition has_ask :: "engine \<Rightarrow> bool" where
  "has_ask e \<longleftrightarrow> bk_best (e_asks e) \<ge> 0"

definition best_bid :: "engine \<Rightarrow> Price" where
  "best_bid e = e_min e + bk_best (e_bids e)"

definition best_ask :: "engine \<Rightarrow> Price" where
  "best_ask e = e_min e + bk_best (e_asks e)"

definition order_qty :: "engine \<Rightarrow> OrderId \<Rightarrow> Qty" where
  "order_qty e oid = (case lookup (e_store e) oid of
      None \<Rightarrow> 0
    | Some ord \<Rightarrow> if flag ord kStopPending then 0 else o_qty ord)"

definition stop_depth_at :: "engine \<Rightarrow> Side \<Rightarrow> Price \<Rightarrow> Qty option" where
  "stop_depth_at e side p =
     (if \<not> in_band e p \<or> ld_levels (e_stop_bids e) = [] then Some 0
      else map_option l_total (level_at (stops_of side e) (idx e p)))"

definition depth_at :: "engine \<Rightarrow> Side \<Rightarrow> Price \<Rightarrow> Qty option" where
  "depth_at e side p =
     (if \<not> in_band e p then Some 0 else map_option l_total (level_at (book_of side e) (idx e p)))"

definition hidden_at :: "engine \<Rightarrow> Side \<Rightarrow> Price \<Rightarrow> Qty option" where
  "hidden_at e side p =
     (if \<not> in_band e p then Some 0 else map_option l_hidden (level_at (book_of side e) (idx e p)))"

definition order_count_at :: "engine \<Rightarrow> Side \<Rightarrow> Price \<Rightarrow> 32 word option" where
  "order_count_at e side p =
     (if \<not> in_band e p then Some 0 else map_option l_count (level_at (book_of side e) (idx e p)))"

definition open_orders :: "engine \<Rightarrow> nat" where
  "open_orders e = pool_in_use (st_pool (e_store e))"

text \<open>Occupied levels best first, at most \<open>max_levels\<close> of them.\<close>

fun visit_levels :: "Side \<Rightarrow> book \<Rightarrow> Price \<Rightarrow> nat \<Rightarrow> int \<Rightarrow> (Price \<times> Qty \<times> 32 word) list option" where
  "visit_levels side bk mn 0 i = Some []"
| "visit_levels side bk mn (Suc max_levels) i =
     (if i < 0 then Some []
      else do {
        lvl \<leftarrow> level_at bk (nat i);
        j \<leftarrow> next_best side (ld_map bk) i;
        more \<leftarrow> visit_levels side bk mn max_levels j;
        Some ((mn + i, l_total lvl, l_count lvl) # more) })"

definition top_levels :: "engine \<Rightarrow> Side \<Rightarrow> nat \<Rightarrow> (Price \<times> Qty \<times> 32 word) list option" where
  "top_levels e side max_levels =
     (let bk = book_of side e in visit_levels side bk (e_min e) max_levels (bk_best bk))"

text \<open>Every resting order of one side in book priority.\<close>

fun nodes_of :: "store \<Rightarrow> OrderId list \<Rightarrow> order list option" where
  "nodes_of st [] = Some []"
| "nodes_of st (oid # oids) = do {
     ord \<leftarrow> lookup st oid;
     more \<leftarrow> nodes_of st oids;
     Some (ord # more) }"

partial_function (option) visit_orders_from :: "store \<Rightarrow> Side \<Rightarrow> book \<Rightarrow> int \<Rightarrow> order list option" where
  "visit_orders_from st side bk i =
     (if i < 0 then Some []
      else do {
        lvl \<leftarrow> level_at bk (nat i);
        here \<leftarrow> nodes_of st (l_fifo lvl);
        j \<leftarrow> next_best side (ld_map bk) i;
        more \<leftarrow> visit_orders_from st side bk j;
        Some (here @ more) })"

definition visit_orders :: "engine \<Rightarrow> Side \<Rightarrow> (OrderId \<times> Side \<times> Price \<times> Qty) list option" where
  "visit_orders e side = do {
     let bk = book_of side e;
     os \<leftarrow> visit_orders_from (e_store e) side bk (bk_best bk);
     Some (map (\<lambda>n. (o_id n, o_side n, o_price n, o_qty n)) os) }"

partial_function (option) visit_stops_from :: "Side \<Rightarrow> ladder \<Rightarrow> int \<Rightarrow> OrderId list option" where
  "visit_stops_from side ld i =
     (if i < 0 then Some []
      else do {
        lvl \<leftarrow> level_at ld (nat i);
        j \<leftarrow> next_best (opposite side) (ld_map ld) i;
        more \<leftarrow> visit_stops_from side ld j;
        Some (l_fifo lvl @ more) })"

definition visit_stops :: "engine \<Rightarrow> OrderId list option" where
  "visit_stops e =
     (if ld_levels (e_stop_bids e) = [] then Some []
      else do {
        i \<leftarrow> bm_find_ge (ld_map (e_stop_bids e)) 0;
        bs \<leftarrow> visit_stops_from Buy (e_stop_bids e) i;
        j \<leftarrow> bm_find_le (ld_map (e_stop_asks e)) (int (e_n e) - 1);
        ss \<leftarrow> visit_stops_from Sell (e_stop_asks e) j;
        Some (bs @ ss) })"

text \<open>The loops evaluate by their own equations.\<close>

declare sweep_level.simps [code] match_side.simps [code] fillable_from.simps [code]
declare pump_loop.simps [code] cross_loop.simps [code]
declare visit_orders_from.simps [code] visit_stops_from.simps [code]

end
