(* ===== verification/Book_Relation.thy ===== *)
theory Book_Relation
  imports Engine
begin

text \<open>
  What a level, a ladder and a book stand for.  The abstract content of a level is its list
  of logical orders, head first; of a ladder, the list of its levels' contents.  The
  relations below say that the aggregates, the occupancy bitmap and the cached best
  index agree with that content, and that the nodes named by the chains are the live
  nodes of the store.  The update lemmas reduce a change of one level to a statement about
  that level alone.
\<close>

section \<open>Levels\<close>

text \<open>A resting order (or, with \<open>stop\<close>, a parked stop) at price \<open>p\<close> on side \<open>s\<close>.\<close>

definition resting_ok :: "bool \<Rightarrow> Side \<Rightarrow> Price \<Rightarrow> ro \<Rightarrow> bool" where
  "resting_ok stop s p r \<longleftrightarrow> r_stop r = stop \<and> r_side r = s \<and> r_price r = p \<and> 0 < r_qty r \<and>
     unat (r_qty r) + unat (r_reserve r) < 2 ^ 64 \<and> (r_reserve r \<noteq> 0 \<longrightarrow> 0 < r_peak r) \<and>
     (stop \<longrightarrow> r_reserve r = 0)"

definition level_rel :: "bool \<Rightarrow> Side \<Rightarrow> Price \<Rightarrow> (OrderId \<Rightarrow> ro option) \<Rightarrow> level \<Rightarrow> ro list \<Rightarrow> bool" where
  "level_rel stop s p v lvl os \<longleftrightarrow>
     l_fifo lvl = map r_id os \<and> distinct (l_fifo lvl) \<and>
     (\<forall>r\<in>set os. v (r_id r) = Some r \<and> resting_ok stop s p r) \<and>
     l_total lvl = sum_list (map r_qty os) \<and> l_hidden lvl = sum_list (map r_reserve os) \<and>
     l_count lvl = of_nat (length os)"

lemma level_rel_empty: "level_rel stop s p v level_empty []"
  by (simp add: level_rel_def level_empty_def)

lemma level_relD:
  assumes "level_rel stop s p v lvl os"
  shows "l_fifo lvl = map r_id os" "distinct (map r_id os)"
    "\<And>r. r \<in> set os \<Longrightarrow> v (r_id r) = Some r" "\<And>r. r \<in> set os \<Longrightarrow> resting_ok stop s p r"
    "l_total lvl = sum_list (map r_qty os)" "l_hidden lvl = sum_list (map r_reserve os)"
    "l_count lvl = of_nat (length os)"
  using assms by (auto simp: level_rel_def)

text \<open>
  A change of the store that turns the content \<open>os\<close> of one level into \<open>os'\<close>: dropped
  orders die, added ones were not alive before, and nothing else changes.
\<close>

definition relevel :: "(OrderId \<Rightarrow> ro option) \<Rightarrow> (OrderId \<Rightarrow> ro option) \<Rightarrow> ro list \<Rightarrow> ro list \<Rightarrow> bool" where
  "relevel v v' os os' \<longleftrightarrow>
     (\<forall>oid. oid \<notin> r_id ` set os \<longrightarrow> oid \<notin> r_id ` set os' \<longrightarrow> v' oid = v oid) \<and>
     (\<forall>oid \<in> r_id ` set os - r_id ` set os'. v' oid = None) \<and>
     (\<forall>oid \<in> r_id ` set os' - r_id ` set os. v oid = None)"

lemma relevel_same: "relevel v v os os"
  by (auto simp: relevel_def)

text \<open>Two different levels share no order.\<close>

lemma level_rel_disjoint:
  assumes "level_rel k s p v lvl os" "level_rel k' s' p' v lvl' os'" "(k, s, p) \<noteq> (k', s', p')"
  shows "r_id ` set os \<inter> r_id ` set os' = {}"
proof -
  have "False" if "r \<in> set os" "r' \<in> set os'" "r_id r = r_id r'" for r r'
  proof -
    have "Some r = Some r'"
      using level_relD(3) [OF assms(1) that(1)] level_relD(3) [OF assms(2) that(2)]
      unfolding that(3) by (rule trans [OF sym])
    then have "resting_ok k s p r" "resting_ok k' s' p' r"
      using level_relD(4) [OF assms(1) that(1)] level_relD(4) [OF assms(2) that(2)] by simp_all
    with assms(3) show False unfolding resting_ok_def by blast
  qed
  then show ?thesis by auto
qed

lemma level_rel_frame:
  assumes m: "level_rel k s p v lvl m" and l: "level_rel k' s' p' v lvl' os"
    and diff: "(k, s, p) \<noteq> (k', s', p')" and ch: "relevel v v' os os'"
  shows "level_rel k s p v' lvl m"
proof -
  have "v' (r_id r) = v (r_id r)" if r: "r \<in> set m" for r
  proof -
    have "r_id r \<notin> r_id ` set os" using level_rel_disjoint [OF m l diff] r by auto
    moreover have "r_id r \<notin> r_id ` set os'"
      using ch calculation level_relD(3) [OF m r] unfolding relevel_def by fastforce
    ultimately show ?thesis using ch by (simp add: relevel_def)
  qed
  with m show ?thesis by (auto simp: level_rel_def)
qed

section \<open>Changing a level\<close>

text \<open>A new order joins the back.\<close>

lemma relevel_append:
  "v (r_id r) = None \<Longrightarrow> relevel v (v(r_id r \<mapsto> r)) os (os @ [r])"
  by (auto simp: relevel_def)

lemma level_rel_append:
  assumes l: "level_rel k s p v lvl os" and new: "v (r_id r) = None" and ok: "resting_ok k s p r"
    and lvl': "l_fifo lvl' = l_fifo lvl @ [r_id r]" "l_total lvl' = l_total lvl + r_qty r"
      "l_hidden lvl' = l_hidden lvl + r_reserve r" "l_count lvl' = l_count lvl + 1"
  shows "level_rel k s p (v(r_id r \<mapsto> r)) lvl' (os @ [r])"
proof -
  have ne: "r_id r \<notin> r_id ` set os"
  proof
    assume "r_id r \<in> r_id ` set os"
    then obtain x where "x \<in> set os" "r_id x = r_id r" by auto
    with level_relD(3) [OF l this(1)] new show False by simp
  qed
  show ?thesis
    unfolding level_rel_def lvl'
  proof (intro conjI)
    show "\<forall>x\<in>set (os @ [r]). (v(r_id r \<mapsto> r)) (r_id x) = Some x \<and> resting_ok k s p x"
      using level_relD(3,4) [OF l] ne ok by (auto simp: image_iff)
  qed (use level_relD [OF l] ne in auto)
qed

text \<open>An order leaves.\<close>

lemma filter_other_ids:
  "distinct (map r_id (y # os)) \<Longrightarrow> filter (\<lambda>x. r_id x \<noteq> r_id y) os = os"
  by (auto simp: filter_id_conv image_iff)

lemma sum_list_filter_id:
  fixes f :: "ro \<Rightarrow> 'a::ab_group_add"
  assumes "distinct (map r_id os)" "r \<in> set os"
  shows "sum_list (map f (filter (\<lambda>x. r_id x \<noteq> r_id r) os)) = sum_list (map f os) - f r"
  using assms
proof (induction os)
  case (Cons y os)
  show ?case
  proof (cases "r = y")
    case True
    with filter_other_ids [OF Cons.prems(1)] show ?thesis by simp
  next
    case False
    with Cons show ?thesis by (auto simp: algebra_simps)
  qed
qed simp

lemma length_filter_id:
  assumes "distinct (map r_id os)" "r \<in> set os"
  shows "Suc (length (filter (\<lambda>x. r_id x \<noteq> r_id r) os)) = length os"
  using assms
proof (induction os)
  case (Cons y os)
  show ?case
  proof (cases "r = y")
    case True
    with filter_other_ids [OF Cons.prems(1)] show ?thesis by simp
  next
    case False
    with Cons show ?thesis by auto
  qed
qed simp

lemma remove1_id:
  assumes "distinct (map r_id os)"
  shows "remove1 (r_id r) (map r_id os) = map r_id (filter (\<lambda>x. r_id x \<noteq> r_id r) os)"
  using assms
proof (induction os)
  case (Cons y os)
  then show ?case using filter_other_ids [OF Cons.prems] by auto
qed simp

lemma relevel_remove:
  assumes "r \<in> set os"
  shows "relevel v (v(r_id r := None)) os (filter (\<lambda>x. r_id x \<noteq> r_id r) os)"
  using assms unfolding relevel_def by (auto simp: image_iff)

lemma level_rel_remove:
  assumes l: "level_rel k s p v lvl os" and r: "r \<in> set os"
    and lvl': "l_fifo lvl' = remove1 (r_id r) (l_fifo lvl)" "l_total lvl' = l_total lvl - r_qty r"
      "l_hidden lvl' = l_hidden lvl - r_reserve r" "l_count lvl' = l_count lvl - 1"
  shows "level_rel k s p (v(r_id r := None)) lvl' (filter (\<lambda>x. r_id x \<noteq> r_id r) os)"
proof -
  note d = level_relD [OF l]
  have cnt: "of_nat (length (filter (\<lambda>x. r_id x \<noteq> r_id r) os)) = (of_nat (length os) :: 32 word) - 1"
    unfolding length_filter_id [OF d(2) r, symmetric] by simp
  show ?thesis
    unfolding level_rel_def lvl' d(1,5-7) remove1_id [OF d(2)]
      sum_list_filter_id [OF d(2) r] cnt
    using d(2-4) by (auto simp: distinct_map_filter)
qed

text \<open>The head leaves.\<close>

lemma filter_head:
  "distinct (map r_id (r # os)) \<Longrightarrow> filter (\<lambda>x. r_id x \<noteq> r_id r) (r # os) = os"
  by (auto simp: filter_id_conv image_iff)

lemma relevel_tl:
  assumes "distinct (map r_id (r # os))"
  shows "relevel v (v(r_id r := None)) (r # os) os"
  using relevel_remove [of r "r # os" v] filter_head [OF assms] by simp

lemma level_rel_tl:
  assumes l: "level_rel k s p v lvl (r # os)"
    and lvl': "l_fifo lvl' = tl (l_fifo lvl)" "l_total lvl' = l_total lvl - r_qty r"
      "l_hidden lvl' = l_hidden lvl - r_reserve r" "l_count lvl' = l_count lvl - 1"
  shows "level_rel k s p (v(r_id r := None)) lvl' os"
proof -
  note d = level_relD(1,2) [OF l]
  have "level_rel k s p (v(r_id r := None)) lvl' (filter (\<lambda>x. r_id x \<noteq> r_id r) (r # os))"
    by (rule level_rel_remove [OF l]) (use lvl' d(1) in simp_all)
  then show ?thesis unfolding filter_head [OF d(2)] .
qed

text \<open>An order changes in place, or the head moves to the back.\<close>

lemma relevel_replace:
  assumes "r_id r \<in> r_id ` set os" "r_id ` set os' = r_id ` set os"
  shows "relevel v (v(r_id r \<mapsto> r')) os os'"
  using assms by (auto simp: relevel_def)

definition subst_id :: "ro \<Rightarrow> ro list \<Rightarrow> ro list" where
  "subst_id r = map (\<lambda>x. if r_id x = r_id r then r else x)"

lemma subst_id_head: "distinct (map r_id (r # os)) \<Longrightarrow> r_id r' = r_id r \<Longrightarrow> subst_id r' (r # os) = r' # os"
  unfolding subst_id_def by (induction os) auto

lemma subst_id_ids [simp]: "map r_id (subst_id r os) = map r_id os" "length (subst_id r os) = length os"
  by (auto simp: subst_id_def)

lemma set_subst_id:
  "x \<in> set (subst_id r os) \<Longrightarrow> x = r \<or> x \<in> set os \<and> r_id x \<noteq> r_id r"
  by (auto simp: subst_id_def split: if_splits)

lemma sum_list_subst_id:
  fixes f :: "ro \<Rightarrow> 'a::ab_group_add"
  assumes "distinct (map r_id os)" "r \<in> set os" "r_id r' = r_id r"
  shows "sum_list (map f (subst_id r' os)) = sum_list (map f os) - f r + f r'"
  using assms
proof (induction os)
  case (Cons y os)
  show ?case
  proof (cases "r = y")
    case True
    with subst_id_head [OF _ Cons.prems(3)] Cons.prems(1) show ?thesis by simp
  next
    case False
    then have "r \<in> set os" "r_id y \<noteq> r_id r'" using Cons.prems by auto
    then have "subst_id r' (y # os) = y # subst_id r' os" "r \<in> set os" by (simp_all add: subst_id_def)
    with Cons show ?thesis by (simp add: algebra_simps)
  qed
qed simp

lemma level_rel_replace:
  assumes l: "level_rel k s p v lvl os" and r: "r \<in> set os" and ok: "resting_ok k s p r'" "r_id r' = r_id r"
    and lvl': "l_fifo lvl' = l_fifo lvl" "l_total lvl' = l_total lvl - r_qty r + r_qty r'"
      "l_hidden lvl' = l_hidden lvl - r_reserve r + r_reserve r'" "l_count lvl' = l_count lvl"
  shows "level_rel k s p (v(r_id r \<mapsto> r')) lvl' (subst_id r' os)"
proof -
  note d = level_relD [OF l]
  show ?thesis
    unfolding level_rel_def lvl' d(1,5-7) sum_list_subst_id [OF d(2) r ok(2)] subst_id_ids
    using d(2-4) ok by (auto dest!: set_subst_id)
qed

lemma level_rel_head:
  assumes l: "level_rel k s p v lvl (r # os)" and ok: "resting_ok k s p r'" "r_id r' = r_id r"
    and lvl': "l_fifo lvl' = l_fifo lvl" "l_total lvl' = l_total lvl - r_qty r + r_qty r'"
      "l_hidden lvl' = l_hidden lvl - r_reserve r + r_reserve r'" "l_count lvl' = l_count lvl"
  shows "level_rel k s p (v(r_id r \<mapsto> r')) lvl' (r' # os)"
proof -
  have "level_rel k s p (v(r_id r \<mapsto> r')) lvl' (subst_id r' (r # os))"
    by (rule level_rel_replace [OF l _ ok lvl']) simp
  then show ?thesis unfolding subst_id_head [OF level_relD(2) [OF l] ok(2)] .
qed

lemma level_rel_rotate:
  assumes l: "level_rel k s p v lvl (r # os)" and ok: "resting_ok k s p r'" "r_id r' = r_id r"
    and lvl': "l_fifo lvl' = tl (l_fifo lvl) @ [r_id r]" "l_total lvl' = l_total lvl - r_qty r + r_qty r'"
      "l_hidden lvl' = l_hidden lvl - r_reserve r + r_reserve r'" "l_count lvl' = l_count lvl"
  shows "level_rel k s p (v(r_id r \<mapsto> r')) lvl' (os @ [r'])"
proof -
  have "level_rel k s p (v(r_id r \<mapsto> r')) (lvl'\<lparr>l_fifo := l_fifo lvl\<rparr>) (r' # os)"
    by (rule level_rel_head [OF l ok]) (use lvl' in simp_all)
  then show ?thesis
    using lvl'(1) ok(2) unfolding level_rel_def by auto
qed

section \<open>Ladders\<close>

definition occ :: "ro list list \<Rightarrow> nat set" where
  "occ oss = {i. i < length oss \<and> oss ! i \<noteq> []}"

text \<open>
  While a sweep stands on a level, its bit may outlive its last order; \<open>D\<close> is the set of
  levels whose bit is set on that account, empty between operations.
\<close>

definition ladder_rel :: "bool \<Rightarrow> Side \<Rightarrow> Price \<Rightarrow> nat \<Rightarrow> (OrderId \<Rightarrow> ro option) \<Rightarrow> nat set \<Rightarrow>
    'a ladder_scheme \<Rightarrow> ro list list \<Rightarrow> bool" where
  "ladder_rel stop s mn n v D ld oss \<longleftrightarrow>
     length (ld_levels ld) = n \<and> length oss = n \<and>
     (\<forall>i<n. level_rel stop s (mn + int i) v (ld_levels ld ! i) (oss ! i)) \<and>
     bm_ok (ld_map ld) \<and> bm_n (ld_map ld) = n \<and> bm_bits (ld_map ld) = occ oss \<union> D"

lemma ladder_relD:
  assumes "ladder_rel stop s mn n v D ld oss"
  shows "length (ld_levels ld) = n" "length oss = n"
    "\<And>i. i < n \<Longrightarrow> level_rel stop s (mn + int i) v (ld_levels ld ! i) (oss ! i)"
    "bm_ok (ld_map ld)" "bm_n (ld_map ld) = n" "bm_bits (ld_map ld) = occ oss \<union> D"
  using assms by (auto simp: ladder_rel_def)

lemma ladder_rel_level_at:
  "ladder_rel stop s mn n v D ld oss \<Longrightarrow> i < n \<Longrightarrow> level_at ld i = Some (ld_levels ld ! i)"
  by (simp add: level_at_def ladder_rel_def vec_at_in)

lemma ladder_rel_put_level:
  "ladder_rel stop s mn n v D ld oss \<Longrightarrow> i < n \<Longrightarrow>
   put_level i lvl ld = Some (ld\<lparr>ld_levels := (ld_levels ld)[i := lvl]\<rparr>)"
  by (simp add: put_level_def ladder_rel_def vec_set_in)

lemma ladder_rel_frame:
  assumes m: "ladder_rel k s mn n v D ld oss" and l: "level_rel k' s' p' v lvl' os"
    and diff: "(k, s) \<noteq> (k', s')" and ch: "relevel v v' os os'"
  shows "ladder_rel k s mn n v' D ld oss"
  unfolding ladder_rel_def
proof (intro conjI allI impI)
  fix i assume "i < n"
  then show "level_rel k s (mn + int i) v' (ld_levels ld ! i) (oss ! i)"
    by (intro level_rel_frame [OF ladder_relD(3) [OF m] l _ ch]) (use diff in auto)
qed (use m in \<open>auto simp: ladder_rel_def\<close>)

lemma ladder_rel_update:
  assumes m: "ladder_rel k s mn n v D ld oss" and i: "i < n" and ch: "relevel v v' (oss ! i) os'"
    and lvl: "level_rel k s (mn + int i) v' lvl' os'"
    and bm: "bm_ok bm" "bm_n bm = n" "bm_bits bm = occ (oss[i := os']) \<union> D'"
    and ld': "ld_levels ld' = (ld_levels ld)[i := lvl']" "ld_map ld' = bm"
  shows "ladder_rel k s mn n v' D' ld' (oss[i := os'])"
  unfolding ladder_rel_def
proof (intro conjI allI impI)
  fix j assume j: "j < n"
  show "level_rel k s (mn + int j) v' (ld_levels ld' ! j) (oss[i := os'] ! j)"
  proof (cases "j = i")
    case True
    with i lvl ladder_relD(1,2) [OF m] show ?thesis by (simp add: ld')
  next
    case False
    then have "level_rel k s (mn + int j) v' (ld_levels ld ! j) (oss ! j)"
      by (intro level_rel_frame [OF ladder_relD(3) [OF m j] ladder_relD(3) [OF m i] _ ch]) auto
    with False show ?thesis by (simp add: ld')
  qed
qed (use m bm in \<open>auto simp: ladder_rel_def ld'\<close>)

lemma occ_keep: "i < length oss \<Longrightarrow> os' \<noteq> [] \<Longrightarrow> occ (oss[i := os']) = insert i (occ oss)"
  by (auto simp: occ_def nth_list_update split: if_splits)

lemma occ_empty: "occ (oss[i := []]) = occ oss - {i}"
proof (rule set_eqI)
  fix x show "x \<in> occ (oss[i := []]) \<longleftrightarrow> x \<in> occ oss - {i}"
    by (cases "x = i") (auto simp: occ_def)
qed

lemma occ_insert: "insert i (occ (oss[i := os'])) = insert i (occ oss)" if "i < length oss"
  using that by (auto simp: occ_def nth_list_update split: if_splits)

lemma occ_replicate [simp]: "occ (replicate n []) = {}"
  by (auto simp: occ_def)

lemma occ_less: "i \<in> occ oss \<Longrightarrow> i < length oss"
  by (simp add: occ_def)

lemma ladder_rel_new:
  assumes "n < 2 ^ 63" "ld_levels ld = replicate n level_empty" "ld_map ld = bm_new n"
  shows "ladder_rel stop s mn n v {} ld (replicate n [])"
  using assms by (auto simp: ladder_rel_def level_rel_empty bm_ok_new)

section \<open>Books\<close>

definition best_rel :: "Side \<Rightarrow> nat set \<Rightarrow> int \<Rightarrow> bool" where
  "best_rel s S b \<longleftrightarrow> (case s of Buy \<Rightarrow> is_max S b | Sell \<Rightarrow> is_min S b)"

definition book_rel :: "Side \<Rightarrow> Price \<Rightarrow> nat \<Rightarrow> (OrderId \<Rightarrow> ro option) \<Rightarrow> nat set \<Rightarrow> book \<Rightarrow> ro list list \<Rightarrow> bool" where
  "book_rel s mn n v D bk oss \<longleftrightarrow>
     ladder_rel False s mn n v D bk oss \<and> best_rel s (occ oss \<union> D) (bk_best bk)"

lemma book_relD:
  assumes "book_rel s mn n v D bk oss"
  shows "ladder_rel False s mn n v D bk oss" "best_rel s (occ oss \<union> D) (bk_best bk)"
  using assms by (auto simp: book_rel_def)

text \<open>Is level \<open>i\<close> at least as good as level \<open>j\<close> for a resting order of side \<open>s\<close>?\<close>

definition at_least :: "Side \<Rightarrow> nat \<Rightarrow> nat \<Rightarrow> bool" where
  "at_least s i j \<longleftrightarrow> (case s of Buy \<Rightarrow> j \<le> i | Sell \<Rightarrow> i \<le> j)"

lemma best_rel_iff:
  "best_rel s S b \<longleftrightarrow> (if S = {} then b = - 1 else \<exists>k\<in>S. b = int k \<and> (\<forall>j\<in>S. at_least s k j))"
  by (cases s) (simp_all add: best_rel_def is_max_def is_min_def at_least_def)

lemma best_rel_cases:
  assumes "best_rel s S b"
  obtains (none) "b = - 1" "S = {}"
  | (some) k where "b = int k" "k \<in> S" "\<And>j. j \<in> S \<Longrightarrow> at_least s k j"
  using assms unfolding best_rel_iff by (cases "S = {}") auto

lemma best_relI: "k \<in> S \<Longrightarrow> (\<And>j. j \<in> S \<Longrightarrow> at_least s k j) \<Longrightarrow> best_rel s S (int k)"
  unfolding best_rel_iff by auto

lemma best_rel_empty [simp]: "best_rel s {} b \<longleftrightarrow> b = - 1"
  by (simp add: best_rel_iff)

lemma best_rel_in: "best_rel s S b \<Longrightarrow> 0 \<le> b \<Longrightarrow> nat b \<in> S"
  by (erule best_rel_cases) auto

lemma at_least_refl [simp]: "at_least s i i"
  by (cases s) (simp_all add: at_least_def)

lemma at_least_trans: "at_least s i j \<Longrightarrow> at_least s j k \<Longrightarrow> at_least s i k"
  by (cases s) (auto simp: at_least_def)

lemma at_least_total: "at_least s i j \<or> at_least s j i"
  by (cases s) (auto simp: at_least_def)

lemma improves_iff:
  "improves s (int i) (int k) \<longleftrightarrow> \<not> at_least s k i"
  by (cases s) (auto simp: improves_def at_least_def)

text \<open>Linking an order at a level: the cached best follows the occupied set.\<close>

lemma best_rel_link:
  assumes "best_rel s S b"
  shows "best_rel s (insert i S) (if improves s (int i) b then int i else b)"
  using assms
proof (cases rule: best_rel_cases)
  case none
  then have "improves s (int i) b" by (cases s) (simp_all add: improves_def)
  with none show ?thesis by (auto intro: best_relI)
next
  case (some k)
  show ?thesis
  proof (cases "at_least s k i")
    case True
    with some have "best_rel s (insert i S) (int k)" by (intro best_relI) auto
    with True some(1) show ?thesis by (simp add: improves_iff)
  next
    case False
    have "at_least s i j" if "j \<in> insert i S" for j
      using that some(3) [of j] False at_least_total [of s k i] by (auto intro: at_least_trans)
    then have "best_rel s (insert i S) (int i)" by (intro best_relI) auto
    with False some(1) show ?thesis by (simp add: improves_iff)
  qed
qed

text \<open>Retiring the best level: what the scan past it finds is the new best.\<close>

lemma retire_best:
  assumes ok: "bm_ok m" "k < bm_n m" and best: "best_rel s (bm_bits m) (int k)"
  shows "\<exists>m' b. bm_clear m k = Some m' \<and> next_best s m' (int k) = Some b \<and> bm_ok m' \<and>
    bm_n m' = bm_n m \<and> bm_bits m' = bm_bits m - {k} \<and> best_rel s (bm_bits m') b"
proof -
  have all: "\<forall>j\<in>bm_bits m. at_least s k j" using best by (cases rule: best_rel_cases) auto
  show ?thesis
  proof (cases s)
    case Buy
    with bm.retire_highest [OF ok] all show ?thesis
      by (simp add: at_least_def next_best_def best_rel_def)
  next
    case Sell
    with bm.retire_lowest [OF ok] all show ?thesis
      by (simp add: at_least_def next_best_def best_rel_def)
  qed
qed

lemma best_rel_remove:
  assumes "best_rel s S (int k)" "i \<noteq> k"
  shows "best_rel s (S - {i}) (int k)"
  using assms(1)
proof (cases rule: best_rel_cases)
  case (some k')
  with assms(2) show ?thesis by (intro best_relI) auto
qed auto

end
