(* ===== verification/Engine_Spec.thy ===== *)
theory Engine_Spec
  imports Engine
begin

text \<open>
  The abstract engine: what \<^verbatim>\<open>MatchingEngine\<close> promises, without the flat array's
  bitmap and cached best, the aggregates, the node store, the side table and the pool.
  Each level of a book is the list of its orders in time priority; a matching pass is a
  recursion over the levels in price priority.  It plays the part of the naive model in
  \<^verbatim>\<open>tests/reference_engine.hpp\<close>: same operations, same events, no machinery.
\<close>

section \<open>State\<close>

record astate =
  a_min :: Price
  a_n :: nat
  a_books :: "Side \<Rightarrow> ro list list"
  a_stops :: "Side \<Rightarrow> ro list list"
  a_next :: OrderId
  a_last :: Price
  a_has_last :: bool
  a_pumping :: bool
  a_halted :: bool
  a_stp_halt :: bool
  a_tape :: "event list"

definition a_emit :: "event \<Rightarrow> astate \<Rightarrow> astate" where
  "a_emit ev a = a\<lparr>a_tape := a_tape a @ [ev]\<rparr>"

definition a_level :: "Side \<Rightarrow> nat \<Rightarrow> ro list \<Rightarrow> astate \<Rightarrow> astate" where
  "a_level s i os a = a\<lparr>a_books := (a_books a)(s := (a_books a s)[i := os])\<rparr>"

definition a_stop_level :: "Side \<Rightarrow> nat \<Rightarrow> ro list \<Rightarrow> astate \<Rightarrow> astate" where
  "a_stop_level s i os a = a\<lparr>a_stops := (a_stops a)(s := (a_stops a s)[i := os])\<rparr>"

definition a_idx :: "astate \<Rightarrow> Price \<Rightarrow> nat" where
  "a_idx a p = nat (p - a_min a)"

definition a_in_band :: "astate \<Rightarrow> Price \<Rightarrow> bool" where
  "a_in_band a p \<longleftrightarrow> a_min a \<le> p \<and> p < a_min a + int (a_n a)"

definition a_fresh :: "astate \<Rightarrow> OrderId \<times> astate" where
  "a_fresh a = (a_next a, a\<lparr>a_next := Suc (a_next a)\<rparr>)"

definition all_orders :: "astate \<Rightarrow> ro set" where
  "all_orders a = (\<Union>s. \<Union>i<a_n a. set (a_books a s ! i) \<union> set (a_stops a s ! i))"

definition find_order :: "OrderId \<Rightarrow> astate \<Rightarrow> ro \<Rightarrow> bool" where
  "find_order oid a r \<longleftrightarrow> r \<in> all_orders a \<and> r_id r = oid"

section \<open>Resting\<close>

definition new_order :: "OrderId \<Rightarrow> Side \<Rightarrow> Price \<Rightarrow> Qty \<Rightarrow> OwnerId \<Rightarrow> StpPolicy \<Rightarrow> Qty \<Rightarrow> ro" where
  "new_order oid side price qty owner stp peak =
     (let ice = (peak \<noteq> 0 \<and> qty > peak)
      in \<lparr>r_id = oid, r_side = side, r_price = price, r_qty = (if ice then peak else qty),
          r_reserve = (if ice then qty - peak else 0), r_peak = (if ice then peak else 0),
          r_owner = owner, r_stp = stp, r_stop = False, r_market = False, r_limit = 0\<rparr>)"

definition a_rest :: "OrderId \<Rightarrow> Side \<Rightarrow> Price \<Rightarrow> Qty \<Rightarrow> OwnerId \<Rightarrow> StpPolicy \<Rightarrow> Qty \<Rightarrow> astate \<Rightarrow> astate" where
  "a_rest oid side price qty owner stp peak a =
     (let r = new_order oid side price qty owner stp peak; i = a_idx a price
      in a_emit (Rested oid side price (r_qty r)) (a_level side i (a_books a side ! i @ [r]) a))"

definition new_stop :: "OrderId \<Rightarrow> Side \<Rightarrow> Price \<Rightarrow> Price \<Rightarrow> Qty \<Rightarrow> bool \<Rightarrow> OwnerId \<Rightarrow> StpPolicy \<Rightarrow> ro" where
  "new_stop oid side stop_price limit_price qty is_market owner stp =
     \<lparr>r_id = oid, r_side = side, r_price = stop_price, r_qty = qty, r_reserve = 0, r_peak = 0,
      r_owner = owner, r_stp = stp, r_stop = True, r_market = is_market,
      r_limit = (if is_market then 0 else limit_price)\<rparr>"

definition a_rest_stop :: "OrderId \<Rightarrow> Side \<Rightarrow> Price \<Rightarrow> Price \<Rightarrow> Qty \<Rightarrow> bool \<Rightarrow> OwnerId \<Rightarrow> StpPolicy \<Rightarrow>
    astate \<Rightarrow> astate" where
  "a_rest_stop oid side stop_price limit_price qty is_market owner stp a =
     (let r = new_stop oid side stop_price limit_price qty is_market owner stp;
          i = a_idx a stop_price
      in a_stop_level side i (a_stops a side ! i @ [r]) a)"

text \<open>Remove an order, resting or parked, from where it is.\<close>

definition a_remove :: "ro \<Rightarrow> astate \<Rightarrow> astate" where
  "a_remove r a =
     (let i = a_idx a (r_price r); keep = filter (\<lambda>x. r_id x \<noteq> r_id r)
      in if r_stop r then a_stop_level (r_side r) i (keep (a_stops a (r_side r) ! i)) a
         else a_level (r_side r) i (keep (a_books a (r_side r) ! i)) a)"

section \<open>Matching\<close>

text \<open>The next clip of an iceberg whose displayed quantity is spent.\<close>

definition refill :: "ro \<Rightarrow> ro" where
  "refill r =
     (let clip = (if r_peak r < r_reserve r then r_peak r else r_reserve r)
      in r\<lparr>r_qty := clip, r_reserve := r_reserve r - clip\<rparr>)"

lemma unat_less_sub: "0 < (f :: 'a::len word) \<Longrightarrow> f \<le> q \<Longrightarrow> unat (q - f) < unat q"
  by (simp add: unat_sub word_le_nat_alt word_less_nat_alt)

text \<open>
  One level under an incoming order: remaining quantity, whether self-trade prevention
  stopped the taker, the events, and what is left of the level.
\<close>

function a_sweep :: "OrderId \<Rightarrow> Price \<Rightarrow> Side \<Rightarrow> OwnerId \<Rightarrow> StpPolicy \<Rightarrow> Qty \<Rightarrow> ro list \<Rightarrow>
    Qty \<times> bool \<times> event list \<times> ro list" where
  "a_sweep taker px ts owner stp q [] = (q, False, [], [])"
| "a_sweep taker px ts owner stp q (r # os) =
     (if q = 0 \<or> r_qty r = 0 then (q, False, [], r # os)
      else if owner \<noteq> 0 \<and> r_owner r = owner then
        (case stp of
           CancelTaker \<Rightarrow> (q, True, [], r # os)
         | CancelBoth \<Rightarrow> (q, True, [Cancelled (r_id r)], os)
         | CancelMaker \<Rightarrow>
             (let (q', h, evs, os') = a_sweep taker px ts owner stp q os
              in (q', h, Cancelled (r_id r) # evs, os')))
      else
        let fill = (if q < r_qty r then q else r_qty r);
            tr = Traded \<lparr>t_taker = taker, t_maker = r_id r, t_price = px, t_qty = fill, t_side = ts\<rparr>
        in if fill \<noteq> r_qty r then (q - fill, False, [tr], r\<lparr>r_qty := r_qty r - fill\<rparr> # os)
           else if r_reserve r > 0 then
             (let nx = refill r;
                  (q', h, evs, os') = a_sweep taker px ts owner stp (q - fill) (os @ [nx])
              in (q', h, tr # Rested (r_id r) (r_side r) px (r_qty nx) # evs, os'))
           else
             (let (q', h, evs, os') = a_sweep taker px ts owner stp (q - fill) os
              in (q', h, tr # evs, os')))"
  by pat_completeness auto

termination
  by (relation "measures [\<lambda>(taker, px, ts, owner, stp, q, os). unat q,
      \<lambda>(taker, px, ts, owner, stp, q, os). length os]")
     (auto simp: word_gt_0 not_less intro!: unat_less_sub split: if_splits)

declare a_sweep.simps(2) [simp del]

text \<open>The cases of a sweep as an induction rule: how it ends, and how it goes on.\<close>

abbreviation trade_of :: "OrderId \<Rightarrow> Price \<Rightarrow> Side \<Rightarrow> ro \<Rightarrow> Qty \<Rightarrow> event" where
  "trade_of taker px ts r f \<equiv>
     Traded \<lparr>t_taker = taker, t_maker = r_id r, t_price = px, t_qty = f, t_side = ts\<rparr>"

lemma a_sweep_rule [case_names stop taker both maker part refill gone]:
  assumes stop: "\<And>q os. q = 0 \<or> os = [] \<or> r_qty (hd os) = 0 \<Longrightarrow> P q os (q, False, [], os)"
    and taker: "\<And>q r os. q \<noteq> 0 \<Longrightarrow> owner \<noteq> 0 \<Longrightarrow> r_owner r = owner \<Longrightarrow> stp = CancelTaker \<Longrightarrow>
      P q (r # os) (q, True, [], r # os)"
    and both: "\<And>q r os. q \<noteq> 0 \<Longrightarrow> owner \<noteq> 0 \<Longrightarrow> r_owner r = owner \<Longrightarrow> stp = CancelBoth \<Longrightarrow>
      P q (r # os) (q, True, [Cancelled (r_id r)], os)"
    and maker: "\<And>q r os q' h evs os'. q \<noteq> 0 \<Longrightarrow> owner \<noteq> 0 \<Longrightarrow> r_owner r = owner \<Longrightarrow> stp = CancelMaker \<Longrightarrow>
      P q os (q', h, evs, os') \<Longrightarrow> P q (r # os) (q', h, Cancelled (r_id r) # evs, os')"
    and part: "\<And>q r os. q \<noteq> 0 \<Longrightarrow> owner = 0 \<or> r_owner r \<noteq> owner \<Longrightarrow> q < r_qty r \<Longrightarrow>
      P q (r # os) (0, False, [trade_of taker px ts r q], r\<lparr>r_qty := r_qty r - q\<rparr> # os)"
    and refill: "\<And>q r os q' h evs os'. q \<noteq> 0 \<Longrightarrow> owner = 0 \<or> r_owner r \<noteq> owner \<Longrightarrow> r_qty r \<noteq> 0 \<Longrightarrow>
      r_qty r \<le> q \<Longrightarrow> r_reserve r \<noteq> 0 \<Longrightarrow> P (q - r_qty r) (os @ [refill r]) (q', h, evs, os') \<Longrightarrow>
      P q (r # os) (q', h, trade_of taker px ts r (r_qty r) # Rested (r_id r) (r_side r) px (r_qty (refill r)) # evs, os')"
    and gone: "\<And>q r os q' h evs os'. q \<noteq> 0 \<Longrightarrow> owner = 0 \<or> r_owner r \<noteq> owner \<Longrightarrow> r_qty r \<noteq> 0 \<Longrightarrow>
      r_qty r \<le> q \<Longrightarrow> r_reserve r = 0 \<Longrightarrow> P (q - r_qty r) os (q', h, evs, os') \<Longrightarrow>
      P q (r # os) (q', h, trade_of taker px ts r (r_qty r) # evs, os')"
  shows "P q os (a_sweep taker px ts owner stp q os)"
proof (induction taker \<equiv> taker px \<equiv> px ts \<equiv> ts owner \<equiv> owner stp \<equiv> stp q os rule: a_sweep.induct)
  case (1 q)
  then show ?case using stop [of q "[]"] by (simp add: a_sweep.simps)
next
  case (2 q r os)
  show ?case
  proof (cases "q = 0 \<or> r_qty r = 0")
    case True
    then show ?thesis using stop [of q "r # os"] by (auto simp: a_sweep.simps)
  next
    case F: False
    show ?thesis
    proof (cases "owner \<noteq> 0 \<and> r_owner r = owner")
      case own: True
      obtain q' h evs os' where s: "a_sweep taker px ts owner stp q os = (q', h, evs, os')" by (metis prod_cases4)
      show ?thesis
      proof (cases stp)
        case CancelTaker
        with F own taker [of q r os] show ?thesis by (simp add: a_sweep.simps)
      next
        case CancelBoth
        with F own both [of q r os] show ?thesis by (simp add: a_sweep.simps)
      next
        case CancelMaker
        have "P q os (q', h, evs, os')" using 2(1) [OF F own CancelMaker] s by simp
        with CancelMaker F own maker [of q r os q' h evs os'] s show ?thesis by (simp add: a_sweep.simps)
      qed
    next
      case other: False
      then have o': "owner = 0 \<or> r_owner r \<noteq> owner" by blast
      show ?thesis
      proof (cases "q < r_qty r")
        case True
        then have "(if q < r_qty r then q else r_qty r) \<noteq> r_qty r" by auto
        with True F other part [of q r os, OF _ o' True] show ?thesis by (auto simp: a_sweep.simps Let_def)
      next
        case le: False
        then have fl: "(if q < r_qty r then q else r_qty r) = r_qty r" "r_qty r \<le> q" by auto
        show ?thesis
        proof (cases "r_reserve r > 0")
          case True
          obtain q' h evs os' where s: "a_sweep taker px ts owner stp (q - r_qty r) (os @ [refill r]) = (q', h, evs, os')"
            by (metis prod_cases4)
          have "P (q - r_qty r) (os @ [refill r]) (q', h, evs, os')"
            using 2(2) [OF F other refl refl _ True refl] fl s by simp
          with F other fl True s le refill [of q r os q' h evs os', OF _ o'] show ?thesis
            by (auto simp: a_sweep.simps Let_def word_gt_0)
        next
          case False
          obtain q' h evs os' where s: "a_sweep taker px ts owner stp (q - r_qty r) os = (q', h, evs, os')"
            by (metis prod_cases4)
          have "P (q - r_qty r) os (q', h, evs, os')"
            using 2(3) [OF F other refl refl _ False] fl s by simp
          with F other fl False s le gone [of q r os q' h evs os', OF _ o'] show ?thesis
            by (auto simp: a_sweep.simps Let_def word_gt_0)
        qed
      qed
    qed
  qed
qed

definition is_trade :: "event \<Rightarrow> bool" where
  "is_trade ev = (case ev of Traded _ \<Rightarrow> True | _ \<Rightarrow> False)"

text \<open>Put a swept level back, with its events and the last trade price.\<close>

definition a_swept :: "Side \<Rightarrow> nat \<Rightarrow> bool \<times> event list \<times> ro list \<Rightarrow> astate \<Rightarrow> astate" where
  "a_swept ms i res a =
     (case res of (h, evs, os) \<Rightarrow>
        (a_level ms i os a)
          \<lparr>a_tape := a_tape a @ evs,
           a_last := (if list_ex is_trade evs then a_min a + int i else a_last a),
           a_has_last := (a_has_last a \<or> list_ex is_trade evs),
           a_stp_halt := (a_stp_halt a \<or> h)\<rparr>)"

fun a_match_levels :: "Side \<Rightarrow> OrderId \<Rightarrow> OwnerId \<Rightarrow> StpPolicy \<Rightarrow> nat list \<Rightarrow> Qty \<Rightarrow> astate \<Rightarrow> Qty \<times> astate" where
  "a_match_levels ts taker owner stp [] q a = (q, a)"
| "a_match_levels ts taker owner stp (i # is) q a =
     (if q = 0 then (q, a)
      else
        let (q1, res) = a_sweep taker (a_min a + int i) ts owner stp q (a_books a (opposite ts) ! i);
            a1 = a_swept (opposite ts) i res a
        in if a_stp_halt a1 then (q1, a1) else a_match_levels ts taker owner stp is q1 a1)"

text \<open>The levels an incoming order may reach, best first.\<close>

definition reach :: "Side \<Rightarrow> nat \<Rightarrow> nat \<Rightarrow> nat list" where
  "reach ts n limit = (case ts of Buy \<Rightarrow> [0..<min n (Suc limit)] | Sell \<Rightarrow> rev [limit..<n])"

definition a_match :: "Side \<Rightarrow> OrderId \<Rightarrow> Qty \<Rightarrow> nat \<Rightarrow> OwnerId \<Rightarrow> StpPolicy \<Rightarrow> astate \<Rightarrow> Qty \<times> astate" where
  "a_match ts taker q limit owner stp a = a_match_levels ts taker owner stp (reach ts (a_n a) limit) q a"

definition a_match_market :: "Side \<Rightarrow> OrderId \<Rightarrow> Qty \<Rightarrow> OwnerId \<Rightarrow> StpPolicy \<Rightarrow> astate \<Rightarrow> Qty \<times> astate" where
  "a_match_market ts taker q owner stp a =
     a_match ts taker q (if ts = Buy then a_n a - 1 else 0) owner stp a"

definition a_place :: "OrderId \<Rightarrow> Side \<Rightarrow> Price \<Rightarrow> Qty \<Rightarrow> TimeInForce \<Rightarrow> OwnerId \<Rightarrow> StpPolicy \<Rightarrow> Qty \<Rightarrow>
    astate \<Rightarrow> astate" where
  "a_place oid side price qty tif owner stp peak a =
     (if a_halted a then a_rest oid side price qty owner stp peak a
      else
        let (rem, a1) = a_match side oid qty (a_idx a price) owner stp a
        in if a_stp_halt a1
           then (let a2 = a1\<lparr>a_stp_halt := False\<rparr> in if rem > 0 then a_emit (Cancelled oid) a2 else a2)
           else if rem > 0 then
             (if tif = IOC \<or> tif = FOK then a_emit (Cancelled oid) a1
              else a_rest oid side price rem owner stp peak a1)
           else a1)"

text \<open>Executable depth at or better than a limit, scanned only until \<open>want\<close> is found.\<close>

definition exec_qty :: "ro list \<Rightarrow> Qty" where
  "exec_qty os = sum_list (map r_qty os) + sum_list (map r_reserve os)"

fun a_fill_scan :: "Qty \<Rightarrow> ro list list \<Rightarrow> nat list \<Rightarrow> Qty \<Rightarrow> Qty" where
  "a_fill_scan want oss [] acc = acc"
| "a_fill_scan want oss (i # is) acc =
     (if acc < want then a_fill_scan want oss is (acc + exec_qty (oss ! i)) else acc)"

definition a_fillable :: "Side \<Rightarrow> Price \<Rightarrow> Qty \<Rightarrow> astate \<Rightarrow> Qty" where
  "a_fillable side price want a =
     a_fill_scan want (a_books a (opposite side)) (reach side (a_n a) (a_idx a price)) 0"

text \<open>Is anything resting on the opposite side at or better than the limit?\<close>

definition a_would_cross :: "Side \<Rightarrow> Price \<Rightarrow> astate \<Rightarrow> bool" where
  "a_would_cross side price a \<longleftrightarrow>
     (\<exists>i\<in>set (reach side (a_n a) (a_idx a price)). a_books a (opposite side) ! i \<noteq> [])"

section \<open>Stops\<close>

text \<open>The lowest and the highest occupied level.\<close>

definition lowest :: "ro list list \<Rightarrow> nat option" where
  "lowest oss = find (\<lambda>i. oss ! i \<noteq> []) [0..<length oss]"

definition highest :: "ro list list \<Rightarrow> nat option" where
  "highest oss = find (\<lambda>i. oss ! i \<noteq> []) (rev [0..<length oss])"

text \<open>Where the next armed stop is parked: buy stops ascending, then sell stops descending.\<close>

definition a_next_stop :: "astate \<Rightarrow> (Side \<times> nat) option" where
  "a_next_stop a =
     (if \<not> a_has_last a then None
      else
        let sells = (case highest (a_stops a Sell) of
              Some j \<Rightarrow> if a_min a + int j \<ge> a_last a then Some (Sell, j) else None
            | None \<Rightarrow> None)
        in case lowest (a_stops a Buy) of
             Some i \<Rightarrow> if a_min a + int i \<le> a_last a then Some (Buy, i) else sells
           | None \<Rightarrow> sells)"

definition a_execute :: "OrderId \<Rightarrow> Side \<Rightarrow> Price \<Rightarrow> Qty \<Rightarrow> bool \<Rightarrow> OwnerId \<Rightarrow> StpPolicy \<Rightarrow> astate \<Rightarrow> astate" where
  "a_execute oid side limit_price qty is_market owner stp a =
     (if is_market then (snd (a_match_market side oid qty owner stp a))\<lparr>a_stp_halt := False\<rparr>
      else a_place oid side limit_price qty GTC owner stp 0 a)"

definition stop_count :: "astate \<Rightarrow> nat" where
  "stop_count a = sum_list (map length (a_stops a Buy)) + sum_list (map length (a_stops a Sell))"

definition a_fire :: "Side \<Rightarrow> nat \<Rightarrow> astate \<Rightarrow> astate" where
  "a_fire s i a =
     (let r = hd (a_stops a s ! i)
      in a_execute (r_id r) (r_side r) (r_limit r) (r_qty r) (r_market r) (r_owner r) (r_stp r)
           (a_stop_level s i (tl (a_stops a s ! i)) a))"

lemma a_emit_fields [simp]:
  "a_min (a_emit ev a) = a_min a" "a_n (a_emit ev a) = a_n a" "a_books (a_emit ev a) = a_books a"
  "a_stops (a_emit ev a) = a_stops a" "a_next (a_emit ev a) = a_next a" "a_last (a_emit ev a) = a_last a"
  "a_has_last (a_emit ev a) = a_has_last a" "a_pumping (a_emit ev a) = a_pumping a"
  "a_halted (a_emit ev a) = a_halted a" "a_stp_halt (a_emit ev a) = a_stp_halt a"
  "a_tape (a_emit ev a) = a_tape a @ [ev]"
  by (simp_all add: a_emit_def)

lemma a_level_fields [simp]:
  "a_min (a_level s i os a) = a_min a" "a_n (a_level s i os a) = a_n a"
  "a_books (a_level s i os a) = (a_books a)(s := (a_books a s)[i := os])"
  "a_stops (a_level s i os a) = a_stops a" "a_next (a_level s i os a) = a_next a"
  "a_last (a_level s i os a) = a_last a" "a_has_last (a_level s i os a) = a_has_last a"
  "a_pumping (a_level s i os a) = a_pumping a" "a_halted (a_level s i os a) = a_halted a"
  "a_stp_halt (a_level s i os a) = a_stp_halt a" "a_tape (a_level s i os a) = a_tape a"
  by (simp_all add: a_level_def)

lemma a_stop_level_fields [simp]:
  "a_min (a_stop_level s i os a) = a_min a" "a_n (a_stop_level s i os a) = a_n a"
  "a_books (a_stop_level s i os a) = a_books a"
  "a_stops (a_stop_level s i os a) = (a_stops a)(s := (a_stops a s)[i := os])"
  "a_next (a_stop_level s i os a) = a_next a"
  "a_last (a_stop_level s i os a) = a_last a" "a_has_last (a_stop_level s i os a) = a_has_last a"
  "a_pumping (a_stop_level s i os a) = a_pumping a" "a_halted (a_stop_level s i os a) = a_halted a"
  "a_stp_halt (a_stop_level s i os a) = a_stp_halt a" "a_tape (a_stop_level s i os a) = a_tape a"
  by (simp_all add: a_stop_level_def)

lemma a_swept_fields [simp]:
  "a_min (a_swept s i res a) = a_min a" "a_n (a_swept s i res a) = a_n a"
  "a_books (a_swept s i res a) = (a_books a)(s := (a_books a s)[i := snd (snd res)])"
  "a_stops (a_swept s i res a) = a_stops a" "a_next (a_swept s i res a) = a_next a"
  "a_pumping (a_swept s i res a) = a_pumping a" "a_halted (a_swept s i res a) = a_halted a"
  by (simp_all add: a_swept_def split: prod.splits)

lemma a_rest_fields [simp]:
  "a_min (a_rest oid s p q ow st pk a) = a_min a" "a_n (a_rest oid s p q ow st pk a) = a_n a"
  "a_stops (a_rest oid s p q ow st pk a) = a_stops a" "a_next (a_rest oid s p q ow st pk a) = a_next a"
  "a_last (a_rest oid s p q ow st pk a) = a_last a"
  "a_has_last (a_rest oid s p q ow st pk a) = a_has_last a"
  "a_pumping (a_rest oid s p q ow st pk a) = a_pumping a"
  "a_halted (a_rest oid s p q ow st pk a) = a_halted a"
  "a_stp_halt (a_rest oid s p q ow st pk a) = a_stp_halt a"
  by (simp_all add: a_rest_def Let_def)

text \<open>Matching keeps the frame: everything but the opposite book, the tape and the last trade.\<close>

definition frame :: "astate \<Rightarrow> astate \<Rightarrow> bool" where
  "frame a b \<longleftrightarrow> a_min b = a_min a \<and> a_n b = a_n a \<and> a_stops b = a_stops a \<and> a_next b = a_next a \<and>
     a_pumping b = a_pumping a \<and> a_halted b = a_halted a"

lemma frame_refl [simp]: "frame a a"
  by (simp add: frame_def)

lemma frame_trans: "frame a b \<Longrightarrow> frame b c \<Longrightarrow> frame a c"
  by (simp add: frame_def)

lemma frame_match_levels:
  "a_match_levels ts taker owner stp is q a = (q', a') \<Longrightarrow>
   frame a a' \<and> a_books a' ts = a_books a ts"
proof (induction "is" arbitrary: q a)
  case (Cons i "is")
  show ?case
  proof (cases "q = 0")
    case False
    obtain q1 res where sw: "a_sweep taker (a_min a + int i) ts owner stp q (a_books a (opposite ts) ! i) = (q1, res)"
      by (rule prod.exhaust)
    let ?a1 = "a_swept (opposite ts) i res a"
    have f: "frame a ?a1 \<and> a_books ?a1 ts = a_books a ts" by (simp add: frame_def)
    show ?thesis
    proof (cases "a_stp_halt ?a1")
      case False
      with Cons.prems \<open>q \<noteq> 0\<close> sw have "a_match_levels ts taker owner stp is q1 ?a1 = (q', a')" by simp
      from Cons.IH [OF this] f show ?thesis using frame_trans by metis
    qed (use Cons.prems \<open>q \<noteq> 0\<close> sw f in auto)
  qed (use Cons.prems in simp)
qed simp

lemma frame_match: "frame a (snd (a_match ts taker q limit owner stp a))"
  using frame_match_levels [of ts taker owner stp "reach ts (a_n a) limit" q a]
  by (cases "a_match ts taker q limit owner stp a") (simp add: a_match_def)

lemma frame_place: "frame a (a_place oid side price qty tif owner stp peak a)"
  using frame_match [of a side oid qty "a_idx a price" owner stp]
  by (auto simp: a_place_def frame_def Let_def split: prod.splits)

lemma frame_execute: "frame a (a_execute oid side limit qty mkt owner stp a)"
  using frame_match frame_place by (simp add: a_execute_def a_match_market_def frame_def)

lemma find_Some_in: "find P xs = Some x \<Longrightarrow> x \<in> set xs \<and> P x"
  by (auto simp: find_Some_iff)

lemma lowest_in: "lowest oss = Some i \<Longrightarrow> i < length oss \<and> oss ! i \<noteq> []"
  by (auto simp: lowest_def dest!: find_Some_in)

lemma highest_in: "highest oss = Some i \<Longrightarrow> i < length oss \<and> oss ! i \<noteq> []"
  by (auto simp: highest_def dest!: find_Some_in)

lemma a_next_stop_in: "a_next_stop a = Some (s, i) \<Longrightarrow> i < length (a_stops a s) \<and> a_stops a s ! i \<noteq> []"
  by (auto simp: a_next_stop_def Let_def split: if_splits option.splits dest: lowest_in highest_in)

lemma length_sum_update:
  "i < length oss \<Longrightarrow> oss ! i \<noteq> [] \<Longrightarrow>
   sum_list (map length (oss[i := tl (oss ! i)])) < sum_list (map length (oss :: 'a list list))"
proof (induction oss arbitrary: i)
  case (Cons x oss)
  then show ?case by (cases i) auto
qed simp

lemma stop_count_fire:
  assumes "a_next_stop a = Some (s, i)"
  shows "stop_count (a_fire s i a) < stop_count a"
  using length_sum_update [of i "a_stops a s"] a_next_stop_in [OF assms]
  by (cases s) (simp_all add: stop_count_def a_fire_def Let_def frame_execute [unfolded frame_def])

text \<open>Fire armed stops until none is left: every firing takes one stop out, so this ends.\<close>

function a_pump :: "astate \<Rightarrow> astate" where
  "a_pump a = (case a_next_stop a of None \<Rightarrow> a | Some (s, i) \<Rightarrow> a_pump (a_fire s i a))"
  by pat_completeness auto

termination
  by (relation "measure stop_count") (auto simp: stop_count_fire)

declare a_pump.simps [simp del]

section \<open>Operations\<close>

definition a_run :: "(astate \<Rightarrow> 'r \<times> astate) \<Rightarrow> astate \<Rightarrow> 'r \<times> astate" where
  "a_run f a =
     (let (r, a1) = f a
      in if a_pumping a1 \<or> a_halted a1 then (r, a1)
         else (r, (a_pump (a1\<lparr>a_pumping := True\<rparr>))\<lparr>a_pumping := False\<rparr>))"

definition a_submit :: "Side \<Rightarrow> Price \<Rightarrow> Qty \<Rightarrow> TimeInForce \<Rightarrow> OwnerId \<Rightarrow> StpPolicy \<Rightarrow> Qty \<Rightarrow>
    astate \<Rightarrow> OrderId \<times> astate" where
  "a_submit side price qty tif owner stp peak a0 =
     (let (oid, a1) = a_fresh a0; a = a_emit (Accept oid side price qty) a1
      in if a_halted a then
           (if tif \<noteq> GTC then (oid, a_emit (Cancelled oid) a)
            else (oid, a_rest oid side price qty owner stp peak a))
         else if tif = FOK \<and> a_fillable side price qty a < qty then (oid, a_emit (Cancelled oid) a)
         else if tif = PostOnly \<and> a_would_cross side price a then (oid, a_emit (Cancelled oid) a)
         else (oid, a_place oid side price qty tif owner stp peak a))"

definition a_submit_limit :: "Side \<Rightarrow> Price \<Rightarrow> Qty \<Rightarrow> TimeInForce \<Rightarrow> OwnerId \<Rightarrow> StpPolicy \<Rightarrow>
    astate \<Rightarrow> OrderId \<times> astate" where
  "a_submit_limit side price qty tif owner stp a =
     (if \<not> a_in_band a price \<or> qty = 0 then (kInvalidOrderId, a_emit (Rejected kInvalidOrderId) a)
      else a_submit side price qty tif owner stp 0 a)"

definition a_submit_iceberg :: "Side \<Rightarrow> Price \<Rightarrow> Qty \<Rightarrow> Qty \<Rightarrow> TimeInForce \<Rightarrow> OwnerId \<Rightarrow> StpPolicy \<Rightarrow>
    astate \<Rightarrow> OrderId \<times> astate" where
  "a_submit_iceberg side price total_qty display tif owner stp a =
     (if \<not> a_in_band a price \<or> total_qty = 0 \<or> display = 0
      then (kInvalidOrderId, a_emit (Rejected kInvalidOrderId) a)
      else a_submit side price total_qty tif owner stp display a)"

definition a_submit_market :: "Side \<Rightarrow> Qty \<Rightarrow> OwnerId \<Rightarrow> StpPolicy \<Rightarrow> astate \<Rightarrow> Qty \<times> astate" where
  "a_submit_market side qty owner stp a0 =
     (if a_halted a0 then (qty, a_emit (Rejected kInvalidOrderId) a0)
      else
        let (oid, a1) = a_fresh a0;
            (rem, a2) = a_match_market side oid qty owner stp (a_emit (Accept oid side 0 qty) a1)
        in (rem, a2\<lparr>a_stp_halt := False\<rparr>))"

definition a_submit_stop :: "Side \<Rightarrow> Price \<Rightarrow> Price \<Rightarrow> Qty \<Rightarrow> bool \<Rightarrow> OwnerId \<Rightarrow> StpPolicy \<Rightarrow>
    astate \<Rightarrow> OrderId \<times> astate" where
  "a_submit_stop side stop_price limit_price qty is_market owner stp a0 =
     (if \<not> a_in_band a0 stop_price \<or> qty = 0 \<or> (\<not> is_market \<and> \<not> a_in_band a0 limit_price)
      then (kInvalidOrderId, a_emit (Rejected kInvalidOrderId) a0)
      else
        let (oid, a1) = a_fresh a0; a = a_emit (Accept oid side stop_price qty) a1
        in (oid,
            if \<not> a_halted a \<and> a_has_last a \<and> stop_triggered side stop_price (a_last a)
            then a_execute oid side limit_price qty is_market owner stp a
            else a_rest_stop oid side stop_price limit_price qty is_market owner stp a))"

definition order_list :: "astate \<Rightarrow> ro list" where
  "order_list a = concat (a_books a Buy) @ concat (a_books a Sell) @
     concat (a_stops a Buy) @ concat (a_stops a Sell)"

definition a_find :: "OrderId \<Rightarrow> astate \<Rightarrow> ro option" where
  "a_find oid a = find (\<lambda>r. r_id r = oid) (order_list a)"

definition a_cancel :: "OrderId \<Rightarrow> astate \<Rightarrow> bool \<times> astate" where
  "a_cancel oid a =
     (case a_find oid a of
        None \<Rightarrow> (False, a)
      | Some r \<Rightarrow> (True, a_emit (Cancelled oid) (a_remove r a)))"

text \<open>Amend down in place: the hidden reserve first, then the displayed clip.\<close>

definition shave :: "Qty \<Rightarrow> ro \<Rightarrow> ro" where
  "shave delta r =
     (let from_reserve = (if delta < r_reserve r then delta else r_reserve r)
      in r\<lparr>r_reserve := r_reserve r - from_reserve, r_qty := r_qty r - (delta - from_reserve)\<rparr>)"

definition a_replace :: "ro \<Rightarrow> ro \<Rightarrow> astate \<Rightarrow> astate" where
  "a_replace r r' a =
     (let i = a_idx a (r_price r)
      in a_level (r_side r) i (map (\<lambda>x. if r_id x = r_id r then r' else x) (a_books a (r_side r) ! i)) a)"

definition a_reduce :: "OrderId \<Rightarrow> Qty \<Rightarrow> astate \<Rightarrow> bool \<times> astate" where
  "a_reduce oid delta a =
     (case a_find oid a of
        None \<Rightarrow> (False, a)
      | Some r \<Rightarrow>
          if r_stop r then (False, a)
          else if delta \<ge> r_qty r + r_reserve r then (True, a_remove r a)
          else (True, a_replace r (shave delta r) a))"

definition a_modify :: "OrderId \<Rightarrow> Price \<Rightarrow> Qty \<Rightarrow> astate \<Rightarrow> bool \<times> astate" where
  "a_modify oid new_price new_qty a =
     (case a_find oid a of
        None \<Rightarrow> (False, a)
      | Some r \<Rightarrow>
          if r_stop r \<and> new_qty \<noteq> 0 then (False, a)
          else if new_qty = 0 then a_cancel oid a
          else if \<not> a_in_band a new_price then (False, a)
          else
            let cur_total = r_qty r + r_reserve r
            in if new_price = r_price r \<and> new_qty \<le> cur_total then a_reduce oid (cur_total - new_qty) a
               else (True, a_place oid (r_side r) new_price new_qty GTC (r_owner r) (r_stp r) (r_peak r)
                       (a_emit (Accept oid (r_side r) new_price new_qty)
                         (a_emit (Cancelled oid) (a_remove r a)))))"

section \<open>The auction uncross\<close>

definition ro_total :: "ro \<Rightarrow> Qty" where
  "ro_total r = r_qty r + r_reserve r"

text \<open>
  Take \<open>f\<close> from the head order of a level: what is left of the level, and the event a
  renormalised iceberg announces.
\<close>

definition a_auction_fill :: "Qty \<Rightarrow> Price \<Rightarrow> ro list \<Rightarrow> event list \<times> ro list" where
  "a_auction_fill f px os =
     (let r = hd os;
          from_disp = (if f < r_qty r then f else r_qty r);
          left = f - from_disp;
          shown = r_qty r - from_disp;
          reserve = r_reserve r - left
      in if shown = 0 \<and> reserve > 0 then
           (let clip = (if r_peak r < reserve then r_peak r else reserve)
            in ([Rested (r_id r) (r_side r) px clip],
                tl os @ [r\<lparr>r_qty := clip, r_reserve := reserve - clip\<rparr>]))
         else if shown = 0 then ([], tl os)
         else ([], r\<lparr>r_qty := shown, r_reserve := reserve\<rparr> # tl os))"

definition a_clip :: "Side \<Rightarrow> nat \<Rightarrow> Qty \<Rightarrow> Price \<Rightarrow> astate \<Rightarrow> astate" where
  "a_clip s i f px a =
     (let (evs, os) = a_auction_fill f px (a_books a s ! i)
      in (a_level s i os a)\<lparr>a_tape := a_tape a @ evs\<rparr>)"

text \<open>One match of the auction, head of the best bid level against head of the best ask level.\<close>

definition a_cross_step :: "nat \<Rightarrow> nat \<Rightarrow> Qty \<Rightarrow> Price \<Rightarrow> astate \<Rightarrow> astate" where
  "a_cross_step i j f p a =
     (let bid = hd (a_books a Buy ! i); ask = hd (a_books a Sell ! j);
          a1 = a_emit (Traded \<lparr>t_taker = r_id bid, t_maker = r_id ask, t_price = p, t_qty = f, t_side = Buy\<rparr>)
                 (a\<lparr>a_last := p, a_has_last := True\<rparr>)
      in a_clip Sell j f p (a_clip Buy i f p a1))"

text \<open>Quantity in a level and in a side, as a natural number: the measure of the crossing loop.\<close>

definition ro_vol :: "ro \<Rightarrow> nat" where
  "ro_vol r = unat (r_qty r) + unat (r_reserve r)"

definition level_vol :: "ro list \<Rightarrow> nat" where
  "level_vol os = sum_list (map ro_vol os)"

definition side_vol :: "ro list list \<Rightarrow> nat" where
  "side_vol oss = sum_list (map level_vol oss)"

lemma side_vol_update:
  "i < length oss \<Longrightarrow> side_vol (oss[i := os]) + level_vol (oss ! i) = side_vol oss + level_vol os"
proof (induction oss arbitrary: i)
  case (Cons x oss)
  then show ?case by (cases i) (auto simp: side_vol_def)
qed simp

lemma left_le: "f \<le> q + r \<Longrightarrow> \<not> f < q \<Longrightarrow> f - q \<le> (r :: Qty)"
  by (simp add: word_le_nat_alt word_less_nat_alt unat_sub unat_plus_if' split: if_splits)

lemma auction_fill_vol:
  assumes "os \<noteq> []" "f \<le> ro_total (hd os)"
  shows "level_vol (snd (a_auction_fill f px os)) + unat f = level_vol os"
proof -
  obtain r rest where os: "os = r # rest" using assms(1) by (cases os) auto
  define d where "d = (if f < r_qty r then f else r_qty r)"
  have d: "d \<le> f" "d \<le> r_qty r" by (auto simp: d_def)
  have left: "f - d \<le> r_reserve r"
    using left_le assms(2) by (auto simp: d_def os ro_total_def)
  define sh res where "sh = r_qty r - d" and "res = r_reserve r - (f - d)"
  have sub: "unat sh + unat d = unat (r_qty r)" "unat res + unat f = unat (r_reserve r) + unat d"
    using d left by (auto simp: sh_def res_def unat_minus_le word_le_nat_alt)
  define clip where "clip = (if r_peak r < res then r_peak r else res)"
  have clip: "unat (res - clip) + unat clip = unat res"
    by (auto simp: clip_def unat_minus_le word_less_nat_alt word_le_nat_alt)
  have "a_auction_fill f px os =
      (if sh = 0 \<and> res > 0 then ([Rested (r_id r) (r_side r) px clip],
          rest @ [r\<lparr>r_qty := clip, r_reserve := res - clip\<rparr>])
       else if sh = 0 then ([], rest) else ([], r\<lparr>r_qty := sh, r_reserve := res\<rparr> # rest))"
    by (simp add: a_auction_fill_def Let_def os d_def sh_def res_def clip_def)
  moreover have "res \<noteq> 0 \<longleftrightarrow> 0 < res" "sh = 0 \<longleftrightarrow> unat sh = 0" "res = 0 \<longleftrightarrow> unat res = 0"
    by (simp_all add: word_gt_0 unat_eq_0)
  ultimately show ?thesis using sub clip
    by (cases "sh = 0"; cases "res = 0") (simp_all add: os level_vol_def ro_vol_def)
qed

lemma clip_vol:
  assumes "i < length (a_books a s)" "a_books a s ! i \<noteq> []" "f \<le> ro_total (hd (a_books a s ! i))"
  shows "side_vol (a_books (a_clip s i f px a) s) + unat f = side_vol (a_books a s)"
    "t \<noteq> s \<Longrightarrow> a_books (a_clip s i f px a) t = a_books a t"
  using side_vol_update [OF assms(1), of "snd (a_auction_fill f px (a_books a s ! i))"]
    auction_fill_vol [OF assms(2,3), of px]
  by (auto simp: a_clip_def split: prod.splits)

lemma cross_step_vol:
  assumes "i < length (a_books a Buy)" "a_books a Buy ! i \<noteq> []" "f \<le> ro_total (hd (a_books a Buy ! i))"
    "j < length (a_books a Sell)" "a_books a Sell ! j \<noteq> []" "f \<le> ro_total (hd (a_books a Sell ! j))"
  shows "side_vol (a_books (a_cross_step i j f p a) s) + unat f = side_vol (a_books a s)"
proof -
  let ?a1 = "a_emit (Traded \<lparr>t_taker = r_id (hd (a_books a Buy ! i)), t_maker = r_id (hd (a_books a Sell ! j)),
    t_price = p, t_qty = f, t_side = Buy\<rparr>) (a\<lparr>a_last := p, a_has_last := True\<rparr>)"
  note b = clip_vol [where i = i and a = ?a1 and s = Buy and f = f and px = p]
  note s = clip_vol [where i = j and a = "a_clip Buy i f p ?a1" and s = Sell and f = f and px = p]
  from b s assms show ?thesis by (cases s) (simp_all add: a_cross_step_def Let_def)
qed

lemma cross_step_less:
  assumes "highest (a_books a Buy) = Some i" "lowest (a_books a Sell) = Some j"
    "f = (if ro_total (hd (a_books a Buy ! i)) < ro_total (hd (a_books a Sell ! j))
          then ro_total (hd (a_books a Buy ! i)) else ro_total (hd (a_books a Sell ! j)))" "f \<noteq> 0"
  shows "side_vol (a_books (a_cross_step i j f p a) Buy) < side_vol (a_books a Buy)"
proof -
  have "f \<le> ro_total (hd (a_books a Buy ! i))" "f \<le> ro_total (hd (a_books a Sell ! j))"
    using assms(3) by auto
  with cross_step_vol [of i a f j p Buy] highest_in [OF assms(1)] lowest_in [OF assms(2)]
  have "side_vol (a_books (a_cross_step i j f p a) Buy) + unat f = side_vol (a_books a Buy)" by blast
  moreover have "0 < unat f" using assms(4) by (simp add: word_neq_0_unat)
  ultimately show ?thesis by linarith
qed

function a_cross :: "nat \<Rightarrow> Price \<Rightarrow> Qty \<Rightarrow> astate \<Rightarrow> Qty \<times> astate" where
  "a_cross p_idx p crossed a =
     (case (highest (a_books a Buy), lowest (a_books a Sell)) of
        (Some i, Some j) \<Rightarrow>
          let bq = ro_total (hd (a_books a Buy ! i)); aq = ro_total (hd (a_books a Sell ! j));
              f = (if bq < aq then bq else aq)
          in if p_idx \<le> i \<and> j \<le> p_idx \<and> f \<noteq> 0 then a_cross p_idx p (crossed + f) (a_cross_step i j f p a)
             else (crossed, a)
      | _ \<Rightarrow> (crossed, a))"
  by pat_completeness auto

termination
  by (relation "measure (\<lambda>(p_idx, p, crossed, a). side_vol (a_books a Buy))") (auto intro: cross_step_less)

declare a_cross.simps [simp del]

definition a_uncross :: "astate \<Rightarrow> Qty \<times> astate" where
  "a_uncross a =
     (case (highest (a_books a Buy), lowest (a_books a Sell)) of
        (Some hi, Some lo) \<Rightarrow>
          if hi < lo then (0, a)
          else
            let n = hi - lo + 1;
                supply = prefix_sums 0 (map (\<lambda>k. exec_qty (a_books a Sell ! (lo + k))) [0..<n]);
                demand = rev (prefix_sums 0 (map (\<lambda>k. exec_qty (a_books a Buy ! (lo + k))) (rev [0..<n])));
                (best_k, best_exec, _) = pick_clearing (\<lambda>k. a_min a + int lo + int k)
                  (if a_has_last a then Some (a_last a) else None) demand supply n
            in if best_exec = 0 then (0, a)
               else a_cross (lo + best_k) (a_min a + int (lo + best_k)) 0 a
      | _ \<Rightarrow> (0, a))"

definition astate_new :: "Price \<Rightarrow> Price \<Rightarrow> astate" where
  "astate_new min_price max_price =
     (let n = nat (max_price - min_price + 1)
      in \<lparr>a_min = min_price, a_n = n, a_books = (\<lambda>s. replicate n []), a_stops = (\<lambda>s. replicate n []),
          a_next = 1, a_last = 0, a_has_last = False, a_pumping = False, a_halted = False,
          a_stp_halt = False, a_tape = []\<rparr>)"

end
