(* ===== verification/Engine_Relation.thy ===== *)
theory Engine_Relation
  imports Book_Relation Engine_Spec
begin

text \<open>
  The relation between the detailed engine and the abstract one, and the update lemmas the
  simulation proofs are built from: a change of one level of a book or of a stop book, a
  change of the tape, of the last price and of the flags.
\<close>

section \<open>Reading an engine after an update\<close>

lemma set_book_fields [simp]:
  "e_min (set_book s b e) = e_min e" "e_n (set_book s b e) = e_n e"
  "e_store (set_book s b e) = e_store e" "e_stop_bids (set_book s b e) = e_stop_bids e"
  "e_stop_asks (set_book s b e) = e_stop_asks e"
  "e_pending_stops (set_book s b e) = e_pending_stops e" "e_last_px (set_book s b e) = e_last_px e"
  "e_has_last (set_book s b e) = e_has_last e" "e_pumping (set_book s b e) = e_pumping e"
  "e_halted (set_book s b e) = e_halted e" "e_stp_halt (set_book s b e) = e_stp_halt e"
  "e_tape (set_book s b e) = e_tape e" "stops_of t (set_book s b e) = stops_of t e"
  "book_of t (set_book s b e) = (if t = s then b else book_of t e)"
  by (cases s; cases t; simp add: set_book_def stops_of_def book_of_def)+

lemma set_stops_fields [simp]:
  "e_min (set_stops s b e) = e_min e" "e_n (set_stops s b e) = e_n e"
  "e_store (set_stops s b e) = e_store e"
  "e_pending_stops (set_stops s b e) = e_pending_stops e" "e_last_px (set_stops s b e) = e_last_px e"
  "e_has_last (set_stops s b e) = e_has_last e" "e_pumping (set_stops s b e) = e_pumping e"
  "e_halted (set_stops s b e) = e_halted e" "e_stp_halt (set_stops s b e) = e_stp_halt e"
  "e_tape (set_stops s b e) = e_tape e" "book_of t (set_stops s b e) = book_of t e"
  "stops_of t (set_stops s b e) = (if t = s then b else stops_of t e)"
  by (cases s; cases t; simp add: set_stops_def stops_of_def book_of_def)+

lemma engine_update_fields [simp]:
  "book_of t (e\<lparr>e_store := x\<rparr>) = book_of t e" "stops_of t (e\<lparr>e_store := x\<rparr>) = stops_of t e"
  "book_of t (e\<lparr>e_last_px := p\<rparr>) = book_of t e" "stops_of t (e\<lparr>e_last_px := p\<rparr>) = stops_of t e"
  "book_of t (e\<lparr>e_has_last := b\<rparr>) = book_of t e" "stops_of t (e\<lparr>e_has_last := b\<rparr>) = stops_of t e"
  "book_of t (e\<lparr>e_tape := evs\<rparr>) = book_of t e" "stops_of t (e\<lparr>e_tape := evs\<rparr>) = stops_of t e"
  "book_of t (e\<lparr>e_stp_halt := b\<rparr>) = book_of t e" "stops_of t (e\<lparr>e_stp_halt := b\<rparr>) = stops_of t e"
  "book_of t (e\<lparr>e_pumping := b\<rparr>) = book_of t e" "stops_of t (e\<lparr>e_pumping := b\<rparr>) = stops_of t e"
  "book_of t (e\<lparr>e_halted := b\<rparr>) = book_of t e" "stops_of t (e\<lparr>e_halted := b\<rparr>) = stops_of t e"
  "book_of t (e\<lparr>e_pending_stops := k\<rparr>) = book_of t e"
  "stops_of t (e\<lparr>e_pending_stops := k\<rparr>) = stops_of t e"
  by (cases t; simp add: stops_of_def book_of_def)+

lemma book_of_sides: "e_bids e = book_of Buy e" "e_asks e = book_of Sell e"
  "e_stop_bids e = stops_of Buy e" "e_stop_asks e = stops_of Sell e"
  by (simp_all add: book_of_def stops_of_def)

lemma emit_fields [simp]:
  "e_min (emit ev e) = e_min e" "e_n (emit ev e) = e_n e" "e_store (emit ev e) = e_store e"
  "e_halted (emit ev e) = e_halted e" "e_stp_halt (emit ev e) = e_stp_halt e"
  "e_has_last (emit ev e) = e_has_last e" "e_last_px (emit ev e) = e_last_px e"
  "e_pumping (emit ev e) = e_pumping e" "e_tape (emit ev e) = e_tape e @ [ev]"
  "e_pending_stops (emit ev e) = e_pending_stops e"
  "book_of t (emit ev e) = book_of t e" "stops_of t (emit ev e) = stops_of t e"
  by (simp_all add: emit_def)

lemma set_book_commute:
  "set_book s b (e\<lparr>e_store := st\<rparr>) = (set_book s b e)\<lparr>e_store := st\<rparr>"
  by (cases s) (simp_all add: set_book_def)

section \<open>The relation\<close>

text \<open>The stop books are allocated on the first stop; until then no stop is parked.\<close>

definition stops_rel :: "engine \<Rightarrow> (OrderId \<Rightarrow> ro option) \<Rightarrow> (Side \<Rightarrow> ro list list) \<Rightarrow> bool" where
  "stops_rel e v stops \<longleftrightarrow>
     (if ld_levels (stops_of Buy e) = [] then \<forall>s. stops s = replicate (e_n e) []
      else \<forall>s. ladder_rel True s (e_min e) (e_n e) v {} (stops_of s e) (stops s))"

definition home :: "(Side \<Rightarrow> ro list list) \<Rightarrow> (Side \<Rightarrow> ro list list) \<Rightarrow> Price \<Rightarrow> nat \<Rightarrow> ro \<Rightarrow> bool" where
  "home books stops mn n r \<longleftrightarrow>
     (\<exists>i<n. r_price r = mn + int i \<and>
        r \<in> set ((if r_stop r then stops else books) (r_side r) ! i))"

definition covered :: "(OrderId \<Rightarrow> ro option) \<Rightarrow> (Side \<Rightarrow> ro list list) \<Rightarrow> (Side \<Rightarrow> ro list list) \<Rightarrow>
    Price \<Rightarrow> nat \<Rightarrow> bool" where
  "covered v books stops mn n \<longleftrightarrow> (\<forall>oid r. v oid = Some r \<longrightarrow> r_id r = oid \<and> home books stops mn n r)"

definition erel :: "(Side \<Rightarrow> nat set) \<Rightarrow> engine \<Rightarrow> astate \<Rightarrow> bool" where
  "erel D e a \<longleftrightarrow>
     a_min a = e_min e \<and> a_n a = e_n e \<and> 0 < e_n e \<and> e_n e < 2 ^ 63 \<and>
     store_ok (e_store e) \<and> a_next a = length (st_orders (e_store e)) \<and>
     (\<forall>s. book_rel s (e_min e) (e_n e) (view (e_store e)) (D s) (book_of s e) (a_books a s)) \<and>
     stops_rel e (view (e_store e)) (a_stops a) \<and>
     covered (view (e_store e)) (a_books a) (a_stops a) (e_min e) (e_n e) \<and>
     e_pending_stops e = stop_count a \<and> a_last a = e_last_px e \<and> a_has_last a = e_has_last e \<and>
     a_pumping a = e_pumping e \<and> a_halted a = e_halted e \<and> a_stp_halt a = e_stp_halt e \<and>
     a_tape a = e_tape e"

abbreviation clean :: "Side \<Rightarrow> nat set" where
  "clean \<equiv> \<lambda>s. {}"

lemma erelD:
  assumes "erel D e a"
  shows "a_min a = e_min e" "a_n a = e_n e" "0 < e_n e" "e_n e < 2 ^ 63" "store_ok (e_store e)"
    "a_next a = length (st_orders (e_store e))"
    "\<And>s. book_rel s (e_min e) (e_n e) (view (e_store e)) (D s) (book_of s e) (a_books a s)"
    "stops_rel e (view (e_store e)) (a_stops a)"
    "covered (view (e_store e)) (a_books a) (a_stops a) (e_min e) (e_n e)"
    "e_pending_stops e = stop_count a" "a_last a = e_last_px e" "a_has_last a = e_has_last e"
    "a_pumping a = e_pumping e" "a_halted a = e_halted e" "a_stp_halt a = e_stp_halt e"
    "a_tape a = e_tape e"
  using assms by (simp_all add: erel_def)

lemma erel_ladder:
  assumes "erel D e a"
  shows "ladder_rel False s (e_min e) (e_n e) (view (e_store e)) (D s) (book_of s e) (a_books a s)"
  using book_relD(1) [OF erelD(7) [OF assms]] .

lemma erel_lengths:
  assumes "erel D e a"
  shows "length (a_books a s) = e_n e" "length (a_stops a s) = e_n e"
proof -
  show "length (a_books a s) = e_n e" using ladder_relD(2) [OF erel_ladder [OF assms]] .
  show "length (a_stops a s) = e_n e"
    using erelD(8) [OF assms] by (auto simp: stops_rel_def dest: ladder_relD(2) split: if_splits)
qed

lemma erel_level:
  assumes "erel D e a" "i < e_n e"
  shows "level_at (book_of s e) i = Some (ld_levels (book_of s e) ! i)"
    "level_rel False s (e_min e + int i) (view (e_store e)) (ld_levels (book_of s e) ! i) (a_books a s ! i)"
  using ladder_rel_level_at [OF erel_ladder [OF assms(1)] assms(2)]
    ladder_relD(3) [OF erel_ladder [OF assms(1)] assms(2)] by simp_all

lemma erel_best:
  assumes "erel D e a"
  shows "best_rel s (occ (a_books a s) \<union> D s) (bk_best (book_of s e))"
  using book_relD(2) [OF erelD(7) [OF assms]] .

lemma erel_emit: "erel D e a \<Longrightarrow> erel D (emit ev e) (a_emit ev a)"
  by (simp add: erel_def stops_rel_def emit_def a_emit_def stop_count_def)

lemma erel_stp_halt: "erel D e a \<Longrightarrow> erel D (e\<lparr>e_stp_halt := b\<rparr>) (a\<lparr>a_stp_halt := b\<rparr>)"
  by (simp add: erel_def stops_rel_def stop_count_def)

lemma erel_pumping: "erel D e a \<Longrightarrow> erel D (e\<lparr>e_pumping := b\<rparr>) (a\<lparr>a_pumping := b\<rparr>)"
  by (simp add: erel_def stops_rel_def stop_count_def)

lemma erel_halted: "erel D e a \<Longrightarrow> erel D (e\<lparr>e_halted := b\<rparr>) (a\<lparr>a_halted := b\<rparr>)"
  by (simp add: erel_def stops_rel_def stop_count_def)

lemma erel_tape: "erel D e a \<Longrightarrow> erel D (e\<lparr>e_tape := t\<rparr>) (a\<lparr>a_tape := t\<rparr>)"
  by (simp add: erel_def stops_rel_def stop_count_def)

lemma erel_last:
  "erel D e a \<Longrightarrow> erel D (e\<lparr>e_last_px := p, e_has_last := b\<rparr>) (a\<lparr>a_last := p, a_has_last := b\<rparr>)"
  by (simp add: erel_def stops_rel_def stop_count_def)

text \<open>The orders alive are exactly the ones on the ladders.\<close>

lemma erel_view_home:
  assumes "erel D e a" "view (e_store e) oid = Some r"
  shows "r_id r = oid" "home (a_books a) (a_stops a) (e_min e) (e_n e) r"
  using erelD(9) [OF assms(1)] assms(2) by (auto simp: covered_def)

section \<open>Changing one level\<close>

lemma covered_update:
  assumes cov: "covered v books stops mn n" and i: "i < n"
    and len: "length ((if k then stops else books) s) = n"
    and ch: "relevel v v' ((if k then stops else books) s ! i) os'"
    and lvl: "level_rel k s (mn + int i) v' lvl' os'"
    and old: "\<And>r. r \<in> set ((if k then stops else books) s ! i) \<Longrightarrow> v (r_id r) = Some r"
  shows "covered v' (if k then books else books(s := (books s)[i := os']))
    (if k then stops(s := (stops s)[i := os']) else stops) mn n"
proof -
  let ?old = "(if k then stops else books) s ! i"
  let ?b = "if k then books else books(s := (books s)[i := os'])"
  let ?s = "if k then stops(s := (stops s)[i := os']) else stops"
  have "r_id r = oid \<and> home ?b ?s mn n r" if r: "v' oid = Some r" for oid r
  proof (cases "oid \<in> r_id ` set os'")
    case True
    then obtain r' where r': "r' \<in> set os'" "r_id r' = oid" by auto
    with level_relD(3) [OF lvl r'(1)] r have "r' = r" by simp
    with r' level_relD(4) [OF lvl r'(1)] i len show ?thesis
      by (auto simp: resting_ok_def home_def intro!: exI [of _ i])
  next
    case False
    with ch r have nold: "oid \<notin> r_id ` set ?old" unfolding relevel_def by force
    with ch False have "v oid = Some r" using r by (auto simp: relevel_def)
    with cov have h: "r_id r = oid" "home books stops mn n r" by (auto simp: covered_def)
    from h(2) obtain j where j: "j < n" "r_price r = mn + int j"
      "r \<in> set ((if r_stop r then stops else books) (r_side r) ! j)" by (auto simp: home_def)
    have "(r_stop r, r_side r, j) \<noteq> (k, s, i)" using j(3) nold h(1) by auto
    then have "r \<in> set ((if r_stop r then ?s else ?b) (r_side r) ! j)"
      using j(3) len by (auto simp: nth_list_update)
    with j h show ?thesis by (auto simp: home_def)
  qed
  then show ?thesis by (simp add: covered_def)
qed

lemma stops_rel_frame:
  assumes "stops_rel e v stops" "level_rel False s p v lvl os" "relevel v v' os os'"
  shows "stops_rel e v' stops"
proof (cases "ld_levels (stops_of Buy e) = []")
  case False
  have "ladder_rel True t (e_min e) (e_n e) v' {} (stops_of t e) (stops t)" for t
    using assms(1) False by (intro ladder_rel_frame [OF _ assms(2) _ assms(3)]) (simp_all add: stops_rel_def)
  with False show ?thesis by (simp add: stops_rel_def)
qed (use assms(1) in \<open>simp add: stops_rel_def\<close>)

lemma erel_put:
  assumes e: "erel D e a" and i: "i < e_n e" and st: "store_ok st" "length (st_orders st) = length (st_orders (e_store e))"
    and ch: "relevel (view (e_store e)) (view st) (a_books a s ! i) os'"
    and lvl: "level_rel False s (e_min e + int i) (view st) lvl' os'"
    and bk: "ld_levels bk = (ld_levels (book_of s e))[i := lvl']" "bm_ok (ld_map bk)" "bm_n (ld_map bk) = e_n e"
      "bm_bits (ld_map bk) = occ ((a_books a s)[i := os']) \<union> D'"
      "best_rel s (occ ((a_books a s)[i := os']) \<union> D') (bk_best bk)"
  shows "erel (D(s := D')) (set_book s bk (e\<lparr>e_store := st\<rparr>)) (a_level s i os' a)"
proof -
  let ?v = "view (e_store e)" and ?v' = "view st"
  note lad = erel_ladder [OF e, of s]
  note old = ladder_relD(3) [OF lad i]
  have "\<forall>t. book_rel t (e_min e) (e_n e) ?v' ((D(s := D')) t) (book_of t (set_book s bk (e\<lparr>e_store := st\<rparr>)))
      (((a_books a)(s := (a_books a s)[i := os'])) t)"
  proof
    fix t show "book_rel t (e_min e) (e_n e) ?v' ((D(s := D')) t) (book_of t (set_book s bk (e\<lparr>e_store := st\<rparr>)))
      (((a_books a)(s := (a_books a s)[i := os'])) t)"
    proof (cases "t = s")
    case True
    with ladder_rel_update [OF lad i ch lvl bk(2,3,4) bk(1)] bk(5) show ?thesis by (simp add: book_rel_def)
  next
    case False
    with ladder_rel_frame [OF erel_ladder [OF e, of t] old _ ch] erel_best [OF e, of t] show ?thesis
      by (simp add: book_rel_def)
    qed
  qed
  moreover have "stops_rel (set_book s bk (e\<lparr>e_store := st\<rparr>)) ?v' (a_stops a)"
    using stops_rel_frame [OF erelD(8) [OF e] old ch] by (simp add: stops_rel_def)
  moreover have "covered ?v' ((a_books a)(s := (a_books a s)[i := os'])) (a_stops a) (e_min e) (e_n e)"
    using covered_update [OF erelD(9) [OF e] i, of False s "view st" os' lvl'] ch lvl
      erel_lengths [OF e] level_relD(3) [OF old] by simp
  ultimately show ?thesis
    using e st by (simp add: erel_def stop_count_def split del: if_split)
qed

text \<open>A change of a level that keeps its occupancy bit: it stays occupied, or it is dirty.\<close>

lemma erel_put_keep:
  assumes e: "erel D e a" and i: "i < e_n e" and st: "store_ok st" "length (st_orders st) = length (st_orders (e_store e))"
    and ch: "relevel (view (e_store e)) (view st) (a_books a s ! i) os'"
    and lvl: "level_rel False s (e_min e + int i) (view st) lvl' os'"
    and keep: "i \<in> D s \<or> (a_books a s ! i \<noteq> [] \<and> os' \<noteq> [])"
    and bk: "put_level i lvl' (book_of s e) = Some bk"
  shows "erel D (set_book s bk (e\<lparr>e_store := st\<rparr>)) (a_level s i os' a)"
proof -
  note lad = erel_ladder [OF e, of s]
  have len: "i < length (a_books a s)" using erel_lengths [OF e] i by simp
  have bits: "occ ((a_books a s)[i := os']) \<union> D s = occ (a_books a s) \<union> D s"
    using keep
  proof
    assume "i \<in> D s"
    then have "occ oss \<union> D s = insert i (occ oss) \<union> D s" for oss by auto
    then show ?thesis using occ_insert [OF len, of os'] by metis
  next
    assume h: "a_books a s ! i \<noteq> [] \<and> os' \<noteq> []"
    then have "i \<in> occ (a_books a s)" using len by (simp add: occ_def)
    then show ?thesis using occ_keep [OF len] h by auto
  qed
  have bk': "bk = (book_of s e)\<lparr>ld_levels := (ld_levels (book_of s e))[i := lvl']\<rparr>"
    using bk ladder_rel_put_level [OF lad i, of lvl'] by simp
  have "erel (D(s := D s)) (set_book s bk (e\<lparr>e_store := st\<rparr>)) (a_level s i os' a)"
    by (rule erel_put [OF e i st ch lvl])
       (use ladder_relD(4-6) [OF lad] erel_best [OF e, of s] bits in \<open>simp_all add: bk'\<close>)
  then show ?thesis by simp
qed

section \<open>Changing one level of a stop book\<close>

lemma stop_count_update:
  assumes "i < length (a_stops a s)"
  shows "stop_count (a_stop_level s i os a) + length (a_stops a s ! i) = stop_count a + length os"
proof -
  have "sum_list (map length (oss[i := os])) + length (oss ! i) = sum_list (map length oss) + length os"
    if "i < length oss" for oss :: "'b list list" and os
    using that
  proof (induction oss arbitrary: i)
    case (Cons x oss)
    then show ?case by (cases i) auto
  qed simp
  from this [OF assms] show ?thesis by (cases s) (auto simp: stop_count_def)
qed

lemma erel_stop_ladder:
  assumes "erel D e a" "ld_levels (stops_of Buy e) \<noteq> []"
  shows "ladder_rel True s (e_min e) (e_n e) (view (e_store e)) {} (stops_of s e) (a_stops a s)"
  using erelD(8) [OF assms(1)] assms(2) by (simp add: stops_rel_def)

lemma erel_put_stop:
  assumes e: "erel D e a" and alloc: "ld_levels (stops_of Buy e) \<noteq> []" and i: "i < e_n e"
    and st: "store_ok st" "length (st_orders st) = length (st_orders (e_store e))"
    and ch: "relevel (view (e_store e)) (view st) (a_stops a s ! i) os'"
    and lvl: "level_rel True s (e_min e + int i) (view st) lvl' os'"
    and ld: "ld_levels ld = (ld_levels (stops_of s e))[i := lvl']" "bm_ok (ld_map ld)" "bm_n (ld_map ld) = e_n e"
      "bm_bits (ld_map ld) = occ ((a_stops a s)[i := os'])"
    and k: "k = stop_count (a_stop_level s i os' a)"
  shows "erel D ((set_stops s ld e)\<lparr>e_store := st, e_pending_stops := k\<rparr>) (a_stop_level s i os' a)"
proof -
  let ?v = "view (e_store e)" and ?v' = "view st"
  let ?e = "(set_stops s ld e)\<lparr>e_store := st, e_pending_stops := k\<rparr>"
  note lad = erel_stop_ladder [OF e alloc]
  note old = ladder_relD(3) [OF lad i]
  have "\<forall>t. ladder_rel True t (e_min e) (e_n e) ?v' {} (stops_of t ?e) (((a_stops a)(s := (a_stops a s)[i := os'])) t)"
  proof
    fix t show "ladder_rel True t (e_min e) (e_n e) ?v' {} (stops_of t ?e) (((a_stops a)(s := (a_stops a s)[i := os'])) t)"
    proof (cases "t = s")
      case True
      with ladder_rel_update [OF lad i ch lvl, of "ld_map ld" "{}" ld] ld show ?thesis by simp
    next
      case False
      with ladder_rel_frame [OF lad [of t] old _ ch] show ?thesis by simp
    qed
  qed
  moreover have "ld_levels (stops_of Buy ?e) \<noteq> []"
    using ladder_relD(1) [OF calculation [rule_format, of Buy]] erelD(3) [OF e] by auto
  moreover have "\<forall>t. book_rel t (e_min e) (e_n e) ?v' (D t) (book_of t e) (a_books a t)"
    using ladder_rel_frame [OF erel_ladder [OF e] old _ ch] erelD(7) [OF e] by (simp add: book_rel_def)
  moreover have "covered ?v' (a_books a) ((a_stops a)(s := (a_stops a s)[i := os'])) (e_min e) (e_n e)"
    using covered_update [OF erelD(9) [OF e] i, of True s "view st" os' lvl'] ch lvl
      erel_lengths [OF e] level_relD(3) [OF old] by simp
  ultimately show ?thesis
    using e st k by (simp add: erel_def stops_rel_def del: fun_upd_apply)
qed

text \<open>Allocating the stop books on the first stop, and handing out an id.\<close>

lemma erel_ensure:
  assumes "erel D e a"
  shows "erel D (ensure_stop_books e) a" "ld_levels (stops_of Buy (ensure_stop_books e)) \<noteq> []"
    "e_store (ensure_stop_books e) = e_store e" "e_n (ensure_stop_books e) = e_n e"
    "e_min (ensure_stop_books e) = e_min e"
proof -
  note d = erelD [OF assms]
  show "ld_levels (stops_of Buy (ensure_stop_books e)) \<noteq> []" "e_store (ensure_stop_books e) = e_store e"
    "e_n (ensure_stop_books e) = e_n e" "e_min (ensure_stop_books e) = e_min e"
    using d(3) by (simp_all add: ensure_stop_books_def stops_of_def Let_def)
  show "erel D (ensure_stop_books e) a"
  proof (cases "ld_levels (stops_of Buy e) = []")
    case True
    let ?ld = "\<lparr>ld_levels = replicate (e_n e) level_empty, ld_map = bm_new (e_n e)\<rparr>"
    have ens: "ensure_stop_books e = e\<lparr>e_stop_bids := ?ld, e_stop_asks := ?ld\<rparr>"
      using True by (simp add: ensure_stop_books_def book_of_sides Let_def)
    have "\<forall>s. a_stops a s = replicate (e_n e) []" using d(8) True by (simp add: stops_rel_def)
    then have "\<forall>s. ladder_rel True s (e_min e) (e_n e) (view (e_store e)) {} (stops_of s (ensure_stop_books e)) (a_stops a s)"
      using ladder_rel_new [OF d(4), of ?ld] by (simp add: ens stops_of_def split: Side.splits)
    moreover have "\<forall>s. book_of s (ensure_stop_books e) = book_of s e"
      by (simp add: ens book_of_def split: Side.splits)
    ultimately show ?thesis
      using assms d(3) by (simp add: erel_def stops_rel_def) (simp add: ens stops_of_def)
  next
    case False
    with assms show ?thesis by (simp add: ensure_stop_books_def book_of_sides)
  qed
qed

lemma erel_fresh:
  assumes e: "erel D e a" and f: "fresh_id e = (oid, e')"
  shows "a_fresh a = (oid, snd (a_fresh a))" "erel D e' (snd (a_fresh a))" "view (e_store e') oid = None"
    "oid < length (st_orders (e_store e'))" "oid \<noteq> 0" "e_min e' = e_min e" "e_n e' = e_n e"
proof -
  obtain st where st: "next_id (e_store e) = (oid, st)" "e' = e\<lparr>e_store := st\<rparr>"
    using f by (auto simp: fresh_id_def split: prod.splits)
  note d = erelD [OF e]
  note n = next_id_spec [OF d(5) st(1)]
  show "a_fresh a = (oid, snd (a_fresh a))" using d(6) n(2) by (simp add: a_fresh_def)
  have "\<forall>s. book_of s e' = book_of s e" "\<forall>s. stops_of s e' = stops_of s e" by (simp_all add: st)
  then show "erel D e' (snd (a_fresh a))"
    using e n(1,2,3,5) by (simp add: erel_def stops_rel_def stop_count_def a_fresh_def) (simp add: st)
  show "view (e_store e') oid = None" "oid < length (st_orders (e_store e'))" "oid \<noteq> 0" "e_min e' = e_min e" "e_n e' = e_n e"
    using n by (simp_all add: st)
qed

end
