(* ===== verification/Matching_Refinement.thy ===== *)
theory Matching_Refinement
  imports Engine_Relation
begin

text \<open>
  The matching core of the engine simulates the abstract one: resting an order, sweeping a
  level, the pass over the levels, the depth scan and the crossing test.
\<close>

section \<open>A node through the abstract order\<close>

lemma view_node:
  assumes ok: "store_ok st" and v: "view st oid = Some r"
  obtains ord where "lookup st oid = Some ord" "o_id ord = oid" "r_id r = oid" "o_qty ord = r_qty r"
    "o_owner ord = r_owner r" "o_side ord = r_side r" "o_price ord = r_price r" "o_stp ord = r_stp r"
    "flag ord kStopPending = r_stop r" "flag ord kStopMarket = r_market r"
    "reserve_of st ord = Some (r_reserve r)" "r_reserve r \<noteq> 0 \<Longrightarrow> flag ord kIceberg"
    "flag ord kIceberg \<Longrightarrow> \<exists>x. extra_of st ord = Some x \<and> x_reserve x = r_reserve r \<and> x_peak x = r_peak r"
    "\<not> flag ord kIceberg \<Longrightarrow> r_reserve r = 0 \<and> r_peak r = 0"
    "r_stop r \<Longrightarrow> \<not> r_market r \<Longrightarrow> \<exists>x. extra_of st ord = Some x \<and> x_limit x = r_limit r"
    "r_market r \<Longrightarrow> r_limit r = 0"
proof -
  from v obtain ord where l: "lookup st oid = Some ord" and r: "r = ro_of (st_extras st) ord"
    by (auto simp: view_lookup)
  note nd = store_okD(4) [OF ok l, unfolded node_ok_def]
  have ice: "\<exists>x. extra_of st ord = Some x \<and> x_reserve x = r_reserve r \<and> x_peak x = r_peak r" if "flag ord kIceberg"
    using extra_of_spec [OF ok l] that by (auto simp: r ro_of_def)
  have lim: "\<exists>x. extra_of st ord = Some x \<and> x_limit x = r_limit r" if "r_stop r" "\<not> r_market r"
    using extra_of_spec [OF ok l] that by (auto simp: r ro_of_def)
  have res: "reserve_of st ord = Some (r_reserve r)"
    using ice by (auto simp: reserve_of_def r ro_of_def)
  show ?thesis
    by (rule that [OF l _ _ _ _ _ _ _ _ _ res _ ice]) (use nd lim in \<open>auto simp: r ro_of_def split: if_splits\<close>)
qed

lemma stp_code_flags:
  "flag \<lparr>o_id = a, o_price = b, o_qty = c, o_ext = d, o_owner = f, o_side = g, o_flags = stp_code stp, o_addr = h\<rparr> k
     = (stp_code stp AND k \<noteq> 0)"
  by (simp add: flag_def)

lemma stp_code_bits [simp]:
  "stp_code stp AND kIceberg = 0" "stp_code stp AND kStopPending = 0" "stp_code stp AND kStopMarket = 0"
  "(stp_code stp OR kIceberg) AND kIceberg \<noteq> 0" "(stp_code stp OR kIceberg) AND kStopPending = 0"
  "(stp_code stp OR kIceberg) AND kStopMarket = 0"
  "(stp_code stp OR kIceberg) AND kStpMask = stp_code stp" "stp_code stp AND kStpMask = stp_code stp"
  "(stp_code stp OR kStopPending OR kStopMarket) AND kIceberg = 0"
  "(stp_code stp OR kStopPending OR kStopMarket) AND kStopPending \<noteq> 0"
  "(stp_code stp OR kStopPending OR kStopMarket) AND kStopMarket \<noteq> 0"
  "(stp_code stp OR kStopPending OR kStopMarket) AND kStpMask = stp_code stp"
  "(stp_code stp OR kStopPending) AND kIceberg = 0"
  "(stp_code stp OR kStopPending) AND kStopPending \<noteq> 0"
  "(stp_code stp OR kStopPending) AND kStopMarket = 0"
  "(stp_code stp OR kStopPending) AND kStpMask = stp_code stp"
  by (cases stp; simp add: stp_code_def kIceberg_def kStopPending_def kStopMarket_def kStpMask_def)+

lemma stp_code_decode [simp]:
  "stp_code stp = 0 \<longleftrightarrow> stp = CancelTaker" "stp_code stp = 1 \<longleftrightarrow> stp = CancelMaker"
  "kIceberg \<noteq> 0" "kStopPending \<noteq> 0" "kStopMarket \<noteq> 0"
  by (cases stp; simp add: stp_code_def kIceberg_def kStopPending_def kStopMarket_def)+

lemma stp_cases: "stp \<noteq> CancelTaker \<Longrightarrow> stp \<noteq> CancelMaker \<Longrightarrow> CancelBoth = stp"
  by (cases stp) auto

section \<open>Resting\<close>

lemma band_index:
  assumes "in_band e price"
  shows "idx e price < e_n e" "e_min e + int (idx e price) = price"
  using assms by (auto simp: in_band_def idx_def)

lemma new_order_fields [simp]:
  "r_id (new_order oid side price qty owner stp peak) = oid"
  "r_side (new_order oid side price qty owner stp peak) = side"
  "r_price (new_order oid side price qty owner stp peak) = price"
  "r_stop (new_order oid side price qty owner stp peak) = False"
  "r_owner (new_order oid side price qty owner stp peak) = owner"
  by (simp_all add: new_order_def Let_def)

lemma resting_ok_new:
  assumes "qty \<noteq> 0"
  shows "resting_ok False side price (new_order oid side price qty owner stp peak)"
proof -
  have "unat peak + unat (qty - peak) = unat qty" if "peak < qty"
    using unat_minus_le [of peak qty] that by (simp add: word_le_nat_alt word_less_nat_alt)
  moreover have "unat qty < 2 ^ 64" by (rule order.strict_trans2 [OF unsigned_less]) simp
  ultimately show ?thesis
    using assms by (auto simp: resting_ok_def new_order_def Let_def word_gt_0)
qed

lemma rest_sim:
  assumes e: "erel clean e a" and fresh: "view (e_store e) oid = None" "oid < length (st_orders (e_store e))"
      "oid \<noteq> 0" and band: "in_band e price" and q: "qty \<noteq> 0"
  shows "\<exists>e'. rest oid side price qty owner stp peak e = Some e' \<and>
    erel clean e' (a_rest oid side price qty owner stp peak a)"
proof -
  define ice where "ice \<longleftrightarrow> peak \<noteq> 0 \<and> qty > peak"
  define r where "r = new_order oid side price qty owner stp peak"
  define node where "node = \<lparr>o_id = oid, o_price = price, o_qty = (if ice then peak else qty), o_ext = None,
    o_owner = owner, o_side = side, o_flags = (if ice then stp_code stp OR kIceberg else stp_code stp), o_addr = 0\<rparr>"
  define ex where "ex = (if ice then Some (\<lambda>x::extra. x\<lparr>x_reserve := (if ice then qty - peak else 0), x_peak := peak\<rparr>) else None)"
  note d = erelD [OF e]
  note ix = band_index [OF band]
  let ?i = "idx e price" and ?v = "view (e_store e)"
  have r: "r_id r = oid" "r_qty r = (if ice then peak else qty)" "r_reserve r = (if ice then qty - peak else 0)"
    by (auto simp: r_def ice_def new_order_def Let_def)
  have ro: "ro_make node (slot_value ex) = r"
    by (auto simp: r_def node_def ex_def slot_value_def extra_zero_def new_order_def ro_make_def flag_def
        o_stp_def Let_def ice_def stp_cases)
  have "\<exists>st. insert_node (e_store e) node ex = Some st \<and> store_ok st \<and>
      view st = ?v(o_id node \<mapsto> ro_make node (slot_value ex)) \<and>
      length (st_orders st) = length (st_orders (e_store e))"
    by (rule insert_node_spec [OF d(5)])
       (use fresh in \<open>auto simp: node_def ex_def flag_def view_None\<close>)
  then obtain st where st: "insert_node (e_store e) node ex = Some st" "store_ok st" "view st = ?v(oid \<mapsto> r)"
      "length (st_orders st) = length (st_orders (e_store e))"
    unfolding ro by (auto simp: node_def)
  note lad = erel_ladder [OF e, of side] and lvl = erel_level [OF e ix(1), of side]
  define lvl1 where "lvl1 = ld_levels (book_of side e) ! ?i"
  define lvl2 where "lvl2 = lvl1\<lparr>l_total := l_total lvl1 + r_qty r, l_hidden := l_hidden lvl1 + r_reserve r,
    l_fifo := l_fifo lvl1 @ [oid], l_count := l_count lvl1 + 1\<rparr>"
  have new: "?v (r_id r) = None" using fresh(1) r(1) by simp
  have l2: "level_rel False side price (view st) lvl2 (a_books a side ! ?i @ [r])"
    unfolding st(3) r(1) [symmetric]
    by (rule level_rel_append [where v = ?v and r = r, OF _ new])
       (use lvl(2) resting_ok_new [OF q] r in \<open>simp_all add: lvl2_def lvl1_def ix(2) r_def\<close>)
  have ch: "relevel ?v (view st) (a_books a side ! ?i) (a_books a side ! ?i @ [r])"
    unfolding st(3) r(1) [symmetric] by (rule relevel_append [where v = ?v, OF new])
  have len: "?i < length (a_books a side)" using erel_lengths(1) [OF e] ix(1) by simp
  have occ': "occ ((a_books a side)[?i := a_books a side ! ?i @ [r]]) = insert ?i (occ (a_books a side))"
    by (rule occ_keep [OF len]) simp
  have bits: "bm_bits (ld_map (book_of side e)) = occ (a_books a side)" using ladder_relD(6) [OF lad] by simp
  have fifo: "l_fifo lvl1 = map r_id (a_books a side ! ?i)" using level_relD(1) [OF lvl(2)] by (simp add: lvl1_def)
  have "\<exists>bk1. (if l_fifo lvl1 \<noteq> [] then Some (book_of side e)
         else do { m \<leftarrow> bm_set (ld_map (book_of side e)) ?i;
           Some ((book_of side e)\<lparr>ld_map := m,
             bk_best := (if improves side (int ?i) (bk_best (book_of side e)) then int ?i
                         else bk_best (book_of side e))\<rparr>) }) = Some bk1 \<and>
      ld_levels bk1 = ld_levels (book_of side e) \<and> bm_ok (ld_map bk1) \<and> bm_n (ld_map bk1) = e_n e \<and>
      bm_bits (ld_map bk1) = insert ?i (occ (a_books a side)) \<and>
      best_rel side (insert ?i (occ (a_books a side))) (bk_best bk1)"
  proof (cases "a_books a side ! ?i = []")
    case True
    obtain m where "bm_set (ld_map (book_of side e)) ?i = Some m" "bm_ok m" "bm_n m = e_n e"
      "bm_bits m = insert ?i (occ (a_books a side))"
      using bm.mark [of "ld_map (book_of side e)" ?i] ladder_relD(4,5) [OF lad] ix(1) bits by auto
    with True fifo best_rel_link [OF erel_best [OF e, of side], of ?i] show ?thesis by simp
  next
    case False
    then have "insert ?i (occ (a_books a side)) = occ (a_books a side)" using len by (auto simp: occ_def)
    with False fifo ladder_relD(4,5) [OF lad] bits erel_best [OF e, of side] show ?thesis by simp
  qed
  then obtain bk1 where bk1: "(if l_fifo lvl1 \<noteq> [] then Some (book_of side e)
         else do { m \<leftarrow> bm_set (ld_map (book_of side e)) ?i;
           Some ((book_of side e)\<lparr>ld_map := m,
             bk_best := (if improves side (int ?i) (bk_best (book_of side e)) then int ?i
                         else bk_best (book_of side e))\<rparr>) }) = Some bk1"
      "ld_levels bk1 = ld_levels (book_of side e)" "bm_ok (ld_map bk1)" "bm_n (ld_map bk1) = e_n e"
      "bm_bits (ld_map bk1) = insert ?i (occ (a_books a side))"
      "best_rel side (insert ?i (occ (a_books a side))) (bk_best bk1)" by blast
  define bk2 where "bk2 = bk1\<lparr>ld_levels := (ld_levels (book_of side e))[?i := lvl2]\<rparr>"
  have put: "put_level ?i lvl2 bk1 = Some bk2"
    using bk1(2) ladder_relD(1) [OF lad] ix(1) by (simp add: put_level_def vec_set_in bk2_def)
  have "rest oid side price qty owner stp peak e =
      Some (emit (Rested oid side price (r_qty r)) (set_book side bk2 (e\<lparr>e_store := st\<rparr>)))"
    using st(1) lvl(1) bk1(1) put
    unfolding rest_def ice_def [symmetric] Let_def node_def ex_def lvl2_def r lvl1_def
    by (simp split del: if_split)
  moreover have "erel (clean(side := {})) (set_book side bk2 (e\<lparr>e_store := st\<rparr>))
      (a_level side ?i (a_books a side ! ?i @ [r]) a)"
    by (rule erel_put [OF e ix(1) st(2,4) ch, of lvl2])
       (use l2 bk1 occ' ix(2) in \<open>simp_all add: bk2_def\<close>)
  then have "erel clean (set_book side bk2 (e\<lparr>e_store := st\<rparr>)) (a_level side ?i (a_books a side ! ?i @ [r]) a)"
    by (simp add: fun_upd_idem)
  note erel_emit [OF this, of "Rested oid side price (r_qty r)"]
  ultimately show ?thesis
    using d(1) by (simp add: a_rest_def Let_def r_def [symmetric] a_idx_def idx_def)
qed

section \<open>Sweeping one level\<close>

lemma set_book_updates [simp]:
  "set_book s b (e\<lparr>e_store := st\<rparr>) = (set_book s b e)\<lparr>e_store := st\<rparr>"
  "set_book s b (e\<lparr>e_last_px := p\<rparr>) = (set_book s b e)\<lparr>e_last_px := p\<rparr>"
  "set_book s b (e\<lparr>e_has_last := h\<rparr>) = (set_book s b e)\<lparr>e_has_last := h\<rparr>"
  "set_book s b (e\<lparr>e_tape := t\<rparr>) = (set_book s b e)\<lparr>e_tape := t\<rparr>"
  "set_book s b (set_book s b' e) = set_book s b e"
  by (cases s; simp add: set_book_def)+

lemma a_swept_none [simp]:
  "i < length (a_books a ms) \<Longrightarrow> a_swept ms i (False, [], a_books a ms ! i) a = a"
  by (simp add: a_swept_def a_level_def fun_upd_idem)

lemma a_swept_compose:
  "a_swept ms i (h, evs2, os2) (a_swept ms i (False, evs1, os1) a) = a_swept ms i (h, evs1 @ evs2, os2) a"
  by (rule astate.equality) (auto simp: a_swept_def a_level_def fun_eq_iff)

lemma erel_put_level:
  assumes "erel D e a" "i < e_n e"
  shows "put_level i lvl (book_of s e) = Some ((book_of s e)\<lparr>ld_levels := (ld_levels (book_of s e))[i := lvl]\<rparr>)"
    "i < length (ld_levels (book_of s e))"
  using ladder_rel_put_level [OF erel_ladder [OF assms(1)] assms(2)] ladder_relD(1) [OF erel_ladder [OF assms(1)]]
    assms(2) by simp_all

lemma level_overwrite:
  assumes "i < length (ld_levels ld)"
  shows "level_at (ld\<lparr>ld_levels := (ld_levels ld)[i := l1]\<rparr>) i = Some l1"
    "put_level i l2 (ld\<lparr>ld_levels := (ld_levels ld)[i := l1]\<rparr>) = Some (ld\<lparr>ld_levels := (ld_levels ld)[i := l2]\<rparr>)"
  using assms by (simp_all add: level_at_def put_level_def vec_at_in vec_set_in)

lemma erel_traded:
  assumes e: "erel D (set_book ms bk (e\<lparr>e_store := st\<rparr>)) (a_level ms i os' a)"
    and a: "a_min a = e_min e" "a_tape a = e_tape e" "a_stp_halt a = e_stp_halt e" and tr: "list_ex is_trade evs"
    and e': "e' = (set_book ms bk e)\<lparr>e_store := st, e_last_px := e_min e + int i, e_has_last := True,
      e_tape := e_tape e @ evs\<rparr>"
  shows "erel D e' (a_swept ms i (False, evs, os') a)"
proof -
  have "erel D ((set_book ms bk (e\<lparr>e_store := st\<rparr>))\<lparr>e_last_px := e_min e + int i, e_has_last := True,
      e_tape := e_tape e @ evs\<rparr>)
    ((a_level ms i os' a)\<lparr>a_last := a_min a + int i, a_has_last := True, a_tape := a_tape a @ evs\<rparr>)"
    using erel_tape [OF erel_last [OF e, where p = "e_min e + int i" and b = True], of "e_tape e @ evs"] a
    by simp
  moreover have "(a_level ms i os' a)\<lparr>a_last := a_min a + int i, a_has_last := True, a_tape := a_tape a @ evs\<rparr> =
      a_swept ms i (False, evs, os') a"
    by (rule astate.equality) (simp_all add: a_swept_def tr)
  moreover have "(set_book ms bk (e\<lparr>e_store := st\<rparr>))\<lparr>e_last_px := e_min e + int i, e_has_last := True,
      e_tape := e_tape e @ evs\<rparr> = e'"
    by (rule engine.equality) (simp_all add: e')
  ultimately show ?thesis by simp
qed

text \<open>The order a sweep stands on, and the level it is in.\<close>

lemma head_facts:
  assumes e: "erel D e a" and i: "i < e_n e" and os: "a_books a s ! i = r # os"
  shows "view (e_store e) (r_id r) = Some r" "l_fifo (ld_levels (book_of s e) ! i) = r_id r # map r_id os"
    "resting_ok False s (e_min e + int i) r"
    "level_rel False s (e_min e + int i) (view (e_store e)) (ld_levels (book_of s e) ! i) (r # os)"
  using erel_level(2) [OF e i, of s] unfolding os by (auto simp: level_rel_def)

lemma fill_part:
  assumes e: "erel D e a" and i: "i < e_n e" "i \<in> D ms" and os: "a_books a ms ! i = r # os"
    and f: "fill < r_qty r" and px: "px = e_min e + int i"
    and lvl: "lvl = ld_levels (book_of ms e) ! i"
  shows "\<exists>st bk. set_qty (e_store e) (r_id r) (r_qty r - fill) = Some st \<and>
    put_level i (lvl\<lparr>l_total := l_total lvl - fill\<rparr>) (book_of ms e) = Some bk \<and>
    erel D (emit (Traded tr) ((set_book ms bk e)\<lparr>e_store := st, e_last_px := px, e_has_last := True\<rparr>))
      (a_swept ms i (False, [Traded tr], r\<lparr>r_qty := r_qty r - fill\<rparr> # os) a)"
proof -
  note d = erelD [OF e] and h = head_facts [OF e i(1) os]
  let ?r' = "r\<lparr>r_qty := r_qty r - fill\<rparr>" and ?lvl' = "lvl\<lparr>l_total := l_total lvl - fill\<rparr>"
  obtain st where st: "set_qty (e_store e) (r_id r) (r_qty r - fill) = Some st" "store_ok st"
      "view st = (view (e_store e))(r_id r \<mapsto> ?r')" "length (st_orders st) = length (st_orders (e_store e))"
    using set_qty_spec [OF d(5) h(1)] by blast
  obtain bk where bk: "put_level i ?lvl' (book_of ms e) = Some bk" using erel_put_level(1) [OF e i(1)] by blast
  have pos: "0 < r_qty r - fill" "unat (r_qty r - fill) \<le> unat (r_qty r)"
    using f by (auto simp: word_gt_0 unat_minus_le less_imp_le)
  have ok: "resting_ok False ms (e_min e + int i) ?r'"
    using h(3) pos by (auto simp: resting_ok_def)
  have "erel D (set_book ms bk (e\<lparr>e_store := st\<rparr>)) (a_level ms i (?r' # os) a)"
  proof (rule erel_put_keep [OF e i(1) st(2,4) _ _ _ bk])
    show "level_rel False ms (e_min e + int i) (view st) ?lvl' (?r' # os)"
      unfolding st(3) by (rule level_rel_head [OF h(4) ok]) (simp_all add: lvl)
    show "relevel (view (e_store e)) (view st) (a_books a ms ! i) (?r' # os)"
      unfolding st(3) os by (rule relevel_replace) simp_all
  qed (use i in simp)
  from erel_traded [OF this d(1,16,15), of "[Traded tr]"] st(1) bk show ?thesis
    by (auto simp: is_trade_def emit_def px)
qed

lemma fill_gone:
  assumes e: "erel D e a" and i: "i < e_n e" "i \<in> D ms" and os: "a_books a ms ! i = r # os"
    and res: "r_reserve r = 0" and px: "px = e_min e + int i"
    and lvl: "lvl = ld_levels (book_of ms e) ! i"
  shows "\<exists>st bk e'. set_qty (e_store e) (r_id r) 0 = Some st \<and>
    put_level i (lvl\<lparr>l_total := l_total lvl - r_qty r\<rparr>) (book_of ms e) = Some bk \<and>
    exhaust_head ms i (r_id r) px
      (emit (Traded tr) ((set_book ms bk e)\<lparr>e_store := st, e_last_px := px, e_has_last := True\<rparr>)) = Some e' \<and>
    erel D e' (a_swept ms i (False, [Traded tr], os) a)"
proof -
  note d = erelD [OF e] and h = head_facts [OF e i(1) os] and pl = erel_put_level [OF e i(1), where s = ms]
  let ?r' = "r\<lparr>r_qty := 0\<rparr>" and ?lvl1 = "lvl\<lparr>l_total := l_total lvl - r_qty r\<rparr>"
  let ?lvl2 = "?lvl1\<lparr>l_fifo := tl (l_fifo ?lvl1), l_count := l_count ?lvl1 - 1\<rparr>"
  obtain st where st: "set_qty (e_store e) (r_id r) 0 = Some st" "store_ok st"
      "view st = (view (e_store e))(r_id r \<mapsto> ?r')" "length (st_orders st) = length (st_orders (e_store e))"
    using set_qty_spec [OF d(5) h(1)] by blast
  have v: "view st (r_id r) = Some ?r'" using st(3) by simp
  obtain st2 where st2: "drop_node st (r_id r) = Some st2" "store_ok st2"
      "view st2 = (view st)(r_id r := None)" "length (st_orders st2) = length (st_orders st)"
    using drop_node_spec [OF st(2) v] by blast
  have vs2: "view st2 = (view (e_store e))(r_id r := None)" using st2(3) st(3) by auto
  let ?bk = "\<lambda>l. (book_of ms e)\<lparr>ld_levels := (ld_levels (book_of ms e))[i := l]\<rparr>"
  let ?e1 = "emit (Traded tr) ((set_book ms (?bk ?lvl1) e)\<lparr>e_store := st, e_last_px := px, e_has_last := True\<rparr>)"
  let ?e' = "(set_book ms (?bk ?lvl2) e)\<lparr>e_store := st2, e_last_px := px, e_has_last := True, e_tape := e_tape e @ [Traded tr]\<rparr>"
  obtain ord where ord: "lookup st (r_id r) = Some ord" "reserve_of st ord = Some (r_reserve ?r')"
    using view_node [OF st(2) v] by metis
  have ex: "exhaust_head ms i (r_id r) px ?e1 = Some ?e'"
    using ord res st2(1) pl
    by (simp add: exhaust_head_def level_overwrite drop_order_def) (rule engine.equality; simp add: emit_def)
  have "erel D (set_book ms (?bk ?lvl2) (e\<lparr>e_store := st2\<rparr>)) (a_level ms i os a)"
  proof (rule erel_put_keep [OF e i(1) st2(2) _ _ _ _ pl(1)])
    show "level_rel False ms (e_min e + int i) (view st2) ?lvl2 os"
      unfolding vs2 by (rule level_rel_tl [OF h(4)]) (simp_all add: lvl res)
    show "relevel (view (e_store e)) (view st2) (a_books a ms ! i) os"
      unfolding vs2 os by (rule relevel_tl [OF level_relD(2) [OF h(4)]])
  qed (use i st(4) st2(4) in simp_all)
  from erel_traded [OF this d(1,16,15), of "[Traded tr]"] have "erel D ?e' (a_swept ms i (False, [Traded tr], os) a)"
    by (simp add: is_trade_def px)
  with st(1) pl(1) ex show ?thesis by blast
qed

lemma refill_fields [simp]:
  "r_id (refill r) = r_id r" "r_side (refill r) = r_side r" "r_price (refill r) = r_price r"
  "r_stop (refill r) = r_stop r" "r_peak (refill r) = r_peak r" "r_owner (refill r) = r_owner r"
  by (simp_all add: refill_def Let_def)

lemma refill_amounts:
  assumes "r_reserve r \<noteq> 0" "0 < r_peak r"
  shows "0 < r_qty (refill r)" "unat (r_qty (refill r)) + unat (r_reserve (refill r)) = unat (r_reserve r)"
  using assms(1) [unfolded word_neq_0_unat] assms(2) unat_minus_le [of "r_peak r" "r_reserve r"]
  by (auto simp: refill_def Let_def word_gt_0 word_less_nat_alt word_le_nat_alt)

lemma resting_ok_refill:
  assumes "resting_ok k s p r" "r_reserve r \<noteq> 0"
  shows "resting_ok k s p (refill r)"
  using assms refill_amounts [of r] by (auto simp: resting_ok_def)

lemma fill_refill:
  assumes e: "erel D e a" and i: "i < e_n e" "i \<in> D ms" and os: "a_books a ms ! i = r # os"
    and res: "r_reserve r \<noteq> 0" and px: "px = e_min e + int i"
    and lvl: "lvl = ld_levels (book_of ms e) ! i"
  shows "\<exists>st bk e'. set_qty (e_store e) (r_id r) 0 = Some st \<and>
    put_level i (lvl\<lparr>l_total := l_total lvl - r_qty r\<rparr>) (book_of ms e) = Some bk \<and>
    exhaust_head ms i (r_id r) px
      (emit (Traded tr) ((set_book ms bk e)\<lparr>e_store := st, e_last_px := px, e_has_last := True\<rparr>)) = Some e' \<and>
    erel D e' (a_swept ms i (False, [Traded tr, Rested (r_id r) (r_side r) px (r_qty (refill r))], os @ [refill r]) a)"
proof -
  note d = erelD [OF e] and h = head_facts [OF e i(1) os] and pl = erel_put_level [OF e i(1), where s = ms]
  define clip where "clip = (if r_peak r < r_reserve r then r_peak r else r_reserve r)"
  have rf: "refill r = r\<lparr>r_qty := clip, r_reserve := r_reserve r - clip\<rparr>"
    by (simp add: refill_def clip_def Let_def)
  let ?r1 = "r\<lparr>r_qty := 0\<rparr>" and ?r2 = "r\<lparr>r_qty := 0, r_reserve := r_reserve r - clip\<rparr>"
  let ?lvl1 = "lvl\<lparr>l_total := l_total lvl - r_qty r\<rparr>"
  let ?lvl2 = "?lvl1\<lparr>l_total := l_total ?lvl1 + clip, l_hidden := l_hidden ?lvl1 - clip,
    l_fifo := tl (l_fifo ?lvl1) @ [r_id r]\<rparr>"
  let ?evs = "[Traded tr, Rested (r_id r) (r_side r) px (r_qty (refill r))]"
  obtain st where st: "set_qty (e_store e) (r_id r) 0 = Some st" "store_ok st"
      "view st = (view (e_store e))(r_id r \<mapsto> ?r1)" "length (st_orders st) = length (st_orders (e_store e))"
    using set_qty_spec [OF d(5) h(1)] by blast
  have v: "view st (r_id r) = Some ?r1" using st(3) by simp
  obtain ord where nd: "lookup st (r_id r) = Some ord" "reserve_of st ord = Some (r_reserve ?r1)"
      "o_side ord = r_side ?r1" "r_reserve ?r1 \<noteq> 0 \<Longrightarrow> flag ord kIceberg"
      "flag ord kIceberg \<Longrightarrow> \<exists>x. extra_of st ord = Some x \<and> x_reserve x = r_reserve ?r1 \<and> x_peak x = r_peak ?r1"
    by (rule view_node [OF st(2) v], rule that)
  then obtain x where ord: "lookup st (r_id r) = Some ord" "reserve_of st ord = Some (r_reserve r)"
      "o_side ord = r_side r" "flag ord kIceberg" and x: "extra_of st ord = Some x" "x_reserve x = r_reserve r" "x_peak x = r_peak r"
    using res by auto
  obtain st2 where st2: "set_reserve st ord (r_reserve r - clip) = Some st2" "store_ok st2"
      "view st2 = (view st)(r_id r \<mapsto> ?r1\<lparr>r_reserve := r_reserve r - clip\<rparr>)" "lookup st2 = lookup st"
      "length (st_orders st2) = length (st_orders st)"
    using set_reserve_spec [OF st(2) v ord(1,4)] by blast
  have v2: "view st2 (r_id r) = Some ?r2" using st2(3) by simp
  obtain st3 where st3: "set_qty st2 (r_id r) clip = Some st3" "store_ok st3"
      "view st3 = (view st2)(r_id r \<mapsto> ?r2\<lparr>r_qty := clip\<rparr>)" "length (st_orders st3) = length (st_orders st2)"
    using set_qty_spec [OF st2(2) v2] by blast
  have v3: "view st3 = (view (e_store e))(r_id r \<mapsto> refill r)" using st3(3) st2(3) st(3) by (auto simp: rf)
  let ?bk = "\<lambda>l. (book_of ms e)\<lparr>ld_levels := (ld_levels (book_of ms e))[i := l]\<rparr>"
  let ?e1 = "emit (Traded tr) ((set_book ms (?bk ?lvl1) e)\<lparr>e_store := st, e_last_px := px, e_has_last := True\<rparr>)"
  let ?e' = "(set_book ms (?bk ?lvl2) e)\<lparr>e_store := st3, e_last_px := px, e_has_last := True, e_tape := e_tape e @ ?evs\<rparr>"
  have pos: "0 < r_reserve r" using res by (simp add: word_gt_0)
  have cx: "(if x_peak x < x_reserve x then x_peak x else x_reserve x) = clip" "x_reserve x = r_reserve r"
    by (simp_all add: x clip_def)
  have ex: "exhaust_head ms i (r_id r) px ?e1 = Some ?e'"
    using ord x(1) cx pos st2(1) st3(1) pl rf
    unfolding exhaust_head_def Let_def
    by (simp add: level_overwrite cx split del: if_split)
       (rule engine.equality; simp add: emit_def)
  have "erel D (set_book ms (?bk ?lvl2) (e\<lparr>e_store := st3\<rparr>)) (a_level ms i (os @ [refill r]) a)"
  proof (rule erel_put_keep [OF e i(1) st3(2) _ _ _ _ pl(1)])
    show "level_rel False ms (e_min e + int i) (view st3) ?lvl2 (os @ [refill r])"
      unfolding v3 by (rule level_rel_rotate [OF h(4) resting_ok_refill [OF h(3) res]]) (simp_all add: lvl rf)
    show "relevel (view (e_store e)) (view st3) (a_books a ms ! i) (os @ [refill r])"
      unfolding v3 os by (rule relevel_replace) auto
  qed (use i st(4) st2(5) st3(4) in simp_all)
  from erel_traded [OF this d(1,16,15), of ?evs]
  have "erel D ?e' (a_swept ms i (False, ?evs, os @ [refill r]) a)"
    by (simp add: is_trade_def px)
  with st(1) pl(1) ex show ?thesis by blast
qed

lemma cancel_head_sim:
  assumes e: "erel D e a" and i: "i < e_n e" "i \<in> D ms" and os: "a_books a ms ! i = r # os"
  shows "\<exists>e'. cancel_head ms i e = Some e' \<and> erel D e' (a_swept ms i (False, [Cancelled (r_id r)], os) a)"
proof -
  note d = erelD [OF e] and h = head_facts [OF e i(1) os] and pl = erel_put_level [OF e i(1), where s = ms]
  let ?lvl = "ld_levels (book_of ms e) ! i"
  let ?lvl2 = "?lvl\<lparr>l_total := l_total ?lvl - r_qty r, l_hidden := l_hidden ?lvl - r_reserve r,
    l_fifo := map r_id os, l_count := l_count ?lvl - 1\<rparr>"
  let ?bk = "(book_of ms e)\<lparr>ld_levels := (ld_levels (book_of ms e))[i := ?lvl2]\<rparr>"
  obtain ord where ord: "lookup (e_store e) (r_id r) = Some ord" "reserve_of (e_store e) ord = Some (r_reserve r)"
      "o_qty ord = r_qty r"
    using view_node [OF d(5) h(1)] by metis
  obtain st where st: "drop_node (e_store e) (r_id r) = Some st" "store_ok st"
      "view st = (view (e_store e))(r_id r := None)" "length (st_orders st) = length (st_orders (e_store e))"
    using drop_node_spec [OF d(5) h(1)] by blast
  have "erel D (set_book ms ?bk (e\<lparr>e_store := st\<rparr>)) (a_level ms i os a)"
  proof (rule erel_put_keep [OF e i(1) st(2,4) _ _ _ pl(1)])
    show "level_rel False ms (e_min e + int i) (view st) ?lvl2 os"
      unfolding st(3) by (rule level_rel_tl [OF h(4)]) (simp_all add: h(2))
    show "relevel (view (e_store e)) (view st) (a_books a ms ! i) os"
      unfolding st(3) os by (rule relevel_tl [OF level_relD(2) [OF h(4)]])
  qed (use i in simp_all)
  from erel_emit [OF this, of "Cancelled (r_id r)"]
  have "erel D (emit (Cancelled (r_id r)) (set_book ms ?bk (e\<lparr>e_store := st\<rparr>))) (a_swept ms i (False, [Cancelled (r_id r)], os) a)"
    by (simp add: a_swept_def is_trade_def a_emit_def a_level_def)
  moreover have "cancel_head ms i e = Some (emit (Cancelled (r_id r)) (set_book ms ?bk (e\<lparr>e_store := st\<rparr>)))"
    using ord st(1) pl(1) h(2) by (simp add: cancel_head_def erel_level(1) [OF e i(1)] drop_order_def)
  ultimately show ?thesis by blast
qed

lemma a_swept_halt:
  "(a_swept ms i (h, evs, os) a)\<lparr>a_stp_halt := True\<rparr> = a_swept ms i (True, evs, os) a"
  by (simp add: a_swept_def)

declare a_sweep.simps(2) [simp]

lemma sweep_done:
  "erel D e a \<Longrightarrow> i < e_n e \<Longrightarrow> sweep_level ms i taker 0 px ts owner stp e = Some (0, e)"
  by (subst sweep_level.simps) (simp add: erel_level(1))

lemma sweep_sim:
  assumes "erel D e a" "i < e_n e" "i \<in> D ms" "px = e_min e + int i" "a_books a ms ! i = os"
  shows "\<exists>e'. sweep_level ms i taker q px ts owner stp e = Some (fst (a_sweep taker px ts owner stp q os), e') \<and>
    erel D e' (a_swept ms i (snd (a_sweep taker px ts owner stp q os)) a)"
  using assms
proof (induction taker px ts owner stp q os arbitrary: e a rule: a_sweep.induct)
  case (1 taker px ts owner stp q)
  note lvl = erel_level [OF 1(1,2), of ms]
  have "l_fifo (ld_levels (book_of ms e) ! i) = []" using level_relD(1) [OF lvl(2)] 1(5) by simp
  moreover have "a_swept ms i (False, [], []) a = a"
    using a_swept_none [of i a ms] 1(5) erel_lengths(1) [OF 1(1)] 1(2) by simp
  ultimately show ?case using lvl(1) 1(1) by (subst sweep_level.simps) simp
next
  case (2 taker px ts owner stp q r os)
  note e = 2(4) and i = 2(5,6) and px = 2(7) and os = 2(8)
  note lvl = erel_level [OF e i(1), of ms] and h = head_facts [OF e i(1) os]
  have self: "a_swept ms i (False, [], r # os) a = a"
    using a_swept_none [of i a ms] os erel_lengths(1) [OF e] i(1) by simp
  have qty: "r_qty r \<noteq> 0" using h(3) by (auto simp: resting_ok_def)
  obtain ord where ord: "lookup (e_store e) (r_id r) = Some ord" "o_owner ord = r_owner r" "o_qty ord = r_qty r"
    by (rule view_node [OF erelD(5) [OF e] h(1)], rule that)
  show ?case
  proof (cases "q = 0")
    case True
    with lvl(1) e self show ?thesis by (subst sweep_level.simps) simp
  next
    case q: False
    show ?thesis
    proof (cases "owner \<noteq> 0 \<and> r_owner r = owner")
      case own: True
      obtain e1 where e1: "cancel_head ms i e = Some e1"
        "erel D e1 (a_swept ms i (False, [Cancelled (r_id r)], os) a)"
        using cancel_head_sim [OF e i os] by blast
      show ?thesis
      proof (cases stp)
        case CancelTaker
        with lvl(1) h(2) ord q qty own erel_stp_halt [OF e, of True] self a_swept_halt [of ms i False "[]" "r # os" a] show ?thesis
          by (subst sweep_level.simps) simp
      next
        case CancelBoth
        with lvl(1) h(2) ord q qty own e1 erel_stp_halt [OF e1(2), of True] show ?thesis
          by (subst sweep_level.simps) (simp add: a_swept_halt)
      next
        case CancelMaker
        let ?a1 = "a_swept ms i (False, [Cancelled (r_id r)], os) a"
        have f: "i < e_n e1" "px = e_min e1 + int i" "a_books ?a1 ms ! i = os"
          using erelD(1,2) [OF e1(2)] erelD(1,2) [OF e] i px erel_lengths(1) [OF e] by simp_all
        obtain e' where "sweep_level ms i taker q px ts owner stp e1 = Some (fst (a_sweep taker px ts owner stp q os), e')"
          "erel D e' (a_swept ms i (snd (a_sweep taker px ts owner stp q os)) ?a1)"
          using 2(1) [OF _ own CancelMaker e1(2) f(1) i(2) f(2,3)] q qty by blast
        with CancelMaker lvl(1) h(2) ord q qty own e1(1) show ?thesis
          by (subst sweep_level.simps) (auto simp: a_swept_compose split: prod.splits)
      qed
    next
      case other: False
      define fill where "fill = (if q < r_qty r then q else r_qty r)"
      define tr where "tr = \<lparr>t_taker = taker, t_maker = r_id r, t_price = px, t_qty = fill, t_side = ts\<rparr>"
      show ?thesis
      proof (cases "fill = r_qty r")
        case False
        then have f: "fill < r_qty r" "fill = q" by (auto simp: fill_def split: if_splits)
        then have fne: "r_qty r - fill \<noteq> 0" by auto
        obtain st bk where "set_qty (e_store e) (r_id r) (r_qty r - fill) = Some st"
          "put_level i ((ld_levels (book_of ms e) ! i)\<lparr>l_total := l_total (ld_levels (book_of ms e) ! i) - fill\<rparr>) (book_of ms e) = Some bk"
          "erel D (emit (Traded tr) ((set_book ms bk e)\<lparr>e_store := st, e_last_px := px, e_has_last := True\<rparr>))
            (a_swept ms i (False, [Traded tr], r\<lparr>r_qty := r_qty r - fill\<rparr> # os) a)"
          using fill_part [OF e i os f(1) px refl, of tr] by blast
        moreover note sweep_done [OF this(3), of i ms taker px ts owner stp]
        ultimately show ?thesis
          using lvl(1) h(2) ord q qty other f fne i(1)
          by (subst sweep_level.simps) (auto simp: tr_def Let_def)
      next
        case full: True
        then have fq: "fill = (if q < r_qty r then q else r_qty r)" "\<not> fill \<noteq> r_qty r" by (simp_all add: fill_def)
        have le: "\<not> q < r_qty r" using full by (auto simp: fill_def split: if_splits)
        define evs where "evs = (if r_reserve r > 0 then [Traded tr, Rested (r_id r) (r_side r) px (r_qty (refill r))] else [Traded tr])"
        define os' where "os' = (if r_reserve r > 0 then os @ [refill r] else os)"
        obtain st bk e1 where st: "set_qty (e_store e) (r_id r) 0 = Some st"
          "put_level i ((ld_levels (book_of ms e) ! i)\<lparr>l_total := l_total (ld_levels (book_of ms e) ! i) - r_qty r\<rparr>) (book_of ms e) = Some bk"
          "exhaust_head ms i (r_id r) px
            (emit (Traded tr) ((set_book ms bk e)\<lparr>e_store := st, e_last_px := px, e_has_last := True\<rparr>)) = Some e1"
          and e1: "erel D e1 (a_swept ms i (False, evs, os') a)"
        proof (cases "r_reserve r = 0")
          case True
          with fill_gone [OF e i os True px refl, of tr] that show ?thesis by (auto simp: evs_def os'_def)
        next
          case False
          with fill_refill [OF e i os False px refl, of tr] that show ?thesis
            by (auto simp: evs_def os'_def word_gt_0)
        qed
        let ?a1 = "a_swept ms i (False, evs, os') a"
        have f: "i < e_n e1" "px = e_min e1 + int i" "a_books ?a1 ms ! i = os'"
          using erelD(1,2) [OF e1] erelD(1,2) [OF e] i px erel_lengths(1) [OF e] by simp_all
        have ih: "\<exists>e'. sweep_level ms i taker (q - fill) px ts owner stp e1 = Some (fst (a_sweep taker px ts owner stp (q - fill) os'), e') \<and>
          erel D e' (a_swept ms i (snd (a_sweep taker px ts owner stp (q - fill) os')) ?a1)"
        proof (cases "r_reserve r > 0")
          case True
          with 2(2) [OF _ other fq(1) refl fq(2) True refl, of e1 ?a1] q qty e1 f i(2) show ?thesis by (auto simp: os'_def)
        next
          case False
          with 2(3) [OF _ other fq(1) refl fq(2) False, of e1 ?a1] q qty e1 f i(2) show ?thesis by (auto simp: os'_def)
        qed
        then obtain e' where "sweep_level ms i taker (q - fill) px ts owner stp e1 = Some (fst (a_sweep taker px ts owner stp (q - fill) os'), e')"
          "erel D e' (a_swept ms i (snd (a_sweep taker px ts owner stp (q - fill) os')) ?a1)" by blast
        moreover have "a_sweep taker px ts owner stp q (r # os) =
          (case a_sweep taker px ts owner stp (q - fill) os' of (q', h, evs', os'') \<Rightarrow> (q', h, evs @ evs', os''))"
          using q qty other full le by (auto simp: Let_def fill_def evs_def os'_def tr_def split: prod.splits)
        moreover have "sweep_level ms i taker q px ts owner stp e = sweep_level ms i taker (q - fill) px ts owner stp e1"
          using lvl(1) h(2) ord q qty other le st full
          by (subst sweep_level.simps) (auto simp: tr_def Let_def)
        ultimately show ?thesis by (auto simp: a_swept_compose split: prod.splits)
      qed
    qed
  qed
qed

declare a_sweep.simps(2) [simp del]

end
