(* ===== verification/Pass_Refinement.thy ===== *)
theory Pass_Refinement
  imports Matching_Refinement
begin

text \<open>
  The pass over the levels: retiring an emptied best level, the matching loop, the depth
  scan of fill-or-kill, the crossing test of post-only, and placing a limit order.
\<close>

section \<open>Marking and clearing the level a sweep stands on\<close>

lemma best_rel_unique:
  assumes "best_rel s S b" "best_rel s S b'"
  shows "b = b'"
  using assms(1)
proof (cases rule: best_rel_cases)
  case none
  with assms(2) show ?thesis by simp
next
  case (some k)
  from assms(2) show ?thesis
  proof (cases rule: best_rel_cases)
    case none
    with some show ?thesis by simp
  next
    case (some k')
    with \<open>k \<in> S\<close> \<open>\<And>j. j \<in> S \<Longrightarrow> at_least s k j\<close> have "at_least s k k'" "at_least s k' k" by auto
    then show ?thesis using some(1) \<open>b = int k\<close> by (cases s) (auto simp: at_least_def)
  qed
qed

lemma erel_redirty:
  assumes "erel D e a" "occ (a_books a s) \<union> D s = occ (a_books a s) \<union> D'"
  shows "erel (D(s := D')) e a"
proof -
  have "book_rel t (e_min e) (e_n e) (view (e_store e)) ((D(s := D')) t) (book_of t e) (a_books a t)" for t
    using erelD(7) [OF assms(1), of t] assms(2) by (cases "t = s") (simp_all add: book_rel_def ladder_rel_def)
  with assms(1) show ?thesis by (simp add: erel_def del: fun_upd_apply)
qed

lemma erel_dirty: "erel clean e a \<Longrightarrow> i \<in> occ (a_books a s) \<Longrightarrow> erel (clean(s := {i})) e a"
  using erel_redirty [of clean e a s "{i}"] by auto

lemma retire_sim:
  assumes e: "erel (clean(s := {i})) e a" and i: "i < e_n e" and best: "bk_best (book_of s e) = int i"
  shows "\<exists>e'. retire_level s i e = Some e' \<and> erel clean e' a"
proof (cases "a_books a s ! i = []")
  case False
  then have "i \<in> occ (a_books a s)" using i erel_lengths(1) [OF e] by (simp add: occ_def)
  then have "erel clean e a" using erel_redirty [OF e, of s "{}"] by (auto simp: fun_upd_idem insert_absorb)
  moreover have "retire_level s i e = Some e"
    using False erel_level [OF e i] level_relD(1) [OF erel_level(2) [OF e i, of s]] by (simp add: retire_level_def)
  ultimately show ?thesis by blast
next
  case True
  let ?bk = "book_of s e"
  note lad = erel_ladder [OF e, of s] and lvl = erel_level [OF e i, of s]
  have bits: "bm_bits (ld_map ?bk) = insert i (occ (a_books a s))" using ladder_relD(6) [OF lad] by simp
  have nocc: "i \<notin> occ (a_books a s)" using True by (simp add: occ_def)
  have "best_rel s (bm_bits (ld_map ?bk)) (int i)" using erel_best [OF e, of s] best bits by simp
  from retire_best [OF ladder_relD(4) [OF lad] _ this] i ladder_relD(5) [OF lad] obtain m b where
    m: "bm_clear (ld_map ?bk) i = Some m" "next_best s m (int i) = Some b" "bm_ok m" "bm_n m = e_n e"
      "bm_bits m = occ (a_books a s)" "best_rel s (bm_bits m) b"
    using bits nocc by auto
  let ?bk' = "?bk\<lparr>ld_map := m, bk_best := b\<rparr>"
  have same: "(a_books a s)[i := a_books a s ! i] = a_books a s" "a_level s i (a_books a s ! i) a = a"
    by (simp_all add: a_level_def fun_upd_idem)
  have same_l: "(ld_levels ?bk)[i := ld_levels ?bk ! i] = ld_levels ?bk" by simp
  have "erel ((clean(s := {i}))(s := {})) (set_book s ?bk' (e\<lparr>e_store := e_store e\<rparr>)) (a_level s i (a_books a s ! i) a)"
    by (rule erel_put [OF e i erelD(5) [OF e] refl relevel_same lvl(2)])
       (use m same same_l in simp_all)
  then have "erel clean (set_book s ?bk' e) a" by (simp add: same fun_upd_idem)
  moreover have "retire_level s i e = Some (set_book s ?bk' e)"
    using True lvl(1) level_relD(1) [OF lvl(2)] m(1,2) best by (simp add: retire_level_def)
  ultimately show ?thesis by blast
qed

section \<open>The matching loop\<close>

text \<open>A sweep ends because the taker is filled, the level is empty, or self-trade prevention says stop.\<close>

definition sound :: "ro \<Rightarrow> bool" where
  "sound r \<longleftrightarrow> r_qty r \<noteq> 0 \<and> (r_reserve r \<noteq> 0 \<longrightarrow> 0 < r_peak r)"

lemma resting_sound: "resting_ok k s p r \<Longrightarrow> sound r"
  by (auto simp: resting_ok_def sound_def)

lemma sound_refill: "sound r \<Longrightarrow> r_reserve r \<noteq> 0 \<Longrightarrow> sound (refill r)"
  using refill_amounts [of r] by (auto simp: sound_def)

lemma a_sweep_ends:
  assumes "a_sweep taker px ts owner stp q os = (q', h, evs, os')" "\<forall>r\<in>set os. sound r"
  shows "q' = 0 \<or> h \<or> os' = []"
proof -
  have "(\<forall>r\<in>set os. sound r) \<longrightarrow>
      (case a_sweep taker px ts owner stp q os of (q', h, evs, os') \<Rightarrow> q' = 0 \<or> h \<or> os' = [])"
  proof (rule a_sweep_rule [where P = "\<lambda>q os res. (\<forall>r\<in>set os. sound r) \<longrightarrow>
      (case res of (q', h, evs, os') \<Rightarrow> q' = 0 \<or> h \<or> os' = [])"])
    fix q :: Qty and os :: "ro list"
    assume "q = 0 \<or> os = [] \<or> r_qty (hd os) = 0"
    then show "(\<forall>r\<in>set os. sound r) \<longrightarrow> (case (q, False, [], os) of (q', h, evs, os') \<Rightarrow> q' = 0 \<or> h \<or> os' = [])"
      by (cases os) (auto simp: sound_def)
  qed (auto simp: sound_refill)
  with assms show ?thesis by simp
qed

lemma match_side_done:
  "q = 0 \<or> \<not> within_limit ts (bk_best (book_of (opposite ts) e)) limit \<Longrightarrow>
   match_side ts taker q limit owner stp e = Some (q, e)"
  by (subst match_side.simps) (auto simp: Let_def)

lemma within_mono:
  "within_limit ts (int i) limit \<Longrightarrow> at_least (opposite ts) k i \<Longrightarrow> within_limit ts (int k) limit"
  by (cases ts) (auto simp: within_limit_def at_least_def)

lemma at_least_antisym: "at_least s i j \<Longrightarrow> at_least s j i \<Longrightarrow> i = j"
  by (cases s) (auto simp: at_least_def)

text \<open>The first occupied level of the candidates is the cached best.\<close>

lemma best_is_first:
  assumes e: "erel clean e a" and srt: "sorted_wrt (\<lambda>i j. at_least (opposite ts) i j \<and> i \<noteq> j) (i # is)"
    and lim: "within_limit ts (int i) limit"
    and all: "\<forall>j\<in>occ (a_books a (opposite ts)). within_limit ts (int j) limit \<longrightarrow> j \<in> set (i # is)"
    and i: "i \<in> occ (a_books a (opposite ts))"
  shows "bk_best (book_of (opposite ts) e) = int i"
  using erel_best [OF e, of "opposite ts"]
proof (cases rule: best_rel_cases)
  case none
  with i show ?thesis by auto
next
  case (some k)
  then have k: "k \<in> occ (a_books a (opposite ts))" "at_least (opposite ts) k i" using i by auto
  with all within_mono [OF lim] have "k \<in> set (i # is)" by blast
  then have "k = i"
  proof (simp, elim disjE)
    assume "k \<in> set is"
    with srt have "at_least (opposite ts) i k" by simp
    with k(2) show "k = i" by (simp add: at_least_antisym)
  qed simp
  with some(1) show ?thesis by simp
qed

lemma match_sim:
  assumes "erel clean e a" "\<not> a_stp_halt a" "sorted_wrt (\<lambda>i j. at_least (opposite ts) i j \<and> i \<noteq> j) is"
    "\<forall>i\<in>set is. i < e_n e \<and> within_limit ts (int i) limit"
    "\<forall>j\<in>occ (a_books a (opposite ts)). within_limit ts (int j) limit \<longrightarrow> j \<in> set is"
  shows "\<exists>e'. match_side ts taker q limit owner stp e = Some (fst (a_match_levels ts taker owner stp is q a), e') \<and>
    erel clean e' (snd (a_match_levels ts taker owner stp is q a))"
  using assms
proof (induction "is" arbitrary: q e a)
  case Nil
  have "\<not> within_limit ts (bk_best (book_of (opposite ts) e)) limit"
    using erel_best [OF Nil(1), of "opposite ts"]
    by (cases rule: best_rel_cases) (use Nil(5) in \<open>auto simp: within_limit_def\<close>)
  with Nil(1) show ?case by (simp add: match_side_done)
next
  case (Cons i "is")
  let ?ms = "opposite ts"
  note e = Cons.prems(1)
  have i: "i < e_n e" "within_limit ts (int i) limit" using Cons.prems(4) by auto
  have len: "i < length (a_books a ?ms)" using i(1) erel_lengths(1) [OF e] by simp
  show ?case
  proof (cases "q = 0")
    case True
    with e show ?thesis by (simp add: match_side_done)
  next
    case q: False
    show ?thesis
    proof (cases "a_books a ?ms ! i = []")
      case True
      have "a_swept ?ms i (False, [], []) a = a" using a_swept_none [OF len] True by simp
      then have step: "a_match_levels ts taker owner stp (i # is) q a = a_match_levels ts taker owner stp is q a"
        using True q Cons.prems(2) by simp
      have "i \<notin> occ (a_books a ?ms)" using True by (simp add: occ_def)
      then have all: "\<forall>j\<in>occ (a_books a ?ms). within_limit ts (int j) limit \<longrightarrow> j \<in> set is"
        using Cons.prems(5) by auto
      show ?thesis unfolding step
        by (rule Cons.IH [OF e Cons.prems(2) _ _ all]) (use Cons.prems(3,4) in simp_all)
    next
      case False
      then have io: "i \<in> occ (a_books a ?ms)" using len by (simp add: occ_def)
      note best = best_is_first [OF e Cons.prems(3) i(2) Cons.prems(5) io]
      obtain q1 h evs os where sw: "a_sweep taker (a_min a + int i) ts owner stp q (a_books a ?ms ! i) = (q1, h, evs, os)"
        by (metis prod_cases4)
      define a1 where "a1 = a_swept ?ms i (h, evs, os) a"
      obtain e1 where e1: "sweep_level ?ms i taker q (e_min e + int i) ts owner stp e = Some (q1, e1)"
        "erel (clean(?ms := {i})) e1 a1"
      proof -
        have "i \<in> (clean(?ms := {i})) ?ms" by simp
        from sweep_sim [OF erel_dirty [OF e io] i(1) this refl refl, where taker = taker and q = q and ts = ts
            and owner = owner and stp = stp]
        show ?thesis
          unfolding sw [unfolded erelD(1) [OF e]] a1_def fst_conv snd_conv using that a1_def by blast
      qed
      have n1: "e_n e1 = e_n e" "e_min e1 = e_min e"
        using erelD(1,2) [OF e1(2)] erelD(1,2) [OF e] by (simp_all add: a1_def)
      have books1: "a_books a1 ?ms = (a_books a ?ms)[i := os]" by (simp add: a1_def)
      have "best_rel ?ms (insert i (occ (a_books a ?ms))) (bk_best (book_of ?ms e1))"
        using erel_best [OF e1(2), of ?ms] books1 occ_insert [OF len, of os] by simp
      then have best1: "bk_best (book_of ?ms e1) = int i"
        using erel_best [OF e, of ?ms] io best by (intro best_rel_unique) (simp_all add: insert_absorb)
      obtain e2 where e2: "retire_level ?ms i e1 = Some e2" "erel clean e2 a1"
        using retire_sim [OF e1(2) _ best1] i(1) n1 by auto
      have n2: "e_n e2 = e_n e" using erelD(2) [OF e2(2)] erelD(2) [OF e] by (simp add: a1_def)
      have unfold: "match_side ts taker q limit owner stp e =
          (if e_stp_halt e2 then Some (q1, e2) else match_side ts taker q1 limit owner stp e2)"
        using q best i(2) e1(1) e2(1) by (subst match_side.simps) (simp add: Let_def word_gt_0)
      have aunfold: "a_match_levels ts taker owner stp (i # is) q a =
          (if a_stp_halt a1 then (q1, a1) else a_match_levels ts taker owner stp is q1 a1)"
        using q sw by (simp add: a1_def)
      show ?thesis
      proof (cases "a_stp_halt a1")
        case True
        with unfold aunfold e2(2) erelD(15) [OF e2(2)] show ?thesis by simp
      next
        case nh: False
        then have unfold': "match_side ts taker q limit owner stp e = match_side ts taker q1 limit owner stp e2"
          using unfold erelD(15) [OF e2(2)] by simp
        show ?thesis
        proof (cases "q1 = 0")
          case True
          have "a_match_levels ts taker owner stp is 0 a1 = (0, a1)" by (cases "is") simp_all
          with True nh unfold' aunfold e2(2) show ?thesis by (simp add: match_side_done)
        next
          case False
          have "\<forall>r\<in>set (a_books a ?ms ! i). sound r"
            using level_relD(4) [OF erel_level(2) [OF e i(1)]] resting_sound by blast
          with a_sweep_ends [OF sw] False nh have "os = []" by (auto simp: a1_def a_swept_def)
          then have "occ (a_books a1 ?ms) = occ (a_books a ?ms) - {i}" using books1 occ_empty by simp
          then have all: "\<forall>j\<in>occ (a_books a1 ?ms). within_limit ts (int j) limit \<longrightarrow> j \<in> set is"
            using Cons.prems(5) by auto
          have "\<exists>e'. match_side ts taker q1 limit owner stp e2 = Some (fst (a_match_levels ts taker owner stp is q1 a1), e') \<and>
              erel clean e' (snd (a_match_levels ts taker owner stp is q1 a1))"
            by (rule Cons.IH [OF e2(2) nh _ _ all]) (use Cons.prems(3,4) n2 in simp_all)
          with nh aunfold unfold' show ?thesis by simp
        qed
      qed
    qed
  qed
qed

section \<open>Reachable levels\<close>

lemma reach_levels:
  assumes "limit < n"
  shows "sorted_wrt (\<lambda>i j. at_least (opposite ts) i j \<and> i \<noteq> j) (reach ts n limit)"
    "set (reach ts n limit) = {i. i < n \<and> within_limit ts (int i) (int limit)}"
proof -
  have "sorted_wrt (\<lambda>i j. i \<le> j \<and> i \<noteq> j) [a..<b]" for a b :: nat
    by (rule sorted_wrt_mono_rel [OF _ sorted_wrt_upt]) auto
  moreover have "sorted_wrt (\<lambda>i j. i \<le> j \<and> j \<noteq> i) [a..<b]" for a b :: nat
    by (rule sorted_wrt_mono_rel [OF _ sorted_wrt_upt]) auto
  ultimately show "sorted_wrt (\<lambda>i j. at_least (opposite ts) i j \<and> i \<noteq> j) (reach ts n limit)"
    by (cases ts) (simp_all add: reach_def at_least_def sorted_wrt_rev)
  show "set (reach ts n limit) = {i. i < n \<and> within_limit ts (int i) (int limit)}"
    using assms by (cases ts) (auto simp: reach_def within_limit_def)
qed

lemma match_to_limit:
  assumes e: "erel clean e a" "\<not> a_stp_halt a" and l: "limit < e_n e"
  shows "\<exists>e'. match_side ts taker q (int limit) owner stp e = Some (fst (a_match ts taker q limit owner stp a), e') \<and>
    erel clean e' (snd (a_match ts taker q limit owner stp a))"
proof -
  have "\<forall>j\<in>occ (a_books a (opposite ts)). j < e_n e" using erel_lengths(1) [OF e(1)] by (auto dest: occ_less)
  then show ?thesis
    unfolding a_match_def erelD(2) [OF e(1)]
    by (intro match_sim [OF e reach_levels(1) [OF l]]) (auto simp: reach_levels(2) [OF l])
qed

lemma match_limit_sim:
  assumes e: "erel clean e a" "\<not> a_stp_halt a" and b: "in_band e price"
  shows "\<exists>e'. match_limit side taker q (int (idx e price)) owner stp e =
      Some (fst (a_match side taker q (a_idx a price) owner stp a), e') \<and>
    erel clean e' (snd (a_match side taker q (a_idx a price) owner stp a))"
proof -
  have "a_idx a price = idx e price" using erelD(1) [OF e(1)] by (simp add: a_idx_def idx_def)
  then show ?thesis
    using match_to_limit [OF e band_index(1) [OF b], of side taker q owner stp]
    by (cases side) (simp_all add: match_limit_def match_buy_def match_sell_def)
qed

lemma match_market_sim:
  assumes e: "erel clean e a" "\<not> a_stp_halt a"
  shows "\<exists>e'. match_market side taker q owner stp e = Some (fst (a_match_market side taker q owner stp a), e') \<and>
    erel clean e' (snd (a_match_market side taker q owner stp a))"
proof -
  have n: "0 < e_n e" "int (e_n e - 1) = int (e_n e) - 1" using erelD(3) [OF e(1)] by auto
  then show ?thesis
    using match_to_limit [OF e, of "e_n e - 1" Buy taker q owner stp] match_to_limit [OF e n(1), of Sell taker q owner stp]
    by (cases side) (simp_all add: match_market_def a_match_market_def match_buy_def match_sell_def erelD(2) [OF e(1)])
qed

section \<open>The depth scan and the crossing test\<close>

lemma next_best_spec:
  assumes "bm_ok m" "0 < bm_n m"
  shows "\<exists>b. next_best s m (int k) = Some b \<and> best_rel s {j \<in> bm_bits m. at_least s k j \<and> j \<noteq> k} b"
proof (cases s)
  case Buy
  have "{j \<in> bm_bits m. int j \<le> int k - 1} = {j \<in> bm_bits m. at_least Buy k j \<and> j \<noteq> k}"
    by (auto simp: at_least_def)
  with bm.next_le [OF assms(1), of "int k - 1"] assms(2) Buy show ?thesis by (simp add: next_best_def best_rel_def)
next
  case Sell
  have "{j \<in> bm_bits m. int k + 1 \<le> int j} = {j \<in> bm_bits m. at_least Sell k j \<and> j \<noteq> k}"
    by (auto simp: at_least_def)
  with bm.next_ge [OF assms(1), of "int k + 1"] Sell show ?thesis by (simp add: next_best_def best_rel_def)
qed

lemma fillable_done:
  "\<not> (within_limit side i limit \<and> found < want) \<Longrightarrow> fillable_from side bk limit want i found = Some found"
  by (subst fillable_from.simps) auto

lemma a_fill_scan_enough: "\<not> acc < want \<Longrightarrow> a_fill_scan want oss is acc = acc"
  by (cases "is") auto

lemma fillable_scan:
  assumes lad: "ladder_rel False ms mn n v {} bk oss" "0 < n" "ms = opposite side"
    and "sorted_wrt (\<lambda>i j. at_least ms i j \<and> i \<noteq> j) is"
    "\<forall>i\<in>set is. i < n \<and> within_limit side (int i) limit"
    "S \<subseteq> occ oss" "\<And>j k. k \<in> S \<Longrightarrow> j \<in> occ oss \<Longrightarrow> at_least ms k j \<Longrightarrow> j \<in> S"
    "\<And>j. j \<in> S \<Longrightarrow> within_limit side (int j) limit \<Longrightarrow> j \<in> set is"
    "set is \<inter> occ oss \<subseteq> S" "best_rel ms S b"
  shows "fillable_from side bk limit want b acc = Some (a_fill_scan want oss is acc)"
  using assms(4-)
proof (induction "is" arbitrary: S b acc)
  case Nil
  have "\<not> within_limit side b limit"
    using Nil(7) by (cases rule: best_rel_cases) (use Nil(5) in \<open>auto simp: within_limit_def\<close>)
  then show ?case by (simp add: fillable_done)
next
  case (Cons i "is")
  have i: "i < n" "within_limit side (int i) limit" using Cons.prems(2) by auto
  show ?case
  proof (cases "acc < want")
    case False
    then show ?thesis by (simp add: fillable_done)
  next
    case want: True
    show ?thesis
    proof (cases "oss ! i = []")
      case True
      then have nocc: "i \<notin> occ oss" by (simp add: occ_def)
      have "fillable_from side bk limit want b acc = Some (a_fill_scan want oss is acc)"
        by (rule Cons.IH [of S]) (use Cons.prems nocc in auto)
      with True want show ?thesis by (simp add: exec_qty_def)
    next
      case False
      then have io: "i \<in> occ oss" "i \<in> S" using i ladder_relD(2) [OF lad(1)] Cons.prems(6) by (auto simp: occ_def)
      have b: "b = int i"
        using Cons.prems(7)
      proof (cases rule: best_rel_cases)
        case none
        with io show ?thesis by auto
      next
        case (some k)
        then have "at_least ms k i" using io by auto
        then have "k \<in> set (i # is)" using within_mono [of side i limit k] i(2) lad(3) Cons.prems(5) some by auto
        then have "k = i"
        proof (simp, elim disjE)
          assume "k \<in> set is"
          with Cons.prems(1) have "at_least ms i k" by simp
          with \<open>at_least ms k i\<close> show "k = i" by (simp add: at_least_antisym)
        qed simp
        with some(1) show ?thesis by simp
      qed
      have worse: "at_least ms i j" if "j \<in> S" for j
        using Cons.prems(7)
        by (cases rule: best_rel_cases) (use that b in auto)
      let ?S = "{j \<in> occ oss. at_least ms i j \<and> j \<noteq> i}"
      obtain j where j: "next_best ms (ld_map bk) (int i) = Some j" "best_rel ms ?S j"
        using next_best_spec [of "ld_map bk" ms i] ladder_relD(4-6) [OF lad(1)] lad(2) by auto
      have lvl: "level_at bk i = Some (ld_levels bk ! i)" "l_total (ld_levels bk ! i) + l_hidden (ld_levels bk ! i) = exec_qty (oss ! i)"
        using ladder_rel_level_at [OF lad(1) i(1)] level_relD(5,6) [OF ladder_relD(3) [OF lad(1) i(1)]]
        by (simp_all add: exec_qty_def)
      have "fillable_from side bk limit want j (acc + exec_qty (oss ! i)) =
          Some (a_fill_scan want oss is (acc + exec_qty (oss ! i)))"
      proof (rule Cons.IH [of ?S])
        show "k \<in> ?S" if "m \<in> ?S" "k \<in> occ oss" "at_least ms m k" for m k
          using that at_least_trans [of ms i m k] at_least_antisym [of ms] by auto
        show "k \<in> set is" if "k \<in> ?S" "within_limit side (int k) limit" for k
          using Cons.prems(4) [OF io(2)] Cons.prems(5) that by auto
        show "set is \<inter> occ oss \<subseteq> ?S" using Cons.prems(1) by auto
      qed (use Cons.prems j in auto)
      with want b i(2) j lvl lad(3) show ?thesis by (subst fillable_from.simps) simp
    qed
  qed
qed

lemma fillable_sim:
  assumes e: "erel clean e a" and b: "in_band e price"
  shows "fillable side price want e = Some (a_fillable side price want a)"
proof -
  note l = band_index(1) [OF b]
  have n: "a_n a = e_n e" "a_idx a price = idx e price"
    using erelD(1,2) [OF e] by (simp_all add: a_idx_def idx_def)
  have less: "j < e_n e" if "j \<in> occ (a_books a s)" for j s
    using that erel_lengths(1) [OF e] by (auto dest: occ_less)
  show ?thesis
    unfolding fillable_def a_fillable_def Let_def n
    by (rule fillable_scan [OF erel_ladder [OF e] erelD(3) [OF e] refl reach_levels(1) [OF l],
          where limit = "int (idx e price)" and S = "occ (a_books a (opposite side))"])
       (use erel_best [OF e, of "opposite side"] less in \<open>auto simp: reach_levels(2) [OF l]\<close>)
qed

lemma would_cross_sim:
  assumes e: "erel clean e a" and b: "in_band e price"
  shows "would_cross side price e = a_would_cross side price a"
proof -
  note l = band_index [OF b]
  have n: "a_n a = e_n e" "a_idx a price = idx e price"
    using erelD(1,2) [OF e] by (simp_all add: a_idx_def idx_def)
  have 1: "would_cross side price e \<longleftrightarrow>
      within_limit side (bk_best (book_of (opposite side) e)) (int (idx e price))"
    using l(2) by (cases side) (auto simp: would_cross_def within_limit_def book_of_def)
  have 2: "a_would_cross side price a \<longleftrightarrow>
      (\<exists>i\<in>occ (a_books a (opposite side)). within_limit side (int i) (int (idx e price)))"
    using erel_lengths(1) [OF e] unfolding a_would_cross_def n reach_levels(2) [OF l(1)]
    by (auto simp: occ_def)
  show ?thesis unfolding 1 2
    using erel_best [OF e, of "opposite side"]
  proof (cases rule: best_rel_cases)
    case none
    then show "within_limit side (bk_best (book_of (opposite side) e)) (int (idx e price)) =
      (\<exists>i\<in>occ (a_books a (opposite side)). within_limit side (int i) (int (idx e price)))"
      by (auto simp: within_limit_def)
  next
    case (some k)
    then show "within_limit side (bk_best (book_of (opposite side) e)) (int (idx e price)) =
      (\<exists>i\<in>occ (a_books a (opposite side)). within_limit side (int i) (int (idx e price)))"
      using within_mono [of side _ "int (idx e price)" k] by auto
  qed
qed

section \<open>The ids alive\<close>

definition ids :: "astate \<Rightarrow> OrderId set" where
  "ids a = {oid. \<exists>s. \<exists>os\<in>set (a_books a s) \<union> set (a_stops a s). oid \<in> r_id ` set os}"

lemma stop_level:
  assumes e: "erel D e a" and os: "os \<in> set (a_stops a s)" and r: "r \<in> set os"
  shows "view (e_store e) (r_id r) = Some r" "\<exists>i<e_n e. os = a_stops a s ! i \<and> resting_ok True s (e_min e + int i) r"
proof -
  have ne: "ld_levels (stops_of Buy e) \<noteq> []"
  proof
    assume "ld_levels (stops_of Buy e) = []"
    then have "a_stops a s = replicate (e_n e) []" using erelD(8) [OF e] by (simp add: stops_rel_def)
    with os r show False by (auto split: if_splits)
  qed
  obtain i where i: "i < e_n e" "os = a_stops a s ! i"
    using os erel_lengths(2) [OF e] by (auto simp: in_set_conv_nth)
  note lvl = ladder_relD(3) [OF erel_stop_ladder [OF e ne] i(1), of s]
  show "view (e_store e) (r_id r) = Some r" "\<exists>i<e_n e. os = a_stops a s ! i \<and> resting_ok True s (e_min e + int i) r"
    using level_relD(3,4) [OF lvl] r i by auto
qed

lemma erel_view_order:
  assumes e: "erel D e a"
  shows "view (e_store e) oid = Some r \<longleftrightarrow>
    r_id r = oid \<and> (\<exists>s. \<exists>os\<in>set (a_books a s) \<union> set (a_stops a s). r \<in> set os)"
proof
  assume "view (e_store e) oid = Some r"
  from erel_view_home [OF e this] erel_lengths [OF e] show
    "r_id r = oid \<and> (\<exists>s. \<exists>os\<in>set (a_books a s) \<union> set (a_stops a s). r \<in> set os)"
    unfolding home_def by (metis UnI1 UnI2 nth_mem)
next
  assume h: "r_id r = oid \<and> (\<exists>s. \<exists>os\<in>set (a_books a s) \<union> set (a_stops a s). r \<in> set os)"
  then obtain s os where os: "os \<in> set (a_books a s) \<or> os \<in> set (a_stops a s)" "r \<in> set os" by blast
  from os(1) show "view (e_store e) oid = Some r"
  proof
    assume "os \<in> set (a_books a s)"
    then obtain i where "i < e_n e" "os = a_books a s ! i" using erel_lengths(1) [OF e] by (auto simp: in_set_conv_nth)
    with level_relD(3) [OF erel_level(2) [OF e, of i s]] os(2) h show ?thesis by auto
  qed (use stop_level [OF e _ os(2)] h in auto)
qed

lemma erel_view_ids:
  assumes e: "erel D e a"
  shows "view (e_store e) oid = None \<longleftrightarrow> oid \<notin> ids a"
proof -
  have "view (e_store e) oid \<noteq> None \<longleftrightarrow> (\<exists>r. view (e_store e) oid = Some r)" by auto
  also have "\<dots> \<longleftrightarrow> oid \<in> ids a" unfolding erel_view_order [OF e] ids_def by blast
  finally show ?thesis by blast
qed

lemma erel_ids_less:
  assumes e: "erel D e a" and "oid \<in> ids a"
  shows "oid < a_next a \<and> oid \<noteq> 0"
proof -
  obtain r where r: "view (e_store e) oid = Some r" using erel_view_ids [OF e, of oid] assms(2) by auto
  moreover have "view (e_store e) 0 = None" using store_okD(3) [OF erelD(5) [OF e]] by (simp add: view_None)
  ultimately show ?thesis using view_len [OF r] erelD(6) [OF e] by (cases "oid = 0") auto
qed

lemma ids_fields [simp]:
  "ids (a\<lparr>a_stp_halt := b\<rparr>) = ids a" "ids (a_emit ev a) = ids a" "ids (a\<lparr>a_pumping := b\<rparr>) = ids a"
  "ids (a\<lparr>a_halted := b\<rparr>) = ids a" "ids (a\<lparr>a_next := k\<rparr>) = ids a"
  by (simp_all add: ids_def)

lemma a_sweep_ids:
  "r_id ` set (snd (snd (snd (a_sweep taker px ts owner stp q os)))) \<subseteq> r_id ` set os"
  by (rule a_sweep_rule [where P = "\<lambda>q os res. r_id ` set (snd (snd (snd res))) \<subseteq> r_id ` set os"]) (simp_all, blast+)

lemma ids_level_subset:
  assumes "r_id ` set os \<subseteq> r_id ` set (a_books a s ! i)" "i < length (a_books a s)"
    "a_books b = (a_books a)(s := (a_books a s)[i := os])" "a_stops b = a_stops a"
  shows "ids b \<subseteq> ids a"
proof
  fix oid assume "oid \<in> ids b"
  then obtain t l where l: "l \<in> set (a_books b t) \<union> set (a_stops a t)" "oid \<in> r_id ` set l"
    by (auto simp: ids_def assms(4))
  show "oid \<in> ids a"
  proof (cases "l \<in> set (a_books a t) \<union> set (a_stops a t)")
    case True
    with l(2) show ?thesis unfolding ids_def by blast
  next
    case False
    with l(1) have "t = s" "l \<in> set ((a_books a s)[i := os])" by (auto simp: assms(3) split: if_splits)
    with False set_update_subset_insert [of "a_books a s" i os] have "l = os" by auto
    with l(2) assms(1) have "oid \<in> r_id ` set (a_books a s ! i)" by blast
    with assms(2) show ?thesis unfolding ids_def by (metis (mono_tags, lifting) UnI1 mem_Collect_eq nth_mem)
  qed
qed

lemma ids_match_levels:
  "a_match_levels ts taker owner stp is q a = (q', a') \<Longrightarrow>
   \<forall>i\<in>set is. i < length (a_books a (opposite ts)) \<Longrightarrow> ids a' \<subseteq> ids a"
proof (induction "is" arbitrary: q a)
  case (Cons i "is")
  show ?case
  proof (cases "q = 0")
    case False
    let ?ms = "opposite ts"
    obtain q1 h evs os where sw: "a_sweep taker (a_min a + int i) ts owner stp q (a_books a ?ms ! i) = (q1, h, evs, os)"
      by (metis prod_cases4)
    let ?a1 = "a_swept ?ms i (h, evs, os) a"
    have "r_id ` set os \<subseteq> r_id ` set (a_books a ?ms ! i)"
      using a_sweep_ids [of taker "a_min a + int i" ts owner stp q "a_books a ?ms ! i"] sw by simp
    from ids_level_subset [OF this, of ?a1] Cons.prems(2) have sub: "ids ?a1 \<subseteq> ids a" by simp
    show ?thesis
    proof (cases "a_stp_halt ?a1")
      case True
      with Cons.prems(1) \<open>q \<noteq> 0\<close> sw sub show ?thesis by simp
    next
      case False
      with Cons.prems(1) \<open>q \<noteq> 0\<close> sw have "a_match_levels ts taker owner stp is q1 ?a1 = (q', a')" by simp
      from Cons.IH [OF this] Cons.prems(2) sub show ?thesis by simp
    qed
  qed (use Cons.prems in simp)
qed simp

lemma ids_match:
  assumes "erel D e a"
  shows "ids (snd (a_match ts taker q limit owner stp a)) \<subseteq> ids a"
proof -
  have "\<forall>i\<in>set (reach ts (a_n a) limit). i < length (a_books a (opposite ts))"
    using erel_lengths(1) [OF assms] erelD(2) [OF assms] by (cases ts) (auto simp: reach_def)
  with ids_match_levels [of ts taker owner stp "reach ts (a_n a) limit" q a] show ?thesis
    by (cases "a_match ts taker q limit owner stp a") (simp add: a_match_def)
qed

section \<open>Placing a limit order\<close>

lemma rest_sim':
  assumes e: "erel clean e a" and fresh: "oid \<notin> ids a" "oid < a_next a" "oid \<noteq> 0"
    and band: "in_band e price" and q: "qty \<noteq> 0"
  shows "\<exists>e'. rest oid side price qty owner stp peak e = Some e' \<and>
    erel clean e' (a_rest oid side price qty owner stp peak a)"
  by (rule rest_sim [OF e]) (use assms erel_view_ids [OF e] erelD(6) [OF e] in auto)

lemma place_limit_sim:
  assumes e: "erel clean e a" "\<not> a_stp_halt a" and fresh: "oid \<notin> ids a" "oid < a_next a" "oid \<noteq> 0"
    and band: "in_band e price" and q: "qty \<noteq> 0"
  shows "\<exists>e'. place_limit oid side price qty tif owner stp peak e = Some e' \<and>
    erel clean e' (a_place oid side price qty tif owner stp peak a) \<and>
    \<not> a_stp_halt (a_place oid side price qty tif owner stp peak a)"
proof (cases "e_halted e")
  case True
  with rest_sim' [OF e(1) fresh band q] erelD(14) [OF e(1)] e(2) show ?thesis
    by (simp add: place_limit_def a_place_def)
next
  case False
  obtain rem a1 where m: "a_match side oid qty (a_idx a price) owner stp a = (rem, a1)" by fastforce
  obtain e1 where e1: "match_limit side oid qty (int (idx e price)) owner stp e = Some (rem, e1)" "erel clean e1 a1"
    using match_limit_sim [OF e band, of side oid qty owner stp] unfolding m by auto
  have fr: "frame a a1" using frame_match [of a side oid qty "a_idx a price" owner stp] m by simp
  have band1: "in_band e1 price"
    using band erelD(1,2) [OF e(1)] erelD(1,2) [OF e1(2)] fr by (simp add: in_band_def frame_def)
  have fresh1: "oid \<notin> ids a1" "oid < a_next a1"
    using ids_match [OF e(1), of side oid qty "a_idx a price" owner stp] m fresh fr by (auto simp: frame_def)
  have halted: "\<not> a_halted a" "a_stp_halt a1 = e_stp_halt e1" using False erelD(14) [OF e(1)] erelD(15) [OF e1(2)] by simp_all
  show ?thesis
  proof (cases "a_stp_halt a1")
    case True
    with False e1 m halted erel_stp_halt [OF e1(2), of False] erel_emit [OF erel_stp_halt [OF e1(2), of False], of "Cancelled oid"]
    show ?thesis by (simp add: place_limit_def a_place_def Let_def)
  next
    case nh: False
    show ?thesis
    proof (cases "rem > 0 \<and> tif \<noteq> IOC \<and> tif \<noteq> FOK")
      case True
      with rest_sim' [OF e1(2) fresh1 fresh(3) band1, of rem side owner stp peak] False e1 m halted nh show ?thesis
        by (auto simp: place_limit_def a_place_def Let_def)
    next
      case no: False
      with False e1 m halted nh erel_emit [OF e1(2), of "Cancelled oid"] show ?thesis
        by (auto simp: place_limit_def a_place_def Let_def)
    qed
  qed
qed

end
