(* ===== verification/Stop_Refinement.thy ===== *)
theory Stop_Refinement
  imports Pass_Refinement
begin

text \<open>
  Leaving the book, the stop books and the pump: removing a resting order or a parked
  stop, parking one, finding the next armed one, firing it, and the loop that fires them
  all.
\<close>

section \<open>Removing an order\<close>

lemma erel_located:
  assumes e: "erel D e a" and v: "view (e_store e) oid = Some r"
  shows "r_id r = oid" "idx e (r_price r) < e_n e" "r_price r = e_min e + int (idx e (r_price r))"
    "a_idx a (r_price r) = idx e (r_price r)"
    "\<not> r_stop r \<Longrightarrow> r \<in> set (a_books a (r_side r) ! idx e (r_price r))"
    "r_stop r \<Longrightarrow> r \<in> set (a_stops a (r_side r) ! idx e (r_price r))"
proof -
  from erel_view_home [OF e v] obtain i where i: "r_id r = oid" "i < e_n e" "r_price r = e_min e + int i"
    "r \<in> set ((if r_stop r then a_stops a else a_books a) (r_side r) ! i)" by (auto simp: home_def)
  then have ix: "idx e (r_price r) = i" by (simp add: idx_def)
  show "r_id r = oid" "idx e (r_price r) < e_n e" "r_price r = e_min e + int (idx e (r_price r))"
    using i unfolding ix by simp_all
  show "a_idx a (r_price r) = idx e (r_price r)" using erelD(1) [OF e] by (simp add: a_idx_def idx_def)
  show "\<not> r_stop r \<Longrightarrow> r \<in> set (a_books a (r_side r) ! idx e (r_price r))"
    "r_stop r \<Longrightarrow> r \<in> set (a_stops a (r_side r) ! idx e (r_price r))"
    using i(4) unfolding ix by simp_all
qed

lemma drop_from_level:
  assumes lvl: "level_rel k s p v lvl os" and r: "r \<in> set os"
  shows "remove1 (r_id r) (l_fifo lvl) = map r_id (filter (\<lambda>x. r_id x \<noteq> r_id r) os)"
    "remove1 (r_id r) (l_fifo lvl) = [] \<longleftrightarrow> filter (\<lambda>x. r_id x \<noteq> r_id r) os = []"
  using remove1_id [OF level_relD(2) [OF lvl], of r] level_relD(1) [OF lvl] by simp_all

lemma remove_resting_sim:
  assumes e: "erel clean e a" and v: "view (e_store e) oid = Some r" "lookup (e_store e) oid = Some ord"
    and k: "\<not> r_stop r"
  shows "\<exists>e1 e2. remove_resting ord e = Some e1 \<and> drop_order oid e1 = Some e2 \<and> erel clean e2 (a_remove r a)"
proof -
  note d = erelD [OF e]
  obtain ord' where "lookup (e_store e) oid = Some ord'" "o_id ord' = oid" "r_id r = oid" "o_qty ord' = r_qty r"
    "o_side ord' = r_side r" "o_price ord' = r_price r" "reserve_of (e_store e) ord' = Some (r_reserve r)"
    by (rule view_node [OF d(5) v(1)], rule that)
  then have o: "o_id ord = oid" "r_id r = oid" "o_qty ord = r_qty r" "o_side ord = r_side r" "o_price ord = r_price r"
    "reserve_of (e_store e) ord = Some (r_reserve r)" using v(2) by auto
  define i where "i = idx e (r_price r)"
  define s where "s = r_side r"
  define os' where "os' = filter (\<lambda>x. r_id x \<noteq> r_id r) (a_books a s ! i)"
  note loc = erel_located(2-4) [OF e v(1), folded i_def] erel_located(5) [OF e v(1) k, folded i_def s_def]
  note lvl = erel_level [OF e loc(1), of s] and lad = erel_ladder [OF e, of s] and pl = erel_put_level [OF e loc(1), where s = s]
  let ?bk = "book_of s e" and ?l = "ld_levels (book_of s e) ! i"
  let ?l2 = "?l\<lparr>l_total := l_total ?l - r_qty r, l_hidden := l_hidden ?l - r_reserve r,
    l_fifo := remove1 oid (l_fifo ?l), l_count := l_count ?l - 1\<rparr>"
  let ?bk1 = "?bk\<lparr>ld_levels := (ld_levels ?bk)[i := ?l2]\<rparr>"
  obtain st where st: "drop_node (e_store e) oid = Some st" "store_ok st" "view st = (view (e_store e))(oid := None)"
    "length (st_orders st) = length (st_orders (e_store e))"
    using drop_node_spec [OF d(5) v(1)] by blast
  have l2: "level_rel False s (e_min e + int i) (view st) ?l2 os'"
    unfolding st(3) o(2) [symmetric] os'_def
    by (rule level_rel_remove [OF lvl(2) loc(4)]) (simp_all add: o(2))
  have ch: "relevel (view (e_store e)) (view st) (a_books a s ! i) os'"
    unfolding st(3) o(2) [symmetric] os'_def by (rule relevel_remove [OF loc(4)])
  have bits: "bm_bits (ld_map ?bk) = occ (a_books a s)" using ladder_relD(6) [OF lad] by simp
  have len: "i < length (a_books a s)" using erel_lengths(1) [OF e] loc(1) by simp
  have io: "i \<in> occ (a_books a s)" using len loc(4) by (auto simp: occ_def)
  have emp: "remove1 oid (l_fifo ?l) = [] \<longleftrightarrow> os' = []"
    using drop_from_level(2) [OF lvl(2) loc(4)] by (simp add: os'_def o(2))
  have "\<exists>bk2. (if remove1 oid (l_fifo ?l) \<noteq> [] then Some ?bk1
         else do { m \<leftarrow> bm_clear (ld_map ?bk1) i;
           b \<leftarrow> (if bk_best ?bk1 = int i then next_best s m (bk_best ?bk1) else Some (bk_best ?bk1));
           Some (?bk1\<lparr>ld_map := m, bk_best := b\<rparr>) }) = Some bk2 \<and>
      ld_levels bk2 = (ld_levels ?bk)[i := ?l2] \<and> bm_ok (ld_map bk2) \<and> bm_n (ld_map bk2) = e_n e \<and>
      bm_bits (ld_map bk2) = occ ((a_books a s)[i := os']) \<and>
      best_rel s (occ ((a_books a s)[i := os'])) (bk_best bk2)"
  proof (cases "os' = []")
    case False
    then have "occ ((a_books a s)[i := os']) = occ (a_books a s)" using occ_keep [OF len] io by auto
    with False emp ladder_relD(4,5) [OF lad] bits erel_best [OF e, of s] show ?thesis by simp
  next
    case True
    then have oc: "occ ((a_books a s)[i := os']) = occ (a_books a s) - {i}" using occ_empty by simp
    have ok: "bm_ok (ld_map ?bk)" "i < bm_n (ld_map ?bk)" using ladder_relD(4,5) [OF lad] loc(1) by simp_all
    show ?thesis
    proof (cases "bk_best ?bk = int i")
      case best: True
      then have "best_rel s (bm_bits (ld_map ?bk)) (int i)" using erel_best [OF e, of s] bits by simp
      from retire_best [OF ok this] True emp best oc bits ladder_relD(5) [OF lad] show ?thesis by auto
    next
      case False
      obtain m where m: "bm_clear (ld_map ?bk) i = Some m" "bm_ok m" "bm_n m = e_n e" "bm_bits m = occ (a_books a s) - {i}"
        using bm.unmark [OF ok] bits ladder_relD(5) [OF lad] by auto
      have "best_rel s (occ (a_books a s) - {i}) (bk_best ?bk)"
        using erel_best [OF e, of s]
      proof (cases rule: best_rel_cases)
        case none
        with io show ?thesis by auto
      next
        case (some k)
        with False best_rel_remove [of s "occ (a_books a s)" k i] erel_best [OF e, of s] show ?thesis by auto
      qed
      with m True emp False oc show ?thesis by auto
    qed
  qed
  then obtain bk2 where bk2: "(if remove1 oid (l_fifo ?l) \<noteq> [] then Some ?bk1
         else do { m \<leftarrow> bm_clear (ld_map ?bk1) i;
           b \<leftarrow> (if bk_best ?bk1 = int i then next_best s m (bk_best ?bk1) else Some (bk_best ?bk1));
           Some (?bk1\<lparr>ld_map := m, bk_best := b\<rparr>) }) = Some bk2"
      "ld_levels bk2 = (ld_levels ?bk)[i := ?l2]" "bm_ok (ld_map bk2)" "bm_n (ld_map bk2) = e_n e"
      "bm_bits (ld_map bk2) = occ ((a_books a s)[i := os'])" "best_rel s (occ ((a_books a s)[i := os'])) (bk_best bk2)"
    by blast
  have "remove_resting ord e = Some (set_book s bk2 e)"
    unfolding remove_resting_def Let_def o i_def [symmetric] s_def [symmetric]
    using lvl(1) pl(1) bk2(1) by (simp split del: if_split)
  moreover have "drop_order oid (set_book s bk2 e) = Some ((set_book s bk2 e)\<lparr>e_store := st\<rparr>)"
    using st(1) by (simp add: drop_order_def)
  moreover have "erel (clean(s := {})) (set_book s bk2 (e\<lparr>e_store := st\<rparr>)) (a_level s i os' a)"
    by (rule erel_put [OF e loc(1) st(2,4) ch l2]) (use bk2 in simp_all)
  then have "erel clean ((set_book s bk2 e)\<lparr>e_store := st\<rparr>) (a_remove r a)"
    using k loc(3) by (simp add: a_remove_def Let_def os'_def s_def fun_upd_idem)
  ultimately show ?thesis by blast
qed

lemma remove_stop_sim:
  assumes e: "erel clean e a" and v: "view (e_store e) oid = Some r" "lookup (e_store e) oid = Some ord"
    and k: "r_stop r"
  shows "\<exists>e1 e2. remove_stop ord e = Some e1 \<and> drop_order oid e1 = Some e2 \<and> erel clean e2 (a_remove r a)"
proof -
  note d = erelD [OF e]
  obtain ord' where "lookup (e_store e) oid = Some ord'" "o_id ord' = oid" "r_id r = oid" "o_qty ord' = r_qty r"
    "o_side ord' = r_side r" "o_price ord' = r_price r"
    by (rule view_node [OF d(5) v(1)], rule that)
  then have o: "o_id ord = oid" "r_id r = oid" "o_qty ord = r_qty r" "o_side ord = r_side r" "o_price ord = r_price r"
    using v(2) by auto
  define i where "i = idx e (r_price r)"
  define s where "s = r_side r"
  define os' where "os' = filter (\<lambda>x. r_id x \<noteq> r_id r) (a_stops a s ! i)"
  note loc = erel_located(2-4) [OF e v(1), folded i_def] erel_located(6) [OF e v(1) k, folded i_def s_def]
  have alloc: "ld_levels (stops_of Buy e) \<noteq> []"
  proof
    assume "ld_levels (stops_of Buy e) = []"
    then have "a_stops a s = replicate (e_n e) []" using d(8) by (simp add: stops_rel_def)
    with loc(1,4) show False by simp
  qed
  note lad = erel_stop_ladder [OF e alloc, of s]
  note lvl = ladder_rel_level_at [OF lad loc(1)] ladder_relD(3) [OF lad loc(1)]
  note pl = ladder_rel_put_level [OF lad loc(1)]
  let ?ld = "stops_of s e" and ?l = "ld_levels (stops_of s e) ! i"
  let ?l2 = "?l\<lparr>l_total := l_total ?l - r_qty r, l_fifo := remove1 oid (l_fifo ?l), l_count := l_count ?l - 1\<rparr>"
  let ?ld1 = "?ld\<lparr>ld_levels := (ld_levels ?ld)[i := ?l2]\<rparr>"
  obtain st where st: "drop_node (e_store e) oid = Some st" "store_ok st" "view st = (view (e_store e))(oid := None)"
    "length (st_orders st) = length (st_orders (e_store e))"
    using drop_node_spec [OF d(5) v(1)] by blast
  have "r_reserve r = 0" using level_relD(4) [OF lvl(2) loc(4)] by (simp add: resting_ok_def)
  then have l2: "level_rel True s (e_min e + int i) (view st) ?l2 os'"
    unfolding st(3) o(2) [symmetric] os'_def
    by (intro level_rel_remove [OF lvl(2) loc(4)]) (simp_all add: o(2))
  have ch: "relevel (view (e_store e)) (view st) (a_stops a s ! i) os'"
    unfolding st(3) o(2) [symmetric] os'_def by (rule relevel_remove [OF loc(4)])
  have bits: "bm_bits (ld_map ?ld) = occ (a_stops a s)" using ladder_relD(6) [OF lad] by simp
  have len: "i < length (a_stops a s)" using erel_lengths(2) [OF e] loc(1) by simp
  have io: "i \<in> occ (a_stops a s)" using len loc(4) by (auto simp: occ_def)
  have emp: "remove1 oid (l_fifo ?l) = [] \<longleftrightarrow> os' = []"
    using drop_from_level(2) [OF lvl(2) loc(4)] by (simp add: os'_def o(2))
  have "\<exists>ld2. (if remove1 oid (l_fifo ?l) \<noteq> [] then Some ?ld1
         else do { m \<leftarrow> bm_clear (ld_map ?ld1) i; Some (?ld1\<lparr>ld_map := m\<rparr>) }) = Some ld2 \<and>
      ld_levels ld2 = (ld_levels ?ld)[i := ?l2] \<and> bm_ok (ld_map ld2) \<and> bm_n (ld_map ld2) = e_n e \<and>
      bm_bits (ld_map ld2) = occ ((a_stops a s)[i := os'])"
  proof (cases "os' = []")
    case False
    then have "occ ((a_stops a s)[i := os']) = occ (a_stops a s)" using occ_keep [OF len] io by auto
    with False emp ladder_relD(4,5) [OF lad] bits show ?thesis by simp
  next
    case True
    then have "occ ((a_stops a s)[i := os']) = occ (a_stops a s) - {i}" using occ_empty by simp
    with bm.unmark [OF ladder_relD(4) [OF lad], of i] ladder_relD(5) [OF lad] loc(1) bits True emp show ?thesis by auto
  qed
  then obtain ld2 where ld2: "(if remove1 oid (l_fifo ?l) \<noteq> [] then Some ?ld1
         else do { m \<leftarrow> bm_clear (ld_map ?ld1) i; Some (?ld1\<lparr>ld_map := m\<rparr>) }) = Some ld2"
      "ld_levels ld2 = (ld_levels ?ld)[i := ?l2]" "bm_ok (ld_map ld2)" "bm_n (ld_map ld2) = e_n e"
      "bm_bits (ld_map ld2) = occ ((a_stops a s)[i := os'])" by blast
  define k' where "k' = e_pending_stops e - 1"
  have cnt: "k' = stop_count (a_stop_level s i os' a)"
    using stop_count_update [of i a s os'] len length_filter_id [OF level_relD(2) [OF lvl(2)] loc(4)] d(10)
    by (simp add: k'_def os'_def)
  have "remove_stop ord e = Some ((set_stops s ld2 e)\<lparr>e_pending_stops := k'\<rparr>)"
    unfolding remove_stop_def Let_def o i_def [symmetric] s_def [symmetric]
    using lvl(1) pl ld2(1) by (simp add: k'_def split del: if_split)
  moreover have "drop_order oid ((set_stops s ld2 e)\<lparr>e_pending_stops := k'\<rparr>) =
      Some ((set_stops s ld2 e)\<lparr>e_store := st, e_pending_stops := k'\<rparr>)"
    using st(1) by (simp add: drop_order_def)
  moreover have "erel clean ((set_stops s ld2 e)\<lparr>e_store := st, e_pending_stops := k'\<rparr>) (a_stop_level s i os' a)"
    by (rule erel_put_stop [OF e alloc loc(1) st(2,4) ch l2 ld2(2-5) cnt])
  then have "erel clean ((set_stops s ld2 e)\<lparr>e_store := st, e_pending_stops := k'\<rparr>) (a_remove r a)"
    using k loc(3) by (simp add: a_remove_def Let_def os'_def s_def)
  ultimately show ?thesis by blast
qed

section \<open>Parking a stop\<close>

lemma rest_stop_sim:
  assumes e0: "erel clean e0 a" and fresh: "oid \<notin> ids a" "oid < a_next a" "oid \<noteq> 0"
    and band: "in_band e0 stop_price" and q: "qty \<noteq> 0"
  shows "\<exists>e'. rest_stop oid side stop_price limit_price qty is_market owner stp e0 = Some e' \<and>
    erel clean e' (a_rest_stop oid side stop_price limit_price qty is_market owner stp a)"
proof -
  define e where "e = ensure_stop_books e0"
  note ens = erel_ensure [OF e0, folded e_def]
  note e = ens(1) and alloc = ens(2) and d = erelD [OF ens(1)]
  define r where "r = new_stop oid side stop_price limit_price qty is_market owner stp"
  define node where "node = \<lparr>o_id = oid, o_price = stop_price, o_qty = qty, o_ext = None, o_owner = owner,
    o_side = side, o_flags = stp_code stp OR kStopPending OR (if is_market then kStopMarket else 0), o_addr = 0\<rparr>"
  define ex where "ex = (if is_market then None else Some (\<lambda>x::extra. x\<lparr>x_limit := limit_price\<rparr>))"
  have band': "in_band e stop_price" using band ens by (simp add: in_band_def)
  note ix = band_index [OF band']
  let ?i = "idx e stop_price" and ?v = "view (e_store e)"
  have r: "r_id r = oid" "r_qty r = qty" "r_reserve r = 0" by (auto simp: r_def new_stop_def)
  have ro: "ro_make node (slot_value ex) = r"
    by (auto simp: r_def node_def ex_def slot_value_def extra_zero_def new_stop_def ro_make_def flag_def
        o_stp_def Let_def stp_cases)
  have free: "?v oid = None" using erel_view_ids [OF e] fresh(1) by simp
  have "\<exists>st. insert_node (e_store e) node ex = Some st \<and> store_ok st \<and>
      view st = ?v(o_id node \<mapsto> ro_make node (slot_value ex)) \<and>
      length (st_orders st) = length (st_orders (e_store e))"
    by (rule insert_node_spec [OF d(5)])
       (use fresh free d(6) in \<open>auto simp: node_def ex_def flag_def view_None\<close>)
  then obtain st where st: "insert_node (e_store e) node ex = Some st" "store_ok st" "view st = ?v(oid \<mapsto> r)"
      "length (st_orders st) = length (st_orders (e_store e))"
    unfolding ro by (auto simp: node_def)
  note lad = erel_stop_ladder [OF e alloc, of side]
  note lvl = ladder_rel_level_at [OF lad ix(1)] ladder_relD(3) [OF lad ix(1)]
  define lvl1 where "lvl1 = ld_levels (stops_of side e) ! ?i"
  define lvl2 where "lvl2 = lvl1\<lparr>l_total := l_total lvl1 + qty, l_fifo := l_fifo lvl1 @ [oid], l_count := l_count lvl1 + 1\<rparr>"
  have new: "?v (r_id r) = None" using free r(1) by simp
  have ok: "resting_ok True side stop_price r"
  proof -
    have "unat qty < 2 ^ 64" by (rule order.strict_trans2 [OF unsigned_less]) simp
    then show ?thesis using q by (auto simp: resting_ok_def r_def new_stop_def word_gt_0)
  qed
  have l2: "level_rel True side stop_price (view st) lvl2 (a_stops a side ! ?i @ [r])"
    unfolding st(3) r(1) [symmetric]
    by (rule level_rel_append [where v = ?v and r = r, OF _ new])
       (use lvl(2) ok r in \<open>simp_all add: lvl2_def lvl1_def ix(2)\<close>)
  have ch: "relevel ?v (view st) (a_stops a side ! ?i) (a_stops a side ! ?i @ [r])"
    unfolding st(3) r(1) [symmetric] by (rule relevel_append [where v = ?v, OF new])
  have len: "?i < length (a_stops a side)" using erel_lengths(2) [OF e] ix(1) by simp
  have occ': "occ ((a_stops a side)[?i := a_stops a side ! ?i @ [r]]) = insert ?i (occ (a_stops a side))"
    by (rule occ_keep [OF len]) simp
  have bits: "bm_bits (ld_map (stops_of side e)) = occ (a_stops a side)" using ladder_relD(6) [OF lad] by simp
  have fifo: "l_fifo lvl1 = map r_id (a_stops a side ! ?i)" using level_relD(1) [OF lvl(2)] by (simp add: lvl1_def)
  have "\<exists>ld1. (if l_fifo lvl1 \<noteq> [] then Some (stops_of side e)
         else do { m \<leftarrow> bm_set (ld_map (stops_of side e)) ?i; Some ((stops_of side e)\<lparr>ld_map := m\<rparr>) }) = Some ld1 \<and>
      ld_levels ld1 = ld_levels (stops_of side e) \<and> bm_ok (ld_map ld1) \<and> bm_n (ld_map ld1) = e_n e \<and>
      bm_bits (ld_map ld1) = insert ?i (occ (a_stops a side))"
  proof (cases "a_stops a side ! ?i = []")
    case True
    obtain m where "bm_set (ld_map (stops_of side e)) ?i = Some m" "bm_ok m" "bm_n m = e_n e"
      "bm_bits m = insert ?i (occ (a_stops a side))"
      using bm.mark [of "ld_map (stops_of side e)" ?i] ladder_relD(4,5) [OF lad] ix(1) bits by auto
    with True fifo show ?thesis by simp
  next
    case False
    then have "insert ?i (occ (a_stops a side)) = occ (a_stops a side)" using len by (auto simp: occ_def)
    with False fifo ladder_relD(4,5) [OF lad] bits show ?thesis by simp
  qed
  then obtain ld1 where ld1: "(if l_fifo lvl1 \<noteq> [] then Some (stops_of side e)
         else do { m \<leftarrow> bm_set (ld_map (stops_of side e)) ?i; Some ((stops_of side e)\<lparr>ld_map := m\<rparr>) }) = Some ld1"
      "ld_levels ld1 = ld_levels (stops_of side e)" "bm_ok (ld_map ld1)" "bm_n (ld_map ld1) = e_n e"
      "bm_bits (ld_map ld1) = insert ?i (occ (a_stops a side))" by blast
  define ld2 where "ld2 = ld1\<lparr>ld_levels := (ld_levels (stops_of side e))[?i := lvl2]\<rparr>"
  have put: "put_level ?i lvl2 ld1 = Some ld2"
    using ld1(2) ladder_relD(1) [OF lad] ix(1) by (simp add: put_level_def vec_set_in ld2_def)
  define k where "k = e_pending_stops e + 1"
  have cnt: "k = stop_count (a_stop_level side ?i (a_stops a side ! ?i @ [r]) a)"
    using stop_count_update [of ?i a side "a_stops a side ! ?i @ [r]"] len d(10) by (simp add: k_def)
  have "rest_stop oid side stop_price limit_price qty is_market owner stp e0 =
      Some ((set_stops side ld2 e)\<lparr>e_store := st, e_pending_stops := k\<rparr>)"
    using st(1) lvl(1) ld1(1) put
    unfolding rest_stop_def Let_def e_def [symmetric] node_def ex_def lvl2_def lvl1_def k_def
    by (simp split del: if_split)
  moreover have "erel clean ((set_stops side ld2 e)\<lparr>e_store := st, e_pending_stops := k\<rparr>)
      (a_stop_level side ?i (a_stops a side ! ?i @ [r]) a)"
    by (rule erel_put_stop [OF e alloc ix(1) st(2,4) ch, of lvl2])
       (use l2 ld1 occ' ix(2) cnt in \<open>simp_all add: ld2_def\<close>)
  moreover have "a_idx a stop_price = ?i" using d(1) by (simp add: a_idx_def idx_def)
  ultimately show ?thesis by (simp add: a_rest_stop_def Let_def r_def)
qed

section \<open>The next armed stop\<close>

lemma find_upt_least:
  assumes "\<forall>j<n. P j \<longrightarrow> k \<le> j" "P k" "k < n"
  shows "find P [0..<n] = Some k"
  unfolding find_Some_iff
proof (intro exI [of _ k] conjI allI impI)
  fix j assume "j < k"
  then have "j < n" using assms(3) by simp
  moreover have "\<not> P j" using assms(1) \<open>j < n\<close> \<open>j < k\<close> by (meson leD)
  ultimately show "\<not> P ([0..<n] ! j)" by simp
qed (use assms in auto)

lemma lowest_min:
  assumes "is_min (occ oss) b"
  shows "lowest oss = (if b < 0 then None else Some (nat b))" "0 \<le> b \<Longrightarrow> nat b < length oss \<and> oss ! nat b \<noteq> []"
proof -
  consider (none) "occ oss = {}" "b = - 1" | (some) k where "k \<in> occ oss" "b = int k" "\<forall>j\<in>occ oss. k \<le> j"
    using assms by (auto simp: is_min_def split: if_splits)
  then show "lowest oss = (if b < 0 then None else Some (nat b))" "0 \<le> b \<Longrightarrow> nat b < length oss \<and> oss ! nat b \<noteq> []"
  proof (atomize (full), cases)
    case none
    then show "lowest oss = (if b < 0 then None else Some (nat b)) \<and> (0 \<le> b \<longrightarrow> nat b < length oss \<and> oss ! nat b \<noteq> [])"
      by (auto simp: lowest_def find_None_iff occ_def)
  next
    case some
    then show "lowest oss = (if b < 0 then None else Some (nat b)) \<and> (0 \<le> b \<longrightarrow> nat b < length oss \<and> oss ! nat b \<noteq> [])"
      by (auto simp: lowest_def occ_def intro!: find_upt_least)
  qed
qed

lemma highest_max:
  assumes "is_max (occ oss) b"
  shows "highest oss = (if b < 0 then None else Some (nat b))" "0 \<le> b \<Longrightarrow> nat b < length oss \<and> oss ! nat b \<noteq> []"
proof -
  consider (none) "occ oss = {}" "b = - 1" | (some) k where "k \<in> occ oss" "b = int k" "\<forall>j\<in>occ oss. j \<le> k"
    using assms by (auto simp: is_max_def split: if_splits)
  then show "highest oss = (if b < 0 then None else Some (nat b))" "0 \<le> b \<Longrightarrow> nat b < length oss \<and> oss ! nat b \<noteq> []"
  proof (atomize (full), cases)
    case none
    then show "highest oss = (if b < 0 then None else Some (nat b)) \<and> (0 \<le> b \<longrightarrow> nat b < length oss \<and> oss ! nat b \<noteq> [])"
      by (auto simp: highest_def find_None_iff occ_def)
  next
    case some
    have "find (\<lambda>i. oss ! i \<noteq> []) (rev [0..<length oss]) = Some k"
    proof -
      have k: "k < length oss" "oss ! k \<noteq> []" using some by (auto simp: occ_def)
      have "oss ! (length oss - 1 - j) = []" if "j < length oss - 1 - k" for j
      proof (rule ccontr)
        assume "oss ! (length oss - 1 - j) \<noteq> []"
        then have "length oss - 1 - j \<in> occ oss" using k that by (auto simp: occ_def)
        with some(3) that k show False by fastforce
      qed
      with k show ?thesis
        unfolding find_Some_iff
        by (intro exI [of _ "length oss - 1 - k"]) (auto simp: rev_nth)
    qed
    with some show "highest oss = (if b < 0 then None else Some (nat b)) \<and> (0 \<le> b \<longrightarrow> nat b < length oss \<and> oss ! nat b \<noteq> [])"
      by (auto simp: highest_def occ_def)
  qed
qed

lemma next_stop_sim:
  assumes e: "erel clean e a"
  shows "next_triggered_stop e =
    Some (map_option (\<lambda>(s, i). r_id (hd (a_stops a s ! i))) (a_next_stop a))"
proof (cases "e_has_last e \<and> ld_levels (stops_of Buy e) \<noteq> []")
  case False
  note d = erelD [OF e]
  have "a_next_stop a = None"
  proof (cases "e_has_last e")
    case True
    with False d(8) have "\<forall>s. a_stops a s = replicate (e_n e) []" by (simp add: stops_rel_def)
    then have "\<forall>s. lowest (a_stops a s) = None \<and> highest (a_stops a s) = None"
      by (simp add: lowest_def highest_def find_None_iff)
    then show ?thesis by (simp add: a_next_stop_def Let_def)
  qed (use d(12) in \<open>simp add: a_next_stop_def\<close>)
  with False show ?thesis by (simp add: next_triggered_stop_def book_of_sides)
next
  case True
  note d = erelD [OF e] and alloc = conjunct2 [OF True]
  note lb = erel_stop_ladder [OF e alloc, of Buy] and ls = erel_stop_ladder [OF e alloc, of Sell]
  have all: "{j \<in> occ oss. (0::int) \<le> int j} = occ oss" for oss by auto
  obtain i where i: "bm_find_ge (ld_map (stops_of Buy e)) 0 = Some i" "is_min (occ (a_stops a Buy)) i"
    using bm.next_ge [OF ladder_relD(4) [OF lb], of 0] ladder_relD(6) [OF lb] all by auto
  have all': "{j \<in> occ (a_stops a Sell). int j \<le> int (e_n e) - 1} = occ (a_stops a Sell)"
    using erel_lengths(2) [OF e] by (auto dest: occ_less)
  obtain j where j: "bm_find_le (ld_map (stops_of Sell e)) (int (e_n e) - 1) = Some j" "is_max (occ (a_stops a Sell)) j"
    using bm.next_le [OF ladder_relD(4) [OF ls], of "int (e_n e) - 1"] ladder_relD(5,6) [OF ls] all' d(3) by auto
  note li = lowest_min [OF i(2)] and lj = highest_max [OF j(2)]
  have lvl: "level_at (stops_of s e) k = Some (ld_levels (stops_of s e) ! k)"
    "l_fifo (ld_levels (stops_of s e) ! k) = map r_id (a_stops a s ! k)" if "k < length (a_stops a s)" for s k
    using that ladder_rel_level_at [OF erel_stop_ladder [OF e alloc, of s]] erel_lengths(2) [OF e]
      level_relD(1) [OF ladder_relD(3) [OF erel_stop_ladder [OF e alloc, of s]]] by simp_all
  have head: "(case map r_id os of [] \<Rightarrow> Some None | oid # _ \<Rightarrow> Some (Some oid)) = Some (Some (r_id (hd os)))"
    if "os \<noteq> []" for os using that by (cases os) auto
  show ?thesis
    unfolding next_triggered_stop_def book_of_sides a_next_stop_def Let_def li lj
    using True i(1) j(1) li(2) lj(2) d(1,11,12) lvl head by (auto simp: not_less)
qed

end
