(* ===== verification/Engine_Refinement.thy ===== *)
theory Engine_Refinement
  imports Stop_Refinement
begin

text \<open>
  Every public operation of the engine simulates its abstract counterpart: on related
  states it returns (no invalid access, no endless loop), gives the same result, and ends
  in related states.
\<close>

section \<open>Refinement\<close>

text \<open>Between operations no sweep is halted, and the limits of parked stop-limits are in the band.\<close>

definition limits_ok :: "astate \<Rightarrow> bool" where
  "limits_ok a \<longleftrightarrow> (\<forall>s. \<forall>os\<in>set (a_stops a s). \<forall>r\<in>set os. \<not> r_market r \<longrightarrow> a_in_band a (r_limit r))"

definition refines :: "engine \<Rightarrow> astate \<Rightarrow> bool" where
  "refines e a \<longleftrightarrow> erel clean e a \<and> \<not> a_stp_halt a \<and> limits_ok a"

definition simulates :: "(engine \<Rightarrow> ('r \<times> engine) option) \<Rightarrow> (astate \<Rightarrow> 'r \<times> astate) \<Rightarrow> bool" where
  "simulates f g \<longleftrightarrow>
     (\<forall>e a. refines e a \<longrightarrow> (\<exists>e'. f e = Some (fst (g a), e') \<and> refines e' (snd (g a))))"

lemma simulatesI:
  "(\<And>e a. refines e a \<Longrightarrow> \<exists>e'. f e = Some (fst (g a), e') \<and> refines e' (snd (g a))) \<Longrightarrow> simulates f g"
  by (simp add: simulates_def)

lemma simulatesD:
  "simulates f g \<Longrightarrow> refines e a \<Longrightarrow> \<exists>e'. f e = Some (fst (g a), e') \<and> refines e' (snd (g a))"
  by (simp add: simulates_def)

lemma refinesD:
  assumes "refines e a"
  shows "erel clean e a" "\<not> a_stp_halt a" "limits_ok a"
  using assms by (simp_all add: refines_def)

lemma limits_frame: "limits_ok a \<Longrightarrow> frame a b \<Longrightarrow> limits_ok b"
  by (simp add: limits_ok_def frame_def a_in_band_def)

lemma frame_emit [simp]: "frame a (a_emit ev a)"
  by (simp add: frame_def)

lemma frame_rest [simp]: "frame a (a_rest oid side price qty owner stp peak a)"
  by (simp add: frame_def)

lemma frame_sym_in_band: "frame a b \<Longrightarrow> a_in_band b p = a_in_band a p"
  by (simp add: frame_def a_in_band_def)

lemma refines_emit: "refines e a \<Longrightarrow> refines (emit ev e) (a_emit ev a)"
  using limits_frame [OF _ frame_emit, of a ev] by (simp add: refines_def erel_emit)

lemma in_band_sim: "erel D e a \<Longrightarrow> a_in_band a p = in_band e p"
  by (simp add: a_in_band_def in_band_def erelD(1,2))

section \<open>Executing and firing stops\<close>

lemma place_limit_refines:
  assumes r: "refines e a" and fresh: "oid \<notin> ids a" "oid < a_next a" "oid \<noteq> 0"
    and band: "in_band e price" and q: "qty \<noteq> 0"
  shows "\<exists>e'. place_limit oid side price qty tif owner stp peak e = Some e' \<and>
    refines e' (a_place oid side price qty tif owner stp peak a)"
proof -
  obtain e' where "place_limit oid side price qty tif owner stp peak e = Some e'"
    "erel clean e' (a_place oid side price qty tif owner stp peak a)"
    "\<not> a_stp_halt (a_place oid side price qty tif owner stp peak a)"
    using place_limit_sim [OF refinesD(1,2) [OF r] fresh band q] by blast
  with limits_frame [OF refinesD(3) [OF r] frame_place] show ?thesis by (auto simp: refines_def)
qed

lemma execute_refines:
  assumes r: "refines e a" and fresh: "oid \<notin> ids a" "oid < a_next a" "oid \<noteq> 0"
    and band: "\<not> mkt \<Longrightarrow> in_band e limit" and q: "qty \<noteq> 0"
  shows "\<exists>e'. execute_stop oid side limit qty mkt owner stp e = Some e' \<and>
    refines e' (a_execute oid side limit qty mkt owner stp a)"
proof (cases mkt)
  case False
  with place_limit_refines [OF r fresh band q] show ?thesis
    by (simp add: execute_stop_def a_execute_def)
next
  case True
  obtain rem a1 where m: "a_match_market side oid qty owner stp a = (rem, a1)" by fastforce
  obtain e1 where e1: "match_market side oid qty owner stp e = Some (rem, e1)" "erel clean e1 a1"
    using match_market_sim [OF refinesD(1,2) [OF r], of side oid qty owner stp] unfolding m by auto
  have "frame a a1" using frame_match [of a side oid qty] m unfolding a_match_market_def by (metis snd_conv)
  then have "limits_ok (a1\<lparr>a_stp_halt := False\<rparr>)"
    using refinesD(3) [OF r] by (auto intro: limits_frame simp: frame_def)
  with True m e1(1) erel_stp_halt [OF e1(2), of False] show ?thesis
    by (simp add: execute_stop_def a_execute_def refines_def)
qed

lemma limits_stop_level:
  assumes "limits_ok a" "\<forall>r\<in>set os. \<not> r_market r \<longrightarrow> a_in_band a (r_limit r)"
  shows "limits_ok (a_stop_level s i os a)"
proof -
  have "l \<in> set (a_stops a t) \<or> l = os" if "l \<in> set (((a_stops a)(s := (a_stops a s)[i := os])) t)" for l t
    using that set_update_subset_insert [of "a_stops a s" i os] by (auto split: if_splits)
  with assms show ?thesis unfolding limits_ok_def a_in_band_def by fastforce
qed

lemma limits_remove:
  assumes "limits_ok a" "a_idx a (r_price r) < length (a_stops a (r_side r))"
  shows "limits_ok (a_remove r a)"
proof (cases "r_stop r")
  case True
  have "\<forall>x\<in>set (filter (\<lambda>x. r_id x \<noteq> r_id r) (a_stops a (r_side r) ! a_idx a (r_price r))).
      \<not> r_market x \<longrightarrow> a_in_band a (r_limit x)"
    using assms(1) nth_mem [OF assms(2)] unfolding limits_ok_def by auto
  with True limits_stop_level [OF assms(1)] show ?thesis by (simp add: a_remove_def Let_def)
next
  case False
  with assms(1) show ?thesis by (simp add: a_remove_def Let_def limits_ok_def a_in_band_def)
qed

lemma drop_order_lookup: "drop_order oid e = Some e' \<Longrightarrow> lookup (e_store e') oid = None"
  by (auto simp: drop_order_def drop_node_def release_def lookup_def split: option.splits if_splits bind_splits)

lemma remove_refines:
  assumes r: "refines e a" and v: "view (e_store e) oid = Some r" "lookup (e_store e) oid = Some ord"
  shows "\<exists>e1 e2. (if r_stop r then remove_stop ord e else remove_resting ord e) = Some e1 \<and>
    drop_order oid e1 = Some e2 \<and> refines e2 (a_remove r a) \<and> oid \<notin> ids (a_remove r a)"
proof -
  note e = refinesD(1) [OF r]
  obtain e1 e2 where s: "(if r_stop r then remove_stop ord e else remove_resting ord e) = Some e1"
    "drop_order oid e1 = Some e2" "erel clean e2 (a_remove r a)"
  proof (cases "r_stop r")
    case True
    with remove_stop_sim [OF e v True] that show ?thesis by auto
  next
    case False
    with remove_resting_sim [OF e v False] that show ?thesis by auto
  qed
  have "limits_ok (a_remove r a)"
    using limits_remove [OF refinesD(3) [OF r], of r] erel_located(2,4) [OF e v(1)] erel_lengths(2) [OF e] by simp
  moreover have "\<not> a_stp_halt (a_remove r a)" using refinesD(2) [OF r] by (simp add: a_remove_def Let_def)
  moreover have "oid \<notin> ids (a_remove r a)"
    using drop_order_lookup [OF s(2)] erel_view_ids [OF s(3), of oid] by (simp add: view_None)
  ultimately show ?thesis using s by (auto simp: refines_def)
qed

section \<open>The pump\<close>

lemma a_remove_fields [simp]:
  "a_min (a_remove r a) = a_min a" "a_n (a_remove r a) = a_n a" "a_next (a_remove r a) = a_next a"
  "a_halted (a_remove r a) = a_halted a" "a_last (a_remove r a) = a_last a" "a_tape (a_remove r a) = a_tape a"
  "a_has_last (a_remove r a) = a_has_last a" "a_pumping (a_remove r a) = a_pumping a"
  "a_stp_halt (a_remove r a) = a_stp_halt a"
  by (simp_all add: a_remove_def Let_def)

lemma armed_stop:
  assumes e: "erel clean e a" and nx: "a_next_stop a = Some (s, i)"
  shows "view (e_store e) (r_id (hd (a_stops a s ! i))) = Some (hd (a_stops a s ! i))"
    "r_stop (hd (a_stops a s ! i))" "r_qty (hd (a_stops a s ! i)) \<noteq> 0"
    "a_remove (hd (a_stops a s ! i)) a = a_stop_level s i (tl (a_stops a s ! i)) a"
proof -
  let ?r = "hd (a_stops a s ! i)"
  note at = a_next_stop_in [OF nx]
  have r: "?r \<in> set (a_stops a s ! i)" "a_stops a s ! i \<in> set (a_stops a s)" using at by auto
  show v: "view (e_store e) (r_id ?r) = Some ?r" by (rule stop_level(1) [OF e r(2,1)])
  have alloc: "ld_levels (stops_of Buy e) \<noteq> []"
  proof
    assume "ld_levels (stops_of Buy e) = []"
    then have "a_stops a s = replicate (e_n e) []" using erelD(8) [OF e] by (simp add: stops_rel_def)
    with at show False by auto
  qed
  have i: "i < e_n e" using at erel_lengths(2) [OF e] by simp
  note lvl = ladder_relD(3) [OF erel_stop_ladder [OF e alloc] i, of s]
  have ok: "resting_ok True s (e_min e + int i) ?r" by (rule level_relD(4) [OF lvl r(1)])
  then show st: "r_stop ?r" "r_qty ?r \<noteq> 0" by (auto simp: resting_ok_def)
  have "r_side ?r = s" "a_idx a (r_price ?r) = i"
    using ok erelD(1) [OF e] by (auto simp: resting_ok_def a_idx_def)
  moreover have "filter (\<lambda>x. r_id x \<noteq> r_id ?r) (a_stops a s ! i) = tl (a_stops a s ! i)"
    using level_relD(2) [OF lvl] at filter_head [of ?r "tl (a_stops a s ! i)"] by simp
  ultimately show "a_remove ?r a = a_stop_level s i (tl (a_stops a s ! i)) a"
    using st(1) by (simp add: a_remove_def Let_def)
qed

text \<open>Taking the next armed stop out of its stop book leaves it ready to execute.\<close>

lemma armed_taken:
  assumes rf: "refines e a" and si: "a_next_stop a = Some (s, i)" and r: "r = hd (a_stops a s ! i)"
    and b: "b = a_stop_level s i (tl (a_stops a s ! i)) a"
  obtains e2 where "refines e2 b" "r_id r \<notin> ids b" "r_id r < a_next b" "r_id r \<noteq> 0"
    "\<not> r_market r \<Longrightarrow> in_band e2 (r_limit r)" "r_qty r \<noteq> 0"
    "pump_loop e = do {
       e3 \<leftarrow> execute_stop (r_id r) (r_side r) (r_limit r) (r_qty r) (r_market r) (r_owner r) (r_stp r) e2;
       pump_loop e3 }"
proof -
  note e = refinesD(1) [OF rf] and arm = armed_stop [OF refinesD(1) [OF rf] si, folded r b]
  obtain ord where ord: "lookup (e_store e) (r_id r) = Some ord" "o_qty ord = r_qty r" "o_owner ord = r_owner r"
    "o_side ord = r_side r" "o_stp ord = r_stp r" "flag ord kStopMarket = r_market r"
    "r_stop r \<Longrightarrow> \<not> r_market r \<Longrightarrow> \<exists>x. extra_of (e_store e) ord = Some x \<and> x_limit x = r_limit r"
    "r_market r \<Longrightarrow> r_limit r = 0"
    by (rule view_node [OF erelD(5) [OF e] arm(1)], rule that)
  have lim: "(if flag ord kStopMarket then Some 0 else do { x \<leftarrow> extra_of (e_store e) ord; Some (x_limit x) }) = Some (r_limit r)"
    using ord(6-8) arm(2) by auto
  obtain e1 e2 where rm: "remove_stop ord e = Some e1" "drop_order (r_id r) e1 = Some e2" "refines e2 b" "r_id r \<notin> ids b"
    using remove_refines [OF rf arm(1) ord(1)] arm(2) unfolding arm(4) by auto
  have "r_id r \<in> ids a" using arm(1) erel_view_ids [OF e, of "r_id r"] by auto
  note id = erel_ids_less [OF e this]
  have "a_in_band a (r_limit r)" if "\<not> r_market r"
    using refinesD(3) [OF rf] a_next_stop_in [OF si] that unfolding limits_ok_def r by (meson list.set_sel(1) nth_mem)
  then have "in_band e2 (r_limit r)" if "\<not> r_market r"
    using that in_band_sim [OF refinesD(1) [OF rm(3)]] by (simp add: a_in_band_def b)
  moreover have "pump_loop e = do {
      e3 \<leftarrow> execute_stop (r_id r) (r_side r) (r_limit r) (r_qty r) (r_market r) (r_owner r) (r_stp r) e2;
      pump_loop e3 }"
    using next_stop_sim [OF e] si ord lim rm(1,2) by (subst pump_loop.simps) (simp add: r [symmetric])
  ultimately show ?thesis using that [OF rm(3,4)] id arm(3) by (simp add: b)
qed

lemma fire_sim:
  assumes rf: "refines e a" and si: "a_next_stop a = Some (s, i)"
  shows "\<exists>e'. pump_loop e = pump_loop e' \<and> refines e' (a_fire s i a)"
proof -
  let ?r = "hd (a_stops a s ! i)" and ?b = "a_stop_level s i (tl (a_stops a s ! i)) a"
  obtain e2 where e2: "refines e2 ?b" "r_id ?r \<notin> ids ?b" "r_id ?r < a_next ?b" "r_id ?r \<noteq> 0"
    "\<not> r_market ?r \<Longrightarrow> in_band e2 (r_limit ?r)" "r_qty ?r \<noteq> 0"
    "pump_loop e = do {
       e3 \<leftarrow> execute_stop (r_id ?r) (r_side ?r) (r_limit ?r) (r_qty ?r) (r_market ?r) (r_owner ?r) (r_stp ?r) e2;
       pump_loop e3 }"
    by (rule armed_taken [OF rf si refl refl], rule that)
  have "\<exists>e'. execute_stop (r_id ?r) (r_side ?r) (r_limit ?r) (r_qty ?r) (r_market ?r) (r_owner ?r) (r_stp ?r) e2 = Some e' \<and>
      refines e' (a_execute (r_id ?r) (r_side ?r) (r_limit ?r) (r_qty ?r) (r_market ?r) (r_owner ?r) (r_stp ?r) ?b)"
    by (rule execute_refines [OF e2(1-4)]) (fact e2(5,6))+
  with e2(7) show ?thesis by (auto simp: a_fire_def Let_def)
qed

lemma pump_sim:
  "refines e a \<Longrightarrow> \<exists>e'. pump_loop e = Some e' \<and> refines e' (a_pump a)"
proof (induction a arbitrary: e rule: a_pump.induct)
  case (1 a)
  show ?case
  proof (cases "a_next_stop a")
    case None
    with 1(2) next_stop_sim [OF refinesD(1) [OF 1(2)]] show ?thesis
      by (subst pump_loop.simps, subst a_pump.simps) simp
  next
    case (Some si)
    obtain s i where si: "a_next_stop a = Some (s, i)" using Some by (cases si) auto
    obtain e3 where e3: "pump_loop e = pump_loop e3" "refines e3 (a_fire s i a)" using fire_sim [OF 1(2) si] by blast
    moreover have "a_pump a = a_pump (a_fire s i a)" using si by (subst a_pump.simps) simp
    ultimately show ?thesis using 1(1) [OF si refl e3(2)] by simp
  qed
qed

lemma refines_pumping: "refines e a \<Longrightarrow> refines (e\<lparr>e_pumping := b\<rparr>) (a\<lparr>a_pumping := b\<rparr>)"
  by (simp add: refines_def erel_pumping limits_ok_def a_in_band_def)

lemma run_sim:
  assumes "simulates f g"
  shows "simulates (run f) (a_run g)"
proof (rule simulatesI)
  fix e a assume r: "refines e a"
  obtain x a1 where g: "g a = (x, a1)" by fastforce
  obtain e1 where e1: "f e = Some (x, e1)" "refines e1 a1" using simulatesD [OF assms r] g by auto
  note d = erelD(13,14) [OF refinesD(1) [OF e1(2)]]
  show "\<exists>e'. run f e = Some (fst (a_run g a), e') \<and> refines e' (snd (a_run g a))"
  proof (cases "a_pumping a1 \<or> a_halted a1")
    case False
    obtain e2 where "pump_loop (e1\<lparr>e_pumping := True\<rparr>) = Some e2" "refines e2 (a_pump (a1\<lparr>a_pumping := True\<rparr>))"
      using pump_sim [OF refines_pumping [OF e1(2), of True]] by blast
    with False e1 d g refines_pumping [of e2 "a_pump (a1\<lparr>a_pumping := True\<rparr>)" False] show ?thesis
      by (simp add: run_def a_run_def pump_stops_def)
  next
    case True
    have "refines (e1\<lparr>e_pumping := False\<rparr>) a1" if "\<not> a_pumping a1"
    proof -
      have "a1\<lparr>a_pumping := False\<rparr> = a1" using that by (cases a1) simp
      with refines_pumping [OF e1(2), of False] show ?thesis by simp
    qed
    with True e1 d g show ?thesis by (auto simp: run_def a_run_def pump_stops_def)
  qed
qed

section \<open>Submissions\<close>

lemma fresh_refines:
  assumes r: "refines e a"
  shows "\<exists>e' a'. fresh_id e = (a_next a, e') \<and> a_fresh a = (a_next a, a') \<and> refines e' a' \<and>
    a_next a \<notin> ids a' \<and> a_next a < a_next a' \<and> a_next a \<noteq> 0 \<and> a_halted a' = a_halted a \<and>
    a_min a' = a_min a \<and> a_n a' = a_n a \<and> a_has_last a' = a_has_last a \<and> a_last a' = a_last a"
proof -
  note e = refinesD(1) [OF r]
  obtain oid e' where f: "fresh_id e = (oid, e')" by fastforce
  note fr = erel_fresh [OF e f]
  have oid: "oid = a_next a" using fr(1) by (simp add: a_fresh_def)
  have "refines e' (snd (a_fresh a))"
    using fr(2) refinesD(2,3) [OF r] by (simp add: refines_def a_fresh_def limits_ok_def a_in_band_def)
  moreover have "oid \<notin> ids (snd (a_fresh a))" using erel_view_ids [OF fr(2), of oid] fr(3) by simp
  ultimately show ?thesis using f fr(5) oid by (auto simp: a_fresh_def)
qed

lemma rest_refines:
  assumes r: "refines e a" and fresh: "oid \<notin> ids a" "oid < a_next a" "oid \<noteq> 0"
    and band: "in_band e price" and q: "qty \<noteq> 0"
  shows "\<exists>e'. rest oid side price qty owner stp peak e = Some e' \<and>
    refines e' (a_rest oid side price qty owner stp peak a)"
  using rest_sim' [OF refinesD(1) [OF r] fresh band q, of side owner stp peak] refinesD(2) [OF r]
    limits_frame [OF refinesD(3) [OF r] frame_rest]
  by (auto simp: refines_def)

text \<open>The part limit and iceberg submissions share.\<close>

lemma submit_body_sim:
  assumes r: "refines e0 a0" and band: "in_band e0 price" and q: "qty \<noteq> 0"
  shows "\<exists>e'. (do {
        let (oid, e1) = fresh_id e0;
        let e = emit (Accept oid side price qty) e1;
        if e_halted e then
          (if tif \<noteq> GTC then Some (oid, emit (Cancelled oid) e)
           else do { e2 \<leftarrow> rest oid side price qty owner stp peak e; Some (oid, e2) })
        else do {
          have \<leftarrow> (if tif = FOK then fillable side price qty e else Some qty);
          if tif = FOK \<and> have < qty then Some (oid, emit (Cancelled oid) e)
          else if tif = PostOnly \<and> would_cross side price e then Some (oid, emit (Cancelled oid) e)
          else do { e2 \<leftarrow> place_limit oid side price qty tif owner stp peak e; Some (oid, e2) } } }) =
      Some (fst (a_submit side price qty tif owner stp peak a0), e') \<and>
    refines e' (snd (a_submit side price qty tif owner stp peak a0))"
proof -
  obtain e1 a1 where f: "fresh_id e0 = (a_next a0, e1)" "a_fresh a0 = (a_next a0, a1)" "refines e1 a1"
    "a_next a0 \<notin> ids a1" "a_next a0 < a_next a1" "a_next a0 \<noteq> 0" "a_min a1 = a_min a0" "a_n a1 = a_n a0"
    using fresh_refines [OF r] by blast
  define oid where "oid = a_next a0"
  define e where "e = emit (Accept oid side price qty) e1"
  define a where "a = a_emit (Accept oid side price qty) a1"
  have rf: "refines e a" unfolding e_def a_def by (rule refines_emit [OF f(3)])
  note er = refinesD(1) [OF rf]
  have fresh: "oid \<notin> ids a" "oid < a_next a" "oid \<noteq> 0" using f by (simp_all add: oid_def a_def)
  have band': "in_band e price"
    using band in_band_sim [OF er, of price] in_band_sim [OF refinesD(1) [OF r], of price] f(7,8)
    by (simp add: a_in_band_def a_def)
  have halted: "a_halted a = e_halted e" using erelD(14) [OF er] .
  note cn = refines_emit [OF rf, of "Cancelled oid"]
  have A: "a_submit side price qty tif owner stp peak a0 =
      (if a_halted a then (if tif \<noteq> GTC then (oid, a_emit (Cancelled oid) a)
            else (oid, a_rest oid side price qty owner stp peak a))
         else if tif = FOK \<and> a_fillable side price qty a < qty then (oid, a_emit (Cancelled oid) a)
         else if tif = PostOnly \<and> a_would_cross side price a then (oid, a_emit (Cancelled oid) a)
         else (oid, a_place oid side price qty tif owner stp peak a))"
    using f(2) by (simp add: a_submit_def Let_def oid_def a_def)
  show ?thesis
    unfolding A f(1) Let_def prod.case oid_def [symmetric] e_def [symmetric]
    using rest_refines [OF rf fresh band' q, of side owner stp peak] place_limit_refines [OF rf fresh band' q, of side tif owner stp peak]
      fillable_sim [OF er band', of side qty] would_cross_sim [OF er band', of side] cn halted
    by auto
qed

lemma submit_limit_sim:
  "simulates (do_submit_limit side price qty tif owner stp) (a_submit_limit side price qty tif owner stp)"
proof (rule simulatesI)
  fix e a assume r: "refines e a"
  show "\<exists>e'. do_submit_limit side price qty tif owner stp e = Some (fst (a_submit_limit side price qty tif owner stp a), e') \<and>
      refines e' (snd (a_submit_limit side price qty tif owner stp a))"
    using submit_body_sim [OF r, of price qty side tif owner stp 0] refines_emit [OF r, of "Rejected kInvalidOrderId"]
      in_band_sim [OF refinesD(1) [OF r], of price]
    unfolding do_submit_limit_def a_submit_limit_def by auto
qed

lemma submit_iceberg_sim:
  "simulates (do_submit_iceberg side price qty display tif owner stp) (a_submit_iceberg side price qty display tif owner stp)"
proof (rule simulatesI)
  fix e a assume r: "refines e a"
  show "\<exists>e'. do_submit_iceberg side price qty display tif owner stp e =
        Some (fst (a_submit_iceberg side price qty display tif owner stp a), e') \<and>
      refines e' (snd (a_submit_iceberg side price qty display tif owner stp a))"
    using submit_body_sim [OF r, of price qty side tif owner stp display] refines_emit [OF r, of "Rejected kInvalidOrderId"]
      in_band_sim [OF refinesD(1) [OF r], of price]
    unfolding do_submit_iceberg_def a_submit_iceberg_def by auto
qed

lemma submit_market_sim:
  "simulates (do_submit_market side qty owner stp) (a_submit_market side qty owner stp)"
proof (rule simulatesI)
  fix e a assume r: "refines e a"
  obtain e1 a1 where f: "fresh_id e = (a_next a, e1)" "a_fresh a = (a_next a, a1)" "refines e1 a1"
    using fresh_refines [OF r] by blast
  define e2 where "e2 = emit (Accept (a_next a) side 0 qty) e1"
  define a2 where "a2 = a_emit (Accept (a_next a) side 0 qty) a1"
  have rf: "refines e2 a2" unfolding e2_def a2_def by (rule refines_emit [OF f(3)])
  obtain rem a3 where m: "a_match_market side (a_next a) qty owner stp a2 = (rem, a3)" by fastforce
  obtain e3 where e3: "match_market side (a_next a) qty owner stp e2 = Some (rem, e3)" "erel clean e3 a3"
    using match_market_sim [OF refinesD(1,2) [OF rf], of side "a_next a" qty owner stp] unfolding m by auto
  have "frame a2 a3" using frame_match [of a2 side "a_next a" qty] m unfolding a_match_market_def by (metis snd_conv)
  then have "limits_ok (a3\<lparr>a_stp_halt := False\<rparr>)"
    using refinesD(3) [OF rf] by (auto intro: limits_frame simp: frame_def)
  then have r3: "refines (e3\<lparr>e_stp_halt := False\<rparr>) (a3\<lparr>a_stp_halt := False\<rparr>)"
    using erel_stp_halt [OF e3(2), of False] by (simp add: refines_def)
  show "\<exists>e'. do_submit_market side qty owner stp e = Some (fst (a_submit_market side qty owner stp a), e') \<and>
      refines e' (snd (a_submit_market side qty owner stp a))"
    using r3 m e3(1) f(1,2) erelD(14) [OF refinesD(1) [OF r]] refines_emit [OF r, of "Rejected kInvalidOrderId"]
    by (auto simp: do_submit_market_def a_submit_market_def Let_def e2_def [symmetric] a2_def [symmetric])
qed

lemma limits_rest_stop:
  assumes "limits_ok a" "\<not> is_market \<Longrightarrow> a_in_band a limit" "a_idx a p < length (a_stops a side)"
  shows "limits_ok (a_rest_stop oid side p limit q is_market owner stp a)"
proof -
  have "\<forall>r\<in>set (a_stops a side ! a_idx a p @ [new_stop oid side p limit q is_market owner stp]).
      \<not> r_market r \<longrightarrow> a_in_band a (r_limit r)"
    using assms(1,2) nth_mem [OF assms(3)] by (auto simp: limits_ok_def new_stop_def)
  from limits_stop_level [OF assms(1) this] show ?thesis by (simp add: a_rest_stop_def Let_def)
qed

lemma submit_stop_sim:
  "simulates (do_submit_stop side stop_price limit_price qty is_market owner stp)
     (a_submit_stop side stop_price limit_price qty is_market owner stp)"
proof (rule simulatesI)
  fix e a assume r: "refines e a"
  note bnd = in_band_sim [OF refinesD(1) [OF r]]
  show "\<exists>e'. do_submit_stop side stop_price limit_price qty is_market owner stp e =
        Some (fst (a_submit_stop side stop_price limit_price qty is_market owner stp a), e') \<and>
      refines e' (snd (a_submit_stop side stop_price limit_price qty is_market owner stp a))"
  proof (cases "\<not> in_band e stop_price \<or> qty = 0 \<or> (\<not> is_market \<and> \<not> in_band e limit_price)")
    case True
    with refines_emit [OF r, of "Rejected kInvalidOrderId"] bnd show ?thesis
      by (simp add: do_submit_stop_def a_submit_stop_def)
  next
    case False
    obtain e1 a1 where f: "fresh_id e = (a_next a, e1)" "a_fresh a = (a_next a, a1)" "refines e1 a1"
      "a_next a \<notin> ids a1" "a_next a < a_next a1" "a_next a \<noteq> 0" "a_min a1 = a_min a" "a_n a1 = a_n a"
      using fresh_refines [OF r] by blast
    define oid where "oid = a_next a"
    define e2 where "e2 = emit (Accept oid side stop_price qty) e1"
    define a2 where "a2 = a_emit (Accept oid side stop_price qty) a1"
    have rf: "refines e2 a2" unfolding e2_def a2_def by (rule refines_emit [OF f(3)])
    have fresh: "oid \<notin> ids a2" "oid < a_next a2" "oid \<noteq> 0" using f by (simp_all add: oid_def a2_def)
    note bnd2 = in_band_sim [OF refinesD(1) [OF rf]]
    have same: "a_in_band a2 p = a_in_band a p" for p using f(7,8) by (simp add: a2_def a_in_band_def)
    have q: "qty \<noteq> 0" and sp: "in_band e2 stop_price" and lp: "\<not> is_market \<Longrightarrow> in_band e2 limit_price"
      using False bnd bnd2 same by auto
    note d = erelD [OF refinesD(1) [OF rf]]
    show ?thesis
    proof (cases "\<not> a_halted a2 \<and> a_has_last a2 \<and> stop_triggered side stop_price (a_last a2)")
      case True
      have "\<exists>e'. execute_stop oid side limit_price qty is_market owner stp e2 = Some e' \<and>
          refines e' (a_execute oid side limit_price qty is_market owner stp a2)"
        by (rule execute_refines [OF rf fresh lp q])
      with True False bnd d(11,12,14) show ?thesis
        unfolding do_submit_stop_def a_submit_stop_def f(1,2) Let_def prod.case oid_def [symmetric] e2_def [symmetric] a2_def [symmetric]
        by auto
    next
      case no: False
      have "a_idx a2 stop_price < length (a_stops a2 side)"
        using band_index(1) [OF sp] d(1) erel_lengths(2) [OF refinesD(1) [OF rf]] by (simp add: a_idx_def idx_def)
      from limits_rest_stop [OF refinesD(3) [OF rf] _ this] bnd2 lp
      have "limits_ok (a_rest_stop oid side stop_price limit_price qty is_market owner stp a2)" by auto
      moreover have "\<not> a_stp_halt (a_rest_stop oid side stop_price limit_price qty is_market owner stp a2)"
        using refinesD(2) [OF rf] by (simp add: a_rest_stop_def Let_def)
      ultimately have "\<exists>e'. rest_stop oid side stop_price limit_price qty is_market owner stp e2 = Some e' \<and>
          refines e' (a_rest_stop oid side stop_price limit_price qty is_market owner stp a2)"
        using rest_stop_sim [OF refinesD(1) [OF rf] fresh sp q, of side limit_price is_market owner stp]
        by (auto simp: refines_def)
      with no False bnd d(11,12,14) show ?thesis
        unfolding do_submit_stop_def a_submit_stop_def f(1,2) Let_def prod.case oid_def [symmetric] e2_def [symmetric] a2_def [symmetric]
        by auto
    qed
  qed
qed

section \<open>Cancel, reduce, modify\<close>

lemma order_list_mem:
  "r \<in> set (order_list a) \<longleftrightarrow> (\<exists>s. \<exists>os\<in>set (a_books a s) \<union> set (a_stops a s). r \<in> set os)"
proof
  assume "r \<in> set (order_list a)"
  then show "\<exists>s. \<exists>os\<in>set (a_books a s) \<union> set (a_stops a s). r \<in> set os" by (auto simp: order_list_def)
next
  assume "\<exists>s. \<exists>os\<in>set (a_books a s) \<union> set (a_stops a s). r \<in> set os"
  then obtain s os where "os \<in> set (a_books a s) \<union> set (a_stops a s)" "r \<in> set os" by blast
  then show "r \<in> set (order_list a)" by (cases s) (auto simp: order_list_def)
qed

lemma find_sim:
  assumes e: "erel D e a"
  shows "a_find oid a = view (e_store e) oid"
proof (cases "view (e_store e) oid")
  case None
  then have "\<forall>r\<in>set (order_list a). r_id r \<noteq> oid"
    using erel_view_order [OF e, of oid] order_list_mem [of _ a] by auto
  with None show ?thesis by (simp add: a_find_def find_None_iff)
next
  case (Some r)
  then have "r \<in> set (order_list a)" "r_id r = oid" using erel_view_order [OF e, of oid r] by (simp_all add: order_list_mem)
  then obtain r' where r': "find (\<lambda>r. r_id r = oid) (order_list a) = Some r'"
    by (metis (mono_tags, lifting) find_None_iff option.exhaust)
  then have "r' \<in> set (order_list a)" "r_id r' = oid" by (auto dest: find_Some_in)
  then have "view (e_store e) oid = Some r'" using erel_view_order [OF e, of oid r'] by (simp add: order_list_mem)
  with Some r' show ?thesis by (simp add: a_find_def)
qed

lemma find_cases:
  assumes r: "refines e a"
  obtains (none) "lookup (e_store e) oid = None" "a_find oid a = None"
  | (some) x ord where "lookup (e_store e) oid = Some ord" "a_find oid a = Some x" "view (e_store e) oid = Some x"
  using find_sim [OF refinesD(1) [OF r], of oid] by (cases "lookup (e_store e) oid") (auto simp: view_def)

lemma cancel_sim: "simulates (cancel_impl oid) (a_cancel oid)"
proof (rule simulatesI)
  fix e a assume r: "refines e a"
  from r show "\<exists>e'. cancel_impl oid e = Some (fst (a_cancel oid a), e') \<and> refines e' (snd (a_cancel oid a))"
  proof (cases rule: find_cases [of e a oid])
    case none
    with r show ?thesis by (simp add: cancel_impl_def a_cancel_def)
  next
    case (some x ord)
    obtain ord' where "lookup (e_store e) oid = Some ord'" "flag ord' kStopPending = r_stop x"
      by (rule view_node [OF erelD(5) [OF refinesD(1) [OF r]] some(3)], rule that)
    with some(1) have f: "flag ord kStopPending = r_stop x" by simp
    from remove_refines [OF r some(3,1)] refines_emit [of _ "a_remove x a" "Cancelled oid"] some f show ?thesis
      by (auto simp: cancel_impl_def a_cancel_def split: if_splits)
  qed
qed

text \<open>Replacing a resting order in place.\<close>

lemma replace_sim:
  assumes e: "erel clean e a" and v: "view (e_store e) oid = Some x" and k: "\<not> r_stop x"
    and ok: "resting_ok False (r_side x) (r_price x) x'" "r_id x' = oid"
    and st: "store_ok st" "view st = (view (e_store e))(oid \<mapsto> x')" "length (st_orders st) = length (st_orders (e_store e))"
    and i: "i = idx e (r_price x)" and lvl: "lvl = ld_levels (book_of (r_side x) e) ! i"
    and lvl': "l_fifo lvl' = l_fifo lvl" "l_total lvl' = l_total lvl - r_qty x + r_qty x'"
      "l_hidden lvl' = l_hidden lvl - r_reserve x + r_reserve x'" "l_count lvl' = l_count lvl"
    and bk: "put_level i lvl' (book_of (r_side x) e) = Some bk"
  shows "erel clean (set_book (r_side x) bk (e\<lparr>e_store := st\<rparr>)) (a_replace x x' a)"
proof -
  note loc = erel_located(1-4) [OF e v] erel_located(5) [OF e v k]
  have i': "i < e_n e" "r_price x = e_min e + int i" "a_idx a (r_price x) = i" "x \<in> set (a_books a (r_side x) ! i)"
    using loc unfolding i by simp_all
  note l = erel_level(2) [OF e i'(1), of "r_side x"]
  have sub: "map (\<lambda>y. if r_id y = r_id x then x' else y) = subst_id x'" using ok(2) loc(1) by (simp add: subst_id_def)
  have "erel clean (set_book (r_side x) bk (e\<lparr>e_store := st\<rparr>)) (a_level (r_side x) i (subst_id x' (a_books a (r_side x) ! i)) a)"
  proof (rule erel_put_keep [OF e i'(1) st(1,3) _ _ _ bk])
    show "level_rel False (r_side x) (e_min e + int i) (view st) lvl' (subst_id x' (a_books a (r_side x) ! i))"
      unfolding st(2) loc(1) [symmetric]
      by (rule level_rel_replace [OF l i'(4)]) (use ok i'(2) loc(1) lvl lvl' in simp_all)
    have "r_id ` set (subst_id x' (a_books a (r_side x) ! i)) = r_id ` set (a_books a (r_side x) ! i)"
      using subst_id_ids(1) [of x' "a_books a (r_side x) ! i"] by (metis set_map)
    then show "relevel (view (e_store e)) (view st) (a_books a (r_side x) ! i) (subst_id x' (a_books a (r_side x) ! i))"
      unfolding st(2) loc(1) [symmetric] using i'(4) by (intro relevel_replace) auto
    have "subst_id x' (a_books a (r_side x) ! i) \<noteq> []" "a_books a (r_side x) ! i \<noteq> []"
      using i'(4) by (auto simp: subst_id_def)
    then show "i \<in> {} \<or> a_books a (r_side x) ! i \<noteq> [] \<and> subst_id x' (a_books a (r_side x) ! i) \<noteq> []" by simp
  qed
  then show ?thesis using i'(3) by (simp add: a_replace_def Let_def sub)
qed

lemma shave_fields [simp]:
  "r_id (shave d x) = r_id x" "r_side (shave d x) = r_side x" "r_price (shave d x) = r_price x"
  "r_stop (shave d x) = r_stop x" "r_peak (shave d x) = r_peak x"
  by (simp_all add: shave_def Let_def)

lemma shave_amounts:
  assumes d: "d < r_qty x + r_reserve x" and sz: "unat (r_qty x) + unat (r_reserve x) < 2 ^ 64"
  shows "unat (r_qty (shave d x)) + unat (r_reserve (shave d x)) + unat d = unat (r_qty x) + unat (r_reserve x)"
    "r_qty x \<noteq> 0 \<Longrightarrow> 0 < r_qty (shave d x)" "r_reserve (shave d x) \<le> r_reserve x"
proof -
  have tot: "unat d < unat (r_qty x) + unat (r_reserve x)"
    using d sz by (simp add: word_less_nat_alt unat_plus_if')
  define f where "f = (if d < r_reserve x then d else r_reserve x)"
  have f: "f \<le> d" "f \<le> r_reserve x" by (auto simp: f_def)
  have sub: "unat (d - f) = unat d - unat f" "unat (r_reserve x - f) = unat (r_reserve x) - unat f"
    "unat f \<le> unat d" "unat f \<le> unat (r_reserve x)"
    using f by (simp_all add: unat_minus_le word_le_nat_alt)
  have le: "unat (d - f) \<le> unat (r_qty x)"
    using sub tot by (auto simp: f_def word_less_nat_alt split: if_splits)
  then have q: "unat (r_qty x - (d - f)) = unat (r_qty x) - unat (d - f)"
    by (simp add: unat_minus_le word_le_nat_alt)
  have sh: "shave d x = x\<lparr>r_reserve := r_reserve x - f, r_qty := r_qty x - (d - f)\<rparr>"
    by (simp add: shave_def f_def Let_def)
  show "unat (r_qty (shave d x)) + unat (r_reserve (shave d x)) + unat d = unat (r_qty x) + unat (r_reserve x)"
    using sub le q by (simp add: sh)
  show "r_reserve (shave d x) \<le> r_reserve x" using sub by (simp add: sh word_le_nat_alt)
  show "0 < r_qty (shave d x)" if "r_qty x \<noteq> 0"
    using sub le q tot that
    by (auto simp: sh f_def word_less_nat_alt word_neq_0_unat split: if_splits)
qed

lemma resting_ok_shave:
  assumes "resting_ok False s p x" "d < r_qty x + r_reserve x"
  shows "resting_ok False s p (shave d x)"
proof -
  have sz: "unat (r_qty x) + unat (r_reserve x) < 2 ^ 64" "r_qty x \<noteq> 0" using assms(1) by (auto simp: resting_ok_def)
  note sh = shave_amounts [OF assms(2) sz(1)]
  have "r_reserve x \<noteq> 0" if "r_reserve (shave d x) \<noteq> 0"
    using that sh(3) by auto
  with assms(1) sh(1) sh(2) [OF sz(2)] show ?thesis by (auto simp: resting_ok_def)
qed

lemma refines_replace:
  assumes "refines e a" "erel clean e' (a_replace x x' a)"
  shows "refines e' (a_replace x x' a)"
  using assms by (simp add: refines_def a_replace_def Let_def limits_ok_def a_in_band_def)

lemma erase_sim:
  assumes r: "refines e a" and v: "view (e_store e) oid = Some x" "lookup (e_store e) oid = Some ord" "\<not> r_stop x"
  shows "\<exists>e'. erase_order ord e = Some e' \<and> refines e' (a_remove x a)"
proof -
  have "o_id ord = oid" using store_okD(4) [OF erelD(5) [OF refinesD(1) [OF r]] v(2)] by (simp add: node_ok_def)
  with remove_refines [OF r v(1,2)] v(3) show ?thesis by (auto simp: erase_order_def)
qed

lemma reduce_sim: "simulates (do_reduce oid delta) (a_reduce oid delta)"
proof (rule simulatesI)
  fix e a assume r: "refines e a"
  note e = refinesD(1) [OF r]
  note ok = erelD(5) [OF e]
  from r show "\<exists>e'. do_reduce oid delta e = Some (fst (a_reduce oid delta a), e') \<and> refines e' (snd (a_reduce oid delta a))"
  proof (cases rule: find_cases [of e a oid])
    case none
    with r show ?thesis by (simp add: do_reduce_def a_reduce_def)
  next
    case (some x ord)
    obtain ord' where "lookup (e_store e) oid = Some ord'" "r_id x = oid" "o_qty ord' = r_qty x" "o_side ord' = r_side x"
      "o_price ord' = r_price x" "flag ord' kStopPending = r_stop x"
      "flag ord' kIceberg \<Longrightarrow> \<exists>y. extra_of (e_store e) ord' = Some y \<and> x_reserve y = r_reserve x \<and> x_peak y = r_peak x"
      "\<not> flag ord' kIceberg \<Longrightarrow> r_reserve x = 0 \<and> r_peak x = 0"
      by (rule view_node [OF ok some(3)], rule that)
    with some(1) have nd: "r_id x = oid" "o_qty ord = r_qty x" "o_side ord = r_side x"
      "o_price ord = r_price x" "flag ord kStopPending = r_stop x"
      "flag ord kIceberg \<Longrightarrow> \<exists>y. extra_of (e_store e) ord = Some y \<and> x_reserve y = r_reserve x \<and> x_peak y = r_peak x"
      "\<not> flag ord kIceberg \<Longrightarrow> r_reserve x = 0 \<and> r_peak x = 0" by auto
    show ?thesis
    proof (cases "r_stop x")
      case True
      with r some nd(5) show ?thesis by (simp add: do_reduce_def a_reduce_def)
    next
      case k: False
      show ?thesis
      proof (cases "delta \<ge> r_qty x + r_reserve x")
        case True
        with erase_sim [OF r some(3,1) k] some k nd show ?thesis
          by (cases "flag ord kIceberg") (auto simp: do_reduce_def a_reduce_def)
      next
        case False
        then have small: "delta < r_qty x + r_reserve x" by auto
        note loc = erel_located(1-4) [OF e some(3)] erel_located(5) [OF e some(3) k]
        define i where "i = idx e (r_price x)"
        have i: "i < e_n e" "r_price x = e_min e + int i" "x \<in> set (a_books a (r_side x) ! i)"
          using loc unfolding i_def by simp_all
        define lvl where "lvl = ld_levels (book_of (r_side x) e) ! i"
        note lv = erel_level [OF e i(1), of "r_side x"] and pl = erel_put_level(1) [OF e i(1), where s = "r_side x"]
        define f where "f = (if delta < r_reserve x then delta else r_reserve x)"
        have sh: "shave delta x = x\<lparr>r_reserve := r_reserve x - f, r_qty := r_qty x - (delta - f)\<rparr>"
          by (simp add: shave_def f_def Let_def)
        have okx: "resting_ok False (r_side x) (r_price x) (shave delta x)"
          using resting_ok_shave [OF level_relD(4) [OF lv(2) i(3)] small] i(2) by simp
        have A: "a_reduce oid delta a = (True, a_replace x (shave delta x) a)"
          using some k False by (simp add: a_reduce_def)
        let ?lvl' = "lvl\<lparr>l_hidden := l_hidden lvl - f, l_total := l_total lvl - (delta - f)\<rparr>"
        let ?bk = "(book_of (r_side x) e)\<lparr>ld_levels := (ld_levels (book_of (r_side x) e))[i := ?lvl']\<rparr>"
        have fin: "refines (set_book (r_side x) ?bk (e\<lparr>e_store := st\<rparr>)) (a_replace x (shave delta x) a)"
          if st: "store_ok st" "view st = (view (e_store e))(oid \<mapsto> shave delta x)"
            "length (st_orders st) = length (st_orders (e_store e))" for st
          by (rule refines_replace [OF r], rule replace_sim [OF e some(3) k okx _ st i_def lvl_def _ _ _ _ pl])
             (simp_all add: nd(1) sh)
        show ?thesis
        proof (cases "flag ord kIceberg")
          case True
          obtain y where y: "extra_of (e_store e) ord = Some y" "x_reserve y = r_reserve x" using nd(6) [OF True] by blast
          obtain st1 where st1: "set_reserve (e_store e) ord (r_reserve x - f) = Some st1" "store_ok st1"
            "view st1 = (view (e_store e))(oid \<mapsto> x\<lparr>r_reserve := r_reserve x - f\<rparr>)"
            "length (st_orders st1) = length (st_orders (e_store e))"
            using set_reserve_spec [OF ok some(3,1) True] by blast
          have "view st1 oid = Some (x\<lparr>r_reserve := r_reserve x - f\<rparr>)" using st1(3) by simp
          then obtain st2 where st2: "set_qty st1 oid (r_qty x - (delta - f)) = Some st2" "store_ok st2"
            "view st2 = (view st1)(oid \<mapsto> x\<lparr>r_reserve := r_reserve x - f, r_qty := r_qty x - (delta - f)\<rparr>)"
            "length (st_orders st2) = length (st_orders st1)"
            using set_qty_spec [OF st1(2)] by blast
          have "view st2 = (view (e_store e))(oid \<mapsto> shave delta x)" using st2(3) st1(3) by (simp add: sh)
          note F = fin [OF st2(2) this] 
          have fy: "(if delta < x_reserve y then delta else x_reserve y) = f" by (simp add: y(2) f_def)
          have "do_reduce oid delta e = Some (True, set_book (r_side x) ?bk (e\<lparr>e_store := st2\<rparr>))"
            unfolding do_reduce_def Let_def
            using some(1) True k nd(2-5) y(1) st1(1) st2(1) lv(1) pl False fy y(2)
            by (simp add: lvl_def [symmetric] i_def [symmetric] split del: if_split)
          with F st1(4) st2(4) A show ?thesis by simp
        next
          case no: False
          then have res: "r_reserve x = 0" "f = 0" using nd(7) by (simp_all add: f_def)
          obtain st where st: "set_qty (e_store e) oid (r_qty x - delta) = Some st" "store_ok st"
            "view st = (view (e_store e))(oid \<mapsto> x\<lparr>r_qty := r_qty x - delta\<rparr>)"
            "length (st_orders st) = length (st_orders (e_store e))"
            using set_qty_spec [OF ok some(3)] by blast
          have "x\<lparr>r_qty := r_qty x - delta\<rparr> = shave delta x" using res by (simp add: sh)
          with st(3) have "view st = (view (e_store e))(oid \<mapsto> shave delta x)" by simp
          note F = fin [OF st(2) this st(4)]
          have l: "?lvl' = lvl\<lparr>l_total := l_total lvl - delta\<rparr>" using res by simp
          have "do_reduce oid delta e = Some (True, set_book (r_side x) ?bk (e\<lparr>e_store := st\<rparr>))"
            unfolding do_reduce_def Let_def
            using some(1) no k nd(2-5) st(1) lv(1) pl False res
            by (simp add: lvl_def [symmetric] i_def [symmetric] l)
          with F A show ?thesis by simp
        qed
      qed
    qed
  qed
qed

lemma modify_sim: "simulates (do_modify oid new_price new_qty) (a_modify oid new_price new_qty)"
proof (rule simulatesI)
  fix e a assume r: "refines e a"
  note e = refinesD(1) [OF r]
  from r show "\<exists>e'. do_modify oid new_price new_qty e = Some (fst (a_modify oid new_price new_qty a), e') \<and>
    refines e' (snd (a_modify oid new_price new_qty a))"
  proof (cases rule: find_cases [of e a oid])
    case none
    with r show ?thesis by (simp add: do_modify_def a_modify_def)
  next
    case (some x ord)
    obtain ord' where "lookup (e_store e) oid = Some ord'" "r_id x = oid" "o_qty ord' = r_qty x" "o_side ord' = r_side x"
      "o_price ord' = r_price x" "o_owner ord' = r_owner x" "o_stp ord' = r_stp x" "flag ord' kStopPending = r_stop x"
      "flag ord' kIceberg \<Longrightarrow> \<exists>y. extra_of (e_store e) ord' = Some y \<and> x_reserve y = r_reserve x \<and> x_peak y = r_peak x"
      "\<not> flag ord' kIceberg \<Longrightarrow> r_reserve x = 0 \<and> r_peak x = 0"
      by (rule view_node [OF erelD(5) [OF e] some(3)], rule that)
    with some(1) have nd: "r_id x = oid" "o_qty ord = r_qty x" "o_side ord = r_side x"
      "o_price ord = r_price x" "o_owner ord = r_owner x" "o_stp ord = r_stp x" "flag ord kStopPending = r_stop x"
      "flag ord kIceberg \<Longrightarrow> \<exists>y. extra_of (e_store e) ord = Some y \<and> x_reserve y = r_reserve x \<and> x_peak y = r_peak x"
      "\<not> flag ord kIceberg \<Longrightarrow> r_reserve x = 0 \<and> r_peak x = 0" by auto
    have rp: "(if flag ord kIceberg then do { y \<leftarrow> extra_of (e_store e) ord; Some (x_reserve y, x_peak y) } else Some (0, 0)) =
        Some (r_reserve x, r_peak x)"
      using nd(8,9) by auto
    show ?thesis
    proof (cases "r_stop x \<and> new_qty \<noteq> 0 \<or> (new_qty \<noteq> 0 \<and> \<not> in_band e new_price)")
      case True
      with r some nd(7) in_band_sim [OF e, of new_price] show ?thesis by (auto simp: do_modify_def a_modify_def)
    next
      case no: False
      show ?thesis
      proof (cases "new_qty = 0")
        case True
        with simulatesD [OF cancel_sim r, of oid] some nd(7) show ?thesis by (simp add: do_modify_def a_modify_def)
      next
        case nz: False
        with no have k: "\<not> r_stop x" and band: "in_band e new_price" by auto
        note ab = band [folded in_band_sim [OF e]]
        show ?thesis
        proof (cases "new_price = r_price x \<and> new_qty \<le> r_qty x + r_reserve x")
          case True
          with simulatesD [OF reduce_sim r, of oid "r_qty x + r_reserve x - new_qty"] some nd(1-7) k nz band ab rp show ?thesis
            by (simp add: do_modify_def a_modify_def Let_def)
        next
          case False
          obtain e1 e2 where rm: "remove_resting ord e = Some e1" "drop_order oid e1 = Some e2" "refines e2 (a_remove x a)"
            "oid \<notin> ids (a_remove x a)"
            using remove_refines [OF r some(3,1)] k by auto
          let ?e3 = "emit (Accept oid (r_side x) new_price new_qty) (emit (Cancelled oid) e2)"
          let ?a3 = "a_emit (Accept oid (r_side x) new_price new_qty) (a_emit (Cancelled oid) (a_remove x a))"
          have r3: "refines ?e3 ?a3" by (intro refines_emit rm(3))
          have "oid \<in> ids a" using some(3) erel_view_ids [OF e, of oid] by auto
          note idl = erel_ids_less [OF e this]
          have band3: "in_band ?e3 new_price"
            using ab in_band_sim [OF refinesD(1) [OF r3], of new_price] by (simp add: a_in_band_def)
          have "\<exists>e'. place_limit oid (r_side x) new_price new_qty GTC (r_owner x) (r_stp x) (r_peak x) ?e3 = Some e' \<and>
            refines e' (a_place oid (r_side x) new_price new_qty GTC (r_owner x) (r_stp x) (r_peak x) ?a3)"
            by (rule place_limit_refines [OF r3 _ _ _ band3 nz]) (use rm(4) idl in simp_all)
          with False some nd(1-7) k nz band ab rp rm(1,2) show ?thesis
            by (auto simp: do_modify_def a_modify_def Let_def)
        qed
      qed
    qed
  qed
qed

lemma halt_sim: "simulates (\<lambda>e. Some ((), e\<lparr>e_halted := b\<rparr>)) (\<lambda>a. ((), a\<lparr>a_halted := b\<rparr>))"
  by (rule simulatesI) (simp add: refines_def erel_halted limits_ok_def a_in_band_def)

end
