(* ===== verification/Uncross_Refinement.thy ===== *)
theory Uncross_Refinement
  imports Engine_Refinement
begin

text \<open>
  The auction: consuming a head order, one match of the two best levels, the crossing loop
  and the choice of the clearing price simulate the abstract uncross.
\<close>

section \<open>Consuming a head order\<close>

lemma set_qty_lookup:
  assumes "set_qty st i q = Some st'" "lookup st i = Some ord"
  shows "lookup st' i = Some (ord\<lparr>o_qty := q\<rparr>)" "st_extras st' = st_extras st"
  using assms lookup_len [OF assms(2)] by (auto simp: set_qty_def lookup_def bind_eq_Some_conv split: if_splits)

lemma same_slot:
  "extra_of st (ord\<lparr>o_qty := q\<rparr>) = extra_of st ord" "set_reserve st (ord\<lparr>o_qty := q\<rparr>) = set_reserve st ord"
  "flag (ord\<lparr>o_qty := q\<rparr>) k = flag ord k" "reserve_of st (ord\<lparr>o_qty := q\<rparr>) = reserve_of st ord"
  by (simp_all add: extra_of_def set_reserve_def flag_def reserve_of_def fun_eq_iff)

lemma ro_total_nat:
  assumes "resting_ok k s p r"
  shows "unat (ro_total r) = unat (r_qty r) + unat (r_reserve r)" "ro_total r \<noteq> 0"
proof -
  have "unat (r_qty r) + unat (r_reserve r) < 2 ^ 64" "0 < unat (r_qty r)"
    using assms by (auto simp: resting_ok_def word_less_nat_alt)
  then show "unat (ro_total r) = unat (r_qty r) + unat (r_reserve r)"
    by (simp add: ro_total_def unat_plus_if')
  with \<open>0 < unat (r_qty r)\<close> show "ro_total r \<noteq> 0" by auto
qed

lemma auction_fill_sim:
  assumes e: "erel D e a" and i: "i < e_n e" "i \<in> D s" and os: "a_books a s ! i = r # os"
    and f: "f \<le> ro_total r"
  shows "\<exists>e'. auction_fill s i (r_id r) f px e = Some (snd (a_auction_fill f px (r # os)) = [], e') \<and>
    erel D e' (a_clip s i f px a)"
proof -
  note d = erelD [OF e] and h = head_facts [OF e i(1) os]
  note lv = erel_level(1) [OF e i(1), of s] and pl = erel_put_level(1) [OF e i(1), where s = s]
  obtain ord where nd: "lookup (e_store e) (r_id r) = Some ord" "o_qty ord = r_qty r" "o_side ord = r_side r"
    "flag ord kIceberg \<Longrightarrow> \<exists>x. extra_of (e_store e) ord = Some x \<and> x_reserve x = r_reserve r \<and> x_peak x = r_peak r"
    "\<not> flag ord kIceberg \<Longrightarrow> r_reserve r = 0 \<and> r_peak r = 0" "reserve_of (e_store e) ord = Some (r_reserve r)"
    by (rule view_node [OF d(5) h(1)], rule that)
  define fd where "fd = (if f < r_qty r then f else r_qty r)"
  define left where "left = f - fd"
  define shown where "shown = r_qty r - fd"
  define res where "res = r_reserve r - left"
  have left: "left \<le> r_reserve r"
    using left_le f by (auto simp: left_def fd_def ro_total_def)
  have res_le: "unat res \<le> unat (r_reserve r)" using left by (simp add: res_def unat_minus_le)
  have fdle: "fd \<le> r_qty r" by (auto simp: fd_def)
  have shown_le: "unat shown \<le> unat (r_qty r)" using fdle by (simp add: shown_def unat_minus_le)
  have noice: "left = 0" "res = 0" if "\<not> flag ord kIceberg"
    using nd(5) [OF that] left by (simp_all add: res_def)
  define lvl where "lvl = ld_levels (book_of s e) ! i"
  obtain st1 where st1: "set_qty (e_store e) (r_id r) shown = Some st1" "store_ok st1"
    "view st1 = (view (e_store e))(r_id r \<mapsto> r\<lparr>r_qty := shown\<rparr>)" "length (st_orders st1) = length (st_orders (e_store e))"
    using set_qty_spec [OF d(5) h(1)] by blast
  note lk1 = set_qty_lookup [OF st1(1) nd(1)]
  have v1: "view st1 (r_id r) = Some (r\<lparr>r_qty := shown\<rparr>)" using st1(3) by simp
  have ex1: "extra_of st1 ord = extra_of (e_store e) ord" using lk1(2) by (simp add: extra_of_def)
  have res1: "reserve_of st1 ord = Some (r_reserve r)" using nd(6) by (auto simp: reserve_of_def ex1 split: if_splits)
  have "\<exists>st2. (if flag ord kIceberg then set_reserve st1 ord res else Some st1) = Some st2 \<and> store_ok st2 \<and>
      view st2 = (view (e_store e))(r_id r \<mapsto> r\<lparr>r_qty := shown, r_reserve := res\<rparr>) \<and>
      length (st_orders st2) = length (st_orders (e_store e)) \<and>
      (flag ord kIceberg \<longrightarrow> (\<exists>x. extra_of st2 ord = Some x \<and> x_peak x = r_peak r) \<and> lookup st2 = lookup st1)"
  proof (cases "flag ord kIceberg")
    case True
    have "flag (ord\<lparr>o_qty := shown\<rparr>) kIceberg" using True by (simp add: same_slot)
    from set_reserve_spec [OF st1(2) v1 lk1(1) this, of res] obtain st2 where
      st2: "set_reserve st1 ord res = Some st2" "store_ok st2"
        "view st2 = (view st1)(r_id r \<mapsto> r\<lparr>r_qty := shown, r_reserve := res\<rparr>)"
        "lookup st2 = lookup st1" "length (st_orders st2) = length (st_orders st1)"
      by (auto simp: same_slot)
    obtain x where "extra_of (e_store e) ord = Some x" "x_peak x = r_peak r" using nd(4) [OF True] by blast
    then have "\<exists>x. extra_of st2 ord = Some x \<and> x_peak x = r_peak r"
      using st2(1) lk1(2) by (auto simp: set_reserve_def extra_of_def bind_eq_Some_conv)
    with True st2 st1 show ?thesis by (simp add: fun_upd_def fun_eq_iff)
  next
    case False
    then have "r\<lparr>r_qty := shown\<rparr> = r\<lparr>r_qty := shown, r_reserve := res\<rparr>" using nd(5) [OF False] noice [OF False] by (cases r) simp
    with False st1 show ?thesis by simp
  qed
  then obtain st2 where st2: "(if flag ord kIceberg then set_reserve st1 ord res else Some st1) = Some st2" "store_ok st2"
      "view st2 = (view (e_store e))(r_id r \<mapsto> r\<lparr>r_qty := shown, r_reserve := res\<rparr>)"
      "length (st_orders st2) = length (st_orders (e_store e))"
      "flag ord kIceberg \<Longrightarrow> \<exists>x. extra_of st2 ord = Some x \<and> x_peak x = r_peak r"
      "flag ord kIceberg \<Longrightarrow> lookup st2 = lookup st1" by blast
  define lvl2 where "lvl2 = (if flag ord kIceberg then lvl\<lparr>l_total := l_total lvl - fd, l_hidden := l_hidden lvl - left\<rparr>
    else lvl\<lparr>l_total := l_total lvl - fd\<rparr>)"
  have lvl2: "l_total lvl2 = l_total lvl - fd" "l_hidden lvl2 = l_hidden lvl - left" "l_fifo lvl2 = l_fifo lvl"
    "l_count lvl2 = l_count lvl"
    using noice by (auto simp: lvl2_def)
  have fdo: "(if f < o_qty ord then f else o_qty ord) = fd" "f - fd = left" "o_qty ord - fd = shown" "r_reserve r - left = res"
    "o_qty ord = fd \<longleftrightarrow> shown = 0"
    by (simp_all add: nd(2) fd_def left_def shown_def res_def)
  have body: "auction_fill s i (r_id r) f px e =
     (if flag ord kIceberg \<and> shown = 0 \<and> res > 0 then do {
       x \<leftarrow> extra_of st2 ord;
       let clip = (if x_peak x < res then x_peak x else res);
       st3 \<leftarrow> set_reserve st2 ord (res - clip);
       st4 \<leftarrow> set_qty st3 (r_id r) clip;
       bk \<leftarrow> put_level i (lvl2\<lparr>l_total := l_total lvl2 + clip, l_hidden := l_hidden lvl2 - clip,
                              l_fifo := tl (l_fifo lvl2) @ [r_id r]\<rparr>) (book_of s e);
       Some (False, emit (Rested (r_id r) (r_side r) px clip) (set_book s bk (e\<lparr>e_store := st4\<rparr>))) }
     else if shown = 0 then do {
       bk \<leftarrow> put_level i (lvl2\<lparr>l_fifo := tl (l_fifo lvl2), l_count := l_count lvl2 - 1\<rparr>) (book_of s e);
       e1 \<leftarrow> drop_order (r_id r) (set_book s bk (e\<lparr>e_store := st2\<rparr>));
       Some (tl (l_fifo lvl2) = [], e1) }
     else do {
       bk \<leftarrow> put_level i lvl2 (book_of s e);
       Some (l_fifo lvl2 = [], set_book s bk (e\<lparr>e_store := st2\<rparr>)) })"
    unfolding auction_fill_def Let_def lvl2_def
    using lv nd(1,3) st1(1) res1 st2(1) fdo
    by (cases "flag ord kIceberg"; cases "o_qty ord = fd") (simp_all add: lvl_def [symmetric] split del: if_split cong: if_cong)
  have abs: "a_auction_fill f px (r # os) =
      (if shown = 0 \<and> res > 0 then
         (let clip = (if r_peak r < res then r_peak r else res)
          in ([Rested (r_id r) (r_side r) px clip], os @ [r\<lparr>r_qty := clip, r_reserve := res - clip\<rparr>]))
       else if shown = 0 then ([], os) else ([], r\<lparr>r_qty := shown, r_reserve := res\<rparr> # os))"
    by (simp add: a_auction_fill_def Let_def fd_def left_def shown_def res_def)
  have sums: "r_qty r - fd = shown" "r_reserve r - left = res" by (simp_all add: shown_def res_def)
  let ?bk = "\<lambda>l. (book_of s e)\<lparr>ld_levels := (ld_levels (book_of s e))[i := l]\<rparr>"
  show ?thesis
  proof (cases "shown = 0")
    case part: False
    let ?r' = "r\<lparr>r_qty := shown, r_reserve := res\<rparr>"
    have ok: "resting_ok False s (e_min e + int i) ?r'"
      using h(3) part res_le shown_le by (auto simp: resting_ok_def word_gt_0 word_neq_0_unat)
    have E: "erel D (set_book s (?bk lvl2) (e\<lparr>e_store := st2\<rparr>)) (a_level s i (?r' # os) a)"
    proof (rule erel_put_keep [OF e i(1) st2(2,4) _ _ _ pl])
      show "level_rel False s (e_min e + int i) (view st2) lvl2 (?r' # os)"
        unfolding st2(3) by (rule level_rel_head [OF h(4) ok]) (simp_all add: lvl2 lvl_def shown_def res_def)
      show "relevel (view (e_store e)) (view st2) (a_books a s ! i) (?r' # os)"
        unfolding st2(3) os by (rule relevel_replace) simp_all
    qed (use i in simp)
    have "a_clip s i f px a = a_level s i (?r' # os) a"
      using part by (simp add: a_clip_def os abs)
    with E body part pl abs h(2) show ?thesis by (auto simp: lvl2 lvl_def)
  next
    case zero: True
    show ?thesis
    proof (cases "res = 0")
      case True
      have all: "left = r_reserve r" "fd = r_qty r" using zero True by (simp_all add: shown_def res_def)
      have v2: "view st2 (r_id r) = Some (r\<lparr>r_qty := shown, r_reserve := res\<rparr>)" using st2(3) by simp
      obtain st3 where st3: "drop_node st2 (r_id r) = Some st3" "store_ok st3"
        "view st3 = (view st2)(r_id r := None)" "length (st_orders st3) = length (st_orders st2)"
        using drop_node_spec [OF st2(2) v2] by blast
      have vs3: "view st3 = (view (e_store e))(r_id r := None)" using st3(3) st2(3) by auto
      let ?lvl3 = "lvl2\<lparr>l_fifo := tl (l_fifo lvl2), l_count := l_count lvl2 - 1\<rparr>"
      have E: "erel D (set_book s (?bk ?lvl3) (e\<lparr>e_store := st3\<rparr>)) (a_level s i os a)"
      proof (rule erel_put_keep [OF e i(1) st3(2) _ _ _ _ pl])
        show "level_rel False s (e_min e + int i) (view st3) ?lvl3 os"
          unfolding vs3 by (rule level_rel_tl [OF h(4)]) (simp_all add: lvl2 lvl_def all)
        show "relevel (view (e_store e)) (view st3) (a_books a s ! i) os"
          unfolding vs3 os by (rule relevel_tl [OF level_relD(2) [OF h(4)]])
      qed (use i st2(4) st3(4) in simp_all)
      have "a_clip s i f px a = a_level s i os a"
        using zero True by (simp add: a_clip_def os abs)
      with E body zero True pl abs h(2) st3(1) show ?thesis by (auto simp: lvl2 lvl_def drop_order_def)
    next
      case rpos: False
      then have ice: "flag ord kIceberg" using noice by blast
      have rne: "r_reserve r \<noteq> 0" using rpos res_le by (auto simp: word_neq_0_unat)
      define clip where "clip = (if r_peak r < res then r_peak r else res)"
      let ?r' = "r\<lparr>r_qty := clip, r_reserve := res - clip\<rparr>"
      have pk: "0 < r_peak r" using h(3) rne by (simp add: resting_ok_def)
      have cl: "0 < clip" "unat clip + unat (res - clip) = unat res"
        using pk rpos [unfolded word_neq_0_unat] unat_minus_le [of "r_peak r" res] by (auto simp: clip_def word_gt_0 word_less_nat_alt word_le_nat_alt)
      have ok: "resting_ok False s (e_min e + int i) ?r'"
        using h(3) cl res_le pk by (auto simp: resting_ok_def)
      obtain x where x: "extra_of st2 ord = Some x" "x_peak x = r_peak r" using st2(5) [OF ice] by blast
      have lk2: "lookup st2 (r_id r) = Some (ord\<lparr>o_qty := shown\<rparr>)" using st2(6) [OF ice] lk1(1) by simp
      have v2: "view st2 (r_id r) = Some (r\<lparr>r_qty := shown, r_reserve := res\<rparr>)" using st2(3) by simp
      have "flag (ord\<lparr>o_qty := shown\<rparr>) kIceberg" using ice by (simp add: same_slot)
      from set_reserve_spec [OF st2(2) v2 lk2 this, of "res - clip"] obtain st3 where
        st3: "set_reserve st2 ord (res - clip) = Some st3" "store_ok st3"
          "view st3 = (view st2)(r_id r \<mapsto> r\<lparr>r_qty := shown, r_reserve := res - clip\<rparr>)"
          "length (st_orders st3) = length (st_orders st2)"
        by (auto simp: same_slot)
      have v3: "view st3 (r_id r) = Some (r\<lparr>r_qty := shown, r_reserve := res - clip\<rparr>)" using st3(3) by simp
      obtain st4 where st4: "set_qty st3 (r_id r) clip = Some st4" "store_ok st4"
        "view st4 = (view st3)(r_id r \<mapsto> (r\<lparr>r_qty := shown, r_reserve := res - clip\<rparr>)\<lparr>r_qty := clip\<rparr>)"
        "length (st_orders st4) = length (st_orders st3)"
        using set_qty_spec [OF st3(2) v3] by blast
      have vs4: "view st4 = (view (e_store e))(r_id r \<mapsto> ?r')" using st4(3) st3(3) st2(3) by auto
      let ?lvl3 = "lvl2\<lparr>l_total := l_total lvl2 + clip, l_hidden := l_hidden lvl2 - clip,
        l_fifo := tl (l_fifo lvl2) @ [r_id r]\<rparr>"
      have E: "erel D (set_book s (?bk ?lvl3) (e\<lparr>e_store := st4\<rparr>)) (a_level s i (os @ [?r']) a)"
      proof (rule erel_put_keep [OF e i(1) st4(2) _ _ _ _ pl])
        show "level_rel False s (e_min e + int i) (view st4) ?lvl3 (os @ [?r'])"
          unfolding vs4
          by (rule level_rel_rotate [OF h(4) ok]) (use zero in \<open>simp_all add: lvl2 lvl_def shown_def res_def\<close>)
        show "relevel (view (e_store e)) (view st4) (a_books a s ! i) (os @ [?r'])"
          unfolding vs4 os by (rule relevel_replace) auto
      qed (use i st2(4) st3(4) st4(4) in simp_all)
      have "a_clip s i f px a = a_emit (Rested (r_id r) (r_side r) px clip) (a_level s i (os @ [?r']) a)"
        using zero rpos by (simp add: a_clip_def os abs clip_def a_emit_def word_gt_0 Let_def)
      moreover have "auction_fill s i (r_id r) f px e = Some (False, emit (Rested (r_id r) (r_side r) px clip)
          (set_book s (?bk ?lvl3) (e\<lparr>e_store := st4\<rparr>)))"
      proof -
        have cx: "(if x_peak x < res then x_peak x else res) = clip" by (simp add: x(2) clip_def)
        show ?thesis
          unfolding body using zero rpos ice x(1) st3(1) st4(1) pl
          by (simp add: cx word_gt_0 Let_def)
      qed
      moreover have "snd (a_auction_fill f px (r # os)) \<noteq> []" using zero rpos by (simp add: abs word_gt_0 Let_def)
      ultimately show ?thesis using erel_emit [OF E, of "Rested (r_id r) (r_side r) px clip"] by auto
    qed
  qed
qed

section \<open>The crossing loop\<close>

lemma best_highest:
  assumes "erel clean e a"
  shows "highest (a_books a Buy) = (if bk_best (book_of Buy e) < 0 then None else Some (nat (bk_best (book_of Buy e))))"
    "lowest (a_books a Sell) = (if bk_best (book_of Sell e) < 0 then None else Some (nat (bk_best (book_of Sell e))))"
  using highest_max [of "a_books a Buy"] lowest_min [of "a_books a Sell"] erel_best [OF assms, of Buy] erel_best [OF assms, of Sell]
  by (simp_all add: best_rel_def)

lemma best_level:
  assumes e: "erel clean e a" and b: "bk_best (book_of s e) = int i"
  shows "i < e_n e" "i \<in> occ (a_books a s)" "a_books a s ! i \<noteq> []"
proof -
  show "i \<in> occ (a_books a s)" using best_rel_in [OF erel_best [OF e, of s]] b by simp
  then show "i < e_n e" "a_books a s ! i \<noteq> []" using erel_lengths(1) [OF e] by (auto simp: occ_def)
qed

lemma a_clip_fields [simp]:
  "a_min (a_clip s i f px a) = a_min a" "a_n (a_clip s i f px a) = a_n a" "a_stops (a_clip s i f px a) = a_stops a"
  "a_next (a_clip s i f px a) = a_next a" "a_pumping (a_clip s i f px a) = a_pumping a"
  "a_halted (a_clip s i f px a) = a_halted a" "a_stp_halt (a_clip s i f px a) = a_stp_halt a"
  "a_last (a_clip s i f px a) = a_last a" "a_has_last (a_clip s i f px a) = a_has_last a"
  "a_books (a_clip s i f px a) = (a_books a)(s := (a_books a s)[i := snd (a_auction_fill f px (a_books a s ! i))])"
  by (simp_all add: a_clip_def split: prod.splits)

text \<open>One side of a match: fill the head of the best level and retire the level if it emptied.\<close>

lemma side_fill_sim:
  assumes e: "erel clean e a" and b: "bk_best (book_of s e) = int i" and f: "f \<le> ro_total (hd (a_books a s ! i))"
  shows "\<exists>emp e1 e2. auction_fill s i (r_id (hd (a_books a s ! i))) f px e = Some (emp, e1) \<and>
    (if emp then retire_level s i e1 else Some e1) = Some e2 \<and> erel clean e2 (a_clip s i f px a)"
proof -
  note bl = best_level [OF e b]
  obtain r os where os: "a_books a s ! i = r # os" using bl(3) by (cases "a_books a s ! i") auto
  have D: "erel (clean(s := {i})) e a" "i \<in> (clean(s := {i})) s" using erel_dirty [OF e bl(2)] by simp_all
  obtain e1 where e1: "auction_fill s i (r_id r) f px e = Some (snd (a_auction_fill f px (r # os)) = [], e1)"
    "erel (clean(s := {i})) e1 (a_clip s i f px a)"
    using auction_fill_sim [OF D(1) bl(1) D(2) os, of f px] f [unfolded os list.sel] by blast
  have n: "e_n e1 = e_n e" using erelD(2) [OF e1(2)] erelD(2) [OF e] by simp
  have len: "i < length (a_books a s)" using bl(1) erel_lengths(1) [OF e] by simp
  have "best_rel s (insert i (occ (a_books a s))) (bk_best (book_of s e1))"
    using erel_best [OF e1(2), of s] occ_insert [OF len] by simp
  then have "bk_best (book_of s e1) = int i"
    using erel_best [OF e, of s] bl(2) b by (intro best_rel_unique) (simp_all add: insert_absorb)
  from retire_sim [OF e1(2) _ this] bl(1) n obtain e2 where
    e2: "retire_level s i e1 = Some e2" "erel clean e2 (a_clip s i f px a)" by auto
  have "e2 = e1" if "snd (a_auction_fill f px (r # os)) \<noteq> []"
  proof -
    have "a_books (a_clip s i f px a) s ! i = snd (a_auction_fill f px (r # os))" using len os by simp
    with that level_relD(1) [OF erel_level(2) [OF e1(2), of i s]] erel_level(1) [OF e1(2), of i s] bl(1) n e2(1)
    show ?thesis by (auto simp: retire_level_def)
  qed
  with e1 e2 os show ?thesis by (intro exI [of _ "snd (a_auction_fill f px (r # os)) = []"] exI [of _ e1] exI [of _ e2]) auto
qed

lemma cross_sim:
  "erel clean e a \<Longrightarrow> \<exists>e'. cross_loop (int p_idx) p crossed e = Some (fst (a_cross p_idx p crossed a), e') \<and>
    erel clean e' (snd (a_cross p_idx p crossed a))"
proof (induction p_idx p crossed a arbitrary: e rule: a_cross.induct)
  case (1 p_idx p crossed a)
  note e = 1(2)
  let ?bb = "bk_best (book_of Buy e)" and ?ba = "bk_best (book_of Sell e)"
  show ?case
  proof (cases "?bb \<ge> int p_idx \<and> 0 \<le> ?ba \<and> ?ba \<le> int p_idx")
    case False
    have "a_cross p_idx p crossed a = (crossed, a)"
      using False best_highest [OF e] by (subst a_cross.simps) (auto simp: Let_def split: option.splits)
    with False e show ?thesis by (subst cross_loop.simps) (auto simp: Let_def book_of_sides)
  next
    case True
    obtain i j where ij: "?bb = int i" "?ba = int j" using True by (metis dual_order.trans nonneg_int_cases of_nat_0_le_iff)
    have hl: "highest (a_books a Buy) = Some i" "lowest (a_books a Sell) = Some j"
      using best_highest [OF e] ij by simp_all
    note bi = best_level [OF e ij(1)] and bj = best_level [OF e ij(2)]
    obtain bid bs where bids: "a_books a Buy ! i = bid # bs" using bi(3) by (cases "a_books a Buy ! i") auto
    obtain ask as where asks: "a_books a Sell ! j = ask # as" using bj(3) by (cases "a_books a Sell ! j") auto
    note hb = head_facts [OF e bi(1) bids] and ha = head_facts [OF e bj(1) asks]
    define f where "f = (if ro_total bid < ro_total ask then ro_total bid else ro_total ask)"
    have f: "f \<noteq> 0" "f \<le> ro_total bid" "f \<le> ro_total ask"
      using ro_total_nat(2) [OF hb(3)] ro_total_nat(2) [OF ha(3)] by (auto simp: f_def)
    obtain bn where bn: "lookup (e_store e) (r_id bid) = Some bn" "o_qty bn = r_qty bid" "reserve_of (e_store e) bn = Some (r_reserve bid)"
      by (rule view_node [OF erelD(5) [OF e] hb(1)], rule that)
    obtain an where an: "lookup (e_store e) (r_id ask) = Some an" "o_qty an = r_qty ask" "reserve_of (e_store e) an = Some (r_reserve ask)"
      by (rule view_node [OF erelD(5) [OF e] ha(1)], rule that)
    define tr where "tr = Traded \<lparr>t_taker = r_id bid, t_maker = r_id ask, t_price = p, t_qty = f, t_side = Buy\<rparr>"
    define e1 where "e1 = emit tr (e\<lparr>e_last_px := p, e_has_last := True\<rparr>)"
    define a1 where "a1 = a_emit tr (a\<lparr>a_last := p, a_has_last := True\<rparr>)"
    have r1: "erel clean e1 a1" unfolding e1_def a1_def by (intro erel_emit erel_last e)
    have b1: "bk_best (book_of Buy e1) = int i" "a_books a1 = a_books a" using ij by (simp_all add: e1_def a1_def)
    obtain emp2 e2 e3 where s2: "auction_fill Buy i (r_id bid) f p e1 = Some (emp2, e2)"
      "(if emp2 then retire_level Buy i e2 else Some e2) = Some e3" "erel clean e3 (a_clip Buy i f p a1)"
      using side_fill_sim [OF r1 b1(1), of f p] f(2) b1(2) bids by auto
    have b3: "bk_best (book_of Sell e3) = int j"
      using erel_best [OF s2(3), of Sell] erel_best [OF e, of Sell] ij(2) b1(2) by (intro best_rel_unique) simp_all
    obtain emp4 e4 e5 where s4: "auction_fill Sell j (r_id ask) f p e3 = Some (emp4, e4)"
      "(if emp4 then retire_level Sell j e4 else Some e4) = Some e5" "erel clean e5 (a_clip Sell j f p (a_clip Buy i f p a1))"
      using side_fill_sim [OF s2(3) b3, of f p] f(3) b1(2) asks by auto
    have st: "a_clip Sell j f p (a_clip Buy i f p a1) = a_cross_step i j f p a"
      by (simp add: a_cross_step_def Let_def bids asks a1_def tr_def)
    have A: "a_cross p_idx p crossed a = a_cross p_idx p (crossed + f) (a_cross_step i j f p a)"
      using hl f(1) True ij by (subst a_cross.simps) (simp add: Let_def bids asks f_def)
    have L: "level_at (e_bids e) (nat ?bb) = Some (ld_levels (book_of Buy e) ! i)"
      "level_at (e_asks e) (nat ?ba) = Some (ld_levels (book_of Sell e) ! j)"
      using erel_level(1) [OF e bi(1), of Buy] erel_level(1) [OF e bj(1), of Sell] ij by (simp_all add: book_of_sides)
    have tot: "order_total (e_store e) bn = Some (ro_total bid)" "order_total (e_store e) an = Some (ro_total ask)"
      using bn an by (simp_all add: order_total_def ro_total_def)
    have fq: "(if ro_total bid < ro_total ask then ro_total bid else ro_total ask) = f" by (simp add: f_def)
    have "cross_loop (int p_idx) p crossed e = cross_loop (int p_idx) p (crossed + f) e5"
      using True L hb(2) ha(2) bn(1) an(1) tot fq s2(1,2) s4(1,2) ij
      by (subst cross_loop.simps; cases emp2; cases emp4)
         (simp_all add: Let_def book_of_sides e1_def tr_def split del: if_split)
    moreover have "\<exists>e'. cross_loop (int p_idx) p (crossed + f) e5 = Some (fst (a_cross p_idx p (crossed + f) (a_cross_step i j f p a)), e') \<and>
        erel clean e' (snd (a_cross p_idx p (crossed + f) (a_cross_step i j f p a)))"
      by (rule 1(1)) (use hl True ij f s4(3) st bids asks f_def in \<open>simp_all\<close>)
    ultimately show ?thesis unfolding A by simp
  qed
qed

section \<open>The uncross\<close>

lemma cross_frame:
  "frame a (snd (a_cross q p c a)) \<and> a_stp_halt (snd (a_cross q p c a)) = a_stp_halt a"
proof (induction q p c a rule: a_cross.induct)
  case (1 q p c a)
  have fr: "frame a (a_cross_step i j f p a)" "a_stp_halt (a_cross_step i j f p a) = a_stp_halt a" for i j f
    by (simp_all add: a_cross_step_def Let_def frame_def)
  show ?case
  proof (cases "\<exists>i j. highest (a_books a Buy) = Some i \<and> lowest (a_books a Sell) = Some j")
    case False
    then have "a_cross q p c a = (c, a)" by (subst a_cross.simps) (auto split: option.splits)
    then show ?thesis by simp
  next
    case True
    then obtain i j where ij: "highest (a_books a Buy) = Some i" "lowest (a_books a Sell) = Some j" by blast
    let ?bq = "ro_total (hd (a_books a Buy ! i))" and ?aq = "ro_total (hd (a_books a Sell ! j))"
    let ?f = "if ?bq < ?aq then ?bq else ?aq"
    show ?thesis
    proof (cases "q \<le> i \<and> j \<le> q \<and> ?f \<noteq> 0")
      case go: True
      have "a_cross q p c a = a_cross q p (c + ?f) (a_cross_step i j ?f p a)"
        using ij go by (subst a_cross.simps) (simp add: Let_def split del: if_split)
      with 1 [OF refl ij refl refl refl go] fr [of i j ?f] show ?thesis by (simp add: frame_def)
    next
      case False
      then have "a_cross q p c a = (c, a)" using ij by (subst a_cross.simps) (auto simp: Let_def)
      then show ?thesis by simp
    qed
  qed
qed

lemma uncross_sim: "simulates do_uncross a_uncross"
proof (rule simulatesI)
  fix e a assume r: "refines e a"
  note e = refinesD(1) [OF r]
  note d = erelD [OF e] and b = best_highest [OF e]
  let ?bb = "bk_best (book_of Buy e)" and ?ba = "bk_best (book_of Sell e)"
  show "\<exists>e'. do_uncross e = Some (fst (a_uncross a), e') \<and> refines e' (snd (a_uncross a))"
  proof (cases "?bb < 0 \<or> ?ba < 0 \<or> ?bb < ?ba")
    case True
    have "a_uncross a = (0, a)"
      using True b by (auto simp: a_uncross_def split: option.splits)
    with True r show ?thesis by (auto simp: do_uncross_def Let_def book_of_sides)
  next
    case False
    then obtain hi lo where hl: "?bb = int hi" "?ba = int lo" "lo \<le> hi"
      by (metis linorder_not_less nonneg_int_cases of_nat_le_iff)
    have hib: "hi < e_n e" using best_level(1) [OF e hl(1)] .
    define n where "n = hi - lo + 1"
    have n: "nat (int hi - int lo + 1) = n" using hl(3) by (simp add: n_def nat_diff_distrib' nat_add_distrib)
    have lvl: "level_qty (ld_levels (book_of s e) ! (lo + k)) = exec_qty (a_books a s ! (lo + k))" if "k < n" for s k
    proof -
      have "lo + k < e_n e" using that hib hl(3) by (simp add: n_def)
      from level_relD(5,6) [OF erel_level(2) [OF e this, of s]] show ?thesis
        by (simp add: level_qty_def exec_qty_def)
    qed
    have sup: "supply_of (ld_levels (book_of Sell e)) lo n =
        prefix_sums 0 (map (\<lambda>k. exec_qty (a_books a Sell ! (lo + k))) [0..<n])"
      unfolding supply_of_def using lvl by (auto intro!: arg_cong [of _ _ "prefix_sums 0"])
    have dem: "demand_of (ld_levels (book_of Buy e)) lo n =
        rev (prefix_sums 0 (map (\<lambda>k. exec_qty (a_books a Buy ! (lo + k))) (rev [0..<n])))"
      unfolding demand_of_def using lvl by (auto intro!: arg_cong [of _ _ "prefix_sums 0"])
    obtain k ex imb where pk: "pick_clearing (\<lambda>k. a_min a + int lo + int k) (if a_has_last a then Some (a_last a) else None)
        (rev (prefix_sums 0 (map (\<lambda>k. exec_qty (a_books a Buy ! (lo + k))) (rev [0..<n]))))
        (prefix_sums 0 (map (\<lambda>k. exec_qty (a_books a Sell ! (lo + k))) [0..<n])) n = (k, ex, imb)"
      by (metis prod_cases3)
    have A: "a_uncross a = (if ex = 0 then (0, a) else a_cross (lo + k) (a_min a + int (lo + k)) 0 a)"
      using b hl pk by (simp add: a_uncross_def Let_def n_def)
    have C: "do_uncross e = (if ex = 0 then Some (0, e) else cross_loop (int (lo + k)) (a_min a + int (lo + k)) 0 e)"
      using False hl(1,2) pk [unfolded d(1,11,12)] d(1) unfolding do_uncross_def Let_def book_of_sides
      by (simp add: n sup dem split del: if_split) simp
    have cr: "\<exists>e'. cross_loop (int (lo + k)) p 0 e = Some (fst (a_cross (lo + k) p 0 a), e') \<and>
        refines e' (snd (a_cross (lo + k) p 0 a))" for p
    proof -
      obtain e' where e': "cross_loop (int (lo + k)) p 0 e = Some (fst (a_cross (lo + k) p 0 a), e')"
        "erel clean e' (snd (a_cross (lo + k) p 0 a))" using cross_sim [OF e] by blast
      note fr = cross_frame [of a "lo + k" p 0]
      with e' refinesD(2,3) [OF r] limits_frame [OF refinesD(3) [OF r] conjunct1 [OF fr]] show ?thesis by (auto simp: refines_def)
    qed
    show ?thesis using r cr by (simp add: A C)
  qed
qed

section \<open>A new engine\<close>

lemma store_new_ok:
  assumes "0 < chunk_size"
  shows "\<exists>st. store_new chunk_size expected = Some st \<and> store_ok st \<and> view st = Map.empty \<and> length (st_orders st) = 1"
proof -
  obtain p where p: "pool_new chunk_size expected = Some p" "pool_ok p" "pool_live p = {}"
    using pool_new_returns [OF assms] by blast
  let ?st = "\<lparr>st_orders = [None], st_extras = [], st_extra_free = [], st_pool = p\<rparr>"
  have "lookup ?st = Map.empty" by (auto simp: lookup_def fun_eq_iff)
  with p show ?thesis
    by (simp add: store_new_def store_ok_def exclusive_def node_addrs_def free_slots_ok_def view_def fun_eq_iff)
qed

lemma engine_new_refines:
  assumes "0 < chunk_size" "min_price \<le> max_price" "max_price - min_price + 1 < 2 ^ 63"
  shows "\<exists>e. engine_new chunk_size min_price max_price expected = Some e \<and>
    refines e (astate_new min_price max_price)"
proof -
  define n where "n = nat (max_price - min_price + 1)"
  have n: "0 < n" "n < 2 ^ 63" using assms(2,3) by (auto simp: n_def)
  obtain st where st: "store_new chunk_size expected = Some st" "store_ok st" "view st = Map.empty" "length (st_orders st) = 1"
    using store_new_ok [OF assms(1)] by blast
  let ?side = "\<lparr>ld_levels = replicate n level_empty, ld_map = bm_new n, bk_best = - 1\<rparr>"
  have lad: "ladder_rel False s min_price n v {} ?side (replicate n [])" for s v
    by (rule ladder_rel_new [OF n(2)]) simp_all
  have "\<exists>e. engine_new chunk_size min_price max_price expected = Some e \<and>
      erel clean e (astate_new min_price max_price)"
    using st n lad
    by (simp add: engine_new_def Let_def n_def [symmetric] astate_new_def erel_def book_of_def book_rel_def
        stops_rel_def stops_of_def covered_def stop_count_def split: Side.splits)
  then show ?thesis
    by (auto simp: refines_def astate_new_def limits_ok_def Let_def)
qed

end
