(* ===== verification/Engine_History.thy ===== *)
theory Engine_History
  imports Refinement Uncross_Refinement
begin

text \<open>
  The public calls of \<^verbatim>\<open>MatchingEngine\<close> as data, the engine and its abstract counterpart as
  machines driven by them, and the histories that start from a new engine.
\<close>

section \<open>Calls\<close>

datatype api =
    SubmitLimit Side Price Qty TimeInForce OwnerId StpPolicy
  | SubmitMarket Side Qty OwnerId StpPolicy
  | SubmitIceberg Side Price Qty Qty TimeInForce OwnerId StpPolicy
  | SubmitStop Side Price Qty OwnerId StpPolicy
  | SubmitStopLimit Side Price Price Qty OwnerId StpPolicy
  | CancelOrder OrderId
  | ReduceOrder OrderId Qty
  | ModifyOrder OrderId Price Qty
  | Halt
  | Resume
  | Uncross

text \<open>What a call returns: an order id, a quantity, a truth value, or nothing.\<close>

datatype reply = RId OrderId | RQty Qty | RBool bool | RVoid

definition reply_as :: "('r \<Rightarrow> reply) \<Rightarrow> ('r \<times> engine) option \<Rightarrow> (reply \<times> engine) option" where
  "reply_as f = map_option (map_prod f id)"

fun call :: "api \<Rightarrow> engine \<Rightarrow> (reply \<times> engine) option" where
  "call (SubmitLimit s p q tif ow stp) e = reply_as RId (submit_limit s p q tif ow stp e)"
| "call (SubmitMarket s q ow stp) e = reply_as RQty (submit_market s q ow stp e)"
| "call (SubmitIceberg s p q d tif ow stp) e = reply_as RId (submit_iceberg s p q d tif ow stp e)"
| "call (SubmitStop s p q ow stp) e = reply_as RId (submit_stop s p q ow stp e)"
| "call (SubmitStopLimit s p l q ow stp) e = reply_as RId (submit_stop_limit s p l q ow stp e)"
| "call (CancelOrder oid) e = reply_as RBool (cancel oid e)"
| "call (ReduceOrder oid q) e = reply_as RBool (reduce oid q e)"
| "call (ModifyOrder oid p q) e = reply_as RBool (modify oid p q e)"
| "call Halt e = reply_as (\<lambda>_. RVoid) (halt e)"
| "call Resume e = reply_as (\<lambda>_. RVoid) (resume e)"
| "call Uncross e = reply_as RQty (uncross e)"

text \<open>The body of each call on the abstract state, before the stop pump.\<close>

fun a_body :: "api \<Rightarrow> astate \<Rightarrow> reply \<times> astate" where
  "a_body (SubmitLimit s p q tif ow stp) a = map_prod RId id (a_submit_limit s p q tif ow stp a)"
| "a_body (SubmitMarket s q ow stp) a = map_prod RQty id (a_submit_market s q ow stp a)"
| "a_body (SubmitIceberg s p q d tif ow stp) a = map_prod RId id (a_submit_iceberg s p q d tif ow stp a)"
| "a_body (SubmitStop s p q ow stp) a = map_prod RId id (a_submit_stop s p 0 q True ow stp a)"
| "a_body (SubmitStopLimit s p l q ow stp) a = map_prod RId id (a_submit_stop s p l q False ow stp a)"
| "a_body (CancelOrder oid) a = map_prod RBool id (a_cancel oid a)"
| "a_body (ReduceOrder oid q) a = map_prod RBool id (a_reduce oid q a)"
| "a_body (ModifyOrder oid p q) a = map_prod RBool id (a_modify oid p q a)"
| "a_body Halt a = (RVoid, a\<lparr>a_halted := True\<rparr>)"
| "a_body Resume a = (RVoid, a\<lparr>a_halted := False\<rparr>)"
| "a_body Uncross a = map_prod RQty id (a_uncross a)"

definition a_call :: "api \<Rightarrow> astate \<Rightarrow> reply \<times> astate" where
  "a_call c = a_run (a_body c)"

lemma a_run_map: "a_run (\<lambda>a. map_prod f id (g a)) a = map_prod f id (a_run g a)"
  by (auto simp: a_run_def Let_def split: prod.splits)

lemma reply_sim:
  assumes "simulates f g" "refines e a"
  shows "\<exists>e'. reply_as h (run f e) = Some (fst (a_run (\<lambda>a. map_prod h id (g a)) a), e') \<and>
    refines e' (snd (a_run (\<lambda>a. map_prod h id (g a)) a))"
  using simulatesD [OF run_sim [OF assms(1)] assms(2)] unfolding a_run_map by (auto simp: reply_as_def)

lemmas body_sims = submit_limit_sim submit_market_sim submit_iceberg_sim submit_stop_sim cancel_sim
  reduce_sim modify_sim uncross_sim

lemmas entry_defs = submit_limit_def submit_market_def submit_iceberg_def submit_stop_def
  submit_stop_limit_def cancel_def reduce_def modify_def uncross_def halt_def resume_def

lemma call_forward:
  assumes r: "refines e a"
  shows "\<exists>e'. call c e = Some (fst (a_call c a), e') \<and> refines e' (snd (a_call c a))"
proof (cases c)
  case Halt
  have "a_body c = (\<lambda>a. map_prod (\<lambda>_. RVoid) id ((), a\<lparr>a_halted := True\<rparr>))" using Halt by auto
  with reply_sim [OF halt_sim r, of "\<lambda>_. RVoid" True] Halt show ?thesis
    by (simp add: a_call_def entry_defs)
next
  case Resume
  have "a_body c = (\<lambda>a. map_prod (\<lambda>_. RVoid) id ((), a\<lparr>a_halted := False\<rparr>))" using Resume by auto
  with reply_sim [OF halt_sim r, of "\<lambda>_. RVoid" False] Resume show ?thesis
    by (simp add: a_call_def entry_defs)
qed (auto simp: a_call_def entry_defs a_body.simps [abs_def] intro!: reply_sim [OF _ r] body_sims)

interpretation engine: refinement call a_call refines
  by unfold_locales (rule call_forward)

section \<open>Histories of a new engine\<close>

text \<open>A band the code can index: not empty, and small enough for a vector.\<close>

definition band_ok :: "Price \<Rightarrow> Price \<Rightarrow> bool" where
  "band_ok lo hi \<longleftrightarrow> lo \<le> hi \<and> hi - lo + 1 < 2 ^ 63"

definition session :: "nat \<Rightarrow> Price \<Rightarrow> Price \<Rightarrow> nat \<Rightarrow> api list \<Rightarrow> (reply list \<times> engine) option" where
  "session chunk lo hi expected cs = do { e \<leftarrow> engine_new chunk lo hi expected; history call cs e }"

definition a_session :: "Price \<Rightarrow> Price \<Rightarrow> api list \<Rightarrow> reply list \<times> astate" where
  "a_session lo hi cs = a_history a_call cs (astate_new lo hi)"

lemma session_refines:
  assumes "0 < chunk" "band_ok lo hi"
  shows "\<exists>e. session chunk lo hi expected cs = Some (fst (a_session lo hi cs), e) \<and>
    refines e (snd (a_session lo hi cs))"
proof -
  obtain e0 where e0: "engine_new chunk lo hi expected = Some e0" "refines e0 (astate_new lo hi)"
    using engine_new_refines [OF assms(1), of lo hi expected] assms(2) by (auto simp: band_ok_def)
  with engine.histories [OF e0(2), of cs] show ?thesis by (auto simp: session_def a_session_def)
qed

lemma session_state:
  assumes "0 < chunk" "band_ok lo hi" "session chunk lo hi expected cs = Some (rs, e)"
  shows "refines e (snd (a_session lo hi cs))" "rs = fst (a_session lo hi cs)"
  using session_refines [OF assms(1,2), of expected cs] assms(3) by auto

end
