(* ===== verification/Match_Facts.thy ===== *)
theory Match_Facts
  imports Engine_History
begin

text \<open>
  What a matching pass of the abstract engine does: the trades it prints, where its
  quantity goes, in which order it visits the book, and how it ends.
\<close>

section \<open>Trades of an event list\<close>

definition trades :: "event list \<Rightarrow> Trade list" where
  "trades evs = concat (map (\<lambda>ev. case ev of Traded t \<Rightarrow> [t] | _ \<Rightarrow> []) evs)"

definition volume :: "Trade list \<Rightarrow> nat" where
  "volume ts = sum_list (map (\<lambda>t. unat (t_qty t)) ts)"

lemma trades_simps [simp]:
  "trades [] = []" "trades (Traded t # evs) = t # trades evs"
  "trades (Accept i s p q # evs) = trades evs" "trades (Cancelled i # evs) = trades evs"
  "trades (Rejected i # evs) = trades evs" "trades (Rested i s p q # evs) = trades evs"
  "trades (evs @ evs') = trades evs @ trades evs'"
  by (simp_all add: trades_def)

lemma volume_simps [simp]:
  "volume [] = 0" "volume (t # ts) = unat (t_qty t) + volume ts" "volume (ts @ us) = volume ts + volume us"
  by (simp_all add: volume_def)

lemma trades_mem: "t \<in> set (trades evs) \<longleftrightarrow> Traded t \<in> set evs"
  by (auto simp: trades_def split: event.splits intro!: bexI [of _ "Traded t"])

lemma no_trades: "list_ex is_trade evs \<longleftrightarrow> trades evs \<noteq> []"
  by (induction evs) (auto simp: is_trade_def split: event.splits)

section \<open>One level\<close>

text \<open>The events of a pass over the orders \<open>os\<close>: fills of them, refills and self-trade cancels.\<close>

definition pass_event :: "OwnerId \<Rightarrow> ro set \<Rightarrow> event \<Rightarrow> bool" where
  "pass_event owner os ev =
     (case ev of
        Traded t \<Rightarrow> \<exists>r\<in>os. r_id r = t_maker t \<and> (owner = 0 \<or> r_owner r \<noteq> owner)
      | Cancelled oid \<Rightarrow> \<exists>r\<in>os. r_id r = oid \<and> owner \<noteq> 0 \<and> r_owner r = owner
      | Rested oid s p d \<Rightarrow> \<exists>r\<in>os. r_id r = oid \<and> r_side r = s
      | _ \<Rightarrow> False)"

lemma refill_keeps [simp]:
  "r_id (refill r) = r_id r" "r_side (refill r) = r_side r" "r_owner (refill r) = r_owner r"
  "r_price (refill r) = r_price r" "r_stop (refill r) = r_stop r"
  by (simp_all add: refill_def Let_def)

lemma pass_event_refill:
  "pass_event owner (insert (refill r) os) ev \<Longrightarrow> pass_event owner (insert r os) ev"
  by (auto simp: pass_event_def split: event.splits)

lemma pass_event_mono: "pass_event owner os ev \<Longrightarrow> os \<subseteq> os' \<Longrightarrow> pass_event owner os' ev"
  by (auto simp: pass_event_def split: event.splits)

lemma sweep_events:
  assumes "a_sweep taker px ts owner stp q os = (q', h, evs, os')" "ev \<in> set evs"
  shows "pass_event owner (set os) ev \<and>
    (\<forall>t. ev = Traded t \<longrightarrow> t_taker t = taker \<and> t_price t = px \<and> t_side t = ts \<and> t_qty t \<noteq> 0) \<and>
    (\<forall>oid s p d. ev = Rested oid s p d \<longrightarrow> p = px)"
proof -
  let ?ok = "\<lambda>os ev. pass_event owner (set os) ev \<and>
    (\<forall>t. ev = Traded t \<longrightarrow> t_taker t = taker \<and> t_price t = px \<and> t_side t = ts \<and> t_qty t \<noteq> 0) \<and>
    (\<forall>oid s p d. ev = Rested oid s p d \<longrightarrow> p = px)"
  have "\<forall>ev\<in>set (fst (snd (snd (a_sweep taker px ts owner stp q os)))). ?ok os ev"
  proof (rule a_sweep_rule [where P = "\<lambda>q os res. \<forall>ev\<in>set (fst (snd (snd res))). ?ok os ev"])
    fix q :: Qty and r :: ro and os q' h evs os'
    assume "owner = 0 \<or> r_owner r \<noteq> owner" "r_qty r \<noteq> 0"
      and IH: "\<forall>ev\<in>set (fst (snd (snd (q', h, evs, os')))). ?ok (os @ [refill r]) ev"
    moreover have "?ok (r # os) ev" if "ev \<in> set evs" for ev
      using IH that pass_event_refill [of owner r "set os" ev] by auto
    ultimately show "\<forall>ev\<in>set (fst (snd (snd (q', h, trade_of taker px ts r (r_qty r) #
        Rested (r_id r) (r_side r) px (r_qty (refill r)) # evs, os')))). ?ok (r # os) ev"
      by (auto simp: pass_event_def)
  next
    fix q :: Qty and r :: ro and os q' h evs os'
    assume "owner = 0 \<or> r_owner r \<noteq> owner" "r_qty r \<noteq> 0"
      and IH: "\<forall>ev\<in>set (fst (snd (snd (q', h, evs, os')))). ?ok os ev"
    moreover have "?ok (r # os) ev" if "ev \<in> set evs" for ev
      using IH that pass_event_mono [of owner "set os" ev "set (r # os)"] by auto
    ultimately show "\<forall>ev\<in>set (fst (snd (snd (q', h, trade_of taker px ts r (r_qty r) # evs, os')))). ?ok (r # os) ev"
      by (auto simp: pass_event_def)
  next
    fix q :: Qty and r :: ro and os q' h evs os'
    assume "owner \<noteq> 0" "r_owner r = owner"
      and IH: "\<forall>ev\<in>set (fst (snd (snd (q', h, evs, os')))). ?ok os ev"
    moreover have "?ok (r # os) ev" if "ev \<in> set evs" for ev
      using IH that pass_event_mono [of owner "set os" ev "set (r # os)"] by auto
    ultimately show "\<forall>ev\<in>set (fst (snd (snd (q', h, Cancelled (r_id r) # evs, os')))). ?ok (r # os) ev"
      by (auto simp: pass_event_def)
  qed (auto simp: pass_event_def)
  with assms show ?thesis by simp
qed

text \<open>Where the quantity goes: the taker's loss is the makers', self-trade cancels aside.\<close>

lemma refill_vol: "ro_vol (refill r) = unat (r_reserve r)"
  by (simp add: refill_def ro_vol_def Let_def unat_minus_le word_less_nat_alt word_le_nat_alt)

lemma sweep_volume:
  assumes "a_sweep taker px ts owner stp q os = (q', h, evs, os')"
  shows "unat q = unat q' + volume (trades evs)"
    "level_vol os' + volume (trades evs) \<le> level_vol os"
    "owner = 0 \<Longrightarrow> level_vol os' + volume (trades evs) = level_vol os \<and> \<not> h"
proof -
  let ?P = "\<lambda>q os (q', h, evs, os'). unat q = unat q' + volume (trades evs) \<and>
    level_vol os' + volume (trades evs) \<le> level_vol os \<and>
    (owner = 0 \<longrightarrow> level_vol os' + volume (trades evs) = level_vol os \<and> \<not> h)"
  have "?P q os (a_sweep taker px ts owner stp q os)"
    by (rule a_sweep_rule [where P = ?P])
       (auto simp: level_vol_def ro_vol_def refill_vol [unfolded ro_vol_def] unat_minus_le word_le_nat_alt word_less_nat_alt)
  with assms show "unat q = unat q' + volume (trades evs)"
    "level_vol os' + volume (trades evs) \<le> level_vol os"
    "owner = 0 \<Longrightarrow> level_vol os' + volume (trades evs) = level_vol os \<and> \<not> h" by auto
qed

section \<open>A pass over the levels\<close>

text \<open>What a pass did, from state \<open>a\<close> to state \<open>b\<close> over the candidate levels, with its events.\<close>

definition pass :: "Side \<Rightarrow> OrderId \<Rightarrow> OwnerId \<Rightarrow> nat list \<Rightarrow> astate \<Rightarrow> event list \<Rightarrow> astate \<Rightarrow> bool" where
  "pass ts taker owner is a evs b \<longleftrightarrow>
     a_tape b = a_tape a @ evs \<and>
     (\<forall>ev\<in>set evs. pass_event owner (\<Union>i\<in>set is. set (a_books a (opposite ts) ! i)) ev) \<and>
     (\<forall>t\<in>set (trades evs). t_taker t = taker \<and> t_side t = ts \<and> t_qty t \<noteq> 0 \<and>
        (\<exists>i\<in>set is. t_price t = a_min a + int i \<and> t_maker t \<in> r_id ` set (a_books a (opposite ts) ! i)))"

lemma passD:
  assumes "pass ts taker owner is a evs b"
  shows "a_tape b = a_tape a @ evs"
    "\<And>ev. ev \<in> set evs \<Longrightarrow> pass_event owner (\<Union>i\<in>set is. set (a_books a (opposite ts) ! i)) ev"
    "\<And>t. t \<in> set (trades evs) \<Longrightarrow> t_taker t = taker \<and> t_side t = ts \<and> t_qty t \<noteq> 0 \<and>
      (\<exists>i\<in>set is. t_price t = a_min a + int i \<and> t_maker t \<in> r_id ` set (a_books a (opposite ts) ! i))"
  using assms by (auto simp: pass_def)

lemma pass_sweep:
  assumes sw: "a_sweep taker (a_min a + int i) ts owner stp q (a_books a (opposite ts) ! i) = (q1, h, evs, os)"
  shows "pass ts taker owner [i] a evs (a_swept (opposite ts) i (h, evs, os) a)"
proof -
  note ev = sweep_events [OF sw]
  have "t_maker t \<in> r_id ` set (a_books a (opposite ts) ! i)" if "Traded t \<in> set evs" for t
    using ev [OF that] by (force simp: pass_event_def)
  with ev show ?thesis
    by (simp add: pass_def a_swept_def trades_mem)
qed

lemma pass_mono: "pass ts taker owner is a evs b \<Longrightarrow> set is \<subseteq> set js \<Longrightarrow> pass ts taker owner js a evs b"
  unfolding pass_def by (blast intro: pass_event_mono)

lemma pass_Cons:
  assumes p1: "pass ts taker owner [i] a evs a1" and p2: "pass ts taker owner is a1 evs' b"
    and fr: "a_min a1 = a_min a" "\<forall>j\<in>set is. a_books a1 (opposite ts) ! j = a_books a (opposite ts) ! j"
  shows "pass ts taker owner (i # is) a (evs @ evs') b"
  unfolding pass_def
proof (intro conjI ballI)
  have same: "(\<Union>j\<in>set is. set (a_books a1 (opposite ts) ! j)) = (\<Union>j\<in>set is. set (a_books a (opposite ts) ! j))"
    using fr(2) by simp
  show "a_tape b = a_tape a @ evs @ evs'" using passD(1) [OF p1] passD(1) [OF p2] by simp
  show "pass_event owner (\<Union>j\<in>set (i # is). set (a_books a (opposite ts) ! j)) ev" if "ev \<in> set (evs @ evs')" for ev
    using that passD(2) [OF p1, of ev] passD(2) [OF p2, of ev] pass_event_mono unfolding same by fastforce
next
  fix t assume "t \<in> set (trades (evs @ evs'))"
  then consider "t \<in> set (trades evs)" | "t \<in> set (trades evs')" by auto
  then show "t_taker t = taker" "t_side t = ts" "t_qty t \<noteq> 0"
    "\<exists>j\<in>set (i # is). t_price t = a_min a + int j \<and> t_maker t \<in> r_id ` set (a_books a (opposite ts) ! j)"
    using passD(3) [OF p1, of t] passD(3) [OF p2, of t] fr by (cases; force)+
qed

lemma match_levels_split:
  assumes "a_match_levels ts taker owner stp (i # is) q a = (q', a')" "q \<noteq> 0"
  obtains q1 h evs os where
    "a_sweep taker (a_min a + int i) ts owner stp q (a_books a (opposite ts) ! i) = (q1, h, evs, os)"
    "(if a_stp_halt a \<or> h then (q1, a_swept (opposite ts) i (h, evs, os) a)
      else a_match_levels ts taker owner stp is q1 (a_swept (opposite ts) i (h, evs, os) a)) = (q', a')"
proof -
  obtain q1 h evs os where sw: "a_sweep taker (a_min a + int i) ts owner stp q (a_books a (opposite ts) ! i) = (q1, h, evs, os)"
    by (metis prod_cases4)
  moreover have "a_stp_halt (a_swept (opposite ts) i (h, evs, os) a) = (a_stp_halt a \<or> h)" by (simp add: a_swept_def)
  ultimately show ?thesis using that [OF sw] assms by (simp add: Let_def)
qed

text \<open>
  A pass: its events, the taker's account, and, with no owner, the exact account of the
  opposite side.  The trades come level by level in the order of the candidates.
\<close>

lemma match_levels_pass:
  "a_match_levels ts taker owner stp is q a = (q', a') \<Longrightarrow> distinct is \<Longrightarrow> \<not> a_stp_halt a \<Longrightarrow>
   \<forall>i\<in>set is. i < length (a_books a (opposite ts)) \<Longrightarrow>
   \<exists>evs. pass ts taker owner is a evs a' \<and> unat q = unat q' + volume (trades evs) \<and>
     (owner = 0 \<longrightarrow> \<not> a_stp_halt a' \<and>
        side_vol (a_books a' (opposite ts)) + volume (trades evs) = side_vol (a_books a (opposite ts)))"
proof (induction "is" arbitrary: q a)
  case Nil
  then show ?case by (auto simp: pass_def intro!: exI [of _ "[]"])
next
  case (Cons i "is")
  let ?ms = "opposite ts"
  show ?case
  proof (cases "q = 0")
    case True
    with Cons.prems show ?thesis by (auto simp: pass_def intro!: exI [of _ "[]"])
  next
    case False
    obtain q1 h evs os where sw: "a_sweep taker (a_min a + int i) ts owner stp q (a_books a ?ms ! i) = (q1, h, evs, os)"
      and go: "(if a_stp_halt a \<or> h then (q1, a_swept ?ms i (h, evs, os) a)
        else a_match_levels ts taker owner stp is q1 (a_swept ?ms i (h, evs, os) a)) = (q', a')"
      using match_levels_split [OF Cons.prems(1) False] by blast
    let ?a1 = "a_swept ?ms i (h, evs, os) a"
    have il: "i < length (a_books a ?ms)" using Cons.prems(4) by simp
    note v = sweep_volume [OF sw] and p1 = pass_sweep [OF sw]
    have sv: "owner = 0 \<Longrightarrow> side_vol (a_books ?a1 ?ms) + volume (trades evs) = side_vol (a_books a ?ms)"
      using side_vol_update [OF il, of os] v(3) by (simp add: a_swept_def)
    show ?thesis
    proof (cases h)
      case True
      with go Cons.prems(3) v sv pass_mono [OF p1, of "i # is"] show ?thesis by (auto intro!: exI [of _ evs])
    next
      case False
      then have "a_match_levels ts taker owner stp is q1 ?a1 = (q', a')" using go Cons.prems(3) by simp
      moreover have "\<not> a_stp_halt ?a1" using False Cons.prems(3) by (simp add: a_swept_def)
      ultimately obtain evs' where IH: "pass ts taker owner is ?a1 evs' a'" "unat q1 = unat q' + volume (trades evs')"
        "owner = 0 \<longrightarrow> \<not> a_stp_halt a' \<and> side_vol (a_books a' ?ms) + volume (trades evs') = side_vol (a_books ?a1 ?ms)"
        using Cons.IH [of q1 ?a1] Cons.prems(2,4) by auto
      have "i \<noteq> j" if "j \<in> set is" for j using that Cons.prems(2) by auto
      then have "\<forall>j\<in>set is. a_books ?a1 ?ms ! j = a_books a ?ms ! j" by simp
      then have "pass ts taker owner (i # is) a (evs @ evs') a'"
        by (intro pass_Cons [OF p1 IH(1)]) simp_all
      with v IH(2,3) sv show ?thesis by (auto intro!: exI [of _ "evs @ evs'"])
    qed
  qed
qed

end
