(* ===== verification/Market_Data.thy ===== *)
theory Market_Data
  imports Engine_History
begin

text \<open>
  The market data calls of \<^verbatim>\<open>MatchingEngine\<close> against the abstract book: the walks over the
  occupancy bitmap visit exactly the occupied levels, best first, and the cached
  aggregates are the sums over the orders the walks show.
\<close>

section \<open>Occupied levels in priority order\<close>

definition ranks :: "Side \<Rightarrow> ro list list \<Rightarrow> nat list" where
  "ranks s oss = filter (\<lambda>i. oss ! i \<noteq> [])
     (case s of Buy \<Rightarrow> rev [0..<length oss] | Sell \<Rightarrow> [0..<length oss])"

definition head_index :: "nat list \<Rightarrow> int" where
  "head_index is = (case is of [] \<Rightarrow> - 1 | i # _ \<Rightarrow> int i)"

text \<open>A final segment of the walk.\<close>

definition tail_of :: "Side \<Rightarrow> ro list list \<Rightarrow> nat list \<Rightarrow> bool" where
  "tail_of s oss is \<longleftrightarrow> sorted_wrt (\<lambda>i j. at_least s i j \<and> i \<noteq> j) is \<and> set is \<subseteq> occ oss \<and>
     (\<forall>i\<in>set is. \<forall>j\<in>occ oss. at_least s i j \<longrightarrow> j \<in> set is)"

lemma ranks_set [simp]: "set (ranks s oss) = occ oss"
  by (cases s) (auto simp: ranks_def occ_def)

lemma ranks_sorted: "sorted_wrt (\<lambda>i j. at_least s i j \<and> i \<noteq> j) (ranks s oss)"
proof -
  have "sorted_wrt (\<lambda>i j. i \<le> j \<and> i \<noteq> j) [a..<b]" "sorted_wrt (\<lambda>i j. i \<le> j \<and> j \<noteq> i) [a..<b]" for a b :: nat
    by (rule sorted_wrt_mono_rel [OF _ sorted_wrt_upt], simp)+
  then show ?thesis
    by (cases s) (simp_all add: ranks_def at_least_def sorted_wrt_rev sorted_wrt_filter)
qed

lemma tail_of_ranks: "tail_of s oss (ranks s oss)"
  by (simp add: tail_of_def ranks_sorted)

lemma tail_of_Cons:
  assumes "tail_of s oss (i # is)"
  shows "tail_of s oss is" "i \<in> occ oss" "{j \<in> occ oss. at_least s i j \<and> j \<noteq> i} = set is"
proof -
  have srt: "\<forall>j\<in>set is. at_least s i j \<and> i \<noteq> j" using assms by (simp add: tail_of_def)
  have "j \<in> set is" if "k \<in> set is" "j \<in> occ oss" "at_least s k j" for j k
  proof -
    have "j \<in> set (i # is)" using assms that unfolding tail_of_def by (meson list.set_intros(2))
    moreover have "j \<noteq> i" using srt that at_least_antisym [of s i k] by auto
    ultimately show ?thesis by simp
  qed
  then show "tail_of s oss is" using assms by (auto simp: tail_of_def)
  show "i \<in> occ oss" using assms by (simp add: tail_of_def)
  show "{j \<in> occ oss. at_least s i j \<and> j \<noteq> i} = set is"
    using assms srt unfolding tail_of_def by auto
qed

lemma best_is_head:
  assumes "tail_of s oss is" "best_rel s (set is) b"
  shows "b = head_index is"
proof (cases "is")
  case (Cons i js)
  show ?thesis using assms(2)
  proof (cases rule: best_rel_cases)
    case (some k)
    have "at_least s k i" using some Cons by simp
    moreover have "at_least s i k" using some(2) assms(1) Cons by (auto simp: tail_of_def)
    ultimately show ?thesis using some(1) Cons at_least_antisym [of s i k] by (simp add: head_index_def)
  qed (use Cons in simp)
qed (use assms in \<open>simp add: head_index_def\<close>)

lemma next_is_head:
  assumes "ladder_rel k s mn n v {} ld oss" "0 < n" "tail_of t oss (i # is)"
  shows "next_best t (ld_map ld) (int i) = Some (head_index is)"
  using next_best_spec [of "ld_map ld" t i] ladder_relD(4-6) [OF assms(1)] assms(2)
    best_is_head [OF tail_of_Cons(1) [OF assms(3)]] tail_of_Cons(3) [OF assms(3)] by auto

lemma erel_best_head:
  assumes "erel clean e a"
  shows "bk_best (book_of s e) = head_index (ranks s (a_books a s))"
  using best_is_head [OF tail_of_ranks] erel_best [OF assms, of s] by simp

lemma head_index_Cons [simp]: "head_index (i # is) = int i" "head_index [] = - 1"
  by (simp_all add: head_index_def)

section \<open>The order walks\<close>

definition queue :: "Side \<Rightarrow> astate \<Rightarrow> ro list" where
  "queue s a = concat (map (\<lambda>i. a_books a s ! i) (ranks s (a_books a s)))"

definition stop_queue :: "Side \<Rightarrow> astate \<Rightarrow> ro list" where
  "stop_queue s a = concat (map (\<lambda>i. a_stops a s ! i) (ranks (opposite s) (a_stops a s)))"

definition shown :: "ro \<Rightarrow> OrderId \<times> Side \<times> Price \<times> Qty" where
  "shown r = (r_id r, r_side r, r_price r, r_qty r)"

lemma nodes_of_shown:
  assumes "\<forall>r\<in>set os. view st (r_id r) = Some r" "\<forall>oid ord. lookup st oid = Some ord \<longrightarrow> o_id ord = oid"
  shows "\<exists>ns. nodes_of st (map r_id os) = Some ns \<and>
    map (\<lambda>n. (o_id n, o_side n, o_price n, o_qty n)) ns = map shown os"
  using assms(1)
proof (induction os)
  case (Cons r os)
  obtain ord where "lookup st (r_id r) = Some ord" "r = ro_of (st_extras st) ord"
    using Cons.prems by (auto simp: view_lookup)
  with Cons show ?case by (auto simp: shown_def ro_of_def ro_make_def Let_def)
qed simp

lemma visit_orders_walk:
  assumes lad: "ladder_rel False s mn n (view st) {} bk oss" "0 < n"
    and ids: "\<forall>oid ord. lookup st oid = Some ord \<longrightarrow> o_id ord = oid" and t: "tail_of s oss is"
  shows "\<exists>ns. visit_orders_from st s bk (head_index is) = Some ns \<and>
    map (\<lambda>n. (o_id n, o_side n, o_price n, o_qty n)) ns = map shown (concat (map (\<lambda>i. oss ! i) is))"
  using t
proof (induction "is")
  case Nil
  then show ?case by (subst visit_orders_from.simps) simp
next
  case (Cons i "is")
  have i: "i < n" using tail_of_Cons(2) [OF Cons.prems] ladder_relD(2) [OF lad(1)] by (auto dest: occ_less)
  note lvl = ladder_relD(3) [OF lad(1) i]
  obtain ns where "nodes_of st (map r_id (oss ! i)) = Some ns"
    "map (\<lambda>n. (o_id n, o_side n, o_price n, o_qty n)) ns = map shown (oss ! i)"
    using nodes_of_shown [OF _ ids] level_relD(3) [OF lvl] by blast
  moreover obtain ns' where "visit_orders_from st s bk (head_index is) = Some ns'"
    "map (\<lambda>n. (o_id n, o_side n, o_price n, o_qty n)) ns' = map shown (concat (map (\<lambda>i. oss ! i) is))"
    using Cons.IH [OF tail_of_Cons(1) [OF Cons.prems]] by blast
  ultimately show ?case
    using next_is_head [OF lad Cons.prems] ladder_rel_level_at [OF lad(1) i] level_relD(1) [OF lvl]
    by (subst visit_orders_from.simps) simp
qed

lemma store_ids: "store_ok st \<Longrightarrow> \<forall>oid ord. lookup st oid = Some ord \<longrightarrow> o_id ord = oid"
  using store_okD(4) by (fastforce simp: node_ok_def)

lemma visit_orders_sim:
  assumes e: "erel clean e a"
  shows "visit_orders e s = Some (map shown (queue s a))"
proof -
  obtain ns where "visit_orders_from (e_store e) s (book_of s e) (head_index (ranks s (a_books a s))) = Some ns"
    "map (\<lambda>n. (o_id n, o_side n, o_price n, o_qty n)) ns = map shown (queue s a)"
    using visit_orders_walk [OF erel_ladder [OF e, of s] erelD(3) [OF e] store_ids [OF erelD(5) [OF e]] tail_of_ranks]
    unfolding queue_def by blast
  then show ?thesis using erel_best_head [OF e, of s] by (simp add: visit_orders_def Let_def)
qed

lemma visit_stops_walk:
  assumes lad: "ladder_rel True s mn n v {} ld oss" "0 < n" and t: "tail_of (opposite s) oss is"
  shows "visit_stops_from s ld (head_index is) = Some (map r_id (concat (map (\<lambda>i. oss ! i) is)))"
  using t
proof (induction "is")
  case Nil
  then show ?case by (subst visit_stops_from.simps) simp
next
  case (Cons i "is")
  have i: "i < n" using tail_of_Cons(2) [OF Cons.prems] ladder_relD(2) [OF lad(1)] by (auto dest: occ_less)
  note lvl = ladder_relD(3) [OF lad(1) i]
  from Cons.IH [OF tail_of_Cons(1) [OF Cons.prems]] show ?case
    using next_is_head [OF lad Cons.prems] ladder_rel_level_at [OF lad(1) i] level_relD(1) [OF lvl]
    by (subst visit_stops_from.simps) simp
qed

lemma ranks_empty [simp]: "ranks s (replicate n []) = []"
  by (cases s) (auto simp: ranks_def filter_empty_conv)

lemma visit_stops_sim:
  assumes e: "erel clean e a"
  shows "visit_stops e = Some (map r_id (stop_queue Buy a @ stop_queue Sell a))"
proof (cases "ld_levels (stops_of Buy e) = []")
  case True
  then have "\<forall>s. a_stops a s = replicate (e_n e) []" using erelD(8) [OF e] by (simp add: stops_rel_def)
  with True show ?thesis by (simp add: visit_stops_def book_of_sides stop_queue_def)
next
  case False
  note lad = erel_stop_ladder [OF e False]
  have occ: "{j \<in> occ (a_stops a s). 0 \<le> int j} = occ (a_stops a s)"
    "{j \<in> occ (a_stops a s). int j \<le> int (e_n e) - 1} = occ (a_stops a s)" for s
    using erel_lengths(2) [OF e] by (auto dest: occ_less)
  obtain i where "bm_find_ge (ld_map (stops_of Buy e)) 0 = Some i" "best_rel Sell (occ (a_stops a Buy)) i"
    using bm.next_ge [OF ladder_relD(4) [OF lad [of Buy]], of 0] ladder_relD(6) [OF lad [of Buy]] occ by (auto simp: best_rel_def)
  moreover obtain j where "bm_find_le (ld_map (stops_of Sell e)) (int (e_n e) - 1) = Some j" "best_rel Buy (occ (a_stops a Sell)) j"
    using bm.next_le [OF ladder_relD(4) [OF lad [of Sell]], of "int (e_n e) - 1"] ladder_relD(5,6) [OF lad [of Sell]] occ erelD(3) [OF e]
    by (auto simp: best_rel_def)
  ultimately have "bm_find_ge (ld_map (stops_of Buy e)) 0 = Some (head_index (ranks Sell (a_stops a Buy)))"
    "bm_find_le (ld_map (stops_of Sell e)) (int (e_n e) - 1) = Some (head_index (ranks Buy (a_stops a Sell)))"
    using best_is_head [OF tail_of_ranks] by auto
  with False visit_stops_walk [OF lad [of Buy] erelD(3) [OF e] tail_of_ranks]
    visit_stops_walk [OF lad [of Sell] erelD(3) [OF e] tail_of_ranks] show ?thesis
    by (simp add: visit_stops_def book_of_sides stop_queue_def)
qed

section \<open>Grouping the queue by price\<close>

lemma concat_filter_nonempty: "concat (map g (filter (\<lambda>i. g i \<noteq> []) is)) = concat (map g is)"
  by (induction "is") auto

lemma filter_concat_index:
  assumes "distinct is" "\<And>j r. j \<in> set is \<Longrightarrow> r \<in> set (g j) \<Longrightarrow> P r \<longleftrightarrow> j = i"
  shows "filter P (concat (map g is)) = (if i \<in> set is then g i else [])"
  using assms
proof (induction "is")
  case (Cons j js)
  have "filter P (g j) = (if j = i then g i else [])"
    using Cons.prems(2) [of j] by (auto simp: filter_empty_conv filter_id_conv)
  with Cons show ?case by auto
qed simp

lemma distinct_concat_index:
  assumes "distinct is" "\<And>i. i \<in> set is \<Longrightarrow> distinct (map f (g i))"
    "\<And>i j. i \<in> set is \<Longrightarrow> j \<in> set is \<Longrightarrow> i \<noteq> j \<Longrightarrow> f ` set (g i) \<inter> f ` set (g j) = {}"
  shows "distinct (map f (concat (map g is)))"
  using assms
proof (induction "is")
  case (Cons i "is")
  have "f ` set (g i) \<inter> f ` (\<Union>j\<in>set is. set (g j)) = {}"
  proof -
    have "f ` set (g i) \<inter> f ` set (g j) = {}" if "j \<in> set is" for j
      using Cons.prems(3) [of i j] Cons.prems(1) that by auto
    then show ?thesis by blast
  qed
  with Cons show ?case by (simp add: image_UN)
qed simp

lemma sorted_concat_index:
  assumes "sorted_wrt Q is" "\<And>i. i \<in> set is \<Longrightarrow> sorted_wrt R (g i)"
    "\<And>i j x y. Q i j \<Longrightarrow> i \<in> set is \<Longrightarrow> j \<in> set is \<Longrightarrow> x \<in> set (g i) \<Longrightarrow> y \<in> set (g j) \<Longrightarrow> R x y"
  shows "sorted_wrt R (concat (map g is))"
  using assms
proof (induction "is")
  case (Cons i "is")
  have "sorted_wrt R (concat (map g is))"
    by (rule Cons.IH) (use Cons.prems in auto)
  with Cons.prems show ?case by (fastforce simp: sorted_wrt_append)
qed simp

lemma ranks_distinct: "distinct (ranks s oss)"
  by (cases s) (simp_all add: ranks_def)

lemma queue_mem:
  assumes e: "erel clean e a"
  shows "r \<in> set (queue s a) \<longleftrightarrow> (\<exists>i<e_n e. r \<in> set (a_books a s ! i))"
  using erel_lengths(1) [OF e, of s] by (auto simp: queue_def occ_def)

lemma level_order:
  assumes "erel clean e a" "i < e_n e" "r \<in> set (a_books a s ! i)"
  shows "view (e_store e) (r_id r) = Some r" "resting_ok False s (e_min e + int i) r" "r_price r = e_min e + int i"
    "r_side r = s" "\<not> r_stop r" "r_qty r \<noteq> 0"
  using level_relD(3,4) [OF erel_level(2) [OF assms(1,2)] assms(3)] by (auto simp: resting_ok_def)

lemma occ_queue: "i \<in> occ (a_books a s) \<Longrightarrow> queue s a \<noteq> []"
  by (auto simp: queue_def occ_def)

lemma queue_at_price:
  assumes e: "erel clean e a" and i: "i < e_n e"
  shows "filter (\<lambda>r. r_price r = e_min e + int i) (queue s a) = a_books a s ! i"
proof -
  have "r_price r = e_min e + int i \<longleftrightarrow> j = i" if "j \<in> set (ranks s (a_books a s))" "r \<in> set (a_books a s ! j)" for j r
  proof -
    have "j < e_n e" using that(1) erel_lengths(1) [OF e, of s] by (auto dest: occ_less)
    from level_order(3) [OF e this that(2)] show ?thesis by auto
  qed
  from filter_concat_index [where g = "(!) (a_books a s)" and i = i and P = "\<lambda>r. r_price r = e_min e + int i",
      OF ranks_distinct this] show ?thesis
    using i erel_lengths(1) [OF e, of s] by (simp add: queue_def occ_def)
qed

lemma queue_off_band:
  assumes e: "erel clean e a" and "\<not> in_band e p"
  shows "filter (\<lambda>r. r_price r = p) (queue s a) = []"
  using level_order(3) [OF e] assms(2) by (auto simp: filter_empty_conv queue_mem [OF e] in_band_def)

lemma queue_sorted:
  assumes e: "erel clean e a"
  shows "sorted_wrt (\<lambda>r r'. case s of Buy \<Rightarrow> r_price r' \<le> r_price r | Sell \<Rightarrow> r_price r \<le> r_price r') (queue s a)"
  unfolding queue_def
proof (rule sorted_concat_index [OF ranks_sorted])
  have less: "i < e_n e" if "i \<in> set (ranks s (a_books a s))" for i
    using that erel_lengths(1) [OF e, of s] by (auto dest: occ_less)
  fix i assume "i \<in> set (ranks s (a_books a s))"
  note px = level_order(3) [OF e less [OF this], where s = s]
  show "sorted_wrt (\<lambda>r r'. case s of Buy \<Rightarrow> r_price r' \<le> r_price r | Sell \<Rightarrow> r_price r \<le> r_price r') (a_books a s ! i)"
    by (rule sorted_wrt_mono_rel [of _ "\<lambda>x y. True"]) (auto simp: px sorted_wrt_iff_nth_less split: Side.splits)
  fix j r r' assume j: "at_least s i j \<and> i \<noteq> j" "j \<in> set (ranks s (a_books a s))"
    "r \<in> set (a_books a s ! i)" "r' \<in> set (a_books a s ! j)"
  with px [OF j(3)] level_order(3) [OF e less [OF j(2)] j(4)] show
    "case s of Buy \<Rightarrow> r_price r' \<le> r_price r | Sell \<Rightarrow> r_price r \<le> r_price r'"
    by (cases s) (auto simp: at_least_def)
qed

section \<open>Aggregates\<close>

lemma depth_sim:
  assumes e: "erel clean e a"
  shows "depth_at e s p = Some (sum_list (map r_qty (filter (\<lambda>r. r_price r = p) (queue s a))))"
    "hidden_at e s p = Some (sum_list (map r_reserve (filter (\<lambda>r. r_price r = p) (queue s a))))"
    "order_count_at e s p = Some (of_nat (length (filter (\<lambda>r. r_price r = p) (queue s a))))"
proof (atomize (full), cases "in_band e p")
  case False
  then show "depth_at e s p = Some (sum_list (map r_qty (filter (\<lambda>r. r_price r = p) (queue s a)))) \<and>
    hidden_at e s p = Some (sum_list (map r_reserve (filter (\<lambda>r. r_price r = p) (queue s a)))) \<and>
    order_count_at e s p = Some (of_nat (length (filter (\<lambda>r. r_price r = p) (queue s a))))"
    using queue_off_band [OF e False, of s] by (simp add: depth_at_def hidden_at_def order_count_at_def)
next
  case True
  note ix = band_index [OF True]
  have "filter (\<lambda>r. r_price r = p) (queue s a) = a_books a s ! idx e p"
    using queue_at_price [OF e ix(1), of s] ix(2) by simp
  with True erel_level(1) [OF e ix(1), of s] level_relD(5-7) [OF erel_level(2) [OF e ix(1), of s]]
  show "depth_at e s p = Some (sum_list (map r_qty (filter (\<lambda>r. r_price r = p) (queue s a)))) \<and>
    hidden_at e s p = Some (sum_list (map r_reserve (filter (\<lambda>r. r_price r = p) (queue s a)))) \<and>
    order_count_at e s p = Some (of_nat (length (filter (\<lambda>r. r_price r = p) (queue s a))))"
    by (simp add: depth_at_def hidden_at_def order_count_at_def)
qed

definition level_view :: "ro list \<Rightarrow> Price \<Rightarrow> Price \<times> Qty \<times> 32 word" where
  "level_view os p = (let here = filter (\<lambda>r. r_price r = p) os
     in (p, sum_list (map r_qty here), of_nat (length here)))"

lemma visit_levels_walk:
  assumes e: "erel clean e a" and t: "tail_of s (a_books a s) is"
  shows "visit_levels s (book_of s e) (e_min e) k (head_index is) =
    Some (map (\<lambda>i. level_view (queue s a) (e_min e + int i)) (take k is))"
  using t
proof (induction k arbitrary: "is")
  case (Suc k)
  show ?case
  proof (cases "is")
    case (Cons i js)
    have i: "i < e_n e"
      using tail_of_Cons(2) [OF Suc.prems [unfolded Cons]] erel_lengths(1) [OF e, of s] by (auto dest: occ_less)
    note lvl = erel_level [OF e i, of s]
    from Suc.IH [OF tail_of_Cons(1) [OF Suc.prems [unfolded Cons]]] lvl(1) level_relD(5,7) [OF lvl(2)]
      next_is_head [OF erel_ladder [OF e] erelD(3) [OF e] Suc.prems [unfolded Cons]] queue_at_price [OF e i, of s]
    show ?thesis by (simp add: Cons level_view_def Let_def)
  qed simp
qed simp

lemma remdups_adj_replicate_append:
  "xs = [] \<or> hd xs \<noteq> x \<Longrightarrow> 0 < k \<Longrightarrow> remdups_adj (replicate k x @ xs) = x # remdups_adj xs"
proof (induction k)
  case (Suc k)
  then show ?case by (cases k; cases xs) auto
qed simp

lemma remdups_adj_blocks:
  assumes "distinct is" "\<And>i. i \<in> set is \<Longrightarrow> g i \<noteq> []" "\<And>i r. i \<in> set is \<Longrightarrow> r \<in> set (g i) \<Longrightarrow> f r = m + int i"
  shows "remdups_adj (map f (concat (map g is))) = map (\<lambda>i. m + int i) is"
  using assms
proof (induction "is")
  case (Cons i "is")
  have rep: "map f (g i) = replicate (length (g i)) (m + int i)"
    using Cons.prems(3) [of i] by (simp add: map_replicate_const [symmetric] cong: map_cong)
  have "map f (concat (map g is)) = [] \<or> hd (map f (concat (map g is))) \<noteq> m + int i"
  proof (cases "is")
    case (Cons j js)
    then obtain r rs where "g j = r # rs" using Cons.prems(2) [of j] by (cases "g j") auto
    with Cons Cons.prems(1,3) show ?thesis by fastforce
  qed simp
  with Cons remdups_adj_replicate_append [of "map f (concat (map g is))" "m + int i" "length (g i)"] rep
  show ?case by simp
qed simp

lemma queue_prices:
  assumes e: "erel clean e a"
  shows "remdups_adj (map r_price (queue s a)) = map (\<lambda>i. e_min e + int i) (ranks s (a_books a s))"
  unfolding queue_def
proof (rule remdups_adj_blocks [OF ranks_distinct])
  fix i assume "i \<in> set (ranks s (a_books a s))"
  then have i: "i < e_n e" "a_books a s ! i \<noteq> []" using erel_lengths(1) [OF e, of s] by (auto simp: occ_def)
  then show "a_books a s ! i \<noteq> []" by simp
  show "r_price r = e_min e + int i" if "r \<in> set (a_books a s ! i)" for r
    using level_order(3) [OF e i(1) that] .
qed

lemma top_levels_sim:
  assumes e: "erel clean e a"
  shows "top_levels e s k = Some (take k (map (level_view (queue s a)) (remdups_adj (map r_price (queue s a)))))"
  unfolding queue_prices [OF e]
  using visit_levels_walk [OF e tail_of_ranks, of s k] erel_best_head [OF e, of s]
  by (simp add: top_levels_def Let_def take_map o_def)

lemma best_price:
  assumes e: "erel clean e a"
  shows "bk_best (book_of s e) \<ge> 0 \<longleftrightarrow> queue s a \<noteq> []"
    "queue s a \<noteq> [] \<Longrightarrow> e_min e + bk_best (book_of s e) = r_price (hd (queue s a))"
proof -
  note bh = erel_best_head [OF e, of s]
  show "bk_best (book_of s e) \<ge> 0 \<longleftrightarrow> queue s a \<noteq> []"
  proof (cases "ranks s (a_books a s)")
    case (Cons i "is")
    then have "a_books a s ! i \<noteq> []" using ranks_set [of s "a_books a s"] by (auto simp: occ_def)
    with Cons bh show ?thesis by (simp add: queue_def)
  qed (use bh in \<open>simp add: queue_def\<close>)
  assume ne: "queue s a \<noteq> []"
  then obtain i "is" where r: "ranks s (a_books a s) = i # is" by (cases "ranks s (a_books a s)") (auto simp: queue_def)
  then have i: "i \<in> occ (a_books a s)" using ranks_set [of s "a_books a s"] by auto
  then obtain x xs where x: "a_books a s ! i = x # xs" by (cases "a_books a s ! i") (auto simp: occ_def)
  have "i < e_n e" using i erel_lengths(1) [OF e, of s] by (auto dest: occ_less)
  from level_order(3) [OF e this, of x s] x r bh show "e_min e + bk_best (book_of s e) = r_price (hd (queue s a))"
    by (simp add: queue_def)
qed

section \<open>Live orders\<close>

definition live_list :: "astate \<Rightarrow> ro list" where
  "live_list a = queue Buy a @ queue Sell a @ stop_queue Buy a @ stop_queue Sell a"

lemma stop_queue_mem:
  assumes e: "erel clean e a"
  shows "r \<in> set (stop_queue s a) \<longleftrightarrow> (\<exists>i<e_n e. r \<in> set (a_stops a s ! i))"
  using erel_lengths(2) [OF e, of s] by (auto simp: stop_queue_def occ_def)

lemma stop_order:
  assumes e: "erel clean e a" and "i < e_n e" "r \<in> set (a_stops a s ! i)"
  shows "view (e_store e) (r_id r) = Some r" "r_stop r" "r_side r = s" "r_price r = e_min e + int i"
proof -
  have "a_stops a s ! i \<in> set (a_stops a s)" using assms(2) erel_lengths(2) [OF e] by simp
  note sl = stop_level [OF e this assms(3)]
  show "view (e_store e) (r_id r) = Some r" by (rule sl(1))
  have ne: "ld_levels (stops_of Buy e) \<noteq> []"
    using erelD(8) [OF e] assms(2,3) by (auto simp: stops_rel_def)
  from level_relD(4) [OF ladder_relD(3) [OF erel_stop_ladder [OF e ne] assms(2)] assms(3)]
  show "r_stop r" "r_side r = s" "r_price r = e_min e + int i" by (simp_all add: resting_ok_def)
qed

lemma live_mem:
  assumes e: "erel clean e a"
  shows "r \<in> set (live_list a) \<longleftrightarrow> view (e_store e) (r_id r) = Some r"
proof -
  have "r \<in> set (live_list a) \<longleftrightarrow> (\<exists>s. \<exists>i<e_n e. r \<in> set (a_books a s ! i) \<union> set (a_stops a s ! i))"
    by (auto simp: live_list_def queue_mem [OF e] stop_queue_mem [OF e] Side_ex)
  also have "\<dots> \<longleftrightarrow> (\<exists>s. \<exists>os\<in>set (a_books a s) \<union> set (a_stops a s). r \<in> set os)"
  proof -
    have "(\<exists>os\<in>set xss \<union> set yss. r \<in> set os) \<longleftrightarrow> (\<exists>i<n. r \<in> set (xss ! i) \<union> set (yss ! i))"
      if "length xss = n" "length yss = n" for xss yss n
      using that unfolding bex_Un bex_set_nth by auto
    from this [OF erel_lengths(1) [OF e] erel_lengths(2) [OF e]] show ?thesis by simp
  qed
  finally show ?thesis unfolding erel_view_order [OF e] by simp
qed

lemma level_distinct:
  assumes "erel clean e a" "i < e_n e"
  shows "distinct (map r_id (a_books a s ! i))" "distinct (map r_id (a_stops a s ! i))"
proof -
  show "distinct (map r_id (a_books a s ! i))" using level_relD(2) [OF erel_level(2) [OF assms]] .
  show "distinct (map r_id (a_stops a s ! i))"
  proof (cases "ld_levels (stops_of Buy e) = []")
    case True
    then show ?thesis using erelD(8) [OF assms(1)] assms(2) by (simp add: stops_rel_def)
  next
    case False
    from level_relD(2) [OF ladder_relD(3) [OF erel_stop_ladder [OF assms(1) False] assms(2)]] show ?thesis .
  qed
qed

lemma same_id_same_order:
  assumes "view (e_store e) (r_id x) = Some x" "view (e_store e) (r_id y) = Some y" "r_id x = r_id y"
  shows "x = y"
  using assms by (metis option.inject)

lemma queue_distinct:
  assumes e: "erel clean e a"
  shows "distinct (map r_id (queue s a))" "distinct (map r_id (stop_queue s a))"
proof -
  have less: "i < e_n e" if "i \<in> occ (a_books a s) \<or> i \<in> occ (a_stops a s)" for i
    using that erel_lengths [OF e, of s] by (auto dest: occ_less)
  show "distinct (map r_id (queue s a))"
    unfolding queue_def
  proof (rule distinct_concat_index [OF ranks_distinct])
    fix i j assume i: "i \<in> set (ranks s (a_books a s))" and j: "j \<in> set (ranks s (a_books a s))" and "i \<noteq> j"
    from level_order(1,3) [OF e less] i j \<open>i \<noteq> j\<close>
    have "False" if "x \<in> set (a_books a s ! i)" "y \<in> set (a_books a s ! j)" "r_id x = r_id y" for x y
      using that same_id_same_order [of e x y]
      by (metis add_left_cancel level_order(1,3) [OF e] less of_nat_eq_iff ranks_set)
    then show "r_id ` set (a_books a s ! i) \<inter> r_id ` set (a_books a s ! j) = {}" by fastforce
  qed (use level_distinct(1) [OF e] less in auto)
  show "distinct (map r_id (stop_queue s a))"
    unfolding stop_queue_def
  proof (rule distinct_concat_index [OF ranks_distinct])
    fix i j assume i: "i \<in> set (ranks (opposite s) (a_stops a s))" and j: "j \<in> set (ranks (opposite s) (a_stops a s))" and "i \<noteq> j"
    have "False" if "x \<in> set (a_stops a s ! i)" "y \<in> set (a_stops a s ! j)" "r_id x = r_id y" for x y
      using that i j \<open>i \<noteq> j\<close> same_id_same_order [of e x y]
      by (metis add_left_cancel stop_order(1,4) [OF e] less of_nat_eq_iff ranks_set)
    then show "r_id ` set (a_stops a s ! i) \<inter> r_id ` set (a_stops a s ! j) = {}" by fastforce
  qed (use level_distinct(2) [OF e] less in auto)
qed

lemma live_distinct:
  assumes e: "erel clean e a"
  shows "distinct (map r_id (live_list a))"
proof -
  have b: "view (e_store e) (r_id r) = Some r \<and> r_side r = s \<and> \<not> r_stop r" if "r \<in> set (queue s a)" for r s
    using that level_order [OF e] by (auto simp: queue_mem [OF e])
  have t: "view (e_store e) (r_id r) = Some r \<and> r_side r = s \<and> r_stop r" if "r \<in> set (stop_queue s a)" for r s
    using that stop_order [OF e] by (auto simp: stop_queue_mem [OF e])
  have dis: "r_id ` A \<inter> r_id ` B = {}" if "\<And>x y. x \<in> A \<Longrightarrow> y \<in> B \<Longrightarrow> r_id x = r_id y \<Longrightarrow> False" for A B
    using that by fastforce
  have "r_id ` set (queue Buy a) \<inter> r_id ` set (queue Sell a) = {}"
    by (rule dis) (use b same_id_same_order in \<open>metis Side.distinct(1)\<close>)
  moreover have "r_id ` set (queue s a) \<inter> r_id ` set (stop_queue u a) = {}" for s u
    by (rule dis) (use b t same_id_same_order in metis)
  moreover have "r_id ` set (stop_queue Buy a) \<inter> r_id ` set (stop_queue Sell a) = {}"
    by (rule dis) (use t same_id_same_order in \<open>metis Side.distinct(1)\<close>)
  ultimately show ?thesis
    using queue_distinct [OF e] by (simp add: live_list_def image_Un Int_Un_distrib)
qed

lemma open_orders_sim:
  assumes e: "erel clean e a"
  shows "open_orders e = length (live_list a)"
proof -
  let ?lk = "lookup (e_store e)"
  note st = store_okD [OF erelD(5) [OF e]]
  have "inj_on (\<lambda>oid. o_addr (the (?lk oid))) (dom ?lk)"
    using exclusiveD(1) [OF st(5)] by (fastforce simp: inj_on_def)
  moreover have "node_addrs ?lk = (\<lambda>oid. o_addr (the (?lk oid))) ` dom ?lk"
    by (force simp: node_addrs_def image_iff)
  ultimately have "card (node_addrs ?lk) = card (dom ?lk)" by (simp add: card_image)
  moreover have "dom ?lk = r_id ` set (live_list a)"
  proof -
    have "dom ?lk = dom (view (e_store e))" by (auto simp: view_def)
    also have "\<dots> = {oid. \<exists>r. view (e_store e) oid = Some r \<and> r_id r = oid}"
      using erelD(9) [OF e] by (auto simp: covered_def)
    also have "\<dots> = r_id ` set (live_list a)" by (auto simp: live_mem [OF e])
    finally show ?thesis .
  qed
  moreover have "open_orders e = card (node_addrs ?lk)"
    using pool.in_use [OF st(1)] st(6) by (simp add: open_orders_def)
  moreover have "card (r_id ` set (live_list a)) = length (live_list a)"
    using distinct_card [OF live_distinct [OF e]] by simp
  ultimately show ?thesis by simp
qed

end
