(* ===== verification/Engine_Invariants.thy ===== *)
theory Engine_Invariants
  imports Match_Facts Market_Data
begin

text \<open>
  The engine as a state machine: the states reached from a new engine by public calls, a
  rule for invariants of them, and the invariants the properties rest on.
\<close>

section \<open>Reached states\<close>

text \<open>States reached from a new engine by calls that satisfy \<open>P\<close>.\<close>

inductive reached :: "(api \<Rightarrow> bool) \<Rightarrow> engine \<Rightarrow> bool" for P where
  new: "0 < chunk \<Longrightarrow> band_ok lo hi \<Longrightarrow> engine_new chunk lo hi expected = Some e \<Longrightarrow> reached P e"
| step: "reached P e \<Longrightarrow> P c \<Longrightarrow> call c e = Some (r, e') \<Longrightarrow> reached P e'"

abbreviation reachable :: "engine \<Rightarrow> bool" where
  "reachable \<equiv> reached (\<lambda>c. True)"

lemma reached_mono: "reached P e \<Longrightarrow> (\<And>c. P c \<Longrightarrow> Q c) \<Longrightarrow> reached Q e"
  by (induction rule: reached.induct) (auto intro: reached.intros)

lemma session_reached:
  assumes "0 < chunk" "band_ok lo hi" "session chunk lo hi expected cs = Some (rs, e)" "\<forall>c\<in>set cs. P c"
  shows "reached P e"
proof -
  obtain e0 where e0: "engine_new chunk lo hi expected = Some e0" "history call cs e0 = Some (rs, e)"
    using assms(3) by (auto simp: session_def bind_eq_Some_conv)
  have "reached P e0" by (rule reached.new [OF assms(1,2) e0(1)])
  with e0(2) assms(4) show ?thesis
  proof (induction cs arbitrary: e0 rs)
    case (Cons c cs)
    then show ?case by (fastforce simp: bind_eq_Some_conv intro: reached.step)
  qed simp
qed

text \<open>An invariant of the abstract calls holds behind every reached state.\<close>

lemma reached_invariant:
  assumes "reached P e"
    and new: "\<And>lo hi. band_ok lo hi \<Longrightarrow> I (astate_new lo hi)"
    and step: "\<And>c e a. P c \<Longrightarrow> refines e a \<Longrightarrow> I a \<Longrightarrow> I (snd (a_call c a))"
  shows "\<exists>a. refines e a \<and> I a"
  using assms(1)
proof (induction rule: reached.induct)
  case (new chunk lo hi expected e)
  with engine_new_refines [of chunk lo hi expected] assms(2) show ?case by (auto simp: band_ok_def)
next
  case (step e c r e')
  then obtain a where a: "refines e a" "I a" by blast
  with call_forward [OF a(1), of c] step(2,3) assms(3) show ?case by fastforce
qed

lemma reached_refines: "reached P e \<Longrightarrow> \<exists>a. refines e a"
  using reached_invariant [where I = "\<lambda>_. True"] by blast

section \<open>The body and the pump\<close>

lemma body_forward:
  assumes "refines e a"
  shows "\<exists>e'. refines e' (snd (a_body c a))"
  by (cases c) (use assms simulatesD [OF body_sims(1)] simulatesD [OF body_sims(2)] simulatesD [OF body_sims(3)]
    simulatesD [OF body_sims(4)] simulatesD [OF body_sims(5)] simulatesD [OF body_sims(6)]
    simulatesD [OF body_sims(7)] simulatesD [OF body_sims(8)] simulatesD [OF halt_sim] in \<open>fastforce\<close>)+

lemma pump_invariant:
  assumes "refines e a" "I a"
    and "\<And>e a s i. refines e a \<Longrightarrow> I a \<Longrightarrow> a_next_stop a = Some (s, i) \<Longrightarrow> I (a_fire s i a)"
  shows "I (a_pump a)"
  using assms(1,2)
proof (induction a arbitrary: e rule: a_pump.induct)
  case (1 a)
  show ?case
  proof (cases "a_next_stop a")
    case (Some si)
    obtain s i where si: "a_next_stop a = Some (s, i)" using Some by (cases si) auto
    obtain e3 where "refines e3 (a_fire s i a)" using fire_sim [OF 1(2) si] by blast
    from 1(1) [OF si refl this] assms(3) [OF 1(2,3) si] si show ?thesis by (subst a_pump.simps) simp
  qed (use 1 in \<open>subst a_pump.simps, simp\<close>)
qed

lemma call_invariant:
  assumes r: "refines e a" and body: "I (snd (a_body c a))"
    and fire: "\<And>e a s i. refines e a \<Longrightarrow> I a \<Longrightarrow> a_next_stop a = Some (s, i) \<Longrightarrow> I (a_fire s i a)"
    and flag: "\<And>a b. I (a\<lparr>a_pumping := b\<rparr>) \<longleftrightarrow> I a"
  shows "I (snd (a_call c a))"
proof -
  obtain e1 where e1: "refines e1 (snd (a_body c a))" using body_forward [OF r] by blast
  from pump_invariant [where I = I, OF refines_pumping [OF e1, of True]] body fire flag
  show ?thesis by (auto simp: a_call_def a_run_def Let_def split: prod.splits)
qed

lemma frame_pump: "a_min (a_pump a) = a_min a \<and> a_n (a_pump a) = a_n a \<and>
    a_pumping (a_pump a) = a_pumping a \<and> a_halted (a_pump a) = a_halted a"
proof (induction a rule: a_pump.induct)
  case (1 a)
  have fr: "frame (a_stop_level s i os a) (a_fire s i a)" if "os = tl (a_stops a s ! i)" for s i os
    unfolding that a_fire_def Let_def by (rule frame_execute)
  show ?case
  proof (cases "a_next_stop a")
    case (Some si)
    obtain s i where si: "a_next_stop a = Some (s, i)" using Some by (cases si) auto
    from 1 [OF si refl] fr [OF refl, of s i] si show ?thesis by (subst (1 2 3 4) a_pump.simps) (simp add: frame_def)
  qed (subst (1 2 3 4) a_pump.simps, simp)
qed

lemma pump_settles: "a_next_stop (a_pump a) = None"
proof (induction a rule: a_pump.induct)
  case (1 a)
  show ?case
  proof (cases "a_next_stop a")
    case (Some si)
    obtain s i where si: "a_next_stop a = Some (s, i)" using Some by (cases si) auto
    with 1 [OF si refl] show ?thesis by (subst a_pump.simps) simp
  qed (subst a_pump.simps, simp)
qed

section \<open>Settled: no pump is running and no armed stop waits\<close>

definition settled :: "astate \<Rightarrow> bool" where
  "settled a \<longleftrightarrow> \<not> a_pumping a \<and> (a_halted a \<or> a_next_stop a = None)"

lemma body_pumping: "a_pumping (snd (a_body c a)) = a_pumping a"
proof (cases c)
  case (SubmitLimit s p q tif ow stp)
  then show ?thesis
    using frame_place [unfolded frame_def]
    by (simp add: a_submit_limit_def a_submit_def a_fresh_def Let_def)
next
  case (SubmitIceberg s p q d tif ow stp)
  then show ?thesis
    using frame_place [unfolded frame_def]
    by (simp add: a_submit_iceberg_def a_submit_def a_fresh_def Let_def)
next
  case (SubmitMarket s q ow stp)
  then show ?thesis
    using frame_match [of "a_emit (Accept (a_next a) s 0 q) (a\<lparr>a_next := Suc (a_next a)\<rparr>)" s "a_next a" q _ ow stp]
    by (simp add: a_submit_market_def a_fresh_def a_match_market_def frame_def Let_def case_prod_beta)
next
  case (SubmitStop s p q ow stp)
  then show ?thesis
    using frame_execute [unfolded frame_def]
    by (simp add: a_submit_stop_def a_fresh_def Let_def a_rest_stop_def)
next
  case (SubmitStopLimit s p l q ow stp)
  then show ?thesis
    using frame_execute [unfolded frame_def]
    by (simp add: a_submit_stop_def a_fresh_def Let_def a_rest_stop_def)
next
  case (CancelOrder oid)
  then show ?thesis by (simp add: a_cancel_def split: option.splits)
next
  case (ReduceOrder oid q)
  then show ?thesis by (simp add: a_reduce_def a_replace_def Let_def split: option.splits)
next
  case (ModifyOrder oid p q)
  then show ?thesis
    using frame_place [unfolded frame_def]
    by (simp add: a_modify_def a_reduce_def a_cancel_def a_replace_def Let_def split: option.splits)
next
  case Uncross
  then show ?thesis
    using cross_frame by (simp add: a_uncross_def frame_def Let_def case_prod_beta split: option.splits)
qed simp_all

lemma a_next_stop_pumping [simp]: "a_next_stop (a\<lparr>a_pumping := b\<rparr>) = a_next_stop a"
  by (simp add: a_next_stop_def Let_def cong: if_cong option.case_cong)

lemma settled_call:
  assumes "settled a"
  shows "settled (snd (a_call c a))"
  using assms body_pumping [of c a] frame_pump pump_settles
  by (auto simp: settled_def a_call_def a_run_def Let_def split: prod.splits)

lemma settled_new: "settled (astate_new lo hi)"
  by (simp add: settled_def astate_new_def Let_def a_next_stop_def)

lemma reached_settled: "reached P e \<Longrightarrow> \<exists>a. refines e a \<and> settled a"
  by (rule reached_invariant [where I = settled and P = P]) (auto intro: settled_new settled_call)

end
