(* ===== verification/Uncrossed.thy ===== *)
theory Uncrossed
  imports Engine_Invariants
begin

text \<open>
  In continuous trading the book never stands crossed: a pass ends with the taker filled,
  stopped by self-trade prevention, or with every level it may trade at empty, and only
  in the last case does the remainder rest.
\<close>

section \<open>How a pass leaves the book\<close>

definition shrink :: "astate \<Rightarrow> astate \<Rightarrow> bool" where
  "shrink a b \<longleftrightarrow> (\<forall>s. occ (a_books b s) \<subseteq> occ (a_books a s))"

lemma shrink_refl [simp]: "shrink a a"
  by (simp add: shrink_def)

lemma shrink_trans: "shrink a b \<Longrightarrow> shrink b c \<Longrightarrow> shrink a c"
  unfolding shrink_def by blast

lemma shrink_same: "a_books b = a_books a \<Longrightarrow> shrink a b"
  by (simp add: shrink_def)

lemma occ_update_subset: "os = [] \<or> oss ! i \<noteq> [] \<Longrightarrow> occ (oss[i := os]) \<subseteq> occ oss"
proof
  fix j assume h: "os = [] \<or> oss ! i \<noteq> []" "j \<in> occ (oss[i := os])"
  then show "j \<in> occ oss" by (cases "j = i") (auto simp: occ_def)
qed

lemma shrink_level:
  "a_books b = (a_books a)(s := (a_books a s)[i := os]) \<Longrightarrow> os = [] \<or> a_books a s ! i \<noteq> [] \<Longrightarrow> shrink a b"
  using occ_update_subset by (simp add: shrink_def)

lemma sweep_empty:
  assumes "a_sweep taker px ts owner stp q os = (q', h, evs, os')"
  shows "os' = [] \<or> os \<noteq> []"
  using assms by (cases os) auto

lemma erel_sound: "erel D e a \<Longrightarrow> i < e_n e \<Longrightarrow> r \<in> set (a_books a s ! i) \<Longrightarrow> sound r"
  using level_relD(4) [OF erel_level(2)] by (blast intro: resting_sound)

lemma match_levels_end:
  "a_match_levels ts taker owner stp is q a = (q', a') \<Longrightarrow> distinct is \<Longrightarrow>
   (\<forall>i\<in>set is. i < length (a_books a (opposite ts))) \<Longrightarrow>
   (\<forall>i\<in>set is. \<forall>r\<in>set (a_books a (opposite ts) ! i). sound r) \<Longrightarrow>
   shrink a a' \<and> (\<forall>j. j \<notin> set is \<longrightarrow> a_books a' (opposite ts) ! j = a_books a (opposite ts) ! j) \<and>
   (q' = 0 \<or> a_stp_halt a' \<or> (\<forall>i\<in>set is. a_books a' (opposite ts) ! i = []))"
proof (induction "is" arbitrary: q a)
  case (Cons i "is")
  let ?ms = "opposite ts"
  show ?case
  proof (cases "q = 0")
    case True
    with Cons.prems(1) show ?thesis by simp
  next
    case False
    obtain q1 h evs os where sw: "a_sweep taker (a_min a + int i) ts owner stp q (a_books a ?ms ! i) = (q1, h, evs, os)"
      and go: "(if a_stp_halt a \<or> h then (q1, a_swept ?ms i (h, evs, os) a)
        else a_match_levels ts taker owner stp is q1 (a_swept ?ms i (h, evs, os) a)) = (q', a')"
      using match_levels_split [OF Cons.prems(1) False] by blast
    let ?a1 = "a_swept ?ms i (h, evs, os) a"
    have i: "i < length (a_books a ?ms)" using Cons.prems(3) by simp
    have s1: "shrink a ?a1" using sweep_empty [OF sw] by (intro shrink_level) auto
    have e1: "q1 = 0 \<or> h \<or> os = []" using a_sweep_ends [OF sw] Cons.prems(4) by simp
    have nth1: "a_books ?a1 ?ms ! j = (if j = i then os else a_books a ?ms ! j)" for j
      using i by simp
    show ?thesis
    proof (cases "a_stp_halt a \<or> h")
      case True
      then have "a' = ?a1" "a_stp_halt a'" using go by (auto simp: a_swept_def)
      with s1 nth1 show ?thesis by simp
    next
      case False
      then have m: "a_match_levels ts taker owner stp is q1 ?a1 = (q', a')" using go by simp
      have "\<forall>j\<in>set is. \<forall>r\<in>set (a_books ?a1 ?ms ! j). sound r" using Cons.prems(2,4) nth1 by auto
      then have IH: "shrink ?a1 a'" "\<forall>j. j \<notin> set is \<longrightarrow> a_books a' ?ms ! j = a_books ?a1 ?ms ! j"
        "q' = 0 \<or> a_stp_halt a' \<or> (\<forall>i\<in>set is. a_books a' ?ms ! i = [])"
        using Cons.IH [OF m] Cons.prems(2,3) by auto
      have "q' = 0" if "q1 = 0" using m that by (cases "is") auto
      moreover have "a_books a' ?ms ! i = os" using IH(2) nth1 Cons.prems(2) by simp
      ultimately show ?thesis using IH e1 False shrink_trans [OF s1 IH(1)] nth1 by auto
    qed
  qed
qed simp

lemma match_end:
  assumes e: "erel clean e a" and l: "limit < e_n e" and m: "a_match ts taker q limit owner stp a = (q', a')"
  shows "shrink a a'" "q' = 0 \<or> a_stp_halt a' \<or>
    (\<forall>i\<in>occ (a_books a' (opposite ts)). \<not> within_limit ts (int i) (int limit))"
proof -
  note n = erelD(2) [OF e] and len = erel_lengths(1) [OF e, of "opposite ts"]
  have rs: "set (reach ts (a_n a) limit) = {i. i < e_n e \<and> within_limit ts (int i) (int limit)}"
    using reach_levels(2) [OF l] n by simp
  have d: "distinct (reach ts (a_n a) limit)" by (cases ts) (simp_all add: reach_def)
  have "shrink a a' \<and> (q' = 0 \<or> a_stp_halt a' \<or> (\<forall>i\<in>set (reach ts (a_n a) limit). a_books a' (opposite ts) ! i = []))"
  proof -
    have "\<forall>i\<in>set (reach ts (a_n a) limit). i < length (a_books a (opposite ts))"
      "\<forall>i\<in>set (reach ts (a_n a) limit). \<forall>r\<in>set (a_books a (opposite ts) ! i). sound r"
      using erel_sound [OF e] len unfolding rs by auto
    from match_levels_end [OF m [unfolded a_match_def] d this] show ?thesis by blast
  qed
  moreover from this have "occ (a_books a' (opposite ts)) \<subseteq> occ (a_books a (opposite ts))"
    by (simp add: shrink_def)
  moreover have "occ (a_books a (opposite ts)) \<subseteq> {i. i < e_n e}" using len by (auto dest: occ_less)
  ultimately show "shrink a a'" "q' = 0 \<or> a_stp_halt a' \<or>
    (\<forall>i\<in>occ (a_books a' (opposite ts)). \<not> within_limit ts (int i) (int limit))"
    unfolding rs by (auto simp: occ_def)
qed

section \<open>Uncrossed books\<close>

definition uncrossed :: "astate \<Rightarrow> bool" where
  "uncrossed a \<longleftrightarrow> (\<forall>i\<in>occ (a_books a Buy). \<forall>j\<in>occ (a_books a Sell). i < j)"

lemma uncrossed_shrink: "uncrossed a \<Longrightarrow> shrink a b \<Longrightarrow> uncrossed b"
  unfolding uncrossed_def shrink_def by blast

lemma rest_uncrossed:
  assumes "uncrossed a" "\<forall>i\<in>occ (a_books a (opposite side)). \<not> within_limit side (int i) (int (a_idx a price))"
  shows "uncrossed (a_rest oid side price q owner stp peak a)"
proof -
  have "occ (a_books (a_rest oid side price q owner stp peak a) side) \<subseteq> insert (a_idx a price) (occ (a_books a side))"
    "occ (a_books (a_rest oid side price q owner stp peak a) (opposite side)) = occ (a_books a (opposite side))"
    by (auto simp: a_rest_def Let_def occ_def nth_list_update split: if_splits)
  with assms show ?thesis
    unfolding uncrossed_def by (cases side) (fastforce simp: within_limit_def not_le)+
qed

lemma uncrossed_books: "a_books b = a_books a \<Longrightarrow> uncrossed b = uncrossed a"
  by (simp add: uncrossed_def)

lemma place_uncrossed:
  assumes r: "refines e a" and b: "in_band e price" and u: "uncrossed a" "\<not> a_halted a"
  shows "uncrossed (a_place oid side price q tif owner stp peak a)"
proof -
  note e = refinesD(1) [OF r] and l = band_index(1) [OF b]
  have ix: "a_idx a price = idx e price" using erelD(1) [OF e] by (simp add: a_idx_def idx_def)
  obtain rem a1 where m: "a_match side oid q (a_idx a price) owner stp a = (rem, a1)" by fastforce
  note me = match_end [OF e l m [unfolded ix]]
  have f: "a_idx a1 price = idx e price"
    using frame_match [of a side oid q "a_idx a price" owner stp] m ix by (simp add: frame_def a_idx_def)
  have u1: "uncrossed a1" by (rule uncrossed_shrink [OF u(1) me(1)])
  have "uncrossed (a_rest oid side price rem owner stp peak a1)" if "rem > 0" "\<not> a_stp_halt a1"
    using me(2) that f by (intro rest_uncrossed [OF u1]) auto
  with m u1 u(2) show ?thesis
    by (auto simp: a_place_def Let_def uncrossed_books [of "a1\<lparr>a_stp_halt := False\<rparr>" a1]
        uncrossed_books [of "a_emit (Cancelled oid) (a1\<lparr>a_stp_halt := False\<rparr>)" a1]
        uncrossed_books [of "a_emit (Cancelled oid) a1" a1])
qed

section \<open>Every call keeps the book uncrossed\<close>

definition continuous :: "astate \<Rightarrow> bool" where
  "continuous a \<longleftrightarrow> uncrossed a \<and> \<not> a_halted a"

lemma remove_shrink: "shrink a (a_remove r a)"
proof -
  have "filter P os = [] \<or> os \<noteq> []" for P and os :: "ro list" by (cases os) auto
  then show ?thesis by (auto simp: a_remove_def Let_def intro: shrink_same shrink_level)
qed

lemma replace_shrink: "shrink a (a_replace r r' a)"
proof -
  have "map f os = [] \<or> os \<noteq> []" for f :: "ro \<Rightarrow> ro" and os by (cases os) auto
  then show ?thesis by (auto simp: a_replace_def Let_def intro: shrink_level)
qed

lemma market_shrink:
  assumes "refines e a"
  shows "shrink a (snd (a_match_market side oid q owner stp a))"
proof -
  note e = refinesD(1) [OF assms]
  have "(if side = Buy then a_n a - 1 else 0) < e_n e" using erelD(2,3) [OF e] by simp
  from match_end(1) [OF e this] show ?thesis unfolding a_match_market_def by (metis prod.collapse)
qed

lemma execute_uncrossed:
  assumes r: "refines e a" and b: "\<not> mkt \<Longrightarrow> in_band e limit" and u: "continuous a"
  shows "continuous (a_execute oid side limit q mkt owner stp a)"
proof -
  have "uncrossed (a_execute oid side limit q mkt owner stp a)"
  proof (cases mkt)
    case True
    from u uncrossed_shrink [OF _ market_shrink [OF r]] True
      uncrossed_books [of "x\<lparr>a_stp_halt := False\<rparr>" x for x] show ?thesis
      by (simp add: a_execute_def continuous_def)
  next
    case False
    with place_uncrossed [OF r b] u show ?thesis by (simp add: a_execute_def continuous_def)
  qed
  with u frame_execute [of a oid side limit q mkt owner stp] show ?thesis by (simp add: continuous_def frame_def)
qed

lemma fire_uncrossed:
  assumes rf: "refines e a" and u: "continuous a" and si: "a_next_stop a = Some (s, i)"
  shows "continuous (a_fire s i a)"
proof -
  let ?b = "a_stop_level s i (tl (a_stops a s ! i)) a"
  have b: "continuous ?b" using u by (simp add: continuous_def uncrossed_def)
  show ?thesis
    by (rule armed_taken [OF rf si refl refl])
       (auto simp: a_fire_def Let_def intro!: execute_uncrossed b)
qed

lemma submit_uncrossed:
  assumes r: "refines e a" and b: "in_band e price" and u: "continuous a"
  shows "continuous (snd (a_submit side price q tif owner stp peak a))"
proof -
  obtain e' a' where f: "a_fresh a = (a_next a, a')" "refines e' a'" "a_halted a' = a_halted a"
    "a_min a' = a_min a" "a_n a' = a_n a" using fresh_refines [OF r] by blast
  have "continuous a'" using u f(1) by (auto simp: a_fresh_def continuous_def uncrossed_def)
  then have u': "continuous (a_emit ev a')" "refines (emit ev e') (a_emit ev a')" for ev
    using refines_emit [OF f(2)] by (simp_all add: continuous_def uncrossed_def)
  have b': "in_band (emit ev e') price" for ev
    using b in_band_sim [OF refinesD(1) [OF r], of price] in_band_sim [OF refinesD(1) [OF u'(2)], where p = price] f(4,5)
    by (simp add: a_in_band_def)
  have pl: "continuous (a_place oid side price q tif owner stp peak (a_emit ev a'))" for oid ev
    using place_uncrossed [OF u'(2) b', of ev] u'(1) frame_place [of "a_emit ev a'" oid side price q tif owner stp peak]
    by (simp add: continuous_def frame_def)
  have "continuous (a_emit ev' (a_emit ev a'))" for ev ev'
    using u'(1) by (simp add: continuous_def uncrossed_def)
  with f(1) pl u'(1) show ?thesis by (simp add: a_submit_def Let_def continuous_def)
qed

lemma continuous_books:
  "continuous a \<Longrightarrow> shrink a b \<Longrightarrow> a_halted b = a_halted a \<Longrightarrow> continuous b"
  unfolding continuous_def using uncrossed_shrink by blast

lemma continuous_fields [simp]:
  "continuous (a_emit ev a) = continuous a" "continuous (a\<lparr>a_pumping := b\<rparr>) = continuous a"
  "continuous (a_stop_level s i os a) = continuous a" "continuous a \<Longrightarrow> continuous (a\<lparr>a_halted := False\<rparr>)"
  "continuous (a\<lparr>a_stp_halt := b\<rparr>) = continuous a" "continuous (a\<lparr>a_next := k\<rparr>) = continuous a"
  by (simp_all add: continuous_def uncrossed_def)

lemma reduce_continuous: "continuous a \<Longrightarrow> continuous (snd (a_reduce oid q a))"
  using remove_shrink replace_shrink
  by (auto simp: a_reduce_def a_replace_def [unfolded Let_def] Let_def intro: continuous_books split: option.splits)

lemma cancel_continuous: "continuous a \<Longrightarrow> continuous (snd (a_cancel oid a))"
  by (auto simp: a_cancel_def intro: continuous_books [OF _ remove_shrink] split: option.splits)

lemma modify_continuous:
  assumes r: "refines e a" and u: "continuous a"
  shows "continuous (snd (a_modify oid p q a))"
proof (cases "a_find oid a")
  case None
  with u show ?thesis by (simp add: a_modify_def)
next
  case (Some x)
  then have "view (e_store e) oid = Some x" using find_sim [OF refinesD(1) [OF r], of oid] by simp
  moreover then obtain ord where "lookup (e_store e) oid = Some ord" by (auto simp: view_lookup)
  ultimately obtain e2 where e2: "refines e2 (a_remove x a)" using remove_refines [OF r] by blast
  let ?b = "a_emit (Accept oid (r_side x) p q) (a_emit (Cancelled oid) (a_remove x a))"
  have b: "continuous ?b"
    by (rule continuous_books [OF u]) (simp_all add: shrink_trans [OF remove_shrink shrink_same])
  have "continuous (a_place oid (r_side x) p q GTC (r_owner x) (r_stp x) (r_peak x) ?b)" if "a_in_band a p"
  proof -
    note rb = refines_emit [OF refines_emit [OF e2], of "Accept oid (r_side x) p q" "Cancelled oid"]
    have "in_band (emit (Accept oid (r_side x) p q) (emit (Cancelled oid) e2)) p"
      using that in_band_sim [OF refinesD(1) [OF rb], of p] by (simp add: a_in_band_def)
    from place_uncrossed [OF rb this] b frame_place show ?thesis by (simp add: continuous_def frame_def)
  qed
  with Some u cancel_continuous [OF u] reduce_continuous [OF u] show ?thesis
    by (simp add: a_modify_def Let_def)
qed

lemma uncross_continuous: "continuous a \<Longrightarrow> a_uncross a = (0, a)"
  using highest_in lowest_in
  by (fastforce simp: a_uncross_def continuous_def uncrossed_def occ_def split: option.splits)

lemma market_continuous:
  assumes r: "refines e a" and u: "continuous a"
  shows "continuous (snd (a_submit_market s q ow stp a))"
proof -
  obtain e' a' where f: "a_fresh a = (a_next a, a')" "refines e' a'" using fresh_refines [OF r] by blast
  have "continuous a'" using u f(1) by (auto simp: a_fresh_def continuous_def uncrossed_def)
  then have "continuous (snd (a_match_market s (a_next a) q ow stp (a_emit ev a')))" for ev
    using market_shrink [OF refines_emit [OF f(2)], of ev s "a_next a" q ow stp]
      frame_match [of "a_emit ev a'"]
    by (auto intro: continuous_books simp: a_match_market_def frame_def shrink_def)
  then show ?thesis using u f(1)
    by (simp add: a_submit_market_def Let_def case_prod_beta continuous_def uncrossed_def)
qed

lemma stop_continuous:
  assumes r: "refines e a" and u: "continuous a"
  shows "continuous (snd (a_submit_stop s p l q m ow stp a))"
proof (cases "\<not> a_in_band a p \<or> q = 0 \<or> (\<not> m \<and> \<not> a_in_band a l)")
  case True
  with u show ?thesis by (auto simp: a_submit_stop_def continuous_def uncrossed_def)
next
  case False
  obtain e' a' where f: "a_fresh a = (a_next a, a')" "refines e' a'" "a_min a' = a_min a" "a_n a' = a_n a"
    using fresh_refines [OF r] by blast
  let ?b = "a_emit (Accept (a_next a) s p q) a'"
  note rb = refines_emit [OF f(2), of "Accept (a_next a) s p q"]
  have b: "continuous ?b" using u f(1) by (auto simp: a_fresh_def continuous_def uncrossed_def)
  have "in_band (emit (Accept (a_next a) s p q) e') l" if "\<not> m"
    using that False in_band_sim [OF refinesD(1) [OF rb], of l] f(3,4) by (simp add: a_in_band_def)
  from execute_uncrossed [OF rb this b] have "continuous (a_execute oid s l q m ow stp ?b)" for oid by blast
  moreover have "continuous (a_rest_stop oid s p l q m ow stp ?b)" for oid
    using b by (simp add: continuous_def uncrossed_def a_rest_stop_def Let_def)
  ultimately show ?thesis using False f(1) by (auto simp: a_submit_stop_def Let_def)
qed

lemma body_continuous:
  assumes r: "refines e a" and u: "continuous a" and c: "c \<noteq> Halt"
  shows "continuous (snd (a_body c a))"
  using c submit_uncrossed [OF r _ u] in_band_sim [OF refinesD(1) [OF r]]
    market_continuous [OF r u] stop_continuous [OF r u] cancel_continuous [OF u] reduce_continuous [OF u]
    modify_continuous [OF r u] uncross_continuous [OF u] u
  by (cases c) (simp_all add: a_submit_limit_def a_submit_iceberg_def)

lemma continuous_new: "continuous (astate_new lo hi)"
proof -
  have "occ (replicate n []) = {}" for n by (auto simp: occ_def)
  then show ?thesis by (simp add: continuous_def uncrossed_def astate_new_def Let_def)
qed

lemma continuous_call:
  assumes "refines e a" "continuous a" "c \<noteq> Halt"
  shows "continuous (snd (a_call c a))"
  by (rule call_invariant [where I = continuous, OF assms(1) body_continuous [OF assms]])
     (simp_all add: fire_uncrossed)

lemma reached_continuous: "reached (\<lambda>c. c \<noteq> Halt) e \<Longrightarrow> \<exists>a. refines e a \<and> continuous a"
  by (rule reached_invariant [where I = continuous and P = "\<lambda>c. c \<noteq> Halt"])
     (auto intro: continuous_new continuous_call)

end
