(* ===== verification/Last_Trade.thy ===== *)
theory Last_Trade
  imports Engine_Invariants
begin

text \<open>
  The last trade price of the engine against the tape: \<^verbatim>\<open>last_px_\<close> is the price of the last
  trade reported, and \<^verbatim>\<open>has_last_\<close> whether there was one.  With it a settled stop pump is stated
  in prices alone.
\<close>

section \<open>Which level is armed\<close>

lemma lowest_occ: "lowest oss = (if occ oss = {} then None else Some (Min (occ oss)))"
proof -
  have fin: "finite (occ oss)" by (rule finite_subset [of _ "{..<length oss}"]) (auto simp: occ_def)
  have "is_min (occ oss) (if occ oss = {} then - 1 else int (Min (occ oss)))"
    using fin Min_in [OF fin] Min_le [OF fin] by (auto simp: is_min_def)
  from lowest_min(1) [OF this] show ?thesis by (simp split: if_splits)
qed

lemma highest_occ: "highest oss = (if occ oss = {} then None else Some (Max (occ oss)))"
proof -
  have fin: "finite (occ oss)" by (rule finite_subset [of _ "{..<length oss}"]) (auto simp: occ_def)
  have "is_max (occ oss) (if occ oss = {} then - 1 else int (Max (occ oss)))"
    using fin Max_in [OF fin] Max_ge [OF fin] by (auto simp: is_max_def)
  from highest_max(1) [OF this] show ?thesis by (simp split: if_splits)
qed

lemma next_stop_none:
  "a_next_stop a = None \<longleftrightarrow> \<not> a_has_last a \<or>
     ((\<forall>i\<in>occ (a_stops a Buy). \<not> a_min a + int i \<le> a_last a) \<and>
      (\<forall>j\<in>occ (a_stops a Sell). \<not> a_min a + int j \<ge> a_last a))"
proof -
  have fin: "finite (occ oss)" for oss :: "ro list list"
    by (rule finite_subset [of _ "{..<length oss}"]) (auto simp: occ_def)
  have lo: "(\<exists>i\<in>occ oss. a_min a + int i \<le> a_last a) \<longleftrightarrow> occ oss \<noteq> {} \<and> a_min a + int (Min (occ oss)) \<le> a_last a"
    for oss :: "ro list list"
    using Min_in [OF fin, of oss] Min_le [OF fin, of _ oss] by fastforce
  have hi: "(\<exists>i\<in>occ oss. a_min a + int i \<ge> a_last a) \<longleftrightarrow> occ oss \<noteq> {} \<and> a_min a + int (Max (occ oss)) \<ge> a_last a"
    for oss :: "ro list list"
    using Max_in [OF fin, of oss] Max_ge [OF fin, of _ oss] by fastforce
  show ?thesis
    using lo [of "a_stops a Buy"] hi [of "a_stops a Sell"]
    by (auto simp: a_next_stop_def Let_def lowest_occ highest_occ)
qed

section \<open>Prints\<close>

text \<open>From \<open>a\<close> to \<open>b\<close> the tape grew, and the last trade price is that of the last new trade, if any.\<close>

definition prints :: "astate \<Rightarrow> astate \<Rightarrow> bool" where
  "prints a b \<longleftrightarrow> (\<exists>evs. a_tape b = a_tape a @ evs \<and> a_has_last b = (a_has_last a \<or> trades evs \<noteq> []) \<and>
     a_last b = (if trades evs = [] then a_last a else t_price (last (trades evs))))"

lemma prints_silent:
  "a_tape b = a_tape a @ evs \<Longrightarrow> trades evs = [] \<Longrightarrow> a_has_last b = a_has_last a \<Longrightarrow> a_last b = a_last a \<Longrightarrow> prints a b"
  by (auto simp: prints_def)

lemma prints_same [intro]:
  "a_tape b = a_tape a \<Longrightarrow> a_has_last b = a_has_last a \<Longrightarrow> a_last b = a_last a \<Longrightarrow> prints a b"
  by (rule prints_silent [of _ _ "[]"]) simp_all

lemma prints_trans: "prints a b \<Longrightarrow> prints b c \<Longrightarrow> prints a c"
  unfolding prints_def by (elim exE conjE, rule_tac x = "evs @ evsa" in exI) auto

lemma prints_cong:
  "a_tape c = a_tape b \<Longrightarrow> a_has_last c = a_has_last b \<Longrightarrow> a_last c = a_last b \<Longrightarrow> prints a c = prints a b"
  by (simp add: prints_def)

lemma prints_rest: "prints a (a_rest oid s p q ow st pk a)"
  by (rule prints_silent [of _ _ "[Rested oid s p (r_qty (new_order oid s p q ow st pk))]"]) (simp_all add: a_rest_def Let_def)

lemma prints_emit: "trades [ev] = [] \<Longrightarrow> prints a (a_emit ev a)"
  by (rule prints_silent [of _ _ "[ev]"]) simp_all

text \<open>A swept level prints at its own price.\<close>

lemma prints_swept:
  assumes "a_sweep taker (a_min a + int i) ts owner stp q os = (q1, res)"
  shows "prints a (a_swept s i res a)"
proof -
  obtain h evs os' where res: "res = (h, evs, os')" by (rule prod_cases3)
  have "t_price t = a_min a + int i" if "t \<in> set (trades evs)" for t
    using sweep_events [OF assms [unfolded res], of "Traded t"] that by (simp add: trades_mem)
  then have "t_price (last (trades evs)) = a_min a + int i" if "trades evs \<noteq> []" using that by simp
  then show ?thesis unfolding prints_def by (intro exI [of _ evs]) (auto simp: res a_swept_def no_trades)
qed

lemma prints_match_levels: "prints a (snd (a_match_levels ts taker owner stp is q a))"
proof (induction "is" arbitrary: q a)
  case (Cons i "is")
  show ?case
  proof (cases "q = 0")
    case False
    obtain q1 res where sw: "a_sweep taker (a_min a + int i) ts owner stp q (a_books a (opposite ts) ! i) = (q1, res)"
      by (rule prod.exhaust)
    with prints_swept [OF sw, of "opposite ts"] prints_trans [OF _ Cons.IH] False show ?thesis
      by (auto simp: Let_def)
  qed auto
qed auto

lemma prints_match: "prints a (snd (a_match ts taker q limit owner stp a))"
  unfolding a_match_def by (rule prints_match_levels)

lemma prints_match_market: "prints a (snd (a_match_market ts taker q owner stp a))"
  unfolding a_match_market_def by (rule prints_match)

lemma prints_place: "prints a (a_place oid s p q tif ow st pk a)"
proof (cases "a_halted a")
  case False
  obtain rem a1 where m: "a_match s oid q (a_idx a p) ow st a = (rem, a1)" by (rule prod.exhaust)
  have 1: "prints a a1" using prints_match [of a s oid q "a_idx a p" ow st] m by simp
  have "prints a1 (a_emit (Cancelled oid) (a1\<lparr>a_stp_halt := False\<rparr>))" "prints a1 (a_emit (Cancelled oid) a1)"
    "prints a1 (a1\<lparr>a_stp_halt := False\<rparr>)" "prints a1 (a_rest oid s p rem ow st pk a1)"
    using prints_rest by (auto intro: prints_silent [of _ _ "[Cancelled oid]"])
  with 1 False m show ?thesis by (auto simp: a_place_def Let_def intro: prints_trans)
qed (simp add: a_place_def prints_rest)

lemma prints_execute: "prints a (a_execute oid s l q mkt ow st a)"
  using prints_place prints_match_market [of a] by (simp add: a_execute_def prints_cong [of "_\<lparr>a_stp_halt := False\<rparr>"])

lemma prints_fire: "prints a (a_fire s i a)"
  unfolding a_fire_def Let_def by (rule prints_trans [OF prints_same prints_execute]) simp_all

lemma prints_pump: "prints a (a_pump a)"
proof (induction a rule: a_pump.induct)
  case (1 a)
  show ?case
  proof (cases "a_next_stop a")
    case (Some si)
    obtain s i where si: "a_next_stop a = Some (s, i)" using Some by (cases si) auto
    from prints_trans [OF prints_fire 1 [OF si refl]] si show ?thesis by (subst a_pump.simps) simp
  qed (subst a_pump.simps, auto)
qed

text \<open>So does every match of the auction.\<close>

lemma prints_cross_step: "prints a (a_cross_step i j f p a)"
proof -
  have f: "trades (fst (a_auction_fill f p os)) = []" for os by (simp add: a_auction_fill_def Let_def)
  have c: "prints b (a_clip s k f p b)" for s k b
    by (rule prints_silent [OF _ f [of "a_books b s ! k"]]) (simp_all add: a_clip_def case_prod_beta)
  let ?t = "\<lparr>t_taker = r_id (hd (a_books a Buy ! i)), t_maker = r_id (hd (a_books a Sell ! j)), t_price = p, t_qty = f, t_side = Buy\<rparr>"
  have "prints a (a_emit (Traded ?t) (a\<lparr>a_last := p, a_has_last := True\<rparr>))"
    unfolding prints_def by (rule exI [of _ "[Traded ?t]"]) simp
  from prints_trans [OF this prints_trans [OF c c]] show ?thesis by (simp add: a_cross_step_def Let_def)
qed

lemma prints_cross: "prints a (snd (a_cross k p c a))"
proof (induction k p c a rule: a_cross.induct)
  case (1 k p c a)
  show ?case
  proof (cases "\<exists>i j. highest (a_books a Buy) = Some i \<and> lowest (a_books a Sell) = Some j")
    case True
    then obtain i j where ij: "highest (a_books a Buy) = Some i" "lowest (a_books a Sell) = Some j" by blast
    let ?bq = "ro_total (hd (a_books a Buy ! i))" and ?aq = "ro_total (hd (a_books a Sell ! j))"
    let ?f = "if ?bq < ?aq then ?bq else ?aq"
    show ?thesis
    proof (cases "k \<le> i \<and> j \<le> k \<and> ?f \<noteq> 0")
      case go: True
      have "a_cross k p c a = a_cross k p (c + ?f) (a_cross_step i j ?f p a)"
        using ij go by (subst a_cross.simps) (simp add: Let_def split del: if_split)
      with prints_trans [OF prints_cross_step 1 [OF refl ij refl refl refl go]] show ?thesis by simp
    next
      case False
      then have "a_cross k p c a = (c, a)" using ij by (subst a_cross.simps) (auto simp: Let_def)
      then show ?thesis by auto
    qed
  next
    case False
    then have "a_cross k p c a = (c, a)" by (subst a_cross.simps) (auto split: option.splits)
    then show ?thesis by auto
  qed
qed

section \<open>Calls\<close>

lemma prints_submit: "prints a (snd (a_submit s p q tif ow st pk a))"
proof -
  let ?a = "a_emit (Accept (a_next a) s p q) (a\<lparr>a_next := Suc (a_next a)\<rparr>)"
  have 1: "prints a ?a" by (rule prints_silent [of _ _ "[Accept (a_next a) s p q]"]) simp_all
  have "prints ?a (a_emit (Cancelled (a_next a)) ?a)" by (rule prints_emit) simp
  with 1 prints_rest [of ?a] prints_place [of ?a] show ?thesis
    by (auto simp: a_submit_def a_fresh_def Let_def intro: prints_trans)
qed

lemma prints_remove: "prints a (a_remove r a)" "prints a (a_replace r r' a)"
  by (auto simp: a_remove_def a_replace_def Let_def)

lemma prints_reject: "prints a (a_emit (Rejected i) a)" "prints a (a_emit (Cancelled i) a)"
  by (rule prints_emit, simp)+

lemma prints_amend: "prints a (snd (a_cancel oid a))" "prints a (snd (a_reduce oid d a))"
  using prints_trans [OF prints_remove(1) prints_reject(2)] prints_remove
  by (auto simp: a_cancel_def a_reduce_def Let_def split: option.splits)

lemma prints_modify: "prints a (snd (a_modify oid p q a))"
proof -
  have "prints a (a_emit (Accept oid s p q) (a_emit (Cancelled oid) (a_remove r a)))" for s r
    by (rule prints_trans [OF prints_trans [OF prints_remove(1) prints_reject(2)] prints_emit]) simp
  with prints_trans [OF this prints_place] prints_amend show ?thesis
    by (auto simp: a_modify_def Let_def split: option.splits)
qed

lemma prints_market: "prints a (snd (a_submit_market s q ow st a))"
proof -
  let ?a = "a_emit (Accept (a_next a) s 0 q) (a\<lparr>a_next := Suc (a_next a)\<rparr>)"
  have "prints a ?a" by (rule prints_silent [of _ _ "[Accept (a_next a) s 0 q]"]) simp_all
  from prints_trans [OF this prints_match_market] prints_reject show ?thesis
    by (simp add: a_submit_market_def a_fresh_def Let_def case_prod_beta prints_cong [of "_\<lparr>a_stp_halt := False\<rparr>"])
qed

lemma prints_stop: "prints a (snd (a_submit_stop s p l q mkt ow st a))"
proof -
  let ?a = "a_emit (Accept (a_next a) s p q) (a\<lparr>a_next := Suc (a_next a)\<rparr>)"
  have 1: "prints a ?a" by (rule prints_silent [of _ _ "[Accept (a_next a) s p q]"]) simp_all
  have "prints ?a (a_rest_stop oid s p l q mkt ow st ?a)" for oid by (auto simp: a_rest_stop_def Let_def)
  with prints_trans [OF 1] prints_execute [of ?a] prints_reject(1) show ?thesis
    by (auto simp: a_submit_stop_def a_fresh_def Let_def)
qed

lemma prints_uncross: "prints a (snd (a_uncross a))"
  using prints_cross by (auto simp: a_uncross_def Let_def case_prod_beta split: option.splits)

lemma prints_body: "prints a (snd (a_body c a))"
proof (cases c)
  case (SubmitLimit s p q tif ow st)
  then show ?thesis using prints_submit prints_reject(1) by (simp add: a_submit_limit_def)
next
  case (SubmitIceberg s p q d tif ow st)
  then show ?thesis using prints_submit prints_reject(1) by (simp add: a_submit_iceberg_def)
qed (auto simp: prints_market prints_stop prints_amend prints_modify prints_uncross)

lemma prints_call: "prints a (snd (a_call c a))"
proof -
  obtain r b where b: "a_body c a = (r, b)" by (rule prod.exhaust)
  have 1: "prints a b" using prints_body [of a c] b by simp
  have "prints b ((a_pump (b\<lparr>a_pumping := True\<rparr>))\<lparr>a_pumping := False\<rparr>)"
    using prints_trans [OF prints_same prints_trans [OF prints_pump [of "b\<lparr>a_pumping := True\<rparr>"] prints_same]] by simp
  with 1 b show ?thesis by (auto simp: a_call_def a_run_def Let_def intro: prints_trans)
qed

section \<open>Nodes of pending stops\<close>

lemma node_stop:
  assumes "erel clean e a" "r \<in> set (stop_queue s a)"
  shows "\<exists>ord. lookup (e_store e) (r_id r) = Some ord \<and> flag ord kStopPending \<and> o_side ord = s"
proof -
  obtain i where i: "i < e_n e" "r \<in> set (a_stops a s ! i)" using assms stop_queue_mem by blast
  note o = stop_order [OF assms(1) i]
  show ?thesis by (rule view_node [OF erelD(5) [OF assms(1)] o(1)]) (use o in auto)
qed

lemma stop_node:
  assumes "erel clean e a" "lookup (e_store e) oid = Some ord" "flag ord kStopPending"
  shows "\<exists>r. r \<in> set (stop_queue (o_side ord) a) \<and> r_id r = oid \<and> r_price r = o_price ord"
proof -
  define r where "r = ro_of (st_extras (e_store e)) ord"
  have v: "view (e_store e) oid = Some r" using assms(2) by (simp add: view_lookup r_def)
  have f: "r_stop r" "r_side r = o_side ord" "r_price r = o_price ord"
    using assms(3) by (simp_all add: r_def ro_of_def)
  have id: "r_id r = oid"
    by (rule view_node [OF erelD(5) [OF assms(1)] v])
  have "r \<in> set (live_list a)" using live_mem [OF assms(1)] v id by simp
  moreover have "r \<notin> set (queue s a)" for s
    using f(1) level_order(5) [OF assms(1)] queue_mem [OF assms(1)] by blast
  ultimately obtain s where s: "r \<in> set (stop_queue s a)" by (auto simp: live_list_def)
  then obtain i where i: "i < e_n e" "r \<in> set (a_stops a s ! i)" using stop_queue_mem [OF assms(1)] by blast
  have "s = o_side ord" using stop_order(3) [OF assms(1) i] f(2) by simp
  with s f id show ?thesis by blast
qed

section \<open>The last trade of a reached engine\<close>

definition last_is_printed :: "astate \<Rightarrow> bool" where
  "last_is_printed a \<longleftrightarrow> (a_has_last a \<longleftrightarrow> trades (a_tape a) \<noteq> []) \<and>
     (trades (a_tape a) \<noteq> [] \<longrightarrow> a_last a = t_price (last (trades (a_tape a))))"

lemma last_is_printed_call: "last_is_printed a \<Longrightarrow> last_is_printed (snd (a_call c a))"
  using prints_call [of a c] by (auto simp: prints_def last_is_printed_def)

lemma last_is_printed_new: "last_is_printed (astate_new lo hi)"
  by (simp add: last_is_printed_def astate_new_def Let_def)

text \<open>Where a settled engine with a trade leaves its stops: strictly on the far side of it.\<close>

lemma reached_stops_wait:
  assumes "reached P e" "\<not> e_halted e"
  shows "\<exists>a. refines e a \<and> last_is_printed a \<and> (trades (a_tape a) \<noteq> [] \<longrightarrow> (\<forall>s. \<forall>r\<in>set (stop_queue s a).
    (case s of Buy \<Rightarrow> t_price (last (trades (a_tape a))) < r_price r | Sell \<Rightarrow> r_price r < t_price (last (trades (a_tape a))))))"
proof -
  have "\<exists>a. refines e a \<and> (settled a \<and> last_is_printed a)"
    by (rule reached_invariant [OF assms(1)]) (auto intro: settled_new settled_call last_is_printed_call last_is_printed_new)
  then obtain a where a: "refines e a" "settled a" "last_is_printed a" by blast
  note e = refinesD(1) [OF a(1)]
  have n: "a_next_stop a = None" using a(2) assms(2) erelD(14) [OF e] by (simp add: settled_def)
  have "case s of Buy \<Rightarrow> a_last a < r_price r | Sell \<Rightarrow> r_price r < a_last a"
    if t: "trades (a_tape a) \<noteq> []" and r: "r \<in> set (stop_queue s a)" for s r
  proof -
    obtain i where i: "i < e_n e" "r \<in> set (a_stops a s ! i)" using r stop_queue_mem [OF e] by blast
    then have "i \<in> occ (a_stops a s)" using erel_lengths(2) [OF e, of s] by (auto simp: occ_def)
    moreover have "r_price r = a_min a + int i" using stop_order(4) [OF e i] erelD(1) [OF e] by simp
    ultimately show ?thesis using n a(3) t unfolding next_stop_none last_is_printed_def by (cases s) fastforce+
  qed
  with a show ?thesis unfolding last_is_printed_def by metis
qed

end
