(* ===== verification/Engine_Properties.thy ===== *)
theory Engine_Properties
  imports Uncrossed Last_Trade
begin

text \<open>
  The properties of the matching engine as a whole: it is the abstract book under every
  history of public calls, its market data agree with the orders it holds, its book never
  stands crossed in continuous trading, and no armed stop is ever left waiting.
\<close>

section \<open>A session to evaluate on\<close>

definition demo :: "api list" where
  "demo = [SubmitLimit Sell 4 10 GTC 0 CancelTaker, SubmitIceberg Sell 5 9 4 GTC 0 CancelTaker,
     SubmitStop Buy 5 3 0 CancelTaker, SubmitLimit Buy 4 6 GTC 0 CancelTaker,
     SubmitLimit Buy 2 7 GTC 0 CancelTaker]"

lemma demo_band: "band_ok 1 6"
  by (simp add: band_ok_def)

lemma demo_session:
  "\<exists>e. session 2 1 6 1 demo = Some (fst (a_session 1 6 demo), e) \<and> refines e (snd (a_session 1 6 demo)) \<and>
     reached (\<lambda>c. c \<noteq> Halt) e \<and> reachable e"
proof -
  obtain e where e: "session 2 1 6 1 demo = Some (fst (a_session 1 6 demo), e)" "refines e (snd (a_session 1 6 demo))"
    using session_refines [of 2 1 6 1 demo] demo_band by auto
  moreover have "\<forall>c\<in>set demo. c \<noteq> Halt" by (simp add: demo_def)
  ultimately show ?thesis
    using session_reached [OF _ demo_band e(1), of "\<lambda>c. c \<noteq> Halt"] session_reached [OF _ demo_band e(1), of "\<lambda>c. True"] by auto
qed

lemma demo_abstract:
  "fst (a_session 1 6 demo) = [RId 1, RId 2, RId 3, RId 4, RId 5]"
  "a_tape (snd (a_session 1 6 demo)) =
     [Accept 1 Sell 4 10, Rested 1 Sell 4 10, Accept 2 Sell 5 9, Rested 2 Sell 5 4, Accept 3 Buy 5 3,
      Accept 4 Buy 4 6, Traded \<lparr>t_taker = 4, t_maker = 1, t_price = 4, t_qty = 6, t_side = Buy\<rparr>,
      Accept 5 Buy 2 7, Rested 5 Buy 2 7]"
  by code_simp+

section \<open>The engine is its abstract book\<close>

text \<open>C1. Every finite history of public calls on a new engine (any mix of submissions, cancels,
  amendments, halts and uncrosses, with any arguments) runs to the end: no call reads or
  writes outside a vector, follows a dead node, or loops for ever.  Its replies and the
  sequence of handler events it produces are exactly those of the abstract engine, which
  has neither pool, id map, bitmap, cached best nor aggregates, only queues of orders.\<close>

theorem engine_implements_book:
  assumes "0 < chunk" "band_ok lo hi"
  shows "\<exists>e. session chunk lo hi expected cs = Some (fst (a_session lo hi cs), e) \<and>
    e_tape e = a_tape (snd (a_session lo hi cs))"
proof -
  obtain e where "session chunk lo hi expected cs = Some (fst (a_session lo hi cs), e)"
    "refines e (snd (a_session lo hi cs))"
    using session_refines [OF assms] by blast
  then show ?thesis using erelD(16) [OF refinesD(1)] by auto
qed

theorem engine_implements_book_witness:
  "\<exists>e. session 2 1 6 1 demo = Some ([RId 1, RId 2, RId 3, RId 4, RId 5], e) \<and>
     Traded \<lparr>t_taker = 4, t_maker = 1, t_price = 4, t_qty = 6, t_side = Buy\<rparr> \<in> set (e_tape e)"
  using engine_implements_book [of 2 1 6 1 demo] demo_band by (auto simp: demo_abstract)

section \<open>Market data\<close>

text \<open>C9. At every reachable state the order walk of a side lists its resting orders best price
  first, each order once, and the cached aggregates agree with it: \<^verbatim>\<open>depth_at\<close> is the sum
  and \<^verbatim>\<open>order_count_at\<close> the number of the listed orders at a price, and \<^verbatim>\<open>top_levels\<close> groups
  the list by price.\<close>

theorem market_data_consistent:
  assumes "reachable e"
  shows "\<exists>os. visit_orders e s = Some os \<and> distinct (map fst os) \<and>
    sorted_wrt (\<lambda>(_, _, p, _) (_, _, p', _). case s of Buy \<Rightarrow> p' \<le> p | Sell \<Rightarrow> p \<le> p') os \<and>
    (\<forall>p. depth_at e s p = Some (sum_list (map (\<lambda>(_, _, _, q). q) (filter (\<lambda>(_, _, p', _). p' = p) os))) \<and>
         order_count_at e s p = Some (of_nat (length (filter (\<lambda>(_, _, p', _). p' = p) os)))) \<and>
    (\<forall>k. top_levels e s k = Some (take k (map (\<lambda>p.
         (p, sum_list (map (\<lambda>(_, _, _, q). q) (filter (\<lambda>(_, _, p', _). p' = p) os)),
          of_nat (length (filter (\<lambda>(_, _, p', _). p' = p) os))))
       (remdups_adj (map (\<lambda>(_, _, p, _). p) os)))))"
proof -
  obtain a where "refines e a" using reached_refines [OF assms] by blast
  note e = refinesD(1) [OF this]
  have "map fst (map shown (queue s a)) = map r_id (queue s a)" by (simp add: shown_def)
  moreover have "sorted_wrt (\<lambda>(_, _, p, _) (_, _, p', _). case s of Buy \<Rightarrow> p' \<le> p | Sell \<Rightarrow> p \<le> p') (map shown (queue s a))"
    using queue_sorted [OF e, of s] by (simp add: sorted_wrt_map shown_def cong: Side.case_cong)
  moreover have "filter (\<lambda>(_, _, p', _). p' = p) (map shown os) = map shown (filter (\<lambda>r. r_price r = p) os)" for p os
    by (induction os) (auto simp: shown_def)
  moreover have "map (\<lambda>(_, _, _, q). q) (map shown os) = map r_qty os" "map (\<lambda>(_, _, p, _). p) (map shown os) = map r_price os" for os
    by (auto simp: shown_def)
  ultimately show ?thesis
    using visit_orders_sim [OF e, of s] queue_distinct(1) [OF e, of s] depth_sim(1,3) [OF e, of s] top_levels_sim [OF e, of s]
    by (simp add: level_view_def [abs_def] Let_def del: map_map)
qed

theorem market_data_consistent_witness:
  "\<exists>e os. reachable e \<and> visit_orders e Sell = Some os \<and> distinct (map fst os)"
  using demo_session market_data_consistent [where s = Sell] by blast

text \<open>C10. Every order a walk shows is well formed: its id is a live one the engine has given out,
  its side is the side walked, its price lies in the band and its displayed quantity is not
  zero; and the node the id names is a resting order of exactly that side, price and
  quantity.\<close>

theorem shown_orders_well_formed:
  assumes "reachable e"
  shows "\<exists>os. visit_orders e s = Some os \<and>
    (\<forall>(oid, side, price, qty)\<in>set os. side = s \<and> in_band e price \<and> qty \<noteq> 0 \<and>
       oid \<noteq> kInvalidOrderId \<and> oid < length (st_orders (e_store e)) \<and>
       (\<exists>ord. lookup (e_store e) oid = Some ord \<and> o_id ord = oid \<and> o_side ord = side \<and> o_price ord = price \<and>
          o_qty ord = qty \<and> \<not> flag ord kStopPending))"
proof -
  obtain a where "refines e a" using reached_refines [OF assms] by blast
  note e = refinesD(1) [OF this]
  have "r_side r = s \<and> in_band e (r_price r) \<and> r_qty r \<noteq> 0 \<and> r_id r \<noteq> kInvalidOrderId \<and> r_id r < length (st_orders (e_store e)) \<and>
       (\<exists>ord. lookup (e_store e) (r_id r) = Some ord \<and> o_id ord = r_id r \<and> o_side ord = r_side r \<and> o_price ord = r_price r \<and>
          o_qty ord = r_qty r \<and> \<not> flag ord kStopPending)" if q: "r \<in> set (queue s a)" for r
  proof -
    obtain i where i: "i < e_n e" "r \<in> set (a_books a s ! i)"
      using q queue_mem [OF e] by auto
    note l = level_order [OF e i]
    obtain ord where ord: "lookup (e_store e) (r_id r) = Some ord" "o_id ord = r_id r" "o_qty ord = r_qty r" "o_side ord = r_side r"
      "o_price ord = r_price r" "flag ord kStopPending = r_stop r"
      by (rule view_node [OF erelD(5) [OF e] l(1)]) blast
    moreover have "r_id r < length (st_orders (e_store e))" using ord(1) by (auto simp: lookup_def split: if_splits)
    moreover have "r_id r \<noteq> kInvalidOrderId" 
      using ord(1) store_okD(3) [OF erelD(5) [OF e]] by (metis kInvalidOrderId_def option.distinct(1))
    ultimately show ?thesis using l i(1) by (auto simp: in_band_def)
  qed
  then have "\<forall>x\<in>set (map shown (queue s a)). case x of (oid, side, price, qty) \<Rightarrow> side = s \<and> in_band e price \<and> qty \<noteq> 0 \<and>
       oid \<noteq> kInvalidOrderId \<and> oid < length (st_orders (e_store e)) \<and>
       (\<exists>ord. lookup (e_store e) oid = Some ord \<and> o_id ord = oid \<and> o_side ord = side \<and> o_price ord = price \<and>
          o_qty ord = qty \<and> \<not> flag ord kStopPending)"
    unfolding set_map ball_simps shown_def prod.case by blast
  with visit_orders_sim [OF e, of s] show ?thesis by blast
qed

theorem shown_orders_well_formed_witness: "\<exists>e os. reachable e \<and> visit_orders e Buy = Some os"
proof -
  obtain e where "reachable e" using demo_session by blast
  with shown_orders_well_formed [OF this, of Buy] show ?thesis by blast
qed

text \<open>C11. The quote of a side, taken from the cached best index, is the price of the first order of
  the side's order walk, and the side has a quote exactly if it has an order.\<close>

theorem best_quote_correct:
  assumes "reachable e"
  shows "\<exists>bids asks. visit_orders e Buy = Some bids \<and> visit_orders e Sell = Some asks \<and>
    (has_bid e \<longleftrightarrow> bids \<noteq> []) \<and> (bids \<noteq> [] \<longrightarrow> best_bid e = (case hd bids of (_, _, p, _) \<Rightarrow> p)) \<and>
    (has_ask e \<longleftrightarrow> asks \<noteq> []) \<and> (asks \<noteq> [] \<longrightarrow> best_ask e = (case hd asks of (_, _, p, _) \<Rightarrow> p))"
proof -
  obtain a where "refines e a" using reached_refines [OF assms] by blast
  note e = refinesD(1) [OF this]
  have "(case hd (map shown os) of (_, _, p, _) \<Rightarrow> p) = r_price (hd os)" if "os \<noteq> []" for os
    using that by (cases os) (auto simp: shown_def)
  with best_price [OF e, of Buy] best_price [OF e, of Sell] visit_orders_sim [OF e]
  show ?thesis by (simp add: has_bid_def has_ask_def best_bid_def best_ask_def book_of_sides)
qed

theorem best_quote_correct_witness: "\<exists>e bids. reachable e \<and> visit_orders e Buy = Some bids"
  using demo_session best_quote_correct by blast

text \<open>C12. \<^verbatim>\<open>open_orders\<close>, the number of pool nodes in use, is the number of resting orders of
  both sides plus the number of pending stops; \<^verbatim>\<open>pending_stops\<close> counts the latter; no order id
  is live twice.  So no node is leaked or freed twice by any sequence of operations.\<close>

theorem open_orders_correct:
  assumes "reachable e"
  shows "\<exists>bids asks stops. visit_orders e Buy = Some bids \<and> visit_orders e Sell = Some asks \<and>
    visit_stops e = Some stops \<and> open_orders e = length bids + length asks + length stops \<and>
    e_pending_stops e = length stops \<and> distinct (map fst bids @ map fst asks @ stops)"
proof -
  obtain a where "refines e a" using reached_refines [OF assms] by blast
  note e = refinesD(1) [OF this]
  have len: "length (stop_queue s a) = sum_list (map length (a_stops a s))" for s
  proof -
    let ?all = "case opposite s of Buy \<Rightarrow> rev [0..<length (a_stops a s)] | Sell \<Rightarrow> [0..<length (a_stops a s)]"
    have "stop_queue s a = concat (map (\<lambda>i. a_stops a s ! i) ?all)"
      unfolding stop_queue_def ranks_def by (rule concat_filter_nonempty)
    then show ?thesis
      by (cases s) (simp_all add: length_concat map_nth rev_map [symmetric] sum_list_rev)
  qed
  have "fst ` shown ` A = r_id ` A" "map fst (map shown os) = map r_id os" for A os
    by (simp_all add: shown_def image_image)
  with visit_orders_sim [OF e] visit_stops_sim [OF e] open_orders_sim [OF e] live_distinct [OF e] erelD(10) [OF e] len
  show ?thesis by (simp add: live_list_def stop_count_def del: map_map)
qed

theorem open_orders_correct_witness: "\<exists>e stops. reachable e \<and> visit_stops e = Some stops \<and> e_pending_stops e = length stops"
  using demo_session open_orders_correct by blast

section \<open>Trading\<close>

text \<open>C6. In continuous trading (no call has halted the engine) the book never stands crossed or
  locked: whenever both sides have a quote, the best bid is below the best ask.\<close>

theorem never_crossed:
  assumes "reached (\<lambda>c. c \<noteq> Halt) e" "has_bid e" "has_ask e"
  shows "best_bid e < best_ask e"
proof -
  obtain a where a: "refines e a" "continuous a" using reached_continuous [OF assms(1)] by blast
  note b = erel_best [OF refinesD(1) [OF a(1)]]
  have "nat (bk_best (book_of s e)) \<in> occ (a_books a s)" if "bk_best (book_of s e) \<ge> 0" for s
    using best_rel_in [OF b that] by simp
  from this [of Buy] this [of Sell] a(2) assms(2,3)
  have "nat (bk_best (e_bids e)) < nat (bk_best (e_asks e))"
    unfolding continuous_def uncrossed_def has_bid_def has_ask_def book_of_sides by blast
  with assms(2,3) show ?thesis by (simp add: has_bid_def has_ask_def best_bid_def best_ask_def)
qed

theorem never_crossed_witness:
  "\<exists>e. session 2 1 6 1 demo = Some (fst (a_session 1 6 demo), e) \<and> best_bid e < best_ask e"
proof -
  obtain e where e: "session 2 1 6 1 demo = Some (fst (a_session 1 6 demo), e)"
    "refines e (snd (a_session 1 6 demo))" "reached (\<lambda>c. c \<noteq> Halt) e"
    using demo_session by blast
  have "a_books (snd (a_session 1 6 demo)) Buy ! 1 \<noteq> []" "a_books (snd (a_session 1 6 demo)) Sell ! 3 \<noteq> []"
    "length (a_books (snd (a_session 1 6 demo)) Buy) = 6" "length (a_books (snd (a_session 1 6 demo)) Sell) = 6"
    by code_simp+
  then have "1 \<in> occ (a_books (snd (a_session 1 6 demo)) Buy)" "3 \<in> occ (a_books (snd (a_session 1 6 demo)) Sell)"
    by (simp_all add: occ_def)
  then have "has_bid e" "has_ask e"
    using best_price(1) [OF refinesD(1) [OF e(2)]] occ_queue unfolding has_bid_def has_ask_def book_of_sides by blast+
  with never_crossed [OF e(3)] e(1) show ?thesis by blast
qed

text \<open>C7. When a public call returns and the engine is not halted, no armed stop waits: the stop walk
  lists exactly the live orders that are pending stops, and once the tape shows a trade, every
  pending buy stop has its stop price strictly above the price of the last trade on the tape and
  every pending sell stop strictly below it.\<close>

theorem no_armed_stop_waits:
  assumes "reachable e" "\<not> e_halted e"
  shows "\<exists>stops. visit_stops e = Some stops \<and>
    (\<forall>oid. oid \<in> set stops \<longleftrightarrow> (\<exists>ord. lookup (e_store e) oid = Some ord \<and> flag ord kStopPending)) \<and>
    (\<forall>oid ord. lookup (e_store e) oid = Some ord \<and> flag ord kStopPending \<and> trades (e_tape e) \<noteq> [] \<longrightarrow>
      (case o_side ord of Buy \<Rightarrow> t_price (last (trades (e_tape e))) < o_price ord
       | Sell \<Rightarrow> o_price ord < t_price (last (trades (e_tape e)))))"
proof -
  obtain a where a: "refines e a" and wait: "trades (a_tape a) \<noteq> [] \<Longrightarrow> r \<in> set (stop_queue s a) \<Longrightarrow>
      (case s of Buy \<Rightarrow> t_price (last (trades (a_tape a))) < r_price r | Sell \<Rightarrow> r_price r < t_price (last (trades (a_tape a))))" for s r
    using reached_stops_wait [OF assms] by blast
  note e = refinesD(1) [OF a]
  have "oid \<in> set (map r_id (stop_queue Buy a @ stop_queue Sell a)) \<longleftrightarrow>
      (\<exists>ord. lookup (e_store e) oid = Some ord \<and> flag ord kStopPending)" for oid
  proof
    assume "oid \<in> set (map r_id (stop_queue Buy a @ stop_queue Sell a))"
    then obtain r s where "r \<in> set (stop_queue s a)" "oid = r_id r" by auto
    then show "\<exists>ord. lookup (e_store e) oid = Some ord \<and> flag ord kStopPending" using node_stop [OF e] by blast
  next
    assume "\<exists>ord. lookup (e_store e) oid = Some ord \<and> flag ord kStopPending"
    then obtain r s where r: "r \<in> set (stop_queue s a)" "r_id r = oid" using stop_node [OF e] by blast
    then show "oid \<in> set (map r_id (stop_queue Buy a @ stop_queue Sell a))" by (cases s) auto
  qed
  moreover have "case o_side ord of Buy \<Rightarrow> t_price (last (trades (e_tape e))) < o_price ord
      | Sell \<Rightarrow> o_price ord < t_price (last (trades (e_tape e)))"
    if "lookup (e_store e) oid = Some ord" "flag ord kStopPending" "trades (e_tape e) \<noteq> []" for oid ord
  proof -
    from stop_node [OF e that(1,2)] obtain r where r: "r \<in> set (stop_queue (o_side ord) a)" "r_price r = o_price ord" by blast
    have t: "a_tape a = e_tape e" using erelD(16) [OF e] by simp
    show ?thesis using wait [unfolded t, OF that(3) r(1)] unfolding r(2) .
  qed
  ultimately show ?thesis using visit_stops_sim [OF e] by blast
qed

text \<open>The stop of the demonstration session: a buy stop at 5 that waits after a trade at 4.\<close>

theorem no_armed_stop_waits_witness:
  "\<exists>e ord. session 2 1 6 1 demo = Some (fst (a_session 1 6 demo), e) \<and> visit_stops e = Some [3] \<and>
     lookup (e_store e) 3 = Some ord \<and> o_side ord = Buy \<and> 4 < o_price ord"
proof -
  obtain e where e: "session 2 1 6 1 demo = Some (fst (a_session 1 6 demo), e)"
    "refines e (snd (a_session 1 6 demo))" "reachable e"
    using demo_session by blast
  let ?a = "snd (a_session 1 6 demo)"
  note r = refinesD(1) [OF e(2)]
  have q: "\<not> a_halted ?a" "map r_id (stop_queue Buy ?a @ stop_queue Sell ?a) = [3]" "map r_id (stop_queue Buy ?a) = [3]" by code_simp+
  then have "\<not> e_halted e" "visit_stops e = Some [3]"
    using erelD(14) [OF r] visit_stops_sim [OF r] by simp_all
  moreover have "map t_price (trades (e_tape e)) = [4]"
    by (simp add: erelD(16) [OF r, symmetric] demo_abstract)
  moreover obtain ord where "lookup (e_store e) 3 = Some ord" "flag ord kStopPending" "o_side ord = Buy"
  proof -
    obtain x where x: "stop_queue Buy ?a = [x]" "r_id x = 3" using q(3) by auto
    show thesis using node_stop [OF r, of x Buy] x that by auto
  qed
  moreover note no_armed_stop_waits [OF e(3) \<open>\<not> e_halted e\<close>]
  ultimately show ?thesis using e(1) by fastforce
qed

end
