(* ===== verification/Wire.thy ===== *)
theory Wire
  imports Matchbook_Prelude
begin

text \<open>
  Bytes on the wire: the big-endian integers that \<^verbatim>\<open>itch_parser.hpp\<close> reads and
  \<^verbatim>\<open>itch_encode.hpp\<close>, \<^verbatim>\<open>mold_udp64.hpp\<close> and \<^verbatim>\<open>ouch.hpp\<close> write.  A pointer into a message
  is the message with an offset, a read past its end is \<open>None\<close>, and a buffer under
  construction is the list of its bytes.  The three headers each have their own copies of
  these routines; the copies are the same code and are one definition here.
\<close>

section \<open>Integers\<close>

type_synonym byte = "8 word"

definition word16_of :: "byte \<Rightarrow> byte \<Rightarrow> 16 word" where
  "word16_of a b = push_bit 8 (ucast a) OR ucast b"

definition word32_of :: "byte \<Rightarrow> byte \<Rightarrow> byte \<Rightarrow> byte \<Rightarrow> 32 word" where
  "word32_of a b c d = push_bit 24 (ucast a) OR push_bit 16 (ucast b) OR push_bit 8 (ucast c) OR ucast d"

definition word64_of :: "32 word \<Rightarrow> 32 word \<Rightarrow> 64 word" where
  "word64_of h l = push_bit 32 (ucast h) OR ucast l"

definition be16 :: "byte list \<Rightarrow> nat \<Rightarrow> 16 word option" where
  "be16 p i = do { a \<leftarrow> vec_at p i; b \<leftarrow> vec_at p (i + 1); Some (word16_of a b) }"

definition be32 :: "byte list \<Rightarrow> nat \<Rightarrow> 32 word option" where
  "be32 p i = do {
     a \<leftarrow> vec_at p i; b \<leftarrow> vec_at p (i + 1); c \<leftarrow> vec_at p (i + 2); d \<leftarrow> vec_at p (i + 3);
     Some (word32_of a b c d) }"

definition be64 :: "byte list \<Rightarrow> nat \<Rightarrow> 64 word option" where
  "be64 p i = do { h \<leftarrow> be32 p i; l \<leftarrow> be32 p (i + 4); Some (word64_of h l) }"

definition enc16 :: "byte list \<Rightarrow> 16 word \<Rightarrow> byte list" where
  "enc16 b v = b @ map (\<lambda>s. ucast (drop_bit s v)) [8, 0]"

definition enc32 :: "byte list \<Rightarrow> 32 word \<Rightarrow> byte list" where
  "enc32 b v = b @ map (\<lambda>s. ucast (drop_bit s v)) [24, 16, 8, 0]"

definition enc48 :: "byte list \<Rightarrow> 64 word \<Rightarrow> byte list" where
  "enc48 b v = b @ map (\<lambda>s. ucast (drop_bit s v)) [40, 32, 24, 16, 8, 0]"

definition enc64 :: "byte list \<Rightarrow> 64 word \<Rightarrow> byte list" where
  "enc64 b v = b @ map (\<lambda>s. ucast (drop_bit s v)) [56, 48, 40, 32, 24, 16, 8, 0]"

text \<open>\<^verbatim>\<open>memcpy(dst, p + i, n)\<close>.\<close>

definition slice :: "byte list \<Rightarrow> nat \<Rightarrow> nat \<Rightarrow> byte list option" where
  "slice p i n = (if i + n \<le> length p then Some (take n (drop i p)) else None)"

text \<open>A C string: the bytes up to the first NUL.\<close>

definition cstr :: "byte list \<Rightarrow> byte list" where
  "cstr s = takeWhile (\<lambda>c. c \<noteq> 0) s"

lemma take_cstr: "n \<le> length (cstr s) \<Longrightarrow> take n s = take n (cstr s)"
  unfolding cstr_def by (metis min.absorb1 take_take takeWhile_eq_take)

definition ch :: "char \<Rightarrow> byte" where
  "ch c = of_nat (of_char c)"

lemma ch_simps [simp]:
  "ch CHR ''A'' = 65" "ch CHR ''B'' = 66" "ch CHR ''C'' = 67" "ch CHR ''D'' = 68" "ch CHR ''E'' = 69"
  "ch CHR ''F'' = 70" "ch CHR ''H'' = 72" "ch CHR ''J'' = 74" "ch CHR ''K'' = 75" "ch CHR ''N'' = 78"
  "ch CHR ''O'' = 79" "ch CHR ''P'' = 80" "ch CHR ''Q'' = 81" "ch CHR ''S'' = 83" "ch CHR ''T'' = 84"
  "ch CHR ''U'' = 85" "ch CHR ''V'' = 86" "ch CHR ''X'' = 88" "ch CHR ''Y'' = 89" "ch CHR '' '' = 32"
  by (simp_all add: ch_def)

section \<open>Reading back what was written\<close>

lemma word16_split: "word16_of (ucast (drop_bit 8 v)) (ucast v) = v"
  by (rule bit_word_eqI) (auto simp: word16_of_def bit_simps)

lemma word32_split:
  "word32_of (ucast (drop_bit 24 v)) (ucast (drop_bit 16 v)) (ucast (drop_bit 8 v)) (ucast v) = v"
proof (rule bit_word_eqI)
  fix n assume n: "n < LENGTH(32)"
  consider "n < 8" | "8 \<le> n" "n < 16" | "16 \<le> n" "n < 24" | "24 \<le> n" by linarith
  then show "bit (word32_of (ucast (drop_bit 24 v)) (ucast (drop_bit 16 v)) (ucast (drop_bit 8 v)) (ucast v)) n = bit v n"
    using n by cases (auto simp: word32_of_def bit_simps less_diff_conv2)
qed

lemma word64_halves: "word64_of (ucast (drop_bit 32 v)) (ucast v) = v"
proof (rule bit_word_eqI)
  fix n assume n: "n < LENGTH(64)"
  consider "n < 32" | "32 \<le> n" by linarith
  then show "bit (word64_of (ucast (drop_bit 32 v)) (ucast v)) n = bit v n"
    using n by cases (auto simp: word64_of_def bit_simps less_diff_conv2)
qed

lemma narrow_byte:
  fixes v :: "64 word"
  shows "k \<le> 24 \<Longrightarrow> (ucast (drop_bit k (ucast v :: 32 word)) :: byte) = ucast (drop_bit k v)"
  by (rule bit_word_eqI) (auto simp: bit_simps)

lemma word64_split:
  "word64_of (word32_of (ucast (drop_bit 56 v)) (ucast (drop_bit 48 v)) (ucast (drop_bit 40 v)) (ucast (drop_bit 32 v)))
     (word32_of (ucast (drop_bit 24 v)) (ucast (drop_bit 16 v)) (ucast (drop_bit 8 v)) (ucast v)) = v"
  using word32_split [of "ucast (drop_bit 32 v)"] word32_split [of "ucast v"] word64_halves [of v]
    narrow_byte [of 0 v] narrow_byte [of 0 "drop_bit 32 v"] by (simp add: narrow_byte drop_bit_drop_bit)

lemma enc_length [simp]:
  "length (enc16 b v) = length b + 2" "length (enc32 b w) = length b + 4"
  "length (enc48 b x) = length b + 6" "length (enc64 b x) = length b + 8"
  by (simp_all add: enc16_def enc32_def enc48_def enc64_def)

lemma enc_append:
  "enc16 (a @ b) v = a @ enc16 b v" "enc32 (a @ b) w = a @ enc32 b w"
  "enc48 (a @ b) x = a @ enc48 b x" "enc64 (a @ b) x = a @ enc64 b x"
  by (simp_all add: enc16_def enc32_def enc48_def enc64_def)

text \<open>
  A field of fixed width: what the writer appends, the reader finds where it was put,
  whatever stands before and after it.
\<close>

locale field =
  fixes put :: "byte list \<Rightarrow> 'a \<Rightarrow> byte list" and get :: "byte list \<Rightarrow> nat \<Rightarrow> 'a option" and width :: nat
  assumes put_bytes: "put b v = b @ put [] v"
    and width: "length (put [] v) = width"
    and get_put: "get (put [] v @ rest) 0 = Some v"
    and shift: "get (a @ b) (length a + i) = get b i"
    and get_inside: "i + width \<le> length p \<Longrightarrow> get p i \<noteq> None"
begin

lemma put_append: "put (a @ b) v = a @ put b v"
  using put_bytes [of "a @ b" v] put_bytes [of b v] by simp

lemma put_length [simp]: "length (put b v) = length b + width"
  using put_bytes [of b v] width by simp

lemma put_split: "b \<noteq> [] \<Longrightarrow> put b v = b @ put [] v"
  by (rule put_bytes)

lemma front: "get (put [] v @ rest) 0 = Some v" "get (put [] v) 0 = Some v"
  using get_put [of v rest] get_put [of v "[]"] by simp_all

lemma skip: "length a \<le> i \<Longrightarrow> get (a @ b) i = get b (i - length a)"
  using shift [of a b "i - length a"] by simp

lemma skip_Cons: "get (x # b) (Suc i) = get b i" "get (x # b) (numeral w) = get b (pred_numeral w)"
  using shift [of "[x]" b i] shift [of "[x]" b "pred_numeral w"] by (simp_all add: numeral_eq_Suc)

lemma reads: "i + width \<le> length p \<Longrightarrow> \<exists>v. get p i = Some v"
  using get_inside by blast

end

lemma vec_at_append [simp]:
  "length xs \<le> i \<Longrightarrow> vec_at (xs @ ys) i = vec_at ys (i - length xs)"
  "i < length xs \<Longrightarrow> vec_at (xs @ ys) i = vec_at xs i"
  by (auto simp: vec_at_def nth_append)

lemma vec_at_Cons [simp]:
  "vec_at (x # xs) 0 = Some x" "vec_at (x # xs) (Suc k) = vec_at xs k"
  "vec_at (x # xs) (numeral w) = vec_at xs (pred_numeral w)"
  by (auto simp: vec_at_def numeral_eq_Suc)

lemma vec_at_inside: "i < length p \<Longrightarrow> \<exists>x. vec_at p i = Some x"
  by simp

lemma vec_at_nth: "i < length p \<Longrightarrow> vec_at p i = Some (p ! i)"
  by simp

lemma vec_at_shift: "vec_at (a @ b) (length a + i) = vec_at b i"
  by simp

interpretation u16: field enc16 be16 2
  by unfold_locales (auto simp: enc16_def be16_def word16_split bind_eq_None_conv vec_at_shift add.assoc)

interpretation u32: field enc32 be32 4
  by unfold_locales (auto simp: enc32_def be32_def word32_split bind_eq_None_conv vec_at_shift add.assoc)

interpretation u64: field enc64 be64 8
proof unfold_locales
  fix v rest
  show "be64 (enc64 [] v @ rest) 0 = Some v"
    by (simp add: enc64_def be64_def be32_def word64_split)
next
  fix a b :: "byte list" and i
  show "be64 (a @ b) (length a + i) = be64 b i"
    using u32.shift [of a b i] u32.shift [of a b "i + 4"] by (simp add: be64_def add.assoc)
next
  fix i p assume "i + 8 \<le> length (p :: byte list)"
  then show "be64 p i \<noteq> None"
    using u32.get_inside [of i p] u32.get_inside [of "i + 4" p] by (auto simp: be64_def)
qed (simp_all add: enc64_def)

lemma slice_front:
  "length xs = n \<Longrightarrow> slice (xs @ rest) 0 n = Some xs" "length xs = n \<Longrightarrow> slice xs 0 n = Some xs"
  by (simp_all add: slice_def)

lemma slice_skip:
  "length a \<le> i \<Longrightarrow> slice (a @ b) i n = slice b (i - length a) n"
  "slice (x # b) (Suc i) n = slice b i n" "slice (x # b) (numeral w) n = slice b (pred_numeral w) n"
  by (auto simp: slice_def numeral_eq_Suc)

text \<open>Simplification rules that read a field out of a message written as its fields.\<close>

lemmas wire_reads = u16.front u32.front u64.front u16.skip u32.skip u64.skip
  u16.skip_Cons u32.skip_Cons u64.skip_Cons slice_front slice_skip

lemmas wire_writes = u16.put_split u32.put_split u64.put_split

lemma slice_at:
  assumes "length b = i" "length xs = n"
  shows "slice (b @ xs @ rest) i n = Some xs"
  using assms by (simp add: slice_def)

lemma slice_inside: "i + n \<le> length p \<Longrightarrow> slice p i n = Some (take n (drop i p))"
  by (simp add: slice_def)

end
