(* ===== verification/Itch.thy ===== *)
theory Itch
  imports Wire
begin

text \<open>
  ITCH 5.0 messages: the parser of \<^verbatim>\<open>include/matchbook/itch_parser.hpp\<close> and the encoders of
  \<^verbatim>\<open>include/matchbook/itch_encode.hpp\<close>.  \<^verbatim>\<open>parse\<close> fills a \<^verbatim>\<open>Message\<close> it is handed; fields a
  message type does not carry keep the value they had, so the message is an argument and
  a result.  Its outer option is a read outside the body.
\<close>

section \<open>The parser\<close>

datatype MsgType = Add | Execute | Cancel | Delete | Replace | Action | Other

record Message =
  m_type :: MsgType
  m_ref :: "64 word"
  m_new_ref :: "64 word"
  m_side :: Side
  m_qty :: Qty
  m_price :: Price
  m_stock :: "byte list"
  m_state :: byte

text \<open>One definition per case of the switch.\<close>

definition parse_add :: "byte list \<Rightarrow> Message \<Rightarrow> (bool \<times> Message) option" where
  "parse_add body out =
     (if length body < 36 then Some (False, out)
      else do {
        ref \<leftarrow> be64 body 11; sd \<leftarrow> vec_at body 19; qty \<leftarrow> be32 body 20;
        stock \<leftarrow> slice body 24 8; price \<leftarrow> be32 body 32;
        Some (True, out\<lparr>m_type := Add, m_ref := ref, m_side := (if sd = ch CHR ''B'' then Buy else Sell),
          m_qty := ucast qty, m_stock := stock @ [0], m_price := uint price\<rparr>) })"

definition parse_execute :: "byte list \<Rightarrow> Message \<Rightarrow> (bool \<times> Message) option" where
  "parse_execute body out =
     (if length body < 31 then Some (False, out)
      else do {
        ref \<leftarrow> be64 body 11; qty \<leftarrow> be32 body 19;
        Some (True, out\<lparr>m_type := Execute, m_ref := ref, m_qty := ucast qty\<rparr>) })"

definition parse_execute_px :: "byte list \<Rightarrow> Message \<Rightarrow> (bool \<times> Message) option" where
  "parse_execute_px body out =
     (if length body < 36 then Some (False, out)
      else do {
        ref \<leftarrow> be64 body 11; qty \<leftarrow> be32 body 19; price \<leftarrow> be32 body 32;
        Some (True, out\<lparr>m_type := Execute, m_ref := ref, m_qty := ucast qty, m_price := uint price\<rparr>) })"

definition parse_cancel :: "byte list \<Rightarrow> Message \<Rightarrow> (bool \<times> Message) option" where
  "parse_cancel body out =
     (if length body < 23 then Some (False, out)
      else do {
        ref \<leftarrow> be64 body 11; qty \<leftarrow> be32 body 19;
        Some (True, out\<lparr>m_type := Cancel, m_ref := ref, m_qty := ucast qty\<rparr>) })"

definition parse_delete :: "byte list \<Rightarrow> Message \<Rightarrow> (bool \<times> Message) option" where
  "parse_delete body out =
     (if length body < 19 then Some (False, out)
      else do {
        ref \<leftarrow> be64 body 11;
        Some (True, out\<lparr>m_type := Delete, m_ref := ref\<rparr>) })"

definition parse_replace :: "byte list \<Rightarrow> Message \<Rightarrow> (bool \<times> Message) option" where
  "parse_replace body out =
     (if length body < 35 then Some (False, out)
      else do {
        ref \<leftarrow> be64 body 11; new_ref \<leftarrow> be64 body 19; qty \<leftarrow> be32 body 27; price \<leftarrow> be32 body 31;
        Some (True, out\<lparr>m_type := Replace, m_ref := ref, m_new_ref := new_ref, m_qty := ucast qty,
          m_price := uint price\<rparr>) })"

definition parse_action :: "byte list \<Rightarrow> Message \<Rightarrow> (bool \<times> Message) option" where
  "parse_action body out =
     (if length body < 25 then Some (False, out)
      else do {
        stock \<leftarrow> slice body 11 8; state \<leftarrow> vec_at body 19;
        Some (True, out\<lparr>m_type := Action, m_stock := stock @ [0], m_state := state\<rparr>) })"

definition parse :: "byte list \<Rightarrow> Message \<Rightarrow> (bool \<times> Message) option" where
  "parse body out =
     (if length body = 0 then Some (False, out)
      else do {
        t \<leftarrow> vec_at body 0;
        if t = ch CHR ''A'' \<or> t = ch CHR ''F'' then parse_add body out
        else if t = ch CHR ''E'' then parse_execute body out
        else if t = ch CHR ''C'' then parse_execute_px body out
        else if t = ch CHR ''X'' then parse_cancel body out
        else if t = ch CHR ''D'' then parse_delete body out
        else if t = ch CHR ''U'' then parse_replace body out
        else if t = ch CHR ''H'' then parse_action body out
        else Some (False, out\<lparr>m_type := Other\<rparr>) })"

lemmas parse_case_defs = parse_add_def parse_execute_def parse_execute_px_def parse_cancel_def
  parse_delete_def parse_replace_def parse_action_def

section \<open>The encoders\<close>

text \<open>The 8-byte stock symbol is passed as the list of its bytes.\<close>

definition enc_head :: "byte list \<Rightarrow> char \<Rightarrow> 64 word \<Rightarrow> byte list" where
  "enc_head b t ts = enc48 (enc16 (enc16 (b @ [ch t]) 1) 0) ts"

definition encode_add :: "byte list \<Rightarrow> 64 word \<Rightarrow> 64 word \<Rightarrow> byte \<Rightarrow> 32 word \<Rightarrow> byte list \<Rightarrow> 32 word \<Rightarrow> byte list" where
  "encode_add b ts ref side shares stock price =
     enc32 (enc32 (enc64 (enc_head b CHR ''A'' ts) ref @ [side]) shares @ stock) price"

definition encode_execute :: "byte list \<Rightarrow> 64 word \<Rightarrow> 64 word \<Rightarrow> 32 word \<Rightarrow> 64 word \<Rightarrow> byte list" where
  "encode_execute b ts ref shares match = enc64 (enc32 (enc64 (enc_head b CHR ''E'' ts) ref) shares) match"

definition encode_execute_px :: "byte list \<Rightarrow> 64 word \<Rightarrow> 64 word \<Rightarrow> 32 word \<Rightarrow> 64 word \<Rightarrow> 32 word \<Rightarrow> bool \<Rightarrow> byte list" where
  "encode_execute_px b ts ref shares match price printable =
     enc32 (enc64 (enc32 (enc64 (enc_head b CHR ''C'' ts) ref) shares) match
       @ [if printable then ch CHR ''Y'' else ch CHR ''N'']) price"

definition encode_cancel :: "byte list \<Rightarrow> 64 word \<Rightarrow> 64 word \<Rightarrow> 32 word \<Rightarrow> byte list" where
  "encode_cancel b ts ref shares = enc32 (enc64 (enc_head b CHR ''X'' ts) ref) shares"

definition encode_delete :: "byte list \<Rightarrow> 64 word \<Rightarrow> 64 word \<Rightarrow> byte list" where
  "encode_delete b ts ref = enc64 (enc_head b CHR ''D'' ts) ref"

definition encode_trade :: "byte list \<Rightarrow> 64 word \<Rightarrow> byte \<Rightarrow> 32 word \<Rightarrow> byte list \<Rightarrow> 32 word \<Rightarrow> 64 word \<Rightarrow> byte list" where
  "encode_trade b ts side shares stock price match =
     enc64 (enc32 (enc32 (enc64 (enc_head b CHR ''P'' ts) 0 @ [side]) shares @ stock) price) match"

definition encode_cross :: "byte list \<Rightarrow> 64 word \<Rightarrow> 64 word \<Rightarrow> byte list \<Rightarrow> 32 word \<Rightarrow> 64 word \<Rightarrow> byte \<Rightarrow> byte list" where
  "encode_cross b ts shares stock price match cross_type =
     enc64 (enc32 (enc64 (enc_head b CHR ''Q'' ts) shares @ stock) price) match @ [cross_type]"

definition encode_action :: "byte list \<Rightarrow> 64 word \<Rightarrow> byte list \<Rightarrow> byte \<Rightarrow> byte list" where
  "encode_action b ts stock state =
     enc_head b CHR ''H'' ts @ stock @ [state] @ [ch CHR '' ''] @ replicate 4 (ch CHR '' '')"

text \<open>The length prefix of a file; the cast to 16 bits truncates.\<close>

definition frame_msg :: "byte list \<Rightarrow> byte list \<Rightarrow> byte list" where
  "frame_msg out body = enc16 out (of_nat (length body)) @ body"

section \<open>The parser stays inside the body\<close>

lemma case_inside:
  "\<exists>ok out'. parse_add body out = Some (ok, out')" "\<exists>ok out'. parse_execute body out = Some (ok, out')"
  "\<exists>ok out'. parse_execute_px body out = Some (ok, out')" "\<exists>ok out'. parse_cancel body out = Some (ok, out')"
  "\<exists>ok out'. parse_delete body out = Some (ok, out')" "\<exists>ok out'. parse_replace body out = Some (ok, out')"
  "\<exists>ok out'. parse_action body out = Some (ok, out')"
proof -
  note r64 = u64.reads [of 11 body] u64.reads [of 19 body]
  note r32 = u32.reads [of 19 body] u32.reads [of 20 body] u32.reads [of 27 body]
    u32.reads [of 31 body] u32.reads [of 32 body]
  note b = vec_at_inside [of 19 body]
  show "\<exists>ok out'. parse_add body out = Some (ok, out')"
    using r64(1) r32(2,5) b slice_inside [of 24 8 body]
    by (cases "length body < 36") (auto simp: parse_add_def simp del: vec_at_Some)
  show "\<exists>ok out'. parse_execute body out = Some (ok, out')"
    using r64(1) r32(1) by (cases "length body < 31") (auto simp: parse_execute_def)
  show "\<exists>ok out'. parse_execute_px body out = Some (ok, out')"
    using r64(1) r32(1,5) by (cases "length body < 36") (auto simp: parse_execute_px_def)
  show "\<exists>ok out'. parse_cancel body out = Some (ok, out')"
    using r64(1) r32(1) by (cases "length body < 23") (auto simp: parse_cancel_def)
  show "\<exists>ok out'. parse_delete body out = Some (ok, out')"
    using r64(1) by (cases "length body < 19") (auto simp: parse_delete_def)
  show "\<exists>ok out'. parse_replace body out = Some (ok, out')"
    using r64 r32(3,4) by (cases "length body < 35") (auto simp: parse_replace_def)
  show "\<exists>ok out'. parse_action body out = Some (ok, out')"
    using b slice_inside [of 11 8 body]
    by (cases "length body < 25") (auto simp: parse_action_def simp del: vec_at_Some)
qed

lemma parse_inside: "\<exists>ok out'. parse body out = Some (ok, out')"
proof (cases "length body = 0")
  case False
  then obtain t where t: "vec_at body 0 = Some t" by auto
  show ?thesis
    unfolding parse_def using False t
    by (simp add: case_inside del: vec_at_Some) (auto intro: exI [of Not False])
qed (auto simp: parse_def)

section \<open>What is encoded parses back\<close>

text \<open>The 11-byte prefix of a message, with its type letter in front.\<close>

lemma enc_head_split: "enc_head [] t ts = ch t # tl (enc_head [] t ts)"
  by (simp add: enc_head_def enc48_def enc16_def)

lemma enc_head_length [simp]: "length (enc_head b t ts) = length b + 11"
  by (simp add: enc_head_def)

lemma head_type: "vec_at (enc_head [] t ts @ rest) 0 = Some (ch t)"
  by (subst enc_head_split) simp

text \<open>A message as the concatenation of its fields.\<close>

lemma message_fields:
  "encode_add b ts ref side shares stock price =
     b @ enc_head [] CHR ''A'' ts @ enc64 [] ref @ [side] @ enc32 [] shares @ stock @ enc32 [] price"
  "encode_execute b ts ref shares match =
     b @ enc_head [] CHR ''E'' ts @ enc64 [] ref @ enc32 [] shares @ enc64 [] match"
  "encode_execute_px b ts ref shares match price printable =
     b @ enc_head [] CHR ''C'' ts @ enc64 [] ref @ enc32 [] shares @ enc64 [] match
       @ [if printable then ch CHR ''Y'' else ch CHR ''N''] @ enc32 [] price"
  "encode_cancel b ts ref shares = b @ enc_head [] CHR ''X'' ts @ enc64 [] ref @ enc32 [] shares"
  "encode_delete b ts ref = b @ enc_head [] CHR ''D'' ts @ enc64 [] ref"
  "encode_action b ts stock state =
     b @ enc_head [] CHR ''H'' ts @ stock @ [state] @ [ch CHR '' ''] @ replicate 4 (ch CHR '' '')"
  by (simp_all add: encode_add_def encode_execute_def encode_execute_px_def encode_cancel_def encode_delete_def
      encode_action_def enc_head_def enc16_def enc32_def enc48_def enc64_def)

lemma parse_encoded:
  assumes "length stock = 8"
  shows "parse (encode_add [] ts ref side shares stock price) out = Some (True, out\<lparr>m_type := Add, m_ref := ref,
      m_side := (if side = ch CHR ''B'' then Buy else Sell), m_qty := ucast shares, m_stock := stock @ [0],
      m_price := uint price\<rparr>)"
    "parse (encode_execute [] ts ref shares match) out =
      Some (True, out\<lparr>m_type := Execute, m_ref := ref, m_qty := ucast shares\<rparr>)"
    "parse (encode_execute_px [] ts ref shares match price printable) out =
      Some (True, out\<lparr>m_type := Execute, m_ref := ref, m_qty := ucast shares, m_price := uint price\<rparr>)"
    "parse (encode_cancel [] ts ref shares) out =
      Some (True, out\<lparr>m_type := Cancel, m_ref := ref, m_qty := ucast shares\<rparr>)"
    "parse (encode_delete [] ts ref) out = Some (True, out\<lparr>m_type := Delete, m_ref := ref\<rparr>)"
    "parse (encode_action [] ts stock state) out =
      Some (True, out\<lparr>m_type := Action, m_stock := stock @ [0], m_state := state\<rparr>)"
  using assms by (simp_all add: message_fields parse_def parse_case_defs head_type wire_reads)

section \<open>Properties\<close>

text \<open>The sizes of the tracked messages in the ITCH 5.0 specification, by type letter.\<close>

definition wire_size :: "byte \<Rightarrow> nat option" where
  "wire_size t = map_of [(ch CHR ''A'', 36), (ch CHR ''F'', 36), (ch CHR ''E'', 31), (ch CHR ''C'', 36),
     (ch CHR ''X'', 23), (ch CHR ''D'', 19), (ch CHR ''U'', 35), (ch CHR ''H'', 25)] t"

lemma case_accepts:
  "parse_add body out = Some (ok, out') \<Longrightarrow> ok = (36 \<le> length body)"
  "parse_execute body out = Some (ok, out') \<Longrightarrow> ok = (31 \<le> length body)"
  "parse_execute_px body out = Some (ok, out') \<Longrightarrow> ok = (36 \<le> length body)"
  "parse_cancel body out = Some (ok, out') \<Longrightarrow> ok = (23 \<le> length body)"
  "parse_delete body out = Some (ok, out') \<Longrightarrow> ok = (19 \<le> length body)"
  "parse_replace body out = Some (ok, out') \<Longrightarrow> ok = (35 \<le> length body)"
  "parse_action body out = Some (ok, out') \<Longrightarrow> ok = (25 \<le> length body)"
  by (auto simp: parse_case_defs bind_eq_Some_conv split: if_splits)

text \<open>C37. On every byte string, however short or malformed, the parser returns without reading
  outside it, and it accepts exactly the messages whose first byte is a tracked type
  letter and whose length is at least the size of that type.\<close>

theorem itch_parse_safe:
  "\<exists>ok out'. parse body out = Some (ok, out') \<and>
     (ok \<longleftrightarrow> (\<exists>t rest n. body = t # rest \<and> wire_size t = Some n \<and> n \<le> length body))"
proof (cases body)
  case (Cons t rest)
  obtain ok out' where p: "parse body out = Some (ok, out')" using parse_inside by blast
  then have "ok \<longleftrightarrow> (\<exists>n. wire_size t = Some n \<and> n \<le> length body)"
    by (auto simp: parse_def wire_size_def Cons dest: case_accepts split: if_splits)
  with p Cons show ?thesis by auto
qed (auto simp: parse_def)

text \<open>C36. Every message type the parser tracks and the encoders write parses back to the encoded
  fields: reference, quantity (widened to 64 bits), price, side, stock symbol and trading
  state come out as they went in, and nothing else of the message changes.\<close>

theorem itch_round_trip:
  assumes "length stock = 8"
  shows "parse (encode_add [] ts ref side shares stock price) out = Some (True, out\<lparr>m_type := Add, m_ref := ref,
      m_side := (if side = ch CHR ''B'' then Buy else Sell), m_qty := ucast shares, m_stock := stock @ [0],
      m_price := uint price\<rparr>) \<and>
    parse (encode_execute [] ts ref shares match) out =
      Some (True, out\<lparr>m_type := Execute, m_ref := ref, m_qty := ucast shares\<rparr>) \<and>
    parse (encode_execute_px [] ts ref shares match price printable) out =
      Some (True, out\<lparr>m_type := Execute, m_ref := ref, m_qty := ucast shares, m_price := uint price\<rparr>) \<and>
    parse (encode_cancel [] ts ref shares) out =
      Some (True, out\<lparr>m_type := Cancel, m_ref := ref, m_qty := ucast shares\<rparr>) \<and>
    parse (encode_delete [] ts ref) out = Some (True, out\<lparr>m_type := Delete, m_ref := ref\<rparr>) \<and>
    parse (encode_action [] ts stock state) out =
      Some (True, out\<lparr>m_type := Action, m_stock := stock @ [0], m_state := state\<rparr>)"
  by (intro conjI parse_encoded [OF assms])

definition blank :: Message where
  "blank = \<lparr>m_type = Other, m_ref = 0, m_new_ref = 0, m_side = Buy, m_qty = 0, m_price = 0,
     m_stock = replicate 9 0, m_state = 0\<rparr>"

theorem itch_round_trip_witness:
  "\<exists>out'. parse (encode_add [] 1 7 66 100 [77, 66, 84, 69, 83, 84, 32, 32] 1000000) blank = Some (True, out') \<and>
     m_ref out' = 7 \<and> m_side out' = Buy \<and> m_qty out' = 100 \<and> m_price out' = 1000000"
  using itch_round_trip [of "[77, 66, 84, 69, 83, 84, 32, 32]" 1 7 66 100 1000000 blank] by simp

end
