(* ===== verification/Mold.thy ===== *)
theory Mold
  imports Wire
begin

text \<open>
  MoldUDP64 framing, \<^verbatim>\<open>include/matchbook/mold_udp64.hpp\<close>: packets of length-prefixed blocks
  behind a 20-byte header, and the sequence accounting of a receiver.  \<^verbatim>\<open>decode\<close> hands each
  block to a callback as it meets it; the calls are the list in its result, so that what was
  delivered before a malformed block is visible.  Its outer option is a read outside the
  packet.
\<close>

section \<open>Packets\<close>

definition kHeaderSize :: nat where "kHeaderSize = 20"
definition kEndOfSession :: "16 word" where "kEndOfSession = 0xFFFF"

record mold_header =
  h_session :: "byte list"
  h_seq :: "64 word"
  h_count :: "16 word"

text \<open>
  The loop over the blocks: \<open>i\<close> counts up to \<open>count\<close>, \<open>off\<close> is the read position.  The
  result is the offset loop's verdict with the blocks delivered.
\<close>

function decode_blocks :: "byte list \<Rightarrow> 64 word \<Rightarrow> nat \<Rightarrow> nat \<Rightarrow> nat \<Rightarrow>
    (bool \<times> (64 word \<times> byte list) list) option" where
  "decode_blocks pkt seq count i off =
     (if i < count then
        (if off + 2 > length pkt then Some (False, [])
         else do {
           mlen \<leftarrow> be16 pkt off;
           (if off + 2 + unat mlen > length pkt then Some (False, [])
            else do {
              payload \<leftarrow> slice pkt (off + 2) (unat mlen);
              (ok, more) \<leftarrow> decode_blocks pkt seq count (i + 1) (off + 2 + unat mlen);
              Some (ok, (seq + of_nat i, payload) # more) }) })
      else Some (True, []))"
  by pat_completeness auto

termination
  by (relation "measure (\<lambda>(pkt, seq, count, i, off). count - i)") auto

declare decode_blocks.simps [simp del]

definition decode :: "byte list \<Rightarrow> mold_header \<Rightarrow> (int \<times> mold_header \<times> (64 word \<times> byte list) list) option" where
  "decode pkt hdr =
     (if length pkt < kHeaderSize then Some (- 1, hdr, [])
      else do {
        session \<leftarrow> slice pkt 0 10; seq \<leftarrow> be64 pkt 10; count \<leftarrow> be16 pkt 18;
        let hdr1 = hdr\<lparr>h_session := session @ [0], h_seq := seq, h_count := count\<rparr>;
        if count = kEndOfSession then Some (0, hdr1, [])
        else do {
          (ok, blocks) \<leftarrow> decode_blocks pkt seq (unat count) 0 kHeaderSize;
          Some (if ok then int (unat count) else - 1, hdr1, blocks) } })"

text \<open>The session name is a C string.\<close>

definition pad_session :: "byte list \<Rightarrow> byte list" where
  "pad_session session = (let s = cstr session
     in take 10 s @ replicate (10 - length s) (ch CHR '' ''))"

fun encode_blocks :: "byte list \<Rightarrow> byte list list \<Rightarrow> byte list" where
  "encode_blocks out [] = out"
| "encode_blocks out (m # ms) = encode_blocks (enc16 out (of_nat (length m)) @ m) ms"

definition encode :: "byte list \<Rightarrow> 64 word \<Rightarrow> byte list list \<Rightarrow> byte list \<Rightarrow> byte list" where
  "encode session seq msgs out =
     encode_blocks (enc16 (enc64 (out @ pad_session session) seq) (of_nat (length msgs))) msgs"

definition encode_end :: "byte list \<Rightarrow> 64 word \<Rightarrow> byte list \<Rightarrow> byte list option" where
  "encode_end session seq out = do {
     let pkt = encode session seq [] out;
     pkt1 \<leftarrow> vec_set pkt (length out + 18) 0xFF;
     vec_set pkt1 (length out + 19) 0xFF }"

section \<open>Sequence accounting\<close>

record tracker =
  tr_expected :: "64 word"
  tr_gap :: "64 word"

definition tracker_new :: "64 word \<Rightarrow> tracker" where
  "tracker_new first = \<lparr>tr_expected = first, tr_gap = 0\<rparr>"

definition on_packet :: "64 word \<Rightarrow> 16 word \<Rightarrow> tracker \<Rightarrow> 16 word \<times> tracker" where
  "on_packet seq count t =
     (let t1 = (if seq > tr_expected t
                then t\<lparr>tr_gap := tr_gap t + (seq - tr_expected t), tr_expected := seq\<rparr> else t);
          skip = tr_expected t1 - seq
      in if skip \<ge> ucast count then (count, t1)
         else (ucast skip, t1\<lparr>tr_expected := seq + ucast count\<rparr>))"

section \<open>Decoding is safe\<close>

text \<open>The block is a substring of the packet at or after an offset.\<close>

definition inside :: "byte list \<Rightarrow> nat \<Rightarrow> byte list \<Rightarrow> bool" where
  "inside pkt off block \<longleftrightarrow> (\<exists>i\<ge>off. i + length block \<le> length pkt \<and> block = take (length block) (drop i pkt))"

lemma inside_mono: "inside pkt off' block \<Longrightarrow> off \<le> off' \<Longrightarrow> inside pkt off block"
  by (auto simp: inside_def intro: order_trans)

lemma decode_blocks_inside:
  "\<exists>ok blocks. decode_blocks pkt seq count i off = Some (ok, blocks) \<and>
     (ok \<longrightarrow> length blocks = count - i) \<and> length blocks \<le> count - i \<and>
     (\<forall>k<length blocks. inside pkt off (snd (blocks ! k)) \<and> fst (blocks ! k) = seq + of_nat (i + k))"
proof (induction pkt seq count i off rule: decode_blocks.induct)
  case (1 pkt seq count i off)
  show ?case
  proof (cases "i < count \<and> off + 2 \<le> length pkt")
    case False
    then show ?thesis by (subst decode_blocks.simps) auto
  next
    case a: True
    then obtain mlen where m: "be16 pkt off = Some mlen" using u16.get_inside [of off pkt] by auto
    show ?thesis
    proof (cases "off + 2 + unat mlen \<le> length pkt")
      case False
      with a m show ?thesis by (subst decode_blocks.simps) auto
    next
      case True
      let ?p = "take (unat mlen) (drop (off + 2) pkt)"
      have sl: "slice pkt (off + 2) (unat mlen) = Some ?p" using True by (simp add: slice_def)
      have len: "length ?p = unat mlen" using True by simp
      have "\<not> length pkt < off + 2" "\<not> length pkt < off + 2 + unat mlen" using a True by auto
      from 1 [OF conjunct1 [OF a] this(1) m this(2) sl] obtain ok blocks where
        b: "decode_blocks pkt seq count (i + 1) (off + 2 + unat mlen) = Some (ok, blocks)"
        "ok \<longrightarrow> length blocks = count - (i + 1)" "length blocks \<le> count - (i + 1)"
        "\<forall>k<length blocks. inside pkt (off + 2 + unat mlen) (snd (blocks ! k)) \<and>
           fst (blocks ! k) = seq + of_nat (i + 1 + k)"
        by blast
      let ?b = "(seq + of_nat i, ?p)"
      have "decode_blocks pkt seq count i off = Some (ok, ?b # blocks)"
        using a m True sl b(1) by (subst decode_blocks.simps) simp
      moreover have "\<forall>k<length (?b # blocks). inside pkt off (snd ((?b # blocks) ! k)) \<and>
          fst ((?b # blocks) ! k) = seq + of_nat (i + k)"
      proof (intro allI impI)
        fix k assume k: "k < length (?b # blocks)"
        show "inside pkt off (snd ((?b # blocks) ! k)) \<and> fst ((?b # blocks) ! k) = seq + of_nat (i + k)"
        proof (cases k)
          case 0
          with True show ?thesis by (auto simp: inside_def intro!: exI [of _ "off + 2"])
        next
          case (Suc j)
          with k b(4) show ?thesis by (auto simp: add.assoc intro: inside_mono)
        qed
      qed
      ultimately show ?thesis using b(2,3) a by auto
    qed
  qed
qed

lemma decode_header:
  assumes "20 \<le> length pkt"
  obtains session seq count where "slice pkt 0 10 = Some session" "be64 pkt 10 = Some seq" "be16 pkt 18 = Some count"
  using u64.get_inside [of 10 pkt] u16.get_inside [of 18 pkt] assms by (auto simp: slice_def)

text \<open>C35. On every datagram, however truncated or malformed, decoding returns without reading outside
  it.  The result is -1 or the header's block count (0 at end of session); the blocks handed
  to the callback are substrings of the packet behind the header, numbered consecutively
  from the header's sequence number, as many as the count unless the packet is malformed
  and never more than it.\<close>

theorem mold_decode_safe:
  "\<exists>n hdr' blocks. decode pkt hdr = Some (n, hdr', blocks) \<and>
     (n \<noteq> - 1 \<longrightarrow> n = int (length blocks) \<and>
        (h_count hdr' = kEndOfSession \<and> blocks = [] \<or> length blocks = unat (h_count hdr'))) \<and>
     (\<forall>k<length blocks. inside pkt kHeaderSize (snd (blocks ! k)) \<and> fst (blocks ! k) = h_seq hdr' + of_nat k \<and>
        k < unat (h_count hdr'))"
proof (cases "length pkt < 20")
  case False
  then have "20 \<le> length pkt" by simp
  then obtain session seq count where h: "slice pkt 0 10 = Some session" "be64 pkt 10 = Some seq"
    "be16 pkt 18 = Some count" by (rule decode_header)
  obtain ok blocks where "decode_blocks pkt seq (unat count) 0 kHeaderSize = Some (ok, blocks)"
    "ok \<longrightarrow> length blocks = unat count" "length blocks \<le> unat count"
    "\<forall>k<length blocks. inside pkt kHeaderSize (snd (blocks ! k)) \<and> fst (blocks ! k) = seq + of_nat k"
    using decode_blocks_inside [of pkt seq "unat count" 0 kHeaderSize] by auto
  moreover have "\<not> length pkt < kHeaderSize" using False by (simp add: kHeaderSize_def)
  ultimately show ?thesis
    using h by (cases "count = kEndOfSession"; cases ok) (auto simp: decode_def Let_def kEndOfSession_def)
qed (auto simp: decode_def kHeaderSize_def)

section \<open>What is framed is delivered\<close>

lemma encode_blocks_append: "encode_blocks (out @ b) ms = out @ encode_blocks b ms"
  by (induction ms arbitrary: b) (simp_all add: enc_append)

lemma encode_blocks_Nil: "encode_blocks out ms = out @ encode_blocks [] ms"
  using encode_blocks_append [of out "[]" ms] by simp

lemma pad_session_length [simp]: "length (pad_session s) = 10"
  by (simp add: pad_session_def Let_def)

lemma decode_blocks_encoded:
  assumes "\<forall>m\<in>set ms. length m < 2 ^ 16"
  shows "decode_blocks (b @ encode_blocks [] ms) seq (i + length ms) i (length b) =
     Some (True, zip (map (\<lambda>k. seq + of_nat k) [i..<i + length ms]) ms)"
  using assms
proof (induction ms arbitrary: b i)
  case Nil
  show ?case by (subst decode_blocks.simps) simp
next
  case (Cons m ms)
  have m: "unat (of_nat (length m) :: 16 word) = length m" using Cons.prems by (simp add: unat_of_nat)
  let ?pkt = "b @ encode_blocks [] (m # ms)"
  have e: "?pkt = (b @ enc16 [] (of_nat (length m)) @ m) @ encode_blocks [] ms"
    using encode_blocks_Nil [of "enc16 [] (of_nat (length m)) @ m" ms] by simp
  have l: "be16 ?pkt (length b) = Some (of_nat (length m))"
    unfolding e by (simp add: wire_reads)
  have s: "slice ?pkt (length b + 2) (length m) = Some m"
    unfolding e by (simp add: wire_reads)
  have n: "length b + 2 + length m \<le> length ?pkt" unfolding e by simp
  have r: "decode_blocks ?pkt seq (i + length (m # ms)) (i + 1) (length b + 2 + length m) =
      Some (True, zip (map (\<lambda>k. seq + of_nat k) [i + 1..<i + 1 + length ms]) ms)"
    unfolding e using Cons.IH [of "b @ enc16 [] (of_nat (length m)) @ m" "i + 1"] Cons.prems by (simp add: add.assoc)
  have "[i..<i + length (m # ms)] = i # [i + 1..<i + 1 + length ms]" by (simp add: upt_rec)
  then show ?case
    using l s n r by (subst decode_blocks.simps) (simp add: m del: upt_Suc)
qed

lemma encode_fields:
  "encode session seq msgs out =
     out @ (pad_session session @ enc64 [] seq @ enc16 [] (of_nat (length msgs))) @ encode_blocks [] msgs"
  unfolding encode_def using encode_blocks_Nil [of "enc16 (enc64 (out @ pad_session session) seq) (of_nat (length msgs))" msgs]
    u64.put_bytes [of "out @ pad_session session" seq]
    u16.put_bytes [of "enc64 (out @ pad_session session) seq" "of_nat (length msgs)"] by simp

lemma decode_encoded:
  assumes "length msgs < 65535" "\<forall>m\<in>set msgs. length m < 65536"
  shows "decode (encode session seq msgs []) hdr =
    Some (int (length msgs), hdr\<lparr>h_session := pad_session session @ [0], h_seq := seq, h_count := of_nat (length msgs)\<rparr>,
      zip (map (\<lambda>k. seq + of_nat k) [0..<length msgs]) msgs)"
proof -
  let ?h = "pad_session session @ enc64 [] seq @ enc16 [] (of_nat (length msgs))"
  have e: "encode session seq msgs [] = ?h @ encode_blocks [] msgs" by (simp add: encode_fields)
  have c: "unat (of_nat (length msgs) :: 16 word) = length msgs" using assms(1) by (simp add: unat_of_nat)
  have k: "(of_nat (length msgs) :: 16 word) \<noteq> kEndOfSession"
  proof
    assume "(of_nat (length msgs) :: 16 word) = kEndOfSession"
    then have "length msgs = unat kEndOfSession" using c by simp
    with assms(1) show False by (simp add: kEndOfSession_def)
  qed
  have "slice (encode session seq msgs []) 0 10 = Some (pad_session session)"
    unfolding e by (simp add: wire_reads)
  moreover have "be64 (encode session seq msgs []) 10 = Some seq"
    unfolding e by (simp add: wire_reads)
  moreover have "be16 (encode session seq msgs []) 18 = Some (of_nat (length msgs))"
    unfolding e by (simp add: wire_reads)
  moreover have "decode_blocks (encode session seq msgs []) seq (length msgs) 0 kHeaderSize =
      Some (True, zip (map (\<lambda>k. seq + of_nat k) [0..<length msgs]) msgs)"
    unfolding e using decode_blocks_encoded [of msgs ?h seq 0] assms(2) by (simp add: kHeaderSize_def)
  moreover have "\<not> length (encode session seq msgs []) < kHeaderSize"
    unfolding e by (simp add: kHeaderSize_def)
  ultimately show ?thesis using k c by (simp add: decode_def)
qed

text \<open>C34. A packet built by \<^verbatim>\<open>encode\<close> from fewer than 65535 messages shorter than 65536 bytes decodes
  to exactly those messages in order, numbered consecutively from the sequence number,
  under the session name padded to ten bytes.  65535 messages would read as end of session.\<close>

theorem mold_round_trip:
  assumes "length msgs < 65535" "\<forall>m\<in>set msgs. length m < 65536"
  shows "decode (encode session seq msgs []) hdr =
    Some (int (length msgs), hdr\<lparr>h_session := pad_session session @ [0], h_seq := seq, h_count := of_nat (length msgs)\<rparr>,
      zip (map (\<lambda>k. seq + of_nat k) [0..<length msgs]) msgs)"
  by (rule decode_encoded [OF assms])

theorem mold_decode_safe_witness:
  "inside (encode [77, 66] 7 [[1, 2, 3]] []) kHeaderSize [1, 2, 3]"
proof -
  let ?p = "encode [77, 66] 7 [[1, 2, 3]] []" and ?h = "\<lparr>h_session = [], h_seq = 0, h_count = 0\<rparr>"
  have "decode ?p ?h = Some (1, \<lparr>h_session = pad_session [77, 66] @ [0], h_seq = 7, h_count = 1\<rparr>, [(7, [1, 2, 3])])"
    by code_simp
  with mold_decode_safe [of ?p ?h] show ?thesis by auto
qed

theorem mold_round_trip_witness:
  "decode (encode [77, 66] 7 [[1, 2, 3], []] []) \<lparr>h_session = [], h_seq = 0, h_count = 0\<rparr> =
    Some (2, \<lparr>h_session = pad_session [77, 66] @ [0], h_seq = 7, h_count = 2\<rparr>, [(7, [1, 2, 3]), (8, [])])"
  using mold_round_trip [of "[[1, 2, 3], []]" "[77, 66]" 7 "\<lparr>h_session = [], h_seq = 0, h_count = 0\<rparr>"] by simp

section \<open>What a receiver delivers\<close>

text \<open>
  A receiver hands every packet's sequence number and block count to the tracker and
  delivers the blocks it is not told to skip; these are their message numbers.
\<close>

fun deliver :: "tracker \<Rightarrow> (64 word \<times> 16 word) list \<Rightarrow> 64 word list \<times> tracker" where
  "deliver t [] = ([], t)"
| "deliver t ((seq, count) # ps) =
     (let (skip, t1) = on_packet seq count t; (ds, t2) = deliver t1 ps
      in (map (\<lambda>k. seq + of_nat k) [unat skip..<unat count] @ ds, t2))"

lemma unat_count [simp]: "unat (ucast (c :: 16 word) :: 64 word) = unat c"
  by (simp add: unsigned_ucast_eq take_bit_nat_eq_self_iff order_less_le_trans [OF unsigned_less])

lemma unat_plus_count:
  "unat (seq :: 64 word) + unat (c :: 16 word) < 2 ^ 64 \<Longrightarrow> unat (seq + ucast c) = unat seq + unat c"
  by (simp add: unat_plus_if')

lemma on_packet_step:
  assumes "on_packet seq count t = (skip, t1)" "unat seq + unat count < 2 ^ 64"
    "unat (tr_gap t) \<le> unat (tr_expected t)"
  shows "unat (tr_expected t1) = max (max (unat (tr_expected t)) (unat seq)) (unat seq + unat count)"
    "unat (tr_gap t1) = unat (tr_gap t) + (unat seq - unat (tr_expected t))"
    "unat skip = min (unat count) (unat (tr_expected t) - unat seq)"
proof -
  have b: "unat (tr_gap t) + (unat seq - unat (tr_expected t)) < 2 ^ 64"
    using assms(3) unsigned_less [where 'a = nat, of seq] unsigned_less [where 'a = nat, of "tr_expected t"] by simp
  have u: "unat (ucast (w :: 64 word) :: 16 word) = unat w" if "unat w < unat count" for w
    using that unsigned_less [where 'a = nat, of count] by (simp add: unsigned_ucast_eq take_bit_nat_eq_self_iff)
  show "unat (tr_expected t1) = max (max (unat (tr_expected t)) (unat seq)) (unat seq + unat count)"
    "unat (tr_gap t1) = unat (tr_gap t) + (unat seq - unat (tr_expected t))"
    "unat skip = min (unat count) (unat (tr_expected t) - unat seq)"
    using assms(1,2) b
    by (auto simp: on_packet_def Let_def word_less_nat_alt word_le_nat_alt unat_plus_if' unat_sub_if' u split: if_splits)
qed

lemma block_numbers:
  assumes "unat (seq :: 64 word) + n < 2 ^ 64" "ds = map (\<lambda>k. seq + of_nat k) [m..<n]"
  shows "sorted_wrt (<) ds" "x \<in> set ds \<Longrightarrow> unat seq + m \<le> unat x \<and> unat x < unat seq + n"
proof -
  have u: "unat (seq + of_nat k) = unat seq + k" if "k < n" for k
    using assms(1) that by (simp add: unat_plus_if' unat_of_nat)
  show "sorted_wrt (<) ds"
    unfolding assms(2) sorted_wrt_map
    by (rule sorted_wrt_mono_rel [OF _ sorted_wrt_upt]) (auto simp: word_less_nat_alt u)
  show "x \<in> set ds \<Longrightarrow> unat seq + m \<le> unat x \<and> unat x < unat seq + n"
    unfolding assms(2) by (auto simp: u)
qed

lemma deliver_accounts:
  assumes "deliver t ps = (ds, t')" "\<forall>(seq, count)\<in>set ps. unat seq + unat count < 2 ^ 64"
    "unat (tr_gap t) \<le> unat (tr_expected t)"
  shows "sorted_wrt (<) ds \<and> (\<forall>n\<in>set ds. tr_expected t \<le> n \<and> n < tr_expected t') \<and> tr_expected t \<le> tr_expected t' \<and>
    unat (tr_expected t') + unat (tr_gap t) = unat (tr_expected t) + length ds + unat (tr_gap t')"
  using assms
proof (induction ps arbitrary: t ds)
  case (Cons p ps)
  obtain seq count where p: "p = (seq, count)" by (cases p)
  obtain skip t1 where s: "on_packet seq count t = (skip, t1)" by (cases "on_packet seq count t")
  obtain ds1 t2 where r: "deliver t1 ps = (ds1, t2)" by (cases "deliver t1 ps")
  define new where "new = map (\<lambda>k. seq + of_nat k) [unat skip..<unat count]"
  from Cons.prems p s r have ds: "ds = new @ ds1" "t2 = t'" by (auto simp: new_def)
  have c: "unat seq + unat count < 2 ^ 64" using Cons.prems(2) p by simp
  note step = on_packet_step [OF s c Cons.prems(3)]
  note new = block_numbers [OF c new_def]
  have ih: "sorted_wrt (<) ds1 \<and> (\<forall>n\<in>set ds1. tr_expected t1 \<le> n \<and> n < tr_expected t') \<and> tr_expected t1 \<le> tr_expected t' \<and>
    unat (tr_expected t') + unat (tr_gap t1) = unat (tr_expected t1) + length ds1 + unat (tr_gap t')"
    using Cons.IH [of t1 ds1] r ds(2) Cons.prems(2,3) step by auto
  have l: "length new = unat count - unat skip" by (simp add: new_def)
  have w: "\<forall>n\<in>set new. tr_expected t \<le> n \<and> n < tr_expected t1"
    using new(2) step(1,3) unfolding word_less_nat_alt word_le_nat_alt by fastforce
  have "tr_expected t \<le> tr_expected t1" using step(1) by (simp add: word_le_nat_alt)
  with w new(1) ih have "sorted_wrt (<) ds" "\<forall>n\<in>set ds. tr_expected t \<le> n \<and> n < tr_expected t'" "tr_expected t \<le> tr_expected t'"
    unfolding ds(1) by (fastforce simp: sorted_wrt_append)+
  moreover have "unat (tr_expected t') + unat (tr_gap t) = unat (tr_expected t) + length ds + unat (tr_gap t')"
    using ih step l ds(1) by (simp add: max_def min_def split: if_splits)
  ultimately show ?case by blast
qed simp

text \<open>C33. Whatever packets arrive - lost, duplicated, reordered, overlapping - a receiver that
  delivers what the tracker does not skip delivers every message number at most once and in
  increasing order, none before its starting point or beyond the expected number, and the
  numbers it never delivers below the expected number are exactly as many as the gap
  count.  Sequence numbers are assumed not to wrap.\<close>

theorem tracker_delivers_once:
  assumes "deliver (tracker_new first) ps = (ds, t)" "\<forall>(seq, count)\<in>set ps. unat seq + unat count < 2 ^ 64"
  shows "sorted_wrt (<) ds \<and> (\<forall>n\<in>set ds. first \<le> n \<and> n < tr_expected t) \<and>
    unat (tr_expected t) = unat first + length ds + unat (tr_gap t)"
  using deliver_accounts [OF assms(1,2)] by (simp add: tracker_new_def)

theorem tracker_delivers_once_witness:
  "deliver (tracker_new 1) [(1, 2), (4, 2), (2, 3), (5, 3)] = ([1, 2, 4, 5, 6, 7], \<lparr>tr_expected = 8, tr_gap = 1\<rparr>) \<and>
   sorted_wrt (<) [1, 2, 4, 5, 6, 7 :: 64 word]"
proof -
  have d: "deliver (tracker_new 1) [(1, 2), (4, 2), (2, 3), (5, 3)] = ([1, 2, 4, 5, 6, 7], \<lparr>tr_expected = 8, tr_gap = 1\<rparr>)"
    by (simp add: on_packet_def tracker_new_def Let_def upt_rec word_le_nat_alt)
  then show ?thesis using tracker_delivers_once [OF d] by simp
qed

end
