(* ===== verification/Ouch.thy ===== *)
theory Ouch
  imports Wire
begin

text \<open>
  OUCH order entry, the codec half of \<^verbatim>\<open>include/matchbook/ouch.hpp\<close>: the inbound and outbound
  messages, their encoders and decoders.  A token on the wire is 14 bytes; in memory it is a
  C string.  A decoder fills the message it is handed, so the message is an argument and a
  result; its outer option is a read outside the buffer.
\<close>

section \<open>Sizes and letters\<close>

definition kTokenLen :: nat where "kTokenLen = 14"

definition kUserRequested :: byte where "kUserRequested = ch CHR ''U''"
definition kKilledOnEntry :: byte where "kKilledOnEntry = ch CHR ''K''"
definition kSelfTrade :: byte where "kSelfTrade = ch CHR ''S''"
definition kBadToken :: byte where "kBadToken = ch CHR ''T''"
definition kValidation :: byte where "kValidation = ch CHR ''V''"

definition kEnterSize :: nat where "kEnterSize = 1 + kTokenLen + 1 + 4 + 8 + 1 + 4 + 2 + 1"
definition kReplaceSize :: nat where "kReplaceSize = 1 + 2 * kTokenLen + 4 + 8"
definition kCancelSize :: nat where "kCancelSize = 1 + kTokenLen"
definition kAcceptedSize :: nat where "kAcceptedSize = 1 + kTokenLen + 8 + 1 + 4 + 8"
definition kExecutedSize :: nat where "kExecutedSize = 1 + kTokenLen + 4 + 8 + 8"
definition kCanceledSize :: nat where "kCanceledSize = 1 + kTokenLen + 1"
definition kReplacedSize :: nat where "kReplacedSize = 1 + 2 * kTokenLen + 8 + 4 + 8"
definition kRejectedSize :: nat where "kRejectedSize = 1 + kTokenLen + 1"

lemmas size_defs = kTokenLen_def kEnterSize_def kReplaceSize_def kCancelSize_def kAcceptedSize_def
  kExecutedSize_def kCanceledSize_def kReplacedSize_def kRejectedSize_def

section \<open>Tokens, sides and enumerations on the wire\<close>

definition put_token :: "byte list \<Rightarrow> byte list \<Rightarrow> byte list" where
  "put_token out token =
     (let n = (if length (cstr token) > kTokenLen then kTokenLen else length (cstr token))
      in out @ take n token @ replicate (kTokenLen - n) (ch CHR '' ''))"

definition get_token :: "byte list \<Rightarrow> nat \<Rightarrow> byte list option" where
  "get_token p i = do { t \<leftarrow> slice p i kTokenLen; Some (t @ [0]) }"

definition side_letter :: "Side \<Rightarrow> byte" where
  "side_letter s = (if s = Buy then ch CHR ''B'' else ch CHR ''S'')"

definition letter_side :: "byte \<Rightarrow> Side" where
  "letter_side c = (if c = ch CHR ''B'' then Buy else Sell)"

definition price_bits :: "Price \<Rightarrow> 64 word" where
  "price_bits p = of_int p"

definition bits_price :: "64 word \<Rightarrow> Price" where
  "bits_price w = sint w"

text \<open>
  The enumerations have an 8-bit underlying type, so the decoder's casts keep any byte; the
  range checks come after.  These read a byte that passed the check.
\<close>

definition tif_of_byte :: "byte \<Rightarrow> TimeInForce" where
  "tif_of_byte b = (if b = 0 then GTC else if b = 1 then IOC else if b = 2 then FOK else PostOnly)"

definition stp_of_byte :: "byte \<Rightarrow> StpPolicy" where
  "stp_of_byte b = (if b = 0 then CancelTaker else if b = 1 then CancelMaker else CancelBoth)"

section \<open>Inbound\<close>

definition encode_enter :: "byte list \<Rightarrow> byte list \<Rightarrow> Side \<Rightarrow> 32 word \<Rightarrow> Price \<Rightarrow> TimeInForce \<Rightarrow> 32 word \<Rightarrow>
    OwnerId \<Rightarrow> StpPolicy \<Rightarrow> byte list" where
  "encode_enter out token side qty price tif display owner stp =
     enc16 (enc32 (enc64 (enc32 (put_token (out @ [ch CHR ''O'']) token @ [side_letter side]) qty) (price_bits price)
       @ [tif_code tif]) display) owner @ [stp_code stp]"

definition encode_replace :: "byte list \<Rightarrow> byte list \<Rightarrow> byte list \<Rightarrow> 32 word \<Rightarrow> Price \<Rightarrow> byte list" where
  "encode_replace out old_token new_token qty price =
     enc64 (enc32 (put_token (put_token (out @ [ch CHR ''U'']) old_token) new_token) qty) (price_bits price)"

definition encode_cancel_order :: "byte list \<Rightarrow> byte list \<Rightarrow> byte list" where
  "encode_cancel_order out token = put_token (out @ [ch CHR ''X'']) token"

datatype InType = InEnter | InReplace | InCancel

record InMsg =
  in_type :: InType
  in_token :: "byte list"
  in_new_token :: "byte list"
  in_side :: Side
  in_qty :: "32 word"
  in_price :: Price
  in_tif :: byte
  in_display :: "32 word"
  in_owner :: OwnerId
  in_stp :: byte

definition decode_enter :: "byte list \<Rightarrow> InMsg \<Rightarrow> (bool \<times> InMsg) option" where
  "decode_enter p out =
     (if length p < kEnterSize then Some (False, out)
      else do {
        token \<leftarrow> get_token p 1; sd \<leftarrow> vec_at p 15; qty \<leftarrow> be32 p 16; price \<leftarrow> be64 p 20; tif \<leftarrow> vec_at p 28;
        display \<leftarrow> be32 p 29; owner \<leftarrow> be16 p 33; stp \<leftarrow> vec_at p 35;
        Some (tif \<le> tif_code PostOnly \<and> stp \<le> stp_code CancelBoth,
          out\<lparr>in_type := InEnter, in_token := token, in_side := letter_side sd, in_qty := qty,
            in_price := bits_price price, in_tif := tif, in_display := display, in_owner := owner, in_stp := stp\<rparr>) })"

definition decode_replace :: "byte list \<Rightarrow> InMsg \<Rightarrow> (bool \<times> InMsg) option" where
  "decode_replace p out =
     (if length p < kReplaceSize then Some (False, out)
      else do {
        token \<leftarrow> get_token p 1; new_token \<leftarrow> get_token p (1 + kTokenLen);
        qty \<leftarrow> be32 p (1 + 2 * kTokenLen); price \<leftarrow> be64 p (5 + 2 * kTokenLen);
        Some (True, out\<lparr>in_type := InReplace, in_token := token, in_new_token := new_token, in_qty := qty,
          in_price := bits_price price\<rparr>) })"

definition decode_cancel :: "byte list \<Rightarrow> InMsg \<Rightarrow> (bool \<times> InMsg) option" where
  "decode_cancel p out =
     (if length p < kCancelSize then Some (False, out)
      else do { token \<leftarrow> get_token p 1; Some (True, out\<lparr>in_type := InCancel, in_token := token\<rparr>) })"

definition decode_in :: "byte list \<Rightarrow> InMsg \<Rightarrow> (bool \<times> InMsg) option" where
  "decode_in p out =
     (if length p = 0 then Some (False, out)
      else do {
        t \<leftarrow> vec_at p 0;
        if t = ch CHR ''O'' then decode_enter p out
        else if t = ch CHR ''U'' then decode_replace p out
        else if t = ch CHR ''X'' then decode_cancel p out
        else Some (False, out) })"

section \<open>Outbound\<close>

definition encode_accepted :: "byte list \<Rightarrow> byte list \<Rightarrow> 64 word \<Rightarrow> Side \<Rightarrow> 32 word \<Rightarrow> Price \<Rightarrow> byte list" where
  "encode_accepted out token oid side qty price =
     enc64 (enc32 (enc64 (put_token (out @ [ch CHR ''A'']) token) oid @ [side_letter side]) qty) (price_bits price)"

definition encode_executed :: "byte list \<Rightarrow> byte list \<Rightarrow> 32 word \<Rightarrow> Price \<Rightarrow> 64 word \<Rightarrow> byte list" where
  "encode_executed out token qty price match =
     enc64 (enc64 (enc32 (put_token (out @ [ch CHR ''E'']) token) qty) (price_bits price)) match"

definition encode_canceled :: "byte list \<Rightarrow> byte list \<Rightarrow> byte \<Rightarrow> byte list" where
  "encode_canceled out token reason = put_token (out @ [ch CHR ''C'']) token @ [reason]"

definition encode_replaced :: "byte list \<Rightarrow> byte list \<Rightarrow> byte list \<Rightarrow> 64 word \<Rightarrow> 32 word \<Rightarrow> Price \<Rightarrow> byte list" where
  "encode_replaced out old_token new_token oid qty price =
     enc64 (enc32 (enc64 (put_token (put_token (out @ [ch CHR ''U'']) old_token) new_token) oid) qty) (price_bits price)"

definition encode_rejected :: "byte list \<Rightarrow> byte list \<Rightarrow> byte \<Rightarrow> byte list" where
  "encode_rejected out token reason = put_token (out @ [ch CHR ''J'']) token @ [reason]"

datatype OutType = OutAccepted | OutExecuted | OutCanceled | OutReplaced | OutRejected

record OutMsg =
  out_type :: OutType
  out_token :: "byte list"
  out_new_token :: "byte list"
  out_id :: "64 word"
  out_side :: Side
  out_qty :: "32 word"
  out_price :: Price
  out_match :: "64 word"
  out_reason :: byte

definition decode_accepted :: "byte list \<Rightarrow> OutMsg \<Rightarrow> (bool \<times> OutMsg) option" where
  "decode_accepted p out =
     (if length p < kAcceptedSize then Some (False, out)
      else do {
        token \<leftarrow> get_token p 1; oid \<leftarrow> be64 p 15; sd \<leftarrow> vec_at p 23; qty \<leftarrow> be32 p 24; price \<leftarrow> be64 p 28;
        Some (True, out\<lparr>out_type := OutAccepted, out_token := token, out_id := oid, out_side := letter_side sd,
          out_qty := qty, out_price := bits_price price\<rparr>) })"

definition decode_executed :: "byte list \<Rightarrow> OutMsg \<Rightarrow> (bool \<times> OutMsg) option" where
  "decode_executed p out =
     (if length p < kExecutedSize then Some (False, out)
      else do {
        token \<leftarrow> get_token p 1; qty \<leftarrow> be32 p 15; price \<leftarrow> be64 p 19; mtch \<leftarrow> be64 p 27;
        Some (True, out\<lparr>out_type := OutExecuted, out_token := token, out_qty := qty,
          out_price := bits_price price, out_match := mtch\<rparr>) })"

definition decode_canceled :: "byte list \<Rightarrow> OutMsg \<Rightarrow> (bool \<times> OutMsg) option" where
  "decode_canceled p out =
     (if length p < kCanceledSize then Some (False, out)
      else do {
        token \<leftarrow> get_token p 1; reason \<leftarrow> vec_at p 15;
        Some (True, out\<lparr>out_type := OutCanceled, out_token := token, out_reason := reason\<rparr>) })"

definition decode_replaced :: "byte list \<Rightarrow> OutMsg \<Rightarrow> (bool \<times> OutMsg) option" where
  "decode_replaced p out =
     (if length p < kReplacedSize then Some (False, out)
      else do {
        token \<leftarrow> get_token p 1; new_token \<leftarrow> get_token p (1 + kTokenLen); oid \<leftarrow> be64 p (1 + 2 * kTokenLen);
        qty \<leftarrow> be32 p (9 + 2 * kTokenLen); price \<leftarrow> be64 p (13 + 2 * kTokenLen);
        Some (True, out\<lparr>out_type := OutReplaced, out_token := token, out_new_token := new_token, out_id := oid,
          out_qty := qty, out_price := bits_price price\<rparr>) })"

definition decode_rejected :: "byte list \<Rightarrow> OutMsg \<Rightarrow> (bool \<times> OutMsg) option" where
  "decode_rejected p out =
     (if length p < kRejectedSize then Some (False, out)
      else do {
        token \<leftarrow> get_token p 1; reason \<leftarrow> vec_at p 15;
        Some (True, out\<lparr>out_type := OutRejected, out_token := token, out_reason := reason\<rparr>) })"

definition decode_out :: "byte list \<Rightarrow> OutMsg \<Rightarrow> (bool \<times> OutMsg) option" where
  "decode_out p out =
     (if length p = 0 then Some (False, out)
      else do {
        t \<leftarrow> vec_at p 0;
        if t = ch CHR ''A'' then decode_accepted p out
        else if t = ch CHR ''E'' then decode_executed p out
        else if t = ch CHR ''C'' then decode_canceled p out
        else if t = ch CHR ''U'' then decode_replaced p out
        else if t = ch CHR ''J'' then decode_rejected p out
        else Some (False, out) })"

lemmas decode_in_cases = decode_enter_def decode_replace_def decode_cancel_def
lemmas decode_out_cases = decode_accepted_def decode_executed_def decode_canceled_def decode_replaced_def
  decode_rejected_def

section \<open>Decoding is safe\<close>

lemma get_token_inside: "i + 14 \<le> length p \<Longrightarrow> \<exists>t. get_token p i = Some t"
  by (simp add: get_token_def size_defs slice_inside)

lemma decode_enter_inside:
  assumes "36 \<le> length p"
  shows "\<exists>m. decode_enter p out = Some (p ! 28 \<le> 3 \<and> p ! 35 \<le> 2, m)"
  using assms get_token_inside [of 1 p] u32.reads [of 16 p] u32.reads [of 29 p] u64.reads [of 20 p] u16.reads [of 33 p]
  by (auto simp: decode_enter_def vec_at_nth size_defs tif_code_def stp_code_def)

lemma decode_in_inside:
  "41 \<le> length p \<Longrightarrow> \<exists>m. decode_replace p out = Some (True, m)"
  "15 \<le> length p \<Longrightarrow> \<exists>m. decode_cancel p out = Some (True, m)"
  using get_token_inside [of 1 p] get_token_inside [of 15 p] u32.reads [of 29 p] u64.reads [of 33 p]
  by (auto simp: decode_in_cases size_defs)

lemma decode_out_inside:
  "36 \<le> length p \<Longrightarrow> \<exists>m. decode_accepted p out = Some (True, m)"
  "35 \<le> length p \<Longrightarrow> \<exists>m. decode_executed p out = Some (True, m)"
  "16 \<le> length p \<Longrightarrow> \<exists>m. decode_canceled p out = Some (True, m)"
  "49 \<le> length p \<Longrightarrow> \<exists>m. decode_replaced p out = Some (True, m)"
  "16 \<le> length p \<Longrightarrow> \<exists>m. decode_rejected p out = Some (True, m)"
  using get_token_inside [of 1 p] get_token_inside [of 15 p] u32.reads [of 15 p] u32.reads [of 24 p] u32.reads [of 37 p]
    u64.reads [of 15 p] u64.reads [of 19 p] u64.reads [of 27 p] u64.reads [of 28 p] u64.reads [of 29 p] u64.reads [of 41 p]
  by (auto simp: decode_out_cases vec_at_nth size_defs)

lemma decode_short:
  "length p < 36 \<Longrightarrow> decode_enter p out1 = Some (False, out1)" "length p < 41 \<Longrightarrow> decode_replace p out1 = Some (False, out1)"
  "length p < 15 \<Longrightarrow> decode_cancel p out1 = Some (False, out1)" "length p < 36 \<Longrightarrow> decode_accepted p out2 = Some (False, out2)"
  "length p < 35 \<Longrightarrow> decode_executed p out2 = Some (False, out2)" "length p < 16 \<Longrightarrow> decode_canceled p out2 = Some (False, out2)"
  "length p < 49 \<Longrightarrow> decode_replaced p out2 = Some (False, out2)" "length p < 16 \<Longrightarrow> decode_rejected p out2 = Some (False, out2)"
  by (simp_all add: decode_in_cases decode_out_cases size_defs)

text \<open>The length of each message by direction and type letter.\<close>

definition in_size :: "byte \<Rightarrow> nat option" where
  "in_size t = map_of [(ch CHR ''O'', 36), (ch CHR ''U'', 41), (ch CHR ''X'', 15)] t"

definition out_size :: "byte \<Rightarrow> nat option" where
  "out_size t = map_of [(ch CHR ''A'', 36), (ch CHR ''E'', 35), (ch CHR ''C'', 16), (ch CHR ''U'', 49), (ch CHR ''J'', 16)] t"

lemma decode_in_safe:
  "\<exists>ok m. decode_in p out = Some (ok, m) \<and>
     (ok \<longleftrightarrow> (\<exists>t rest n. p = t # rest \<and> in_size t = Some n \<and> n \<le> length p \<and>
        (t = ch CHR ''O'' \<longrightarrow> p ! 28 \<le> tif_code PostOnly \<and> p ! 35 \<le> stp_code CancelBoth)))"
proof (cases p)
  case (Cons t rest)
  have "\<exists>ok m. decode_in p out = Some (ok, m) \<and>
     (ok \<longleftrightarrow> (\<exists>n. in_size t = Some n \<and> n \<le> length p \<and> (t = ch CHR ''O'' \<longrightarrow> p ! 28 \<le> 3 \<and> p ! 35 \<le> 2)))"
    using decode_enter_inside [of p out] decode_in_inside [of p out] decode_short(1-3) [of p out]
    by (cases "length p < 36"; cases "length p < 41"; cases "length p < 15")
      (auto simp: decode_in_def in_size_def Cons)
  then show ?thesis by (simp add: Cons tif_code_def stp_code_def)
qed (auto simp: decode_in_def)

lemma decode_out_safe:
  "\<exists>ok m. decode_out p out = Some (ok, m) \<and>
     (ok \<longleftrightarrow> (\<exists>t rest n. p = t # rest \<and> out_size t = Some n \<and> n \<le> length p))"
proof (cases p)
  case (Cons t rest)
  have "\<exists>ok m. decode_out p out = Some (ok, m) \<and> (ok \<longleftrightarrow> (\<exists>n. out_size t = Some n \<and> n \<le> length p))"
    using decode_out_inside [of p out] decode_short(4-8) [of p out]
    by (cases "length p < 36"; cases "length p < 35"; cases "length p < 16"; cases "length p < 49")
      (auto simp: decode_out_def out_size_def Cons)
  then show ?thesis by (simp add: Cons)
qed (auto simp: decode_out_def)

lemma ouch_decode_total: "\<exists>ok m. decode_in p out = Some (ok, m)"
  using decode_in_safe by blast

text \<open>C40. On every byte string the two decoders return without reading outside it.  \<^verbatim>\<open>decode_out\<close> accepts
  exactly the strings that start with an outbound type letter and are at least as long as that
  message; \<^verbatim>\<open>decode_in\<close> the same for the inbound letters, and for an Enter only when its
  time-in-force and self-trade bytes are enumerators.\<close>

theorem ouch_decode_safe:
  "(\<exists>ok m. decode_in p in0 = Some (ok, m) \<and>
     (ok \<longleftrightarrow> (\<exists>t rest n. p = t # rest \<and> in_size t = Some n \<and> n \<le> length p \<and>
        (t = ch CHR ''O'' \<longrightarrow> p ! 28 \<le> tif_code PostOnly \<and> p ! 35 \<le> stp_code CancelBoth)))) \<and>
   (\<exists>ok m. decode_out p out0 = Some (ok, m) \<and>
     (ok \<longleftrightarrow> (\<exists>t rest n. p = t # rest \<and> out_size t = Some n \<and> n \<le> length p)))"
  using decode_in_safe decode_out_safe by blast

section \<open>Round trips\<close>

text \<open>The 14 bytes of a token on the wire.\<close>

definition token_field :: "byte list \<Rightarrow> byte list" where
  "token_field t = take 14 (cstr t) @ replicate (14 - length (cstr t)) (ch CHR '' '')"

lemma put_token_field: "put_token out t = out @ token_field t"
  by (auto simp: put_token_def token_field_def size_defs Let_def take_cstr)

lemma token_field_length [simp]: "length (token_field t) = 14"
  by (simp add: token_field_def)

lemma bits_price_inverse: "- (2 ^ 63) \<le> p \<Longrightarrow> p < 2 ^ 63 \<Longrightarrow> bits_price (price_bits p) = p"
  by (simp add: bits_price_def price_bits_def signed_of_int signed_take_bit_int_eq_self)

lemma letter_side_letter [simp]: "letter_side (side_letter s) = s"
  by (cases s) (simp_all add: letter_side_def side_letter_def)

lemma get_token_simps:
  "length a \<le> i \<Longrightarrow> get_token (a @ b) i = get_token b (i - length a)"
  "get_token (x # b) (Suc i) = get_token b i" "get_token (x # b) (numeral w) = get_token b (pred_numeral w)"
  "get_token (token_field t @ b) 0 = Some (token_field t @ [0])" "get_token (token_field t) 0 = Some (token_field t @ [0])"
  by (simp_all add: get_token_def slice_skip slice_front size_defs)

lemma code_bounds [simp]: "tif_code t \<le> tif_code PostOnly" "stp_code p \<le> stp_code CancelBoth"
  by (cases t, simp_all add: tif_code_def) (cases p, simp_all add: stp_code_def)

lemmas ouch_reads = wire_reads get_token_simps put_token_field bits_price_inverse size_defs

lemmas encode_in_defs = encode_enter_def encode_replace_def encode_cancel_order_def
lemmas encode_out_defs = encode_accepted_def encode_executed_def encode_canceled_def encode_replaced_def
  encode_rejected_def

lemma order_entry_round:
  assumes "- (2 ^ 63) \<le> price" "price < 2 ^ 63"
  shows "decode_in (encode_enter [] token side qty price tif display owner stp) out =
      Some (True, out\<lparr>in_type := InEnter, in_token := token_field token @ [0], in_side := side, in_qty := qty,
        in_price := price, in_tif := tif_code tif, in_display := display, in_owner := owner, in_stp := stp_code stp\<rparr>) \<and>
    decode_in (encode_replace [] token new_token qty price) out =
      Some (True, out\<lparr>in_type := InReplace, in_token := token_field token @ [0],
        in_new_token := token_field new_token @ [0], in_qty := qty, in_price := price\<rparr>) \<and>
    decode_in (encode_cancel_order [] token) out =
      Some (True, out\<lparr>in_type := InCancel, in_token := token_field token @ [0]\<rparr>)"
  using assms
  by (simp add: encode_in_defs decode_in_def decode_in_cases ouch_reads wire_writes)

text \<open>C38. An inbound message decodes to what was encoded: tokens padded to 14 bytes, side, quantity,
  price, time in force, display quantity, owner and self-trade policy, for every price that
  fits 64 bits.\<close>

theorem order_entry_round_trip:
  assumes "- (2 ^ 63) \<le> price" "price < 2 ^ 63"
  shows "decode_in (encode_enter [] token side qty price tif display owner stp) out =
      Some (True, out\<lparr>in_type := InEnter, in_token := token_field token @ [0], in_side := side, in_qty := qty,
        in_price := price, in_tif := tif_code tif, in_display := display, in_owner := owner, in_stp := stp_code stp\<rparr>) \<and>
    decode_in (encode_replace [] token new_token qty price) out =
      Some (True, out\<lparr>in_type := InReplace, in_token := token_field token @ [0],
        in_new_token := token_field new_token @ [0], in_qty := qty, in_price := price\<rparr>) \<and>
    decode_in (encode_cancel_order [] token) out =
      Some (True, out\<lparr>in_type := InCancel, in_token := token_field token @ [0]\<rparr>)"
  by (rule order_entry_round [OF assms])

definition in_blank :: InMsg where
  "in_blank = \<lparr>in_type = InCancel, in_token = [], in_new_token = [], in_side = Buy, in_qty = 0, in_price = 0,
     in_tif = 0, in_display = 0, in_owner = 0, in_stp = 0\<rparr>"

theorem order_entry_round_trip_witness:
  "\<exists>m. decode_in (encode_enter [] [65, 49] Sell 500 (- 7) IOC 100 3 CancelBoth) in_blank = Some (True, m) \<and>
     in_side m = Sell \<and> in_qty m = 500 \<and> in_price m = - 7 \<and> in_display m = 100 \<and> in_owner m = 3"
  using order_entry_round_trip [of "- 7" "[65, 49]" Sell 500 IOC 100 3 CancelBoth in_blank] by simp

text \<open>C39. An outbound message decodes to what was encoded: tokens padded to 14 bytes, order id, side,
  quantity, price, match number and reason, for every price that fits 64 bits.\<close>

theorem response_round_trip:
  assumes "- (2 ^ 63) \<le> price" "price < 2 ^ 63"
  shows "decode_out (encode_accepted [] token oid side qty price) out =
      Some (True, out\<lparr>out_type := OutAccepted, out_token := token_field token @ [0], out_id := oid,
        out_side := side, out_qty := qty, out_price := price\<rparr>) \<and>
    decode_out (encode_executed [] token qty price mtch) out =
      Some (True, out\<lparr>out_type := OutExecuted, out_token := token_field token @ [0], out_qty := qty,
        out_price := price, out_match := mtch\<rparr>) \<and>
    decode_out (encode_canceled [] token reason) out =
      Some (True, out\<lparr>out_type := OutCanceled, out_token := token_field token @ [0], out_reason := reason\<rparr>) \<and>
    decode_out (encode_replaced [] token new_token oid qty price) out =
      Some (True, out\<lparr>out_type := OutReplaced, out_token := token_field token @ [0],
        out_new_token := token_field new_token @ [0], out_id := oid, out_qty := qty, out_price := price\<rparr>) \<and>
    decode_out (encode_rejected [] token reason) out =
      Some (True, out\<lparr>out_type := OutRejected, out_token := token_field token @ [0], out_reason := reason\<rparr>)"
  using assms
  by (simp add: encode_out_defs decode_out_def decode_out_cases ouch_reads wire_writes)

definition out_blank :: OutMsg where
  "out_blank = \<lparr>out_type = OutRejected, out_token = [], out_new_token = [], out_id = 0, out_side = Buy, out_qty = 0,
     out_price = 0, out_match = 0, out_reason = 0\<rparr>"

theorem response_round_trip_witness:
  "\<exists>m. decode_out (encode_executed [] [65, 49] 500 (- 7) 12) out_blank = Some (True, m) \<and>
     out_qty m = 500 \<and> out_price m = - 7 \<and> out_match m = 12"
  using response_round_trip [where price = "- 7" and token = "[65, 49]" and qty = 500 and mtch = 12 and out = out_blank]
  by simp

theorem ouch_decode_safe_witness:
  "\<exists>m. decode_in [ch CHR ''X'', 65] in_blank = Some (False, m)"
proof -
  have "in_size (ch CHR ''X'') = Some 15" by code_simp
  with conjunct1 [OF ouch_decode_safe [where p = "[ch CHR ''X'', 65]" and ?in0.0 = in_blank]] show ?thesis by auto
qed

end
