(* ===== verification/Engine_Events.thy ===== *)
theory Engine_Events
  imports Uncrossed
begin

text \<open>
  The events of one call: every operation only appends to the tape, a submission opens with
  its Accept (or consists of one Reject), and nothing else that the engine does, the stop
  pump included, accepts or rejects.
\<close>

section \<open>Growing tapes\<close>

text \<open>State \<open>b\<close> has the tape of \<open>a\<close> and then events that all satisfy \<open>P\<close>.\<close>

definition grows :: "(event \<Rightarrow> bool) \<Rightarrow> astate \<Rightarrow> astate \<Rightarrow> bool" where
  "grows P a b \<longleftrightarrow> (\<exists>evs. a_tape b = a_tape a @ evs \<and> list_all P evs)"

lemma grows_refl [simp]: "grows P a a"
  by (simp add: grows_def)

lemma grows_trans [trans]: "grows P a b \<Longrightarrow> grows P b c \<Longrightarrow> grows P a c"
  unfolding grows_def by (metis append.assoc list_all_append)

lemma grows_same: "a_tape b = a_tape a \<Longrightarrow> grows P a b"
  by (simp add: grows_def)

lemma grows_emit: "P ev \<Longrightarrow> grows P a (a_emit ev a)"
  by (simp add: grows_def)

lemma grows_mono: "grows P a b \<Longrightarrow> (\<And>ev. P ev \<Longrightarrow> Q ev) \<Longrightarrow> grows Q a b"
  unfolding grows_def by (metis (mono_tags, lifting) list_all_iff)

text \<open>Neither an acceptance nor a rejection.\<close>

definition quiet :: "event \<Rightarrow> bool" where
  "quiet ev = (case ev of Accept _ _ _ _ \<Rightarrow> False | Rejected _ \<Rightarrow> False | _ \<Rightarrow> True)"

lemma quiet_simps [simp]:
  "quiet (Traded t)" "quiet (Cancelled i)" "quiet (Rested i s p q)" "\<not> quiet (Accept i s p q)" "\<not> quiet (Rejected i)"
  by (simp_all add: quiet_def)

section \<open>Matching, resting, firing\<close>

lemma sweep_quiet:
  assumes "a_sweep taker px ts owner stp q os = (q', h, evs, os')"
  shows "list_all quiet evs"
proof -
  have "pass_event owner A ev \<Longrightarrow> quiet ev" for A ev by (cases ev) (simp_all add: pass_event_def)
  with sweep_events [OF assms] show ?thesis unfolding list_all_iff by blast
qed

lemma match_levels_grows: "a_match_levels ts taker owner stp is q a = (q', a') \<Longrightarrow> grows quiet a a'"
proof (induction "is" arbitrary: q a)
  case (Cons i "is")
  show ?case
  proof (cases "q = 0")
    case False
    obtain q1 h evs os where sw: "a_sweep taker (a_min a + int i) ts owner stp q (a_books a (opposite ts) ! i) = (q1, h, evs, os)"
      and go: "(if a_stp_halt a \<or> h then (q1, a_swept (opposite ts) i (h, evs, os) a)
        else a_match_levels ts taker owner stp is q1 (a_swept (opposite ts) i (h, evs, os) a)) = (q', a')"
      using match_levels_split [OF Cons.prems False] by blast
    have "grows quiet a (a_swept (opposite ts) i (h, evs, os) a)"
      using sweep_quiet [OF sw] by (simp add: grows_def a_swept_def)
    with go Cons.IH show ?thesis by (fastforce split: if_splits intro: grows_trans)
  qed (use Cons.prems in simp)
qed simp

lemma match_grows: "grows quiet a (snd (a_match ts taker q limit owner stp a))"
  using match_levels_grows by (metis a_match_def prod.collapse)

lemma rest_grows: "grows quiet a (a_rest oid s p q ow stp pk a)"
  by (simp add: a_rest_def Let_def grows_def)

lemma place_grows: "grows quiet a (a_place oid s p q tif ow stp pk a)"
proof -
  obtain rem a1 where m: "a_match s oid q (a_idx a p) ow stp a = (rem, a1)" by fastforce
  have g: "grows quiet a a1" using match_grows [of a s oid q "a_idx a p" ow stp] m by simp
  have "grows quiet a1 (a_emit (Cancelled oid) (a1\<lparr>a_stp_halt := False\<rparr>))" "grows quiet a1 (a1\<lparr>a_stp_halt := False\<rparr>)"
    "grows quiet a1 (a_emit (Cancelled oid) a1)"
    by (simp_all add: grows_def)
  with m g rest_grows [of a1] rest_grows [of a] show ?thesis
    by (auto simp: a_place_def Let_def intro: grows_trans)
qed

lemma execute_grows: "grows quiet a (a_execute oid s l q mkt ow stp a)"
proof (cases mkt)
  case True
  have "grows quiet a (snd (a_match_market s oid q ow stp a))" unfolding a_match_market_def by (rule match_grows)
  then show ?thesis using True by (simp add: a_execute_def grows_def)
qed (simp add: a_execute_def place_grows)

lemma fire_grows: "grows quiet a (a_fire s i a)"
  using execute_grows [of "a_stop_level s i (tl (a_stops a s ! i)) a"] by (simp add: a_fire_def Let_def grows_def)

lemma pump_grows: "grows quiet a (a_pump a)"
proof (induction a rule: a_pump.induct)
  case (1 a)
  show ?case
  proof (cases "a_next_stop a")
    case (Some si)
    obtain s i where si: "a_next_stop a = Some (s, i)" using Some by (cases si) auto
    show ?thesis using 1 [OF si refl] fire_grows [of a s i] si
      by (subst a_pump.simps) (auto intro: grows_trans)
  qed (subst a_pump.simps, simp)
qed

text \<open>A run of a body: the body's events, then the pump's.\<close>

lemma run_grows: "grows quiet (snd (f a)) (snd (a_run f a))"
proof -
  obtain r b where b: "f a = (r, b)" by fastforce
  show ?thesis using pump_grows [of "b\<lparr>a_pumping := True\<rparr>"]
    by (simp add: a_run_def Let_def b grows_def)
qed

section \<open>The events of a submission\<close>

text \<open>What a submission appends, given the id it returns.\<close>

definition opens_with :: "OrderId \<Rightarrow> Side \<Rightarrow> Price \<Rightarrow> Qty \<Rightarrow> OrderId \<Rightarrow> event list \<Rightarrow> bool" where
  "opens_with nx s p q oid evs \<longleftrightarrow>
     (oid = kInvalidOrderId \<and> evs \<noteq> [] \<and> hd evs = Rejected kInvalidOrderId \<or>
      oid = nx \<and> evs \<noteq> [] \<and> hd evs = Accept oid s p q) \<and> list_all quiet (tl evs)"

lemma submit_opening:
  "\<exists>evs. a_tape (snd (a_submit s p q tif ow stp pk a)) = a_tape a @ Accept (a_next a) s p q # evs \<and>
     list_all quiet evs \<and> fst (a_submit s p q tif ow stp pk a) = a_next a \<and>
     a_next (snd (a_submit s p q tif ow stp pk a)) = Suc (a_next a)"
proof -
  let ?b = "a_emit (Accept (a_next a) s p q) (a\<lparr>a_next := Suc (a_next a)\<rparr>)"
  have "grows quiet ?b (snd (a_submit s p q tif ow stp pk a))"
    using place_grows [of ?b "a_next a" s p q tif ow stp pk] rest_grows [of ?b "a_next a" s p q ow stp pk]
      grows_emit [of quiet "Cancelled (a_next a)" ?b]
    by (simp add: a_submit_def a_fresh_def Let_def)
  moreover have "fst (a_submit s p q tif ow stp pk a) = a_next a \<and>
      a_next (snd (a_submit s p q tif ow stp pk a)) = Suc (a_next a)"
    using frame_place [of ?b "a_next a" s p q tif ow stp pk]
    by (simp add: a_submit_def a_fresh_def Let_def frame_def)
  ultimately show ?thesis by (auto simp: grows_def)
qed

definition opened :: "astate \<Rightarrow> Side \<Rightarrow> Price \<Rightarrow> Qty \<Rightarrow> reply \<times> astate \<Rightarrow> bool" where
  "opened a s p q res \<longleftrightarrow> (\<exists>oid evs. fst res = RId oid \<and> a_tape (snd res) = a_tape a @ evs \<and>
     opens_with (a_next a) s p q oid evs \<and>
     a_next (snd res) = (if hd evs = Accept oid s p q then Suc (a_next a) else a_next a))"

lemma body_opening:
  "opened a s p q (a_body (SubmitLimit s p q tif ow stp) a)"
  "opened a s p q (a_body (SubmitIceberg s p q d tif ow stp) a)"
proof -
  have "opened a s p q (RId kInvalidOrderId, a_emit (Rejected kInvalidOrderId) a)"
    by (simp add: opened_def opens_with_def)
  moreover have "opened a s p q (map_prod RId id (a_submit s p q tif ow stp pk a))" for pk
    using submit_opening [of s p q tif ow stp pk a] by (auto simp: opened_def opens_with_def)
  ultimately show "opened a s p q (a_body (SubmitLimit s p q tif ow stp) a)"
    "opened a s p q (a_body (SubmitIceberg s p q d tif ow stp) a)"
    by (simp_all add: a_submit_limit_def a_submit_iceberg_def)
qed

lemma run_reply: "fst (a_run f a) = fst (f a)"
  by (simp add: a_run_def Let_def split: prod.splits)

lemma pump_next: "a_next (a_pump a) = a_next a"
proof (induction a rule: a_pump.induct)
  case (1 a)
  show ?case
  proof (cases "a_next_stop a")
    case (Some si)
    obtain s i where si: "a_next_stop a = Some (s, i)" using Some by (cases si) auto
    have "a_next (a_fire s i a) = a_next a"
      using frame_execute [unfolded frame_def] by (simp add: a_fire_def Let_def)
    with 1 [OF si refl] si show ?thesis by (subst a_pump.simps) simp
  qed (subst a_pump.simps, simp)
qed

lemma call_next: "a_next (snd (a_call c a)) = a_next (snd (a_body c a))"
  by (simp add: a_call_def a_run_def Let_def pump_next split: prod.splits)

lemma opened_call:
  assumes "opened a s p q (a_body c a)"
  shows "opened a s p q (a_call c a)"
proof -
  obtain oid evs where b: "fst (a_body c a) = RId oid" "a_tape (snd (a_body c a)) = a_tape a @ evs"
    "opens_with (a_next a) s p q oid evs"
    "a_next (snd (a_body c a)) = (if hd evs = Accept oid s p q then Suc (a_next a) else a_next a)"
    using assms by (auto simp: opened_def)
  obtain more where m: "a_tape (snd (a_call c a)) = a_tape (snd (a_body c a)) @ more" "list_all quiet more"
    using run_grows [of "a_body c" a] by (auto simp: grows_def a_call_def)
  have "opens_with (a_next a) s p q oid (evs @ more)" "hd (evs @ more) = hd evs"
    using b(3) m(2) by (auto simp: opens_with_def)
  with b m(1) show ?thesis unfolding opened_def call_next by (auto simp: a_call_def run_reply)
qed

lemma call_opening:
  "opened a s p q (a_call (SubmitLimit s p q tif ow stp) a)"
  "opened a s p q (a_call (SubmitIceberg s p q d tif ow stp) a)"
  by (intro opened_call body_opening)+

section \<open>The other calls\<close>

text \<open>A pump on a settled state does nothing, so a body that does nothing is the whole call.\<close>

lemma pump_none: "a_next_stop a = None \<Longrightarrow> a_pump a = a"
  by (subst a_pump.simps) simp

lemma call_noop:
  assumes "settled a" "a_body c a = (r, a)"
  shows "a_call c a = (r, a)"
  using assms pump_none [of "a\<lparr>a_pumping := True\<rparr>"]
  by (auto simp: a_call_def a_run_def settled_def Let_def)

lemma cancel_events:
  assumes "settled a"
  shows "a_call (CancelOrder oid) a = (RBool False, a) \<or>
    fst (a_call (CancelOrder oid) a) = RBool True \<and>
    (\<exists>evs. a_tape (snd (a_call (CancelOrder oid) a)) = a_tape a @ Cancelled oid # evs \<and> list_all quiet evs)"
proof (cases "a_find oid a")
  case None
  then show ?thesis using call_noop [OF assms, of "CancelOrder oid"] by (simp add: a_cancel_def)
next
  case (Some r)
  have "a_tape (a_remove r a) = a_tape a" by (simp add: a_remove_def Let_def)
  with Some run_grows [of "a_body (CancelOrder oid)" a] show ?thesis
    by (auto simp: a_call_def run_reply a_cancel_def grows_def)
qed

text \<open>A modify that succeeds: its own Cancelled and Accept events are the only ones of that kind.\<close>

definition modify_event :: "OrderId \<Rightarrow> event \<Rightarrow> bool" where
  "modify_event oid ev \<longleftrightarrow> quiet ev \<or> (\<exists>s p q. ev = Accept oid s p q)"

lemma a_remove_tape [simp]: "a_tape (a_remove r a) = a_tape a"
  by (simp add: a_remove_def Let_def)

lemma a_replace_tape [simp]: "a_tape (a_replace r r' a) = a_tape a"
  by (simp add: a_replace_def Let_def)

lemma modify_events:
  assumes "settled a"
  shows "a_call (ModifyOrder oid p q) a = (RBool False, a) \<or>
    fst (a_call (ModifyOrder oid p q) a) = RBool True \<and> grows (modify_event oid) a (snd (a_call (ModifyOrder oid p q) a))"
proof (cases "fst (a_modify oid p q a)")
  case False
  then have "a_modify oid p q a = (False, a)"
    by (auto simp: a_modify_def a_cancel_def a_reduce_def Let_def split: option.splits if_splits)
  then show ?thesis using call_noop [OF assms, of "ModifyOrder oid p q"] by simp
next
  case True
  have q: "grows (modify_event oid) x y" if "grows quiet x y" for x y
    using that by (rule grows_mono) (simp add: modify_event_def)
  have red: "grows (modify_event oid) a (snd (a_reduce oid d a))" for d
    by (auto simp: a_reduce_def grows_same split: option.splits)
  have can: "grows (modify_event oid) a (snd (a_cancel oid a))"
    by (auto simp: a_cancel_def grows_def modify_event_def split: option.splits)
  have re: "grows (modify_event oid) a (a_place oid s p q GTC ow stp pk (a_emit (Accept oid s p q)
      (a_emit (Cancelled oid) (a_remove r a))))" for s ow stp pk r
    by (rule grows_trans [OF _ q [OF place_grows]]) (simp add: grows_def modify_event_def)
  have "grows (modify_event oid) a (snd (a_modify oid p q a))"
    using red can re by (auto simp: a_modify_def Let_def split: option.splits)
  with True q [OF run_grows [of "a_body (ModifyOrder oid p q)" a]] show ?thesis
    by (auto simp: a_call_def run_reply intro: grows_trans)
qed

lemma no_new_id:
  "a_next (snd (a_call (CancelOrder oid) a)) = a_next a" "a_next (snd (a_call (ModifyOrder oid p q) a)) = a_next a"
proof -
  have r: "a_next (a_remove r a) = a_next a" "a_next (a_replace r r' a) = a_next a" for r r'
    by (simp_all add: a_remove_def a_replace_def Let_def)
  show "a_next (snd (a_call (CancelOrder oid) a)) = a_next a"
    using r by (simp add: call_next a_cancel_def split: option.splits)
  show "a_next (snd (a_call (ModifyOrder oid p q) a)) = a_next a"
    using r frame_place [unfolded frame_def]
    by (simp add: call_next a_modify_def a_cancel_def a_reduce_def Let_def split: option.splits)
qed

section \<open>Every call extends the tape\<close>

text \<open>
  An auction only trades and rests; no call ever rewrites the tape.
\<close>

lemma clip_grows: "grows quiet a (a_clip s i f px a)"
  by (auto simp: a_clip_def a_auction_fill_def grows_def Let_def split: prod.splits)

lemma cross_step_grows: "grows quiet a (a_cross_step i j f p a)"
proof -
  let ?b = "a_emit (Traded \<lparr>t_taker = r_id (hd (a_books a Buy ! i)), t_maker = r_id (hd (a_books a Sell ! j)),
    t_price = p, t_qty = f, t_side = Buy\<rparr>) (a\<lparr>a_last := p, a_has_last := True\<rparr>)"
  have "grows quiet a ?b" by (simp add: grows_def)
  from grows_trans [OF grows_trans [OF this clip_grows] clip_grows] show ?thesis
    by (simp add: a_cross_step_def Let_def)
qed

lemma cross_grows: "grows quiet a (snd (a_cross p_idx p crossed a))"
proof (induction p_idx p crossed a rule: a_cross.induct)
  case (1 p_idx p crossed a)
  show ?case
  proof (cases "highest (a_books a Buy)"; cases "lowest (a_books a Sell)")
    fix i j assume h: "highest (a_books a Buy) = Some i" "lowest (a_books a Sell) = Some j"
    let ?f = "if ro_total (hd (a_books a Buy ! i)) < ro_total (hd (a_books a Sell ! j))
      then ro_total (hd (a_books a Buy ! i)) else ro_total (hd (a_books a Sell ! j))"
    show ?thesis
    proof (cases "p_idx \<le> i \<and> j \<le> p_idx \<and> ?f \<noteq> 0")
      case True
      have "grows quiet (a_cross_step i j ?f p a) (snd (a_cross p_idx p (crossed + ?f) (a_cross_step i j ?f p a)))"
        by (rule 1 [OF _ refl refl refl refl refl True]) (simp add: h)
      with grows_trans [OF cross_step_grows this] h True show ?thesis
        by (subst a_cross.simps) (simp add: Let_def)
    qed (subst a_cross.simps, auto simp: h Let_def)
  qed (subst a_cross.simps, simp)+
qed

lemma uncross_grows: "grows quiet a (snd (a_uncross a))"
  using cross_grows by (simp add: a_uncross_def Let_def split: option.splits prod.splits)

lemma body_extends: "grows (\<lambda>_. True) a (snd (a_body c a))"
proof -
  have q: "grows (\<lambda>_. True) x y" if "grows quiet x y" for x y using that by (rule grows_mono) simp
  have e: "grows (\<lambda>_. True) (a_emit ev x) y \<Longrightarrow> grows (\<lambda>_. True) x y" for ev x y
    by (rule grows_trans [OF grows_emit]) simp_all
  have n: "grows (\<lambda>_. True) x (y\<lparr>a_stp_halt := b\<rparr>) = grows (\<lambda>_. True) x y" for x y b
    by (simp add: grows_def)
  have sub: "grows (\<lambda>_. True) a (snd (a_submit s p qt tif ow stp pk a))" for s p qt tif ow stp pk
    using submit_opening [of s p qt tif ow stp pk a] by (auto simp: grows_def list_all_iff)
  have re: "grows (\<lambda>_. True) a (a_place oid s p qt tif ow stp pk (a_emit ev (a_emit ev' (a_remove r a))))"
    for oid s p qt tif ow stp pk ev ev' r
  proof -
    have "grows (\<lambda>_. True) (a_remove r a) (a_place oid s p qt tif ow stp pk (a_emit ev (a_emit ev' (a_remove r a))))"
      by (rule e, rule e, rule q, rule place_grows)
    then show ?thesis by (simp add: grows_def)
  qed
  have red: "grows (\<lambda>_. True) a (snd (a_reduce oid d a))" for oid d
    by (auto simp: a_reduce_def grows_same split: option.splits)
  have can: "grows (\<lambda>_. True) a (snd (a_cancel oid a))" for oid
    by (auto simp: a_cancel_def grows_def split: option.splits)
  have ex: "grows (\<lambda>_. True) a (a_execute oid s l qt m ow stp (a_emit ev (a\<lparr>a_next := k\<rparr>)))" for oid s l qt m ow stp ev k
  proof -
    have "grows (\<lambda>_. True) (a\<lparr>a_next := k\<rparr>) (a_execute oid s l qt m ow stp (a_emit ev (a\<lparr>a_next := k\<rparr>)))"
      by (rule e, rule q, rule execute_grows)
    then show ?thesis by (simp add: grows_def)
  qed
  have rs: "grows (\<lambda>_. True) a (a_rest_stop oid s p l qt m ow stp (a_emit ev (a\<lparr>a_next := k\<rparr>)))" for oid s p l qt m ow stp ev k
    by (simp add: grows_def a_rest_stop_def Let_def)
  have mk: "grows (\<lambda>_. True) a (snd (a_match_market s oid qt ow stp (a_emit ev (a\<lparr>a_next := k\<rparr>))))" for s oid qt ow stp ev k
  proof -
    have "grows (\<lambda>_. True) (a\<lparr>a_next := k\<rparr>) (snd (a_match_market s oid qt ow stp (a_emit ev (a\<lparr>a_next := k\<rparr>))))"
      unfolding a_match_market_def by (rule e, rule q, rule match_grows)
    then show ?thesis by (simp add: grows_def)
  qed
  show ?thesis
  proof (cases c)
    case (SubmitMarket s qt ow stp)
    with mk show ?thesis by (simp add: a_submit_market_def a_fresh_def Let_def case_prod_beta n grows_emit)
  next
    case (ModifyOrder oid p qt)
    with re red can show ?thesis by (simp add: a_modify_def Let_def split: option.splits)
  qed (use sub red can ex rs q [OF uncross_grows] in
    \<open>simp_all add: a_submit_limit_def a_submit_iceberg_def a_submit_stop_def a_fresh_def Let_def grows_emit grows_same\<close>)
qed

lemma call_extends: "grows (\<lambda>_. True) a (snd (a_call c a))"
proof -
  have "grows (\<lambda>_. True) (snd (a_body c a)) (snd (a_call c a))"
    using grows_mono [OF run_grows [of "a_body c" a]] by (simp add: a_call_def)
  with body_extends show ?thesis by (rule grows_trans)
qed

section \<open>Which ids a call accepts\<close>

text \<open>
  A call other than a modify accepts at most one id, the next fresh one, and does so first.
\<close>

definition starts :: "astate \<Rightarrow> astate \<Rightarrow> bool" where
  "starts a b \<longleftrightarrow> (\<exists>evs. a_tape b = a_tape a @ evs \<and> list_all quiet (tl evs) \<and>
     (evs = [] \<or> quiet (hd evs) \<or> hd evs = Rejected kInvalidOrderId \<or>
      (\<exists>s p q. hd evs = Accept (a_next a) s p q \<and> a_next b = Suc (a_next a))) \<and>
     a_next a \<le> a_next b)"

lemma starts_quiet: "grows quiet a b \<Longrightarrow> a_next b = a_next a \<Longrightarrow> starts a b"
proof -
  assume g: "grows quiet a b" and n: "a_next b = a_next a"
  then obtain evs where "a_tape b = a_tape a @ evs" "list_all quiet evs" by (auto simp: grows_def)
  with n show "starts a b" by (cases evs) (auto simp: starts_def)
qed

lemma starts_accept:
  assumes "grows quiet (a_emit (Accept (a_next a) s p q) (a\<lparr>a_next := Suc (a_next a)\<rparr>)) b" "a_next b = Suc (a_next a)"
  shows "starts a b"
  using assms by (auto simp: grows_def starts_def)

lemma starts_grows: "starts a b \<Longrightarrow> grows quiet b c \<Longrightarrow> a_next c = a_next b \<Longrightarrow> starts a c"
proof -
  assume "starts a b" "grows quiet b c" and n: "a_next c = a_next b"
  then obtain evs more where e: "a_tape b = a_tape a @ evs" "list_all quiet (tl evs)" "a_next a \<le> a_next b"
    "evs = [] \<or> quiet (hd evs) \<or> hd evs = Rejected kInvalidOrderId \<or>
      (\<exists>s p q. hd evs = Accept (a_next a) s p q \<and> a_next b = Suc (a_next a))"
    "a_tape c = a_tape b @ more" "list_all quiet more"
    unfolding starts_def grows_def by blast
  then show "starts a c"
    using n by (cases evs; cases more) (auto simp: starts_def)
qed

lemma starts_reject: "starts a (a_emit (Rejected kInvalidOrderId) a)"
  by (simp add: starts_def)

lemma body_starts:
  assumes "\<And>oid p q. c \<noteq> ModifyOrder oid p q"
  shows "starts a (snd (a_body c a))"
proof -
  let ?b = "\<lambda>s p q. a_emit (Accept (a_next a) s p q) (a\<lparr>a_next := Suc (a_next a)\<rparr>)"
  have ex: "starts a (a_execute oid s l q m ow stp (?b s' p q'))" for oid s l q m ow stp s' p q'
    by (rule starts_accept [OF execute_grows]) (simp add: frame_execute [unfolded frame_def])
  have rs: "starts a (a_rest_stop oid s p l q m ow stp (?b s' p' q'))" for oid s p l q m ow stp s' p' q'
    by (simp add: starts_def a_rest_stop_def Let_def)
  have mk: "starts a ((snd (a_match_market s oid q ow stp (?b s' p q')))\<lparr>a_stp_halt := False\<rparr>)" for s oid q ow stp s' p q'
    unfolding a_match_market_def
    by (rule starts_accept [of _ s' p q'])
      (use match_grows [of "?b s' p q'"] frame_match [of "?b s' p q'"] in \<open>simp_all add: grows_def frame_def\<close>)
  have sub: "starts a (snd (a_submit s p q tif ow stp pk a))" for s p q tif ow stp pk
    using submit_opening [of s p q tif ow stp pk a] by (auto simp: starts_def)
  have r: "a_next (a_remove x a) = a_next a" "a_next (a_replace x y a) = a_next a" for x y
    by (simp_all add: a_remove_def a_replace_def Let_def)
  have qt: "starts a (snd (a_reduce oid d a))" "starts a (snd (a_cancel oid a))" for oid d
    by (auto simp: a_reduce_def a_cancel_def grows_def r intro!: starts_quiet split: option.splits)
  have un: "starts a (snd (a_uncross a))"
    by (rule starts_quiet [OF uncross_grows]) (use cross_frame in \<open>simp add: a_uncross_def frame_def Let_def case_prod_beta split: option.splits\<close>)
  show ?thesis
  proof (cases c)
    case (SubmitMarket s q ow stp)
    with mk show ?thesis by (simp add: a_submit_market_def a_fresh_def Let_def case_prod_beta starts_reject)
  next
    case (ModifyOrder oid p q)
    with assms show ?thesis by blast
  qed (use sub qt ex rs un in
    \<open>simp_all add: a_submit_limit_def a_submit_iceberg_def a_submit_stop_def a_fresh_def Let_def starts_reject starts_quiet grows_same\<close>)
qed

lemma call_starts: "(\<And>oid p q. c \<noteq> ModifyOrder oid p q) \<Longrightarrow> starts a (snd (a_call c a))"
  using starts_grows [OF body_starts run_grows [of "a_body c" a, folded a_call_def] call_next] by blast

section \<open>What a caller of the engine sees\<close>

text \<open>A settled engine with its abstract state.\<close>

definition stands_for :: "engine \<Rightarrow> astate \<Rightarrow> bool" where
  "stands_for e a \<longleftrightarrow> refines e a \<and> settled a"

lemma stands_for_call:
  assumes "stands_for e a" "call c e = Some (r, e')"
  shows "stands_for e' (snd (a_call c a))" "r = fst (a_call c a)" "e_tape e = a_tape a"
    "e_tape e' = a_tape (snd (a_call c a))" "\<exists>evs. e_tape e' = e_tape e @ evs"
  using call_extends [of a c] call_forward [of e a c] assms settled_call [of a c] erelD(16) [OF refinesD(1)]
  by (auto simp: stands_for_def grows_def)

lemma stands_for_runs: "stands_for e a \<Longrightarrow> \<exists>r e'. call c e = Some (r, e')"
  using call_forward [of e a c] by (auto simp: stands_for_def)

lemma stands_for_new:
  "0 < chunk \<Longrightarrow> band_ok lo hi \<Longrightarrow> engine_new chunk lo hi expected = Some e \<Longrightarrow> stands_for e (astate_new lo hi)"
  using engine_new_refines [of chunk lo hi expected] settled_new by (auto simp: stands_for_def band_ok_def)

end
