(* ===== verification/Handler.thy ===== *)
theory Handler
  imports Engine_Events
begin

text \<open>
  Components that wrap an engine and listen to it: the OUCH gateway, the risk gate and the
  ITCH publisher.  The engine calls its handler in the middle of an operation, but the three
  handlers never call the engine back, so the events of a call are applied to the wrapper
  in order when the call returns.  The locale is the contract such a wrapper keeps - the
  handler leaves the engine alone - and what follows from it.
\<close>

section \<open>One call of a wrapped engine\<close>

text \<open>The events a call added to the tape.\<close>

definition new_events :: "engine \<Rightarrow> engine \<Rightarrow> event list" where
  "new_events e e' = drop (length (e_tape e)) (e_tape e')"

definition handled :: "('s \<Rightarrow> engine) \<Rightarrow> (engine \<Rightarrow> 's \<Rightarrow> 's) \<Rightarrow> (event \<Rightarrow> 's \<Rightarrow> 's) \<Rightarrow>
    (engine \<Rightarrow> ('r \<times> engine) option) \<Rightarrow> 's \<Rightarrow> ('r \<times> 's) option" where
  "handled get put on_event f s = do {
     (r, e) \<leftarrow> f (get s);
     Some (r, fold on_event (new_events (get s) e) (put e s)) }"

lemma new_events_eq: "e_tape e' = e_tape e @ evs \<Longrightarrow> new_events e e' = evs"
  by (simp add: new_events_def)

lemma handled_eq:
  assumes "f (get s) = Some (r, e')" "e_tape e' = e_tape (get s) @ evs"
  shows "handled get put ev f s = Some (r, fold ev evs (put e' s))"
  using assms by (simp add: handled_def new_events_def)

lemma handled_cong: "f (get s) = g (get s) \<Longrightarrow> handled get put ev f s = handled get put ev g s"
  by (simp add: handled_def)

lemma handled_reply:
  "map_option (map_prod h id) (handled get put ev f s) = handled get put ev (\<lambda>e. reply_as h (f e)) s"
  by (cases "f (get s)") (auto simp: handled_def reply_as_def)

locale handler =
  fixes get :: "'s \<Rightarrow> engine" and put :: "engine \<Rightarrow> 's \<Rightarrow> 's" and on_event :: "event \<Rightarrow> 's \<Rightarrow> 's"
  assumes get_put: "get (put e s) = e"
    and on_event_engine: "get (on_event ev s) = get s"
begin

lemma events_engine: "get (fold on_event evs s) = get s"
  by (induction evs arbitrary: s) (simp_all add: on_event_engine)

text \<open>The wrapped engine does exactly what the bare engine does.\<close>

lemma handled_engine:
  "handled get put on_event f s = Some (r, s') \<Longrightarrow> f (get s) = Some (r, get s')"
  by (auto simp: handled_def events_engine get_put bind_eq_Some_conv)

lemma handled_Some:
  "f (get s) = Some (r, e') \<Longrightarrow>
   handled get put on_event f s = Some (r, fold on_event (new_events (get s) e') (put e' s))"
  by (simp add: handled_def)

lemma handled_None: "handled get put on_event f s = None \<longleftrightarrow> f (get s) = None"
  by (cases "f (get s)") (auto simp: handled_def)

text \<open>A call on an engine that stands for an abstract state.\<close>

lemma handled_call:
  assumes "stands_for (get s) a" "call c (get s) = reply_as h (f (get s))"
  shows "\<exists>r s' evs. handled get put on_event f s = Some (r, s') \<and> stands_for (get s') (snd (a_call c a)) \<and>
    h r = fst (a_call c a) \<and> s' = fold on_event evs (put (get s') s) \<and> evs = new_events (get s) (get s') \<and>
    e_tape (get s) = a_tape a \<and> e_tape (get s') = a_tape (snd (a_call c a))"
proof -
  obtain r' e' where c: "call c (get s) = Some (r', e')" using stands_for_runs [OF assms(1)] by blast
  then obtain r where r: "f (get s) = Some (r, e')" "r' = h r"
    using assms(2) by (auto simp: reply_as_def)
  let ?s' = "fold on_event (new_events (get s) e') (put e' s)"
  have "get ?s' = e'" by (simp add: events_engine get_put)
  with handled_Some [of f s, OF r(1)] stands_for_call [OF assms(1) c] r(2) show ?thesis by auto
qed

end

end
