(* ===== verification/Gateway.thy ===== *)
theory Gateway
  imports Ouch Handler
begin

text \<open>
  The session gateway of \<^verbatim>\<open>include/matchbook/ouch.hpp\<close>: one OUCH session driving one engine.
  The engine calls the gateway's handler in the middle of an operation; the handler never
  re-enters the engine, so the events of a call are applied to the gateway when it returns.
\<close>

section \<open>State\<close>

datatype Mode = MIdle | MEnter | MReplace | MCancel

record gateway =
  gw_engine :: engine
  gw_by_token :: "byte list \<rightharpoonup> OrderId"
  gw_token_of :: "byte list list"
  gw_out :: "byte list list"
  gw_match_seq :: "64 word"
  gw_mode :: Mode
  gw_pending :: "byte list"
  gw_entered :: OrderId
  gw_replace :: OrderId

definition gateway_new :: "nat \<Rightarrow> Price \<Rightarrow> Price \<Rightarrow> nat \<Rightarrow> gateway option" where
  "gateway_new chunk lo hi expected = do {
     e \<leftarrow> engine_new chunk lo hi expected;
     Some \<lparr>gw_engine = e, gw_by_token = Map.empty, gw_token_of = [[]], gw_out = [], gw_match_seq = 0,
           gw_mode = MIdle, gw_pending = [], gw_entered = kInvalidOrderId, gw_replace = kInvalidOrderId\<rparr> }"

definition gw_emit :: "byte list \<Rightarrow> gateway \<Rightarrow> gateway" where
  "gw_emit m g = g\<lparr>gw_out := gw_out g @ [m]\<rparr>"

definition token_str :: "gateway \<Rightarrow> OrderId \<Rightarrow> byte list" where
  "token_str g oid = (if oid < length (gw_token_of g) then gw_token_of g ! oid else [])"

section \<open>Engine events to outbound messages\<close>

definition ev_accept :: "OrderId \<Rightarrow> Side \<Rightarrow> Price \<Rightarrow> Qty \<Rightarrow> gateway \<Rightarrow> gateway" where
  "ev_accept oid s p q g =
     (if gw_mode g = MReplace \<and> oid = gw_replace g then g
      else if gw_mode g \<noteq> MEnter then g
      else
        let ts = (if length (gw_token_of g) \<le> oid
                  then gw_token_of g @ replicate (oid + 1 - length (gw_token_of g)) [] else gw_token_of g)
        in gw_emit (encode_accepted [] (gw_pending g) (of_nat oid) s (ucast q) p)
             (g\<lparr>gw_entered := oid, gw_token_of := ts[oid := gw_pending g]\<rparr>))"

definition ev_trade :: "Trade \<Rightarrow> gateway \<Rightarrow> gateway" where
  "ev_trade t g =
     (let match = gw_match_seq g + 1;
          r1 = encode_executed [] (token_str g (t_taker t)) (ucast (t_qty t)) (t_price t) match;
          r2 = encode_executed [] (token_str g (t_maker t)) (ucast (t_qty t)) (t_price t) match
      in gw_emit r2 (gw_emit r1 (g\<lparr>gw_match_seq := match\<rparr>)))"

definition ev_cancel :: "OrderId \<Rightarrow> gateway \<Rightarrow> gateway" where
  "ev_cancel oid g =
     (if gw_mode g = MReplace \<and> oid = gw_replace g then g
      else
        let reason = (if gw_mode g = MCancel then kUserRequested
                      else if gw_mode g = MEnter \<and> oid = gw_entered g then kKilledOnEntry
                      else kSelfTrade)
        in gw_emit (encode_canceled [] (token_str g oid) reason) g)"

definition ev_reject :: "gateway \<Rightarrow> gateway" where
  "ev_reject g =
     (if gw_mode g \<noteq> MEnter then g else gw_emit (encode_rejected [] (gw_pending g) kValidation) g)"

text \<open>The handler of the engine type; it has no \<^verbatim>\<open>on_rest\<close>, so rests reach nobody.\<close>

definition gw_event :: "event \<Rightarrow> gateway \<Rightarrow> gateway" where
  "gw_event ev g =
     (case ev of
        Accept oid s p q \<Rightarrow> ev_accept oid s p q g
      | Traded t \<Rightarrow> ev_trade t g
      | Cancelled oid \<Rightarrow> ev_cancel oid g
      | Rejected oid \<Rightarrow> ev_reject g
      | Rested oid s p q \<Rightarrow> g)"

interpretation gw: handler gw_engine "\<lambda>e g. g\<lparr>gw_engine := e\<rparr>" gw_event
  by unfold_locales (auto simp: gw_event_def ev_accept_def ev_trade_def ev_cancel_def ev_reject_def gw_emit_def Let_def
      split: event.splits)

text \<open>One call of the engine with the events it raised.\<close>

definition engine_call :: "(engine \<Rightarrow> ('r \<times> engine) option) \<Rightarrow> gateway \<Rightarrow> ('r \<times> gateway) option" where
  "engine_call = handled gw_engine (\<lambda>e g. g\<lparr>gw_engine := e\<rparr>) gw_event"

section \<open>Inbound messages\<close>

definition gw_reject :: "byte list \<Rightarrow> byte \<Rightarrow> gateway \<Rightarrow> gateway" where
  "gw_reject token reason g = gw_emit (encode_rejected [] token reason) g"

definition enter_order :: "InMsg \<Rightarrow> engine \<Rightarrow> (OrderId \<times> engine) option" where
  "enter_order m =
     (let tif = tif_of_byte (in_tif m); stp = stp_of_byte (in_stp m)
      in if in_display m \<noteq> 0 \<and> in_display m < in_qty m
         then submit_iceberg (in_side m) (in_price m) (ucast (in_qty m)) (ucast (in_display m)) tif (in_owner m) stp
         else submit_limit (in_side m) (in_price m) (ucast (in_qty m)) tif (in_owner m) stp)"

definition handle_enter :: "InMsg \<Rightarrow> gateway \<Rightarrow> gateway option" where
  "handle_enter m g =
     (let token = cstr (in_token m)
      in if gw_by_token g token \<noteq> None then Some (gw_reject token kBadToken g)
         else do {
           (oid, g1) \<leftarrow> engine_call (enter_order m)
             (g\<lparr>gw_mode := MEnter, gw_pending := token, gw_entered := kInvalidOrderId\<rparr>);
           let g2 = g1\<lparr>gw_mode := MIdle\<rparr>;
           Some (if oid \<noteq> kInvalidOrderId then g2\<lparr>gw_by_token := (gw_by_token g2)(token \<mapsto> oid)\<rparr> else g2) })"

definition handle_cancel :: "InMsg \<Rightarrow> gateway \<Rightarrow> gateway option" where
  "handle_cancel m g =
     (let token = cstr (in_token m)
      in case gw_by_token g token of
           None \<Rightarrow> Some (gw_reject token kBadToken g)
         | Some oid \<Rightarrow>
             if oid = kInvalidOrderId then Some (gw_reject token kBadToken g)
             else do {
               (ok, g1) \<leftarrow> engine_call (cancel oid) (g\<lparr>gw_mode := MCancel\<rparr>);
               let g2 = g1\<lparr>gw_mode := MIdle\<rparr>;
               Some (if ok then g2 else gw_reject token kBadToken g2) })"

definition handle_replace :: "InMsg \<Rightarrow> gateway \<Rightarrow> gateway option" where
  "handle_replace m g =
     (let token = cstr (in_token m); new_token = cstr (in_new_token m)
      in case gw_by_token g token of
           None \<Rightarrow> Some (gw_reject new_token kBadToken g)
         | Some oid \<Rightarrow>
             if oid = kInvalidOrderId \<or> gw_by_token g new_token \<noteq> None then Some (gw_reject new_token kBadToken g)
             else do {
               old_token \<leftarrow> vec_at (gw_token_of g) oid;
               ts \<leftarrow> vec_set (gw_token_of g) oid new_token;
               let pos = length (gw_out g);
               (ok, g1) \<leftarrow> engine_call (modify oid (in_price m) (ucast (in_qty m)))
                            (g\<lparr>gw_token_of := ts, gw_mode := MReplace, gw_replace := oid\<rparr>);
               let g2 = g1\<lparr>gw_mode := MIdle\<rparr>;
               if \<not> ok then do {
                 ts1 \<leftarrow> vec_set (gw_token_of g2) oid old_token;
                 Some (gw_reject new_token kValidation (g2\<lparr>gw_token_of := ts1\<rparr>)) }
               else
                 let r = encode_replaced [] old_token new_token (of_nat oid) (in_qty m) (in_price m)
                 in Some (g2\<lparr>gw_by_token := (gw_by_token g2)(token \<mapsto> kInvalidOrderId, new_token \<mapsto> oid),
                            gw_out := take pos (gw_out g2) @ [r] @ drop pos (gw_out g2)\<rparr>) })"

text \<open>The message is decoded into an uninitialised local; a handler reads only fields that were set.\<close>

definition on_message :: "byte list \<Rightarrow> gateway \<Rightarrow> (bool \<times> gateway) option" where
  "on_message p g = do {
     (ok, m) \<leftarrow> decode_in p in_blank;
     if \<not> ok then Some (False, g)
     else do {
       g1 \<leftarrow> (case in_type m of InEnter \<Rightarrow> handle_enter m g | InReplace \<Rightarrow> handle_replace m g
               | InCancel \<Rightarrow> handle_cancel m g);
       Some (True, g1) } }"

definition take_out :: "gateway \<Rightarrow> byte list list \<times> gateway" where
  "take_out g = (gw_out g, g\<lparr>gw_out := []\<rparr>)"

section \<open>Applying the events of a call\<close>

definition is_executed :: "byte list \<Rightarrow> bool" where
  "is_executed m \<longleftrightarrow> m \<noteq> [] \<and> hd m = ch CHR ''E''"

text \<open>
  The Executed messages of a list of trades: two for each, the taker's and the maker's, under
  the tokens \<open>tok\<close>, with one match number that counts up from \<open>n\<close>.
\<close>

fun fill_msgs :: "(OrderId \<Rightarrow> byte list) \<Rightarrow> 64 word \<Rightarrow> Trade list \<Rightarrow> byte list list" where
  "fill_msgs tok n [] = []"
| "fill_msgs tok n (t # ts) =
     encode_executed [] (tok (t_taker t)) (ucast (t_qty t)) (t_price t) (n + 1) #
     encode_executed [] (tok (t_maker t)) (ucast (t_qty t)) (t_price t) (n + 1) # fill_msgs tok (n + 1) ts"

lemma message_letters [simp]:
  "is_executed (encode_executed [] t q p m)" "\<not> is_executed (encode_accepted [] t i s q p)"
  "\<not> is_executed (encode_canceled [] t r)" "\<not> is_executed (encode_rejected [] t r)"
  "\<not> is_executed (encode_replaced [] t u i q p)"
  by (simp_all add: is_executed_def encode_out_defs put_token_field wire_writes)

lemma token_str_cong: "gw_token_of g' = gw_token_of g \<Longrightarrow> token_str g' = token_str g"
  by (rule ext) (simp add: token_str_def)

lemma gw_emit_fields [simp]:
  "gw_engine (gw_emit m g) = gw_engine g" "gw_by_token (gw_emit m g) = gw_by_token g"
  "gw_token_of (gw_emit m g) = gw_token_of g" "gw_out (gw_emit m g) = gw_out g @ [m]"
  "gw_match_seq (gw_emit m g) = gw_match_seq g" "gw_mode (gw_emit m g) = gw_mode g"
  "gw_pending (gw_emit m g) = gw_pending g" "gw_entered (gw_emit m g) = gw_entered g"
  "gw_replace (gw_emit m g) = gw_replace g" "token_str (gw_emit m g) = token_str g"
  using token_str_cong [of "gw_emit m g" g] by (simp_all add: gw_emit_def)

text \<open>What an event leaves alone: everything but the queue and the match counter.\<close>

definition same_session :: "gateway \<Rightarrow> gateway \<Rightarrow> bool" where
  "same_session g g' \<longleftrightarrow> gw_engine g' = gw_engine g \<and> gw_by_token g' = gw_by_token g \<and>
     gw_token_of g' = gw_token_of g \<and> gw_mode g' = gw_mode g \<and> gw_pending g' = gw_pending g \<and>
     gw_entered g' = gw_entered g \<and> gw_replace g' = gw_replace g"

text \<open>Events that neither accept nor reject, and a replaced order's own Accept.\<close>

definition plain :: "gateway \<Rightarrow> event \<Rightarrow> bool" where
  "plain g ev \<longleftrightarrow> quiet ev \<or> gw_mode g = MReplace \<and> modify_event (gw_replace g) ev"

lemma plain_same: "same_session g g' \<Longrightarrow> plain g' = plain g"
  by (simp add: same_session_def plain_def fun_eq_iff)

lemma event_plain:
  assumes "plain g ev"
  shows "same_session g (gw_event ev g)" "\<exists>more. gw_out (gw_event ev g) = gw_out g @ more \<and>
    filter is_executed more = fill_msgs (token_str g) (gw_match_seq g) (trades [ev]) \<and>
    ((\<exists>oid. ev = Cancelled oid) \<and> gw_mode g \<noteq> MReplace \<longrightarrow> more \<noteq> [])"
    "gw_match_seq (gw_event ev g) = gw_match_seq g + of_nat (length (trades [ev]))"
  using assms
  by (auto simp: plain_def modify_event_def gw_event_def ev_accept_def ev_trade_def ev_cancel_def same_session_def Let_def
      gw_emit_def token_str_def quiet_def split: event.splits)

lemma fill_msgs_append:
  "fill_msgs tok n (ts @ us) = fill_msgs tok n ts @ fill_msgs tok (n + of_nat (length ts)) us"
  by (induction ts arbitrary: n) (simp_all add: algebra_simps)

lemma events_plain:
  assumes "list_all (plain g) evs"
  shows "same_session g (fold gw_event evs g) \<and> (\<exists>more. gw_out (fold gw_event evs g) = gw_out g @ more \<and>
    filter is_executed more = fill_msgs (token_str g) (gw_match_seq g) (trades evs) \<and>
    ((\<exists>oid. Cancelled oid \<in> set evs) \<and> gw_mode g \<noteq> MReplace \<longrightarrow> more \<noteq> [])) \<and>
    gw_match_seq (fold gw_event evs g) = gw_match_seq g + of_nat (length (trades evs))"
  using assms
proof (induction evs arbitrary: g)
  case Nil
  show ?case by (simp add: same_session_def)
next
  case (Cons ev evs)
  let ?g = "gw_event ev g"
  have p: "plain g ev" using Cons.prems by simp
  note e = event_plain [OF p]
  obtain m1 where m1: "gw_out ?g = gw_out g @ m1"
    "filter is_executed m1 = fill_msgs (token_str g) (gw_match_seq g) (trades [ev])"
    "(\<exists>oid. ev = Cancelled oid) \<and> gw_mode g \<noteq> MReplace \<longrightarrow> m1 \<noteq> []" using e(2) by blast
  have "list_all (plain ?g) evs" using Cons.prems plain_same [OF e(1)] by simp
  from Cons.IH [OF this] obtain m2 where m2: "same_session ?g (fold gw_event evs ?g)" "gw_out (fold gw_event evs ?g) = gw_out ?g @ m2"
    "filter is_executed m2 = fill_msgs (token_str ?g) (gw_match_seq ?g) (trades evs)"
    "(\<exists>oid. Cancelled oid \<in> set evs) \<and> gw_mode ?g \<noteq> MReplace \<longrightarrow> m2 \<noteq> []"
    "gw_match_seq (fold gw_event evs ?g) = gw_match_seq ?g + of_nat (length (trades evs))" by blast
  have "token_str ?g = token_str g" "gw_mode ?g = gw_mode g"
    using e(1) token_str_cong [of ?g g] by (simp_all add: same_session_def)
  moreover have "same_session g (fold gw_event evs ?g)" using e(1) m2(1) by (simp add: same_session_def)
  moreover have "trades (ev # evs) = trades [ev] @ trades evs" by (cases ev) simp_all
  ultimately show ?case
    using m1 m2(2-5) e(3) by (auto simp: fill_msgs_append algebra_simps intro!: exI [of _ "m1 @ m2"])
qed

section \<open>The session invariant\<close>

text \<open>
  The engine is settled; no call is in progress; a live token leads to an order whose slot
  leads back to the token; slots exist only for ids the engine has issued.
\<close>

definition session_of :: "gateway \<Rightarrow> astate \<Rightarrow> bool" where
  "session_of g a \<longleftrightarrow> stands_for (gw_engine g) a \<and> gw_mode g = MIdle \<and>
     gw_token_of g \<noteq> [] \<and> length (gw_token_of g) \<le> a_next a \<and>
     (\<forall>t oid. gw_by_token g t = Some oid \<and> oid \<noteq> kInvalidOrderId \<longrightarrow>
        oid < length (gw_token_of g) \<and> gw_token_of g ! oid = t)"

text \<open>What one message does to the outbound queue, and to the set of burned tokens.\<close>

definition answers :: "gateway \<Rightarrow> gateway \<Rightarrow> bool" where
  "answers g g' \<longleftrightarrow> (\<exists>more. gw_out g' = gw_out g @ more \<and> more \<noteq> [] \<and>
     filter is_executed more =
       fill_msgs (token_str g') (gw_match_seq g) (trades (new_events (gw_engine g) (gw_engine g'))) \<and>
     gw_match_seq g' = gw_match_seq g + of_nat (length (trades (new_events (gw_engine g) (gw_engine g')))) \<and>
     dom (gw_by_token g) \<subseteq> dom (gw_by_token g'))"

lemma engine_call_eq:
  assumes "f (gw_engine g) = Some (r, e')" "e_tape e' = e_tape (gw_engine g) @ evs"
  shows "engine_call f g = Some (r, fold gw_event evs (g\<lparr>gw_engine := e'\<rparr>))"
  unfolding engine_call_def using assms by (rule handled_eq)

text \<open>The engine operations the gateway uses, as it sees them.\<close>

lemma enter_order_seen:
  assumes a: "stands_for e a"
  obtains oid e' evs a' where "enter_order m e = Some (oid, e')" "stands_for e' a'" "e_tape e' = e_tape e @ evs"
    "opens_with (a_next a) (in_side m) (in_price m) (ucast (in_qty m)) oid evs"
    "a_next a' = (if hd evs = Accept oid (in_side m) (in_price m) (ucast (in_qty m)) then Suc (a_next a) else a_next a)"
proof -
  let ?op = "opened a (in_side m) (in_price m) (ucast (in_qty m))"
  obtain c where c: "call c e = reply_as RId (enter_order m e)" "?op (a_call c a)"
  proof (cases "in_display m \<noteq> 0 \<and> in_display m < in_qty m")
    case True
    then have "enter_order m e = submit_iceberg (in_side m) (in_price m) (ucast (in_qty m)) (ucast (in_display m))
        (tif_of_byte (in_tif m)) (in_owner m) (stp_of_byte (in_stp m)) e" by (simp add: enter_order_def Let_def)
    then show ?thesis using that [OF _ call_opening(2)] by simp
  next
    case False
    then have "enter_order m e = submit_limit (in_side m) (in_price m) (ucast (in_qty m))
        (tif_of_byte (in_tif m)) (in_owner m) (stp_of_byte (in_stp m)) e" by (auto simp: enter_order_def Let_def)
    then show ?thesis using that [OF _ call_opening(1)] by simp
  qed
  obtain r e' where r: "call c e = Some (r, e')" using stands_for_runs [OF a] by blast
  note sf = stands_for_call [OF a r]
  with r c that show ?thesis by (fastforce simp: opened_def reply_as_def)
qed

lemma cancel_seen:
  assumes a: "stands_for e a"
  obtains (no) e1 where "cancel oid e = Some (False, e1)" "stands_for e1 a" "e_tape e1 = e_tape e"
  | (yes) e1 evs a' where "cancel oid e = Some (True, e1)" "stands_for e1 a'" "a_next a' = a_next a"
      "e_tape e1 = e_tape e @ Cancelled oid # evs" "list_all quiet evs"
proof -
  obtain r e1 where r: "call (CancelOrder oid) e = Some (r, e1)" using stands_for_runs [OF a] by blast
  note sf = stands_for_call [OF a r]
  have "settled a" using a by (simp add: stands_for_def)
  from cancel_events [OF this, of oid] sf r that no_new_id(1) [of oid a] show ?thesis
    by (auto simp: reply_as_def)
qed

lemma modify_seen:
  assumes a: "stands_for e a"
  obtains (no) e1 where "modify oid p q e = Some (False, e1)" "stands_for e1 a" "e_tape e1 = e_tape e"
  | (yes) e1 evs a' where "modify oid p q e = Some (True, e1)" "stands_for e1 a'" "a_next a' = a_next a"
      "e_tape e1 = e_tape e @ evs" "list_all (modify_event oid) evs"
proof -
  obtain r e1 where r: "call (ModifyOrder oid p q) e = Some (r, e1)" using stands_for_runs [OF a] by blast
  note sf = stands_for_call [OF a r]
  have "settled a" using a by (simp add: stands_for_def)
  from modify_events [OF this, of oid p q] sf r that no_new_id(2) [of oid p q a] show ?thesis
    by (auto simp: reply_as_def grows_def)
qed

text \<open>A rejection that touches nothing.\<close>

lemma session_of_mono:
  "session_of g a \<Longrightarrow> gw_engine g' = gw_engine g \<Longrightarrow> gw_by_token g' = gw_by_token g \<Longrightarrow>
   gw_token_of g' = gw_token_of g \<Longrightarrow> gw_mode g' = gw_mode g \<Longrightarrow> session_of g' a"
  by (auto simp: session_of_def)

lemma reject_ok:
  assumes "session_of g a"
  shows "session_of (gw_reject t r g) a" "answers g (gw_reject t r g)"
  using session_of_mono [OF assms, of "gw_reject t r g"]
  by (simp_all add: gw_reject_def answers_def new_events_def)

lemma quiet_plain: "list_all quiet evs \<Longrightarrow> list_all (plain g) evs"
  by (simp add: list_all_iff plain_def)

lemma accept_fresh:
  assumes "length (gw_token_of g) \<le> oid" "gw_mode g = MEnter"
  shows "ev_accept oid s p q g = gw_emit (encode_accepted [] (gw_pending g) (of_nat oid) s (ucast q) p)
     (g\<lparr>gw_entered := oid, gw_token_of :=
        gw_token_of g @ replicate (oid - length (gw_token_of g)) [] @ [gw_pending g]\<rparr>)"
proof -
  have "oid + 1 - length (gw_token_of g) = Suc (oid - length (gw_token_of g))" using assms(1) by simp
  then have "(gw_token_of g @ replicate (oid + 1 - length (gw_token_of g)) [])[oid := gw_pending g] =
      gw_token_of g @ replicate (oid - length (gw_token_of g)) [] @ [gw_pending g]"
    using assms(1) by (simp add: list_update_append replicate_app_Cons_same [symmetric] del: replicate_Suc)
      (simp add: replicate_append_same [symmetric] list_update_append)
  with assms show ?thesis by (simp add: ev_accept_def Let_def)
qed

lemma enter_events:
  assumes o: "opens_with nx s p q oid evs" and l: "length (gw_token_of g) \<le> nx" and m: "gw_mode g = MEnter"
  shows "\<exists>g'. fold gw_event evs g = g' \<and> gw_engine g' = gw_engine g \<and> gw_by_token g' = gw_by_token g \<and>
    gw_token_of g' = (if hd evs = Accept oid s p q
      then gw_token_of g @ replicate (oid - length (gw_token_of g)) [] @ [gw_pending g] else gw_token_of g) \<and>
    (\<exists>more. gw_out g' = gw_out g @ more \<and> more \<noteq> [] \<and>
       filter is_executed more = fill_msgs (token_str g') (gw_match_seq g) (trades evs)) \<and>
    gw_match_seq g' = gw_match_seq g + of_nat (length (trades evs))"
proof -
  obtain ev rest where evs: "evs = ev # rest" "list_all quiet rest"
    "oid = kInvalidOrderId \<and> ev = Rejected kInvalidOrderId \<or> oid = nx \<and> ev = Accept oid s p q"
    using o by (cases evs) (auto simp: opens_with_def)
  let ?g = "gw_event ev g"
  have pl: "list_all (plain ?g) rest" using evs(2) by (rule quiet_plain)
  note f = events_plain [OF pl]
  have tk: "gw_token_of ?g = (if hd evs = Accept oid s p q
      then gw_token_of g @ replicate (oid - length (gw_token_of g)) [] @ [gw_pending g] else gw_token_of g)"
    "gw_engine ?g = gw_engine g" "gw_by_token ?g = gw_by_token g" "gw_match_seq ?g = gw_match_seq g"
    "\<exists>m. gw_out ?g = gw_out g @ [m] \<and> \<not> is_executed m" "trades evs = trades rest"
    using evs l m accept_fresh [OF _ m, of oid s p q]
    by (auto simp: gw_event_def ev_reject_def)
  have "token_str (fold gw_event rest ?g) = token_str ?g"
    using f token_str_cong [of "fold gw_event rest ?g" ?g] by (simp add: same_session_def)
  with f tk evs(1) show ?thesis by (auto simp: same_session_def)
qed

lemma handle_enter_ok:
  assumes "session_of g a"
  shows "\<exists>g' a'. handle_enter m g = Some g' \<and> session_of g' a' \<and> answers g g'"
proof (cases "gw_by_token g (cstr (in_token m)) = None")
  case False
  then show ?thesis using reject_ok [OF assms] by (auto simp: handle_enter_def Let_def)
next
  case True
  let ?t = "cstr (in_token m)"
  let ?g1 = "g\<lparr>gw_mode := MEnter, gw_pending := ?t, gw_entered := kInvalidOrderId\<rparr>"
  have sf: "stands_for (gw_engine g) a" and l: "length (gw_token_of g) \<le> a_next a" and ne: "gw_token_of g \<noteq> []"
    and bt: "\<And>t i. gw_by_token g t = Some i \<Longrightarrow> i \<noteq> kInvalidOrderId \<Longrightarrow> i < length (gw_token_of g) \<and> gw_token_of g ! i = t"
    using assms by (simp_all add: session_of_def)
  obtain oid e' evs a' where f: "enter_order m (gw_engine g) = Some (oid, e')" "stands_for e' a'"
      "e_tape e' = e_tape (gw_engine g) @ evs"
    and o: "opens_with (a_next a) (in_side m) (in_price m) (ucast (in_qty m)) oid evs"
    and n: "a_next a' = (if hd evs = Accept oid (in_side m) (in_price m) (ucast (in_qty m)) then Suc (a_next a) else a_next a)"
    by (rule enter_order_seen [OF sf, of m]) (rule that)
  have ec: "engine_call (enter_order m) ?g1 = Some (oid, fold gw_event evs (?g1\<lparr>gw_engine := e'\<rparr>))"
    using f(1,3) by (intro engine_call_eq) simp_all
  obtain g2 more where g2: "fold gw_event evs (?g1\<lparr>gw_engine := e'\<rparr>) = g2"
    "gw_engine g2 = e'" "gw_by_token g2 = gw_by_token g"
    "gw_token_of g2 = (if hd evs = Accept oid (in_side m) (in_price m) (ucast (in_qty m))
      then gw_token_of g @ replicate (oid - length (gw_token_of g)) [] @ [?t] else gw_token_of g)"
    "gw_out g2 = gw_out g @ more" "more \<noteq> []"
    "filter is_executed more = fill_msgs (token_str g2) (gw_match_seq g) (trades evs)"
    "gw_match_seq g2 = gw_match_seq g + of_nat (length (trades evs))"
    using enter_events [OF o, of "?g1\<lparr>gw_engine := e'\<rparr>"] l by auto
  define g' where "g' = (if oid \<noteq> kInvalidOrderId then g2\<lparr>gw_mode := MIdle, gw_by_token := (gw_by_token g2)(?t \<mapsto> oid)\<rparr>
    else g2\<lparr>gw_mode := MIdle\<rparr>)"
  have h: "handle_enter m g = Some g'" using True ec g2(1) by (simp add: handle_enter_def Let_def g'_def)
  have same: "gw_engine g' = e'" "gw_token_of g' = gw_token_of g2" "gw_out g' = gw_out g2" "gw_mode g' = MIdle"
    "gw_match_seq g' = gw_match_seq g2"
    "gw_by_token g' = (if oid \<noteq> kInvalidOrderId then (gw_by_token g)(?t \<mapsto> oid) else gw_by_token g)"
    using g2(2,3) by (simp_all add: g'_def)
  have "token_str g' = token_str g2" "new_events (gw_engine g) e' = evs"
    using token_str_cong [OF same(2)] new_events_eq [OF f(3)] by simp_all
  then have "answers g g'"
    using g2(5-8) unfolding answers_def same by auto
  moreover have "session_of g' a'"
  proof (cases "hd evs = Accept oid (in_side m) (in_price m) (ucast (in_qty m))")
    case True
    then have oid: "oid = a_next a" using o by (auto simp: opens_with_def)
    have "oid \<noteq> kInvalidOrderId" using oid l ne by (cases "gw_token_of g") (auto simp: kInvalidOrderId_def)
    with True oid l f(2) n g2(4) bt show ?thesis unfolding session_of_def same by (auto simp: nth_append)
  next
    case False
    then have "oid = kInvalidOrderId" using o by (auto simp: opens_with_def)
    with False l f(2) n g2(4) bt ne show ?thesis unfolding session_of_def same by auto
  qed
  ultimately show ?thesis using h by blast
qed

lemma handle_cancel_ok:
  assumes s: "session_of g a"
  shows "\<exists>g' a'. handle_cancel m g = Some g' \<and> session_of g' a' \<and> answers g g'"
proof (cases "\<exists>oid. gw_by_token g (cstr (in_token m)) = Some oid \<and> oid \<noteq> kInvalidOrderId")
  case False
  then show ?thesis using reject_ok [OF s] by (auto simp: handle_cancel_def Let_def split: option.splits)
next
  case True
  then obtain oid where oid: "gw_by_token g (cstr (in_token m)) = Some oid" "oid \<noteq> kInvalidOrderId" by blast
  let ?t = "cstr (in_token m)" and ?g1 = "g\<lparr>gw_mode := MCancel\<rparr>"
  have sf: "stands_for (gw_engine g) a" using s by (simp add: session_of_def)
  show ?thesis
  proof (rule cancel_seen [OF sf, of oid])
    fix e1 assume e1: "cancel oid (gw_engine g) = Some (False, e1)" "stands_for e1 a" "e_tape e1 = e_tape (gw_engine g)"
    let ?g2 = "g\<lparr>gw_engine := e1, gw_mode := MIdle\<rparr>"
    have "engine_call (cancel oid) ?g1 = Some (False, ?g1\<lparr>gw_engine := e1\<rparr>)"
      using e1 engine_call_eq [of "cancel oid" ?g1 False e1 "[]"] by simp
    then have "handle_cancel m g = Some (gw_reject ?t kBadToken ?g2)"
      using oid by (simp add: handle_cancel_def Let_def)
    moreover have "session_of ?g2 a" using s e1(2) by (auto simp: session_of_def)
    moreover have "new_events (gw_engine g) e1 = []" using e1(3) by (simp add: new_events_def)
    ultimately show ?thesis
      using reject_ok(1) [of ?g2 a] by (auto simp: answers_def gw_reject_def)
  next
    fix e1 evs a' assume e1: "cancel oid (gw_engine g) = Some (True, e1)" "stands_for e1 a'" "a_next a' = a_next a"
      "e_tape e1 = e_tape (gw_engine g) @ Cancelled oid # evs" "list_all quiet evs"
    let ?g2 = "?g1\<lparr>gw_engine := e1\<rparr>"
    let ?g3 = "fold gw_event (Cancelled oid # evs) ?g2"
    have pl: "list_all (plain ?g2) (Cancelled oid # evs)" using e1(5) by (intro quiet_plain) simp
    obtain more where f: "same_session ?g2 ?g3" "gw_out ?g3 = gw_out g @ more" "more \<noteq> []"
      "filter is_executed more = fill_msgs (token_str g) (gw_match_seq g) (trades (Cancelled oid # evs))"
      "gw_match_seq ?g3 = gw_match_seq g + of_nat (length (trades (Cancelled oid # evs)))"
      using events_plain [OF pl] token_str_cong [of ?g2 g] by auto
    have h: "handle_cancel m g = Some (?g3\<lparr>gw_mode := MIdle\<rparr>)"
      using oid e1 engine_call_eq [of "cancel oid" ?g1 True e1 "Cancelled oid # evs"]
      by (simp add: handle_cancel_def Let_def del: fold_simps)
    have same: "gw_engine ?g3 = e1" "gw_by_token ?g3 = gw_by_token g" "gw_token_of ?g3 = gw_token_of g"
      using f(1) by (simp_all add: same_session_def)
    have "new_events (gw_engine g) e1 = Cancelled oid # evs" using e1(4) by (rule new_events_eq)
    moreover have "token_str (?g3\<lparr>gw_mode := MIdle\<rparr>) = token_str g" using same(3) by (intro token_str_cong) simp
    ultimately have "answers g (?g3\<lparr>gw_mode := MIdle\<rparr>)"
      using f same by (simp add: answers_def)
    moreover have "session_of (?g3\<lparr>gw_mode := MIdle\<rparr>) a'"
      using s e1(2,3) same by (auto simp: session_of_def)
    ultimately show ?thesis using h by blast
  qed
qed

lemma handle_replace_ok:
  assumes s: "session_of g a"
  shows "\<exists>g' a'. handle_replace m g = Some g' \<and> session_of g' a' \<and> answers g g'"
proof (cases "\<exists>oid. gw_by_token g (cstr (in_token m)) = Some oid \<and> oid \<noteq> kInvalidOrderId \<and>
    gw_by_token g (cstr (in_new_token m)) = None")
  case False
  then show ?thesis using reject_ok [OF s] by (auto simp: handle_replace_def Let_def split: option.splits)
next
  case True
  let ?t = "cstr (in_token m)" and ?n = "cstr (in_new_token m)"
  obtain oid where oid: "gw_by_token g ?t = Some oid" "oid \<noteq> kInvalidOrderId" "gw_by_token g ?n = None"
    using True by blast
  have sf: "stands_for (gw_engine g) a" using s by (simp add: session_of_def)
  have ix: "oid < length (gw_token_of g)" "gw_token_of g ! oid = ?t" using s oid(1,2) by (auto simp: session_of_def)
  let ?ts = "(gw_token_of g)[oid := ?n]"
  let ?g1 = "g\<lparr>gw_token_of := ?ts, gw_mode := MReplace, gw_replace := oid\<rparr>"
  have tk: "vec_at (gw_token_of g) oid = Some ?t" "vec_set (gw_token_of g) oid ?n = Some ?ts"
    using ix by (simp_all add: vec_set_def)
  show ?thesis
  proof (rule modify_seen [OF sf, of oid "in_price m" "ucast (in_qty m)"])
    fix e1 assume e1: "modify oid (in_price m) (ucast (in_qty m)) (gw_engine g) = Some (False, e1)" "stands_for e1 a"
      "e_tape e1 = e_tape (gw_engine g)"
    let ?g2 = "?g1\<lparr>gw_engine := e1, gw_mode := MIdle, gw_token_of := gw_token_of g\<rparr>"
    have ec: "engine_call (modify oid (in_price m) (ucast (in_qty m))) ?g1 = Some (False, ?g1\<lparr>gw_engine := e1\<rparr>)"
      using e1 engine_call_eq [of "modify oid (in_price m) (ucast (in_qty m))" ?g1 False e1 "[]"] by simp
    have restore: "vec_set ?ts oid ?t = Some (gw_token_of g)" using ix by (simp add: vec_set_def list_update_same_conv)
    have "handle_replace m g = Some (gw_reject ?n kValidation ?g2)"
      by (simp add: handle_replace_def Let_def oid tk ec restore)
    moreover have "session_of ?g2 a" using s e1(2) by (auto simp: session_of_def)
    moreover have "new_events (gw_engine g) e1 = []" using e1(3) by (simp add: new_events_def)
    ultimately show ?thesis
      using reject_ok(1) [of ?g2 a] by (auto simp: answers_def gw_reject_def)
  next
    fix e1 evs a' assume e1: "modify oid (in_price m) (ucast (in_qty m)) (gw_engine g) = Some (True, e1)" "stands_for e1 a'"
      "a_next a' = a_next a" "e_tape e1 = e_tape (gw_engine g) @ evs" "list_all (modify_event oid) evs"
    let ?g2 = "?g1\<lparr>gw_engine := e1\<rparr>"
    let ?g3 = "fold gw_event evs ?g2"
    have pl: "list_all (plain ?g2) evs" using e1(5) by (simp add: list_all_iff plain_def)
    have "token_str ?g2 = token_str ?g1" by (rule token_str_cong) simp
    then obtain more where f: "same_session ?g2 ?g3" "gw_out ?g3 = gw_out g @ more"
      "filter is_executed more = fill_msgs (token_str ?g1) (gw_match_seq g) (trades evs)"
      "gw_match_seq ?g3 = gw_match_seq g + of_nat (length (trades evs))"
      using events_plain [OF pl] by auto
    have same: "gw_engine ?g3 = e1" "gw_by_token ?g3 = gw_by_token g" "gw_token_of ?g3 = ?ts"
      using f(1) by (simp_all add: same_session_def)
    define r where "r = encode_replaced [] ?t ?n (of_nat oid) (in_qty m) (in_price m)"
    define g4 where "g4 = ?g3\<lparr>gw_mode := MIdle, gw_by_token := (gw_by_token g)(?t \<mapsto> kInvalidOrderId, ?n \<mapsto> oid),
      gw_out := gw_out g @ r # more\<rparr>"
    have ec: "engine_call (modify oid (in_price m) (ucast (in_qty m))) ?g1 = Some (True, ?g3)"
      using e1 engine_call_eq [of "modify oid (in_price m) (ucast (in_qty m))" ?g1 True e1 evs] by simp
    have h: "handle_replace m g = Some g4"
      by (simp add: handle_replace_def Let_def oid tk ec f(2) same(2) g4_def r_def)
    have "new_events (gw_engine g) e1 = evs" using e1(4) by (rule new_events_eq)
    moreover have "token_str g4 = token_str ?g1" using same(3) by (intro token_str_cong) (simp add: g4_def)
    moreover have "\<not> is_executed r" by (simp add: r_def)
    ultimately have "answers g g4"
      using f(3,4) same by (auto simp: answers_def g4_def)
    moreover have "session_of g4 a'"
      using s e1(2,3) same oid ix by (auto simp: session_of_def g4_def nth_list_update)
    ultimately show ?thesis using h by blast
  qed
qed

section \<open>Sessions\<close>

fun gw_run :: "byte list list \<Rightarrow> gateway \<Rightarrow> gateway option" where
  "gw_run [] g = Some g"
| "gw_run (p # ps) g = do { (ok, g1) \<leftarrow> on_message p g; gw_run ps g1 }"

inductive gw_reached :: "gateway \<Rightarrow> bool" where
  new: "0 < chunk \<Longrightarrow> band_ok lo hi \<Longrightarrow> gateway_new chunk lo hi expected = Some g \<Longrightarrow> gw_reached g"
| message: "gw_reached g \<Longrightarrow> on_message p g = Some (ok, g') \<Longrightarrow> gw_reached g'"
| taken: "gw_reached g \<Longrightarrow> take_out g = (v, g') \<Longrightarrow> gw_reached g'"

lemma on_message_ok:
  assumes s: "session_of g a"
  shows "\<exists>ok m. decode_in p in_blank = Some (ok, m) \<and>
    (if ok then \<exists>g' a'. on_message p g = Some (True, g') \<and> session_of g' a' \<and> answers g g'
     else on_message p g = Some (False, g))"
proof -
  obtain ok m where d: "decode_in p in_blank = Some (ok, m)" using ouch_decode_total by blast
  have "\<exists>g' a'. (case in_type m of InEnter \<Rightarrow> handle_enter m g | InReplace \<Rightarrow> handle_replace m g
      | InCancel \<Rightarrow> handle_cancel m g) = Some g' \<and> session_of g' a' \<and> answers g g'"
    using handle_enter_ok [OF s, of m] handle_cancel_ok [OF s, of m] handle_replace_ok [OF s, of m]
    by (cases "in_type m") simp_all
  then obtain g' a' where h: "(case in_type m of InEnter \<Rightarrow> handle_enter m g | InReplace \<Rightarrow> handle_replace m g
      | InCancel \<Rightarrow> handle_cancel m g) = Some g'" "session_of g' a'" "answers g g'" by blast
  have "on_message p g = (if ok then Some (True, g') else Some (False, g))"
    by (simp add: on_message_def d h(1))
  with d h(2,3) show ?thesis by auto
qed

lemma gw_reached_session: "gw_reached g \<Longrightarrow> \<exists>a. session_of g a"
proof (induction rule: gw_reached.induct)
  case (new chunk lo hi expected g)
  then obtain e where "engine_new chunk lo hi expected = Some e" "g = \<lparr>gw_engine = e, gw_by_token = Map.empty,
      gw_token_of = [[]], gw_out = [], gw_match_seq = 0, gw_mode = MIdle, gw_pending = [],
      gw_entered = kInvalidOrderId, gw_replace = kInvalidOrderId\<rparr>"
    by (auto simp: gateway_new_def bind_eq_Some_conv)
  moreover have "a_next (astate_new lo hi) = 1" by (simp add: astate_new_def Let_def)
  ultimately show ?case
    using stands_for_new [OF new(1,2)] by (intro exI [of _ "astate_new lo hi"]) (simp add: session_of_def)
next
  case (message g p ok g')
  then obtain a where "session_of g a" by blast
  then obtain ok1 where "if ok1 then \<exists>g' a'. on_message p g = Some (True, g') \<and> session_of g' a' \<and> answers g g'
     else on_message p g = Some (False, g)" using on_message_ok by blast
  with message(2) \<open>session_of g a\<close> show ?case by (cases ok1) auto
next
  case (taken g v g')
  then show ?case by (auto simp: take_out_def session_of_def)
qed

lemma gw_reached_message:
  assumes "gw_reached g" "on_message p g = Some (ok, g')"
  shows "if ok then answers g g' else g' = g"
proof -
  obtain a where "session_of g a" using gw_reached_session [OF assms(1)] by blast
  then obtain ok1 where "if ok1 then \<exists>g' a'. on_message p g = Some (True, g') \<and> session_of g' a' \<and> answers g g'
     else on_message p g = Some (False, g)" using on_message_ok by blast
  with assms(2) show ?thesis by (cases ok1) auto
qed

lemma gw_run_burned:
  "gw_reached g \<Longrightarrow> gw_run ps g = Some g' \<Longrightarrow> gw_reached g' \<and> dom (gw_by_token g) \<subseteq> dom (gw_by_token g')"
proof (induction ps arbitrary: g)
  case (Cons p ps)
  then obtain ok g1 where g1: "on_message p g = Some (ok, g1)" "gw_run ps g1 = Some g'" by (auto simp: bind_eq_Some_conv)
  have "gw_reached g1" using gw_reached.message [OF Cons.prems(1) g1(1)] .
  moreover have "dom (gw_by_token g) \<subseteq> dom (gw_by_token g1)"
    using gw_reached_message [OF Cons.prems(1) g1(1)] by (auto simp: answers_def split: if_splits)
  ultimately show ?case using Cons.IH [of g1] g1(2) by blast
qed simp

section \<open>Properties\<close>

text \<open>A session to evaluate on: a resting sell of 10 under token 1, a crossing buy of 4 under token 2.\<close>

definition demo_in :: "byte list list" where
  "demo_in = [encode_enter [] [49] Sell 10 4 GTC 0 0 CancelTaker, encode_enter [] [50] Buy 4 5 IOC 0 0 CancelTaker]"

definition tok1 :: "byte list" where "tok1 = token_field [49]"
definition tok2 :: "byte list" where "tok2 = token_field [50]"

lemma demo_gateway:
  "do { g \<leftarrow> gateway_new 2 1 6 1; gw_run demo_in g } \<noteq> None"
  "do { g \<leftarrow> gateway_new 2 1 6 1; g1 \<leftarrow> gw_run demo_in g; Some (gw_by_token g1 tok1, gw_by_token g1 tok2, gw_match_seq g1) } =
     Some (Some 1, Some 2, 1)"
  by code_simp+

lemma demo_reached:
  obtains g g1 where "gateway_new 2 1 6 1 = Some g" "gw_run demo_in g = Some g1" "gw_reached g" "gw_reached g1"
    "gw_by_token g1 tok1 = Some 1" "gw_by_token g1 tok2 = Some 2"
proof -
  obtain g g1 where g: "gateway_new 2 1 6 1 = Some g" "gw_run demo_in g = Some g1"
    "gw_by_token g1 tok1 = Some 1" "gw_by_token g1 tok2 = Some 2"
    using demo_gateway(2) by (auto simp: bind_eq_Some_conv)
  have r: "gw_reached g" by (rule gw_reached.new [of 2 1 6, OF _ _ g(1)]) (simp_all add: band_ok_def)
  from g r gw_run_burned [OF r g(2)] that show ?thesis by blast
qed

text \<open>C17. The gateway never fails and never falls silent: at every state an OUCH session reaches, any byte
  string is either malformed (exactly when \<^verbatim>\<open>decode_in\<close> refuses it), and then nothing at all
  happens, or it is answered: the call returns, and at least one message is appended to the
  outbound queue behind the messages already there.\<close>

theorem gateway_answers:
  assumes "gw_reached g"
  shows "\<exists>ok m g'. decode_in p in_blank = Some (ok, m) \<and> on_message p g = Some (ok, g') \<and>
    (\<not> ok \<longrightarrow> g' = g) \<and> (ok \<longrightarrow> (\<exists>more. gw_out g' = gw_out g @ more \<and> more \<noteq> []))"
proof -
  obtain a where "session_of g a" using gw_reached_session [OF assms] by blast
  from on_message_ok [OF this, of p] show ?thesis by (fastforce simp: answers_def split: if_splits)
qed

theorem gateway_answers_witness:
  "\<exists>g g'. gw_reached g \<and> on_message (encode_cancel_order [] [49]) g = Some (True, g')"
proof -
  obtain g where "gw_reached g" using demo_reached by blast
  moreover have "\<exists>m. decode_in (encode_cancel_order [] [49]) in_blank = Some (True, m)"
    using order_entry_round [of 0 "[49]"] by simp
  ultimately show ?thesis using gateway_answers [of g "encode_cancel_order [] [49]"] by fastforce
qed

text \<open>C18. Fills are reported faithfully: for every message, the Executed messages it appends are, in order,
  one pair for each trade the engine made during the message - the taker's and the maker's,
  each under the order's current token, with the trade's quantity (cut to the 32 bits of the
  wire field) and price and a match number the two share - and the match numbers count up by
  one from trade to trade through the whole session.\<close>

theorem gateway_reports_fills:
  assumes "gw_reached g" "on_message p g = Some (ok, g')"
  shows "filter is_executed (drop (length (gw_out g)) (gw_out g')) =
      fill_msgs (token_str g') (gw_match_seq g) (trades (new_events (gw_engine g) (gw_engine g'))) \<and>
    gw_match_seq g' = gw_match_seq g + of_nat (length (trades (new_events (gw_engine g) (gw_engine g'))))"
  using gw_reached_message [OF assms] by (auto simp: answers_def new_events_def split: if_splits)

lemma demo_fill:
  "do { g0 \<leftarrow> gateway_new 2 1 6 1; g \<leftarrow> gw_run (take 1 demo_in) g0; (ok, g') \<leftarrow> on_message (demo_in ! 1) g;
        Some (ok, trades (new_events (gw_engine g) (gw_engine g')), gw_match_seq g, token_str g' 1, token_str g' 2) } =
   Some (True, [\<lparr>t_taker = 2, t_maker = 1, t_price = 4, t_qty = 4, t_side = Buy\<rparr>], 0, tok1, tok2)"
  by code_simp

theorem gateway_reports_fills_witness:
  "\<exists>g g'. gw_reached g \<and> on_message (demo_in ! 1) g = Some (True, g') \<and>
     filter is_executed (drop (length (gw_out g)) (gw_out g')) =
       [encode_executed [] tok2 4 4 1, encode_executed [] tok1 4 4 1]"
proof -
  obtain g0 g g' where g: "gateway_new 2 1 6 1 = Some g0" "gw_run (take 1 demo_in) g0 = Some g"
    "on_message (demo_in ! 1) g = Some (True, g')"
    "trades (new_events (gw_engine g) (gw_engine g')) = [\<lparr>t_taker = 2, t_maker = 1, t_price = 4, t_qty = 4, t_side = Buy\<rparr>]"
    "gw_match_seq g = 0" "token_str g' 1 = tok1" "token_str g' 2 = tok2"
    using demo_fill by (auto simp: bind_eq_Some_conv simp del: gw_run.simps)
  have "gw_reached g0" by (rule gw_reached.new [of 2 1 6, OF _ _ g(1)]) (simp_all add: band_ok_def)
  then have "gw_reached g" using gw_run_burned [OF _ g(2)] by blast
  with gateway_reports_fills [OF this g(3)] g show ?thesis by auto
qed

text \<open>C19. Tokens are single-use for the life of the session: once a token is known to the session, then
  after any further messages it is still known, and an Enter under it, or a Replace that asks
  for it as the new token, is answered by exactly one Rejected with reason T and changes
  nothing else - in particular it never reaches the engine.  Two live tokens never name the
  same order.\<close>

theorem tokens_single_use:
  assumes "gw_reached g" "t \<in> dom (gw_by_token g)" "gw_run ps g = Some g'"
    and m: "decode_in p in_blank = Some (True, m)"
      "in_type m = InEnter \<and> cstr (in_token m) = t \<or> in_type m = InReplace \<and> cstr (in_new_token m) = t"
  shows "on_message p g' = Some (True, g'\<lparr>gw_out := gw_out g' @ [encode_rejected [] t kBadToken]\<rparr>) \<and>
    (\<forall>u v i. gw_by_token g' u = Some i \<and> gw_by_token g' v = Some i \<and> i \<noteq> kInvalidOrderId \<longrightarrow> u = v)"
proof -
  have r: "gw_reached g'" "t \<in> dom (gw_by_token g')" using gw_run_burned [OF assms(1,3)] assms(2) by auto
  obtain a where a: "session_of g' a" using gw_reached_session [OF r(1)] by blast
  have "\<forall>u v i. gw_by_token g' u = Some i \<and> gw_by_token g' v = Some i \<and> i \<noteq> kInvalidOrderId \<longrightarrow> u = v"
    using a unfolding session_of_def by metis
  moreover have "on_message p g' = Some (True, gw_reject t kBadToken g')"
    using m r(2) by (auto simp: on_message_def handle_enter_def handle_replace_def Let_def split: option.splits)
  ultimately show ?thesis by (simp add: gw_reject_def gw_emit_def)
qed

theorem tokens_single_use_witness:
  "\<exists>g. gw_reached g \<and> on_message (encode_enter [] [49] Buy 9 9 GTC 0 0 CancelBoth) g =
     Some (True, g\<lparr>gw_out := gw_out g @ [encode_rejected [] tok1 kBadToken]\<rparr>)"
proof -
  obtain g where g: "gw_reached g" "gw_by_token g tok1 = Some 1" using demo_reached by blast
  have c: "cstr (token_field [49] @ [0]) = tok1" by code_simp
  obtain m where m: "decode_in (encode_enter [] [49] Buy 9 9 GTC 0 0 CancelBoth) in_blank = Some (True, m)"
    "in_type m = InEnter" "cstr (in_token m) = tok1"
    using order_entry_round [of 9 "[49]" Buy 9 GTC 0 0 CancelBoth in_blank] c by simp
  have "tok1 \<in> dom (gw_by_token g)" using g(2) by blast
  from tokens_single_use [OF g(1) this _ m(1), of "[]"] m(2,3) g(1) show ?thesis by auto
qed

section \<open>A replaced order that dies silently\<close>

text \<open>
  \<^verbatim>\<open>ev_cancel\<close> folds every cancel of the order being replaced into the Replaced message, the
  self-trade kill of its re-entered remainder included.  Here one owner rests a sell at 4 and
  a buy at 2 and replaces the buy by one at 4: the re-entry meets the owner's own sell and is
  killed, but the only answer is Replaced; the client is never told that the order is dead,
  and its cancel under the new token is rejected as a bad token.
\<close>

definition silent_kill :: "byte list list" where
  "silent_kill = [encode_enter [] [49] Sell 5 4 GTC 0 7 CancelTaker, encode_enter [] [50] Buy 5 2 GTC 0 7 CancelTaker,
     encode_replace [] [50] [51] 5 4, encode_cancel_order [] [51]]"

lemma replaced_order_killed_silently:
  "do { g \<leftarrow> gateway_new 2 1 6 1; g1 \<leftarrow> gw_run silent_kill g; Some (gw_out g1, open_orders (gw_engine g1)) } =
   Some ([encode_accepted [] [49] 1 Sell 5 4, encode_accepted [] [50] 2 Buy 5 2,
     encode_replaced [] [50] [51] 2 5 4, encode_rejected [] [51] kBadToken], 1)"
  by code_simp

end
