(* ===== verification/Amend.thy ===== *)
theory Amend
  imports Handler Engine_Properties
begin

text \<open>
  What cancel and reduce do to the book: exactly one order goes or shrinks, every other order
  keeps its place, and no stop becomes armed by it.
\<close>

section \<open>The queues as concatenations\<close>

lemma queue_concat:
  "queue s a = concat (case s of Buy \<Rightarrow> rev (a_books a s) | Sell \<Rightarrow> a_books a s)"
  "stop_queue s a = concat (case s of Buy \<Rightarrow> a_stops a s | Sell \<Rightarrow> rev (a_stops a s))"
  by (cases s; simp add: queue_def stop_queue_def ranks_def concat_filter_nonempty map_nth rev_map [symmetric])+

section \<open>Changing one order in place\<close>

text \<open>
  One level is changed by a function that leaves every order but one alone; over the whole
  side this is the same function on every level.
\<close>

lemma update_as_map:
  assumes "i < length oss" "\<And>j. j < length oss \<Longrightarrow> j \<noteq> i \<Longrightarrow> f (oss ! j) = oss ! j"
  shows "oss[i := f (oss ! i)] = map f oss"
  using assms by (intro nth_equalityI) (auto simp: nth_list_update)

lemma live_level:
  assumes r: "refines e a" and f: "a_find oid a = Some r"
  shows "r_id r = oid" "a_idx a (r_price r) < e_n e"
    "x \<in> set (a_books a s ! j) \<Longrightarrow> j < e_n e \<Longrightarrow> r_id x = oid \<Longrightarrow> x = r \<and> \<not> r_stop r \<and> s = r_side r \<and> j = a_idx a (r_price r)"
    "x \<in> set (a_stops a s ! j) \<Longrightarrow> j < e_n e \<Longrightarrow> r_id x = oid \<Longrightarrow> x = r \<and> r_stop r \<and> s = r_side r \<and> j = a_idx a (r_price r)"
proof -
  note e = refinesD(1) [OF r]
  have v: "view (e_store e) oid = Some r" using f find_sim [OF e] by simp
  then show id: "r_id r = oid" using erel_view_order [OF e] by blast
  have mn: "a_min a = e_min e" using erelD(1) [OF e] by simp
  have home: "\<exists>s. \<exists>j<e_n e. r \<in> set (a_books a s ! j) \<or> r \<in> set (a_stops a s ! j)"
    using v erel_lengths [OF e] unfolding erel_view_order [OF e] by (auto simp: in_set_conv_nth [of _ "a_books a _"]
      in_set_conv_nth [of _ "a_stops a _"]) blast+
  then show "a_idx a (r_price r) < e_n e"
    using level_order(3) [OF e] stop_order(4) [OF e] by (auto simp: a_idx_def mn)
  show "x = r \<and> \<not> r_stop r \<and> s = r_side r \<and> j = a_idx a (r_price r)"
    if "x \<in> set (a_books a s ! j)" "j < e_n e" "r_id x = oid"
    using level_order [OF e that(2,1)] that(3) v by (auto simp: a_idx_def mn)
  show "x = r \<and> r_stop r \<and> s = r_side r \<and> j = a_idx a (r_price r)"
    if "x \<in> set (a_stops a s ! j)" "j < e_n e" "r_id x = oid"
    using stop_order [OF e that(2,1)] that(3) v by (auto simp: a_idx_def mn)
qed

definition others :: "OrderId \<Rightarrow> ro list \<Rightarrow> ro list" where
  "others oid = filter (\<lambda>x. r_id x \<noteq> oid)"

lemma remove_books:
  assumes r: "refines e a" and f: "a_find oid a = Some r"
  shows "a_books (a_remove r a) s = map (others oid) (a_books a s)"
    "a_stops (a_remove r a) s = map (others oid) (a_stops a s)"
proof -
  note e = refinesD(1) [OF r] and l = live_level [OF r f]
  let ?i = "a_idx a (r_price r)"
  have same: "others oid os = os" if "\<And>x. x \<in> set os \<Longrightarrow> r_id x \<noteq> oid" for os
    using that by (simp add: others_def)
  have len: "length (a_books a s) = e_n e" "length (a_stops a s) = e_n e" for s using erel_lengths [OF e] by auto
  have b: "map (others oid) (a_books a s) =
      (if \<not> r_stop r \<and> s = r_side r then (a_books a s)[?i := others oid (a_books a s ! ?i)] else a_books a s)"
  proof (cases "\<not> r_stop r \<and> s = r_side r")
    case True
    have "(a_books a s)[?i := others oid (a_books a s ! ?i)] = map (others oid) (a_books a s)"
      by (rule update_as_map) (use l(2,3) len in \<open>auto intro!: same\<close>)
    with True show ?thesis by simp
  next
    case False
    have "map (others oid) (a_books a s) = a_books a s"
      by (rule nth_equalityI) (use l(3) False len in \<open>auto intro!: same\<close>)
    then show ?thesis unfolding if_not_P [OF False] .
  qed
  have t: "map (others oid) (a_stops a s) =
      (if r_stop r \<and> s = r_side r then (a_stops a s)[?i := others oid (a_stops a s ! ?i)] else a_stops a s)"
  proof (cases "r_stop r \<and> s = r_side r")
    case True
    have "(a_stops a s)[?i := others oid (a_stops a s ! ?i)] = map (others oid) (a_stops a s)"
      by (rule update_as_map) (use l(2,4) len in \<open>auto intro!: same\<close>)
    with True show ?thesis by simp
  next
    case False
    have "map (others oid) (a_stops a s) = a_stops a s"
      by (rule nth_equalityI) (use l(4) False len in \<open>auto intro!: same\<close>)
    then show ?thesis unfolding if_not_P [OF False] .
  qed
  show "a_books (a_remove r a) s = map (others oid) (a_books a s)"
    "a_stops (a_remove r a) s = map (others oid) (a_stops a s)"
    using b t l(1) by (auto simp: a_remove_def Let_def others_def)
qed

lemma remove_queues:
  assumes "refines e a" "a_find oid a = Some r"
  shows "queue s (a_remove r a) = others oid (queue s a)" "stop_queue s (a_remove r a) = others oid (stop_queue s a)"
  using remove_books [OF assms] by (cases s; simp add: queue_concat others_def filter_concat rev_map [symmetric])+

section \<open>A removal arms no stop\<close>

lemma next_stop_fewer:
  assumes "a_next_stop a = None" "a_has_last b = a_has_last a" "a_min b = a_min a" "a_last b = a_last a"
    "\<And>s. occ (a_stops b s) \<subseteq> occ (a_stops a s)"
  shows "a_next_stop b = None"
  using assms(1) subsetD [OF assms(5)] unfolding next_stop_none assms(2-4) by blast

lemma occ_others: "occ (map (others oid) oss) \<subseteq> occ oss"
  by (auto simp: occ_def others_def)

lemma a_remove_frame [simp]:
  "a_min (a_remove r a) = a_min a" "a_has_last (a_remove r a) = a_has_last a" "a_last (a_remove r a) = a_last a"
  "a_halted (a_remove r a) = a_halted a" "a_pumping (a_remove r a) = a_pumping a"
  by (simp_all add: a_remove_def Let_def)

text \<open>A call whose body arms no stop is its body.\<close>

lemma call_is_body:
  assumes "settled a" "a_halted (snd (a_body c a)) = a_halted a"
    "a_next_stop a = None \<Longrightarrow> a_next_stop (snd (a_body c a)) = None"
  shows "a_call c a = a_body c a"
proof -
  obtain r b where b: "a_body c a = (r, b)" by fastforce
  have p: "a_pumping b = a_pumping a" using body_pumping [of c a] b by simp
  show ?thesis
    using assms p b pump_none [of "b\<lparr>a_pumping := True\<rparr>"]
    by (auto simp: a_call_def a_run_def settled_def Let_def)
qed

lemma a_next_stop_emit [simp]: "a_next_stop (a_emit ev a) = a_next_stop a"
  by (simp add: a_next_stop_def Let_def cong: if_cong option.case_cong)

section \<open>Cancel\<close>

lemma cancel_call:
  assumes "stands_for e a" "a_find oid a = Some r"
  shows "a_call (CancelOrder oid) a = (RBool True, a_emit (Cancelled oid) (a_remove r a))"
proof -
  have rf: "refines e a" and st: "settled a" using assms(1) by (simp_all add: stands_for_def)
  have b: "a_body (CancelOrder oid) a = (RBool True, a_emit (Cancelled oid) (a_remove r a))"
    using assms(2) by (simp add: a_cancel_def)
  have "a_next_stop (a_remove r a) = None" if "a_next_stop a = None"
    by (rule next_stop_fewer [OF that]) (simp_all add: remove_books [OF rf assms(2)] occ_others)
  then have "a_call (CancelOrder oid) a = a_body (CancelOrder oid) a"
    by (intro call_is_body [OF st]) (simp_all only: b snd_conv a_emit_fields a_remove_frame a_next_stop_emit)
  with b show ?thesis by simp
qed

lemma cancel_call_none: "stands_for e a \<Longrightarrow> a_find oid a = None \<Longrightarrow> a_call (CancelOrder oid) a = (RBool False, a)"
  by (rule call_noop) (simp_all add: stands_for_def a_cancel_def)

text \<open>What an observer sees of an engine: the resting orders of both sides and the pending stops.\<close>

definition sees :: "engine \<Rightarrow> ((OrderId \<times> Side \<times> Price \<times> Qty) list \<times> (OrderId \<times> Side \<times> Price \<times> Qty) list \<times> OrderId list) option" where
  "sees e = do { bids \<leftarrow> visit_orders e Buy; asks \<leftarrow> visit_orders e Sell; stops \<leftarrow> visit_stops e; Some (bids, asks, stops) }"

lemma sees_sim:
  "refines e a \<Longrightarrow> sees e = Some (map shown (queue Buy a), map shown (queue Sell a),
     map r_id (stop_queue Buy a @ stop_queue Sell a))"
  using visit_orders_sim [OF refinesD(1), of e a] visit_stops_sim [OF refinesD(1), of e a] by (simp add: sees_def)

lemma find_live:
  assumes "refines e a"
  shows "a_find oid a = None \<longleftrightarrow> oid \<notin> r_id ` set (live_list a)"
proof -
  note e = refinesD(1) [OF assms]
  have "view (e_store e) oid \<noteq> None \<longleftrightarrow> oid \<in> r_id ` set (live_list a)"
    using live_mem [OF e] erel_view_order [OF e] by (force simp: image_iff)
  with find_sim [OF e, of oid] show ?thesis by (metis option.distinct(1))
qed

lemma live_ids: "r_id ` set (live_list a) =
    fst ` set (map shown (queue Buy a)) \<union> fst ` set (map shown (queue Sell a)) \<union>
    set (map r_id (stop_queue Buy a @ stop_queue Sell a))"
  by (auto simp: live_list_def shown_def image_iff)

lemma others_none: "oid \<notin> r_id ` set os \<Longrightarrow> others oid os = os"
  by (auto simp: others_def filter_id_conv)

lemma others_shown:
  "map shown (others oid os) = filter (\<lambda>x. fst x \<noteq> oid) (map shown os)"
  "map r_id (others oid os) = filter (\<lambda>i. i \<noteq> oid) (map r_id os)"
  by (induction os) (auto simp: others_def shown_def)

lemma cancel_effect:
  assumes a: "stands_for e a"
  obtains e' a' where "cancel oid e = Some (oid \<in> r_id ` set (live_list a), e')" "stands_for e' a'"
    "\<And>s. queue s a' = others oid (queue s a)" "\<And>s. stop_queue s a' = others oid (stop_queue s a)"
    "e_tape e' = e_tape e @ (if oid \<in> r_id ` set (live_list a) then [Cancelled oid] else [])"
proof -
  have rf: "refines e a" using a by (simp add: stands_for_def)
  obtain rp e' where c: "call (CancelOrder oid) e = Some (rp, e')" using stands_for_runs [OF a] by blast
  note sf = stands_for_call [OF a c]
  show ?thesis
  proof (cases "a_find oid a")
    case None
    then have n: "oid \<notin> r_id ` set (live_list a)" using find_live [OF rf] by simp
    then have "others oid (queue s a) = queue s a" "others oid (stop_queue s a) = stop_queue s a" for s
      by (cases s; auto simp: live_list_def intro!: others_none)+
    moreover have "rp = RBool False" "e_tape e' = e_tape e" "stands_for e' a"
      using cancel_call_none [OF a None] sf by simp_all
    ultimately show ?thesis using that [of e' a] c n by (auto simp: reply_as_def)
  next
    case (Some r)
    let ?a = "a_emit (Cancelled oid) (a_remove r a)"
    have l: "oid \<in> r_id ` set (live_list a)" using find_live [OF rf, of oid] Some by simp
    have q: "queue s ?a = others oid (queue s a)" "stop_queue s ?a = others oid (stop_queue s a)" for s
      using remove_queues [OF rf Some] by (simp_all add: queue_def stop_queue_def)
    have "rp = RBool True" "e_tape e' = e_tape e @ [Cancelled oid]" "stands_for e' ?a"
      using cancel_call [OF a Some] sf by simp_all
    with that [of e' ?a] q c l show ?thesis by (auto simp: reply_as_def)
  qed
qed

lemma reached_stands_for: "reached P e \<Longrightarrow> \<exists>a. stands_for e a"
  using reached_settled by (auto simp: stands_for_def)

text \<open>C24. Cancel is exact.  On every reachable engine it returns; it returns true exactly if the id is a
  resting order or a pending stop; it emits exactly the Cancelled of that order, or nothing; and
  afterwards the books and the stops are what they were without that id, every other order
  with its quantity and in its place in the queue.\<close>

theorem cancel_exact:
  assumes "reachable e"
  shows "\<exists>bids asks stops e'. sees e = Some (bids, asks, stops) \<and>
    cancel oid e = Some (oid \<in> fst ` set bids \<union> fst ` set asks \<union> set stops, e') \<and>
    e_tape e' = e_tape e @ (if oid \<in> fst ` set bids \<union> fst ` set asks \<union> set stops then [Cancelled oid] else []) \<and>
    sees e' = Some (filter (\<lambda>x. fst x \<noteq> oid) bids, filter (\<lambda>x. fst x \<noteq> oid) asks, filter (\<lambda>i. i \<noteq> oid) stops)"
proof -
  obtain a where a: "stands_for e a" using reached_stands_for [OF assms] by blast
  show ?thesis
  proof (rule cancel_effect [OF a, of oid])
    fix e' a' assume c: "cancel oid e = Some (oid \<in> r_id ` set (live_list a), e')" "stands_for e' a'"
      and q: "\<And>s. queue s a' = others oid (queue s a)" "\<And>s. stop_queue s a' = others oid (stop_queue s a)"
      and t: "e_tape e' = e_tape e @ (if oid \<in> r_id ` set (live_list a) then [Cancelled oid] else [])"
    have "sees e = Some (map shown (queue Buy a), map shown (queue Sell a), map r_id (stop_queue Buy a @ stop_queue Sell a))"
      using a by (intro sees_sim) (simp add: stands_for_def)
    moreover have "sees e' = Some (map shown (queue Buy a'), map shown (queue Sell a'), map r_id (stop_queue Buy a' @ stop_queue Sell a'))"
      using c(2) by (intro sees_sim) (simp add: stands_for_def)
    ultimately show ?thesis
      using c(1) t unfolding q live_ids by (simp add: others_shown)
  qed
qed

lemma demo_sees:
  obtains e where "reachable e" "sees e = Some ([(5, Buy, 2, 7)], [(1, Sell, 4, 4), (2, Sell, 5, 4)], [3])"
proof -
  obtain e where e: "refines e (snd (a_session 1 6 demo))" "reachable e" using demo_session by blast
  have "map shown (queue Buy (snd (a_session 1 6 demo))) = [(5, Buy, 2, 7)]"
    "map shown (queue Sell (snd (a_session 1 6 demo))) = [(1, Sell, 4, 4), (2, Sell, 5, 4)]"
    "map r_id (stop_queue Buy (snd (a_session 1 6 demo)) @ stop_queue Sell (snd (a_session 1 6 demo))) = [3]"
    by code_simp+
  with sees_sim [OF e(1)] e(2) that show ?thesis by simp
qed

theorem cancel_exact_witness:
  "\<exists>e e'. reachable e \<and> cancel 1 e = Some (True, e') \<and> e_tape e' = e_tape e @ [Cancelled 1] \<and>
     sees e' = Some ([(5, Buy, 2, 7)], [(2, Sell, 5, 4)], [3])"
proof -
  obtain e where e: "reachable e" "sees e = Some ([(5, Buy, 2, 7)], [(1, Sell, 4, 4), (2, Sell, 5, 4)], [3])"
    by (rule demo_sees)
  from cancel_exact [OF e(1), of 1] e show ?thesis by auto
qed

end
