(* ===== verification/Risk_Gate.thy ===== *)
theory Risk_Gate
  imports Amend "HOL-Library.Signed_Division"
begin

text \<open>
  \<^verbatim>\<open>include/matchbook/risk_gate.hpp\<close>: pre-trade risk controls in front of an engine.  The gate
  owns the engine, refuses order flow before the engine sees it, and keeps a net filled
  position per owner from the trades that pass by on their way to the user's handler, which
  is the list of the calls it receives.  Prices, positions and limits are \<^verbatim>\<open>int64_t\<close>: every sum,
  difference and negation the gate computes is taken modulo 2^64 into the signed range.  The
  language leaves such an overflow undefined; wrapping is what the machine does with it.
\<close>

section \<open>Signed 64-bit arithmetic\<close>

definition wrap64 :: "int \<Rightarrow> int" where
  "wrap64 x = signed_take_bit 63 x"

lemma wrap64_id: "- (2 ^ 63) \<le> x \<Longrightarrow> x < 2 ^ 63 \<Longrightarrow> wrap64 x = x"
  unfolding wrap64_def by (rule signed_take_bit_int_eq_self)

lemma wrap64_abs: "\<bar>x\<bar> < 2 ^ 63 \<Longrightarrow> wrap64 x = x"
  by (rule wrap64_id) simp_all

section \<open>State\<close>

record RiskLimits =
  max_order_qty :: Qty
  max_notional :: int
  price_collar :: Price
  max_open_orders :: nat
  max_position :: int
  max_messages :: "64 word"
  allow_market :: bool

text \<open>The default member values: zero limits are unlimited.\<close>

definition no_limits :: RiskLimits where
  "no_limits = \<lparr>max_order_qty = 0, max_notional = 0, price_collar = 0, max_open_orders = 0, max_position = 0,
     max_messages = 0, allow_market = True\<rparr>"

datatype RiskReject = RrNone | Killed | MsgBudget | MarketBlocked | OrderQty | Notional | Collar | OpenOrders | Position

record gate =
  rg_engine :: engine
  rg_limits :: RiskLimits
  rg_owner_of :: "OwnerId list"
  rg_positions :: "OwnerId \<Rightarrow> int"
  rg_rejects :: "RiskReject \<Rightarrow> 64 word"
  rg_window :: "64 word"
  rg_pending :: OwnerId
  rg_last_reject :: RiskReject
  rg_killed :: bool
  rg_has_on_rest :: bool
  rg_user :: "event list"

definition gate_new :: "nat \<Rightarrow> Price \<Rightarrow> Price \<Rightarrow> nat \<Rightarrow> bool \<Rightarrow> RiskLimits \<Rightarrow> gate option" where
  "gate_new chunk lo hi expected has_on_rest limits = do {
     e \<leftarrow> engine_new chunk lo hi expected;
     Some \<lparr>rg_engine = e, rg_limits = limits, rg_owner_of = [0], rg_positions = (\<lambda>_. 0), rg_rejects = (\<lambda>_. 0),
           rg_window = 0, rg_pending = 0, rg_last_reject = RrNone, rg_killed = False,
           rg_has_on_rest = has_on_rest, rg_user = []\<rparr> }"

section \<open>Checks\<close>

definition fail :: "RiskReject \<Rightarrow> gate \<Rightarrow> bool \<times> gate" where
  "fail r g = (False, g\<lparr>rg_last_reject := r, rg_rejects := (rg_rejects g)(r := rg_rejects g r + 1)\<rparr>)"

definition over_budget :: "gate \<Rightarrow> bool" where
  "over_budget g \<longleftrightarrow> max_messages (rg_limits g) \<noteq> 0 \<and> rg_window g > max_messages (rg_limits g)"

definition check_qty :: "gate \<Rightarrow> Qty \<Rightarrow> bool" where
  "check_qty g q \<longleftrightarrow> max_order_qty (rg_limits g) = 0 \<or> q \<le> max_order_qty (rg_limits g)"

definition check_notional :: "gate \<Rightarrow> Price \<Rightarrow> Qty \<Rightarrow> bool" where
  "check_notional g px q \<longleftrightarrow> max_notional (rg_limits g) = 0 \<or> px \<le> 0 \<or>
     q \<le> of_int (max_notional (rg_limits g) sdiv px)"

definition check_collar :: "gate \<Rightarrow> Price \<Rightarrow> bool" where
  "check_collar g px \<longleftrightarrow> price_collar (rg_limits g) = 0 \<or> \<not> e_has_last (rg_engine g) \<or>
     (let d = wrap64 (px - e_last_px (rg_engine g)); d = (if d < 0 then wrap64 (- d) else d) in d \<le> price_collar (rg_limits g))"

definition check_open_orders :: "gate \<Rightarrow> bool" where
  "check_open_orders g \<longleftrightarrow> max_open_orders (rg_limits g) = 0 \<or>
     open_orders (rg_engine g) < max_open_orders (rg_limits g)"

definition check_position :: "gate \<Rightarrow> OwnerId \<Rightarrow> Side \<Rightarrow> Qty \<Rightarrow> bool" where
  "check_position g owner side q \<longleftrightarrow> max_position (rg_limits g) = 0 \<or> owner = 0 \<or>
     (let worst = wrap64 (rg_positions g owner + (if side = Buy then sint q else wrap64 (- sint q)));
          worst = (if worst < 0 then wrap64 (- worst) else worst)
      in worst \<le> max_position (rg_limits g))"

definition admit :: "OwnerId \<Rightarrow> Side \<Rightarrow> Qty \<Rightarrow> Price \<Rightarrow> bool \<Rightarrow> gate \<Rightarrow> bool \<times> gate" where
  "admit owner side qty px checks_price g0 =
     (let g = g0\<lparr>rg_window := rg_window g0 + 1\<rparr>
      in if rg_killed g then fail Killed g
         else if over_budget g then fail MsgBudget g
         else if \<not> check_qty g qty then fail OrderQty g
         else if checks_price \<and> \<not> check_notional g px qty then fail Notional g
         else if checks_price \<and> \<not> check_collar g px then fail Collar g
         else if \<not> check_open_orders g then fail OpenOrders g
         else if \<not> check_position g owner side qty then fail Position g
         else (True, g))"

definition admit_market :: "OwnerId \<Rightarrow> Side \<Rightarrow> Qty \<Rightarrow> gate \<Rightarrow> bool \<times> gate" where
  "admit_market owner side qty g0 =
     (let g = g0\<lparr>rg_window := rg_window g0 + 1\<rparr>
      in if rg_killed g then fail Killed g
         else if over_budget g then fail MsgBudget g
         else if \<not> allow_market (rg_limits g) then fail MarketBlocked g
         else if \<not> check_qty g qty then fail OrderQty g
         else if e_has_last (rg_engine g) \<and> \<not> check_notional g (e_last_px (rg_engine g)) qty then fail Notional g
         else if \<not> check_open_orders g then fail OpenOrders g
         else if \<not> check_position g owner side qty then fail Position g
         else (True, g))"

section \<open>The engine's events on their way to the user\<close>

definition note_accept :: "OrderId \<Rightarrow> gate \<Rightarrow> gate" where
  "note_accept oid g =
     (let os = (if length (rg_owner_of g) \<le> oid
                then rg_owner_of g @ replicate (oid + 1 - length (rg_owner_of g)) 0 else rg_owner_of g)
      in g\<lparr>rg_owner_of := os[oid := rg_pending g]\<rparr>)"

definition owner_at :: "gate \<Rightarrow> OrderId \<Rightarrow> OwnerId" where
  "owner_at g oid = (if oid < length (rg_owner_of g) then rg_owner_of g ! oid else 0)"

definition note_trade :: "Trade \<Rightarrow> gate \<Rightarrow> gate" where
  "note_trade t g =
     (let q = sint (t_qty t);
          taker_delta = (if t_side t = Buy then q else wrap64 (- q));
          to = owner_at g (t_taker t);
          mo = owner_at g (t_maker t);
          p1 = (if to \<noteq> 0 then (rg_positions g)(to := wrap64 (rg_positions g to + taker_delta)) else rg_positions g);
          p2 = (if mo \<noteq> 0 then p1(mo := wrap64 (p1 mo - taker_delta)) else p1)
      in g\<lparr>rg_positions := p2\<rparr>)"

definition forward :: "event \<Rightarrow> gate \<Rightarrow> gate" where
  "forward ev g = g\<lparr>rg_user := rg_user g @ [ev]\<rparr>"

definition gate_event :: "event \<Rightarrow> gate \<Rightarrow> gate" where
  "gate_event ev g =
     (case ev of
        Accept oid s p q \<Rightarrow> forward ev (note_accept oid g)
      | Traded t \<Rightarrow> forward ev (note_trade t g)
      | Cancelled oid \<Rightarrow> forward ev g
      | Rejected oid \<Rightarrow> forward ev g
      | Rested oid s p q \<Rightarrow> if rg_has_on_rest g then forward ev g else g)"

interpretation rg: handler rg_engine "\<lambda>e g. g\<lparr>rg_engine := e\<rparr>" gate_event
  by unfold_locales (auto simp: gate_event_def note_accept_def note_trade_def forward_def Let_def split: event.splits)

definition through :: "(engine \<Rightarrow> ('r \<times> engine) option) \<Rightarrow> gate \<Rightarrow> ('r \<times> gate) option" where
  "through = handled rg_engine (\<lambda>e g. g\<lparr>rg_engine := e\<rparr>) gate_event"

section \<open>Order entry\<close>

definition gate_submit_limit :: "Side \<Rightarrow> Price \<Rightarrow> Qty \<Rightarrow> TimeInForce \<Rightarrow> OwnerId \<Rightarrow> StpPolicy \<Rightarrow> gate \<Rightarrow>
    (OrderId \<times> gate) option" where
  "gate_submit_limit side price qty tif owner stp g =
     (let (ok, g1) = admit owner side qty price True g
      in if \<not> ok then Some (kInvalidOrderId, g1)
         else through (submit_limit side price qty tif owner stp) (g1\<lparr>rg_pending := owner\<rparr>))"

definition gate_submit_market :: "Side \<Rightarrow> Qty \<Rightarrow> OwnerId \<Rightarrow> StpPolicy \<Rightarrow> gate \<Rightarrow> (Qty \<times> gate) option" where
  "gate_submit_market side qty owner stp g =
     (let (ok, g1) = admit_market owner side qty g
      in if \<not> ok then Some (qty, g1)
         else through (submit_market side qty owner stp) (g1\<lparr>rg_pending := owner\<rparr>))"

definition gate_submit_iceberg :: "Side \<Rightarrow> Price \<Rightarrow> Qty \<Rightarrow> Qty \<Rightarrow> TimeInForce \<Rightarrow> OwnerId \<Rightarrow> StpPolicy \<Rightarrow> gate \<Rightarrow>
    (OrderId \<times> gate) option" where
  "gate_submit_iceberg side price total_qty display tif owner stp g =
     (let (ok, g1) = admit owner side total_qty price True g
      in if \<not> ok then Some (kInvalidOrderId, g1)
         else through (submit_iceberg side price total_qty display tif owner stp) (g1\<lparr>rg_pending := owner\<rparr>))"

definition gate_submit_stop :: "Side \<Rightarrow> Price \<Rightarrow> Qty \<Rightarrow> OwnerId \<Rightarrow> StpPolicy \<Rightarrow> gate \<Rightarrow> (OrderId \<times> gate) option" where
  "gate_submit_stop side stop_price qty owner stp g =
     (let (ok, g1) = admit owner side qty 0 False g
      in if \<not> ok then Some (kInvalidOrderId, g1)
         else through (submit_stop side stop_price qty owner stp) (g1\<lparr>rg_pending := owner\<rparr>))"

definition gate_submit_stop_limit :: "Side \<Rightarrow> Price \<Rightarrow> Price \<Rightarrow> Qty \<Rightarrow> OwnerId \<Rightarrow> StpPolicy \<Rightarrow> gate \<Rightarrow>
    (OrderId \<times> gate) option" where
  "gate_submit_stop_limit side stop_price limit_price qty owner stp g =
     (let (ok, g1) = admit owner side qty limit_price True g
      in if \<not> ok then Some (kInvalidOrderId, g1)
         else through (submit_stop_limit side stop_price limit_price qty owner stp) (g1\<lparr>rg_pending := owner\<rparr>))"

definition gate_cancel :: "OrderId \<Rightarrow> gate \<Rightarrow> (bool \<times> gate) option" where
  "gate_cancel oid g = through (cancel oid) (g\<lparr>rg_window := rg_window g + 1\<rparr>)"

definition gate_reduce :: "OrderId \<Rightarrow> Qty \<Rightarrow> gate \<Rightarrow> (bool \<times> gate) option" where
  "gate_reduce oid delta g = through (reduce oid delta) (g\<lparr>rg_window := rg_window g + 1\<rparr>)"

definition gate_modify :: "OrderId \<Rightarrow> Price \<Rightarrow> Qty \<Rightarrow> gate \<Rightarrow> (bool \<times> gate) option" where
  "gate_modify oid new_price new_qty g0 =
     (let g = g0\<lparr>rg_window := rg_window g0 + 1\<rparr>
      in if rg_killed g then Some (fail Killed g)
         else if over_budget g then Some (fail MsgBudget g)
         else if new_qty \<noteq> 0 \<and> \<not> check_qty g new_qty then Some (fail OrderQty g)
         else if new_qty \<noteq> 0 \<and> \<not> check_notional g new_price new_qty then Some (fail Notional g)
         else if new_qty \<noteq> 0 \<and> \<not> check_collar g new_price then Some (fail Collar g)
         else through (modify oid new_price new_qty) g)"

definition gate_halt :: "gate \<Rightarrow> (unit \<times> gate) option" where
  "gate_halt g = through halt g"

definition gate_resume :: "gate \<Rightarrow> (unit \<times> gate) option" where
  "gate_resume g = through resume g"

definition gate_uncross :: "gate \<Rightarrow> (Qty \<times> gate) option" where
  "gate_uncross g = through uncross g"

section \<open>Risk controls\<close>

definition set_limits :: "RiskLimits \<Rightarrow> gate \<Rightarrow> gate" where
  "set_limits l g = g\<lparr>rg_limits := l\<rparr>"

definition new_window :: "gate \<Rightarrow> gate" where
  "new_window g = g\<lparr>rg_window := 0\<rparr>"

definition kill :: "gate \<Rightarrow> gate" where
  "kill g = g\<lparr>rg_killed := True\<rparr>"

definition clear_kill :: "gate \<Rightarrow> gate" where
  "clear_kill g = g\<lparr>rg_killed := False\<rparr>"

fun cancel_each :: "OrderId list \<Rightarrow> gate \<Rightarrow> gate option" where
  "cancel_each [] g = Some g"
| "cancel_each (oid # oids) g = do { (ok, g1) \<leftarrow> through (cancel oid) g; cancel_each oids g1 }"

definition kill_and_cancel_all :: "gate \<Rightarrow> gate option" where
  "kill_and_cancel_all g = do {
     let e = rg_engine g;
     bids \<leftarrow> visit_orders e Buy;
     asks \<leftarrow> visit_orders e Sell;
     stops \<leftarrow> visit_stops e;
     cancel_each (map fst bids @ map fst asks @ stops) (g\<lparr>rg_killed := True\<rparr>) }"

definition position :: "gate \<Rightarrow> OwnerId \<Rightarrow> int" where
  "position g owner = rg_positions g owner"

section \<open>The gate as a machine\<close>

definition gate_reply :: "('r \<Rightarrow> reply) \<Rightarrow> ('r \<times> gate) option \<Rightarrow> (reply \<times> gate) option" where
  "gate_reply f = map_option (map_prod f id)"

fun gate_call :: "api \<Rightarrow> gate \<Rightarrow> (reply \<times> gate) option" where
  "gate_call (SubmitLimit s p q tif ow stp) g = gate_reply RId (gate_submit_limit s p q tif ow stp g)"
| "gate_call (SubmitMarket s q ow stp) g = gate_reply RQty (gate_submit_market s q ow stp g)"
| "gate_call (SubmitIceberg s p q d tif ow stp) g = gate_reply RId (gate_submit_iceberg s p q d tif ow stp g)"
| "gate_call (SubmitStop s p q ow stp) g = gate_reply RId (gate_submit_stop s p q ow stp g)"
| "gate_call (SubmitStopLimit s p l q ow stp) g = gate_reply RId (gate_submit_stop_limit s p l q ow stp g)"
| "gate_call (CancelOrder oid) g = gate_reply RBool (gate_cancel oid g)"
| "gate_call (ReduceOrder oid q) g = gate_reply RBool (gate_reduce oid q g)"
| "gate_call (ModifyOrder oid p q) g = gate_reply RBool (gate_modify oid p q g)"
| "gate_call Halt g = gate_reply (\<lambda>_. RVoid) (gate_halt g)"
| "gate_call Resume g = gate_reply (\<lambda>_. RVoid) (gate_resume g)"
| "gate_call Uncross g = gate_reply RQty (gate_uncross g)"

text \<open>
  The documented ladder of each call as a list of reasons with their conditions: a call is
  refused for the first breach.  Cancels, reduces and session control have no ladder.
\<close>

definition entry_checks :: "gate \<Rightarrow> (RiskReject \<times> bool) list" where
  "entry_checks g = [(Killed, rg_killed g), (MsgBudget, over_budget g)]"

definition price_checks :: "gate \<Rightarrow> Price \<Rightarrow> Qty \<Rightarrow> (RiskReject \<times> bool) list" where
  "price_checks g p q = [(Notional, \<not> check_notional g p q), (Collar, \<not> check_collar g p)]"

definition exposure_checks :: "gate \<Rightarrow> OwnerId \<Rightarrow> Side \<Rightarrow> Qty \<Rightarrow> (RiskReject \<times> bool) list" where
  "exposure_checks g ow s q = [(OpenOrders, \<not> check_open_orders g), (Position, \<not> check_position g ow s q)]"

fun ladder :: "api \<Rightarrow> gate \<Rightarrow> (RiskReject \<times> bool) list" where
  "ladder (SubmitLimit s p q tif ow stp) g =
     entry_checks g @ [(OrderQty, \<not> check_qty g q)] @ price_checks g p q @ exposure_checks g ow s q"
| "ladder (SubmitMarket s q ow stp) g =
     entry_checks g @ [(MarketBlocked, \<not> allow_market (rg_limits g)), (OrderQty, \<not> check_qty g q),
       (Notional, e_has_last (rg_engine g) \<and> \<not> check_notional g (e_last_px (rg_engine g)) q)] @
     exposure_checks g ow s q"
| "ladder (SubmitIceberg s p q d tif ow stp) g =
     entry_checks g @ [(OrderQty, \<not> check_qty g q)] @ price_checks g p q @ exposure_checks g ow s q"
| "ladder (SubmitStop s p q ow stp) g = entry_checks g @ [(OrderQty, \<not> check_qty g q)] @ exposure_checks g ow s q"
| "ladder (SubmitStopLimit s p l q ow stp) g =
     entry_checks g @ [(OrderQty, \<not> check_qty g q)] @ price_checks g l q @ exposure_checks g ow s q"
| "ladder (ModifyOrder oid p q) g =
     entry_checks g @ (if q = 0 then [] else (OrderQty, \<not> check_qty g q) # price_checks g p q)"
| "ladder _ g = []"

definition first_breach :: "(RiskReject \<times> bool) list \<Rightarrow> RiskReject option" where
  "first_breach checks = map_option fst (find snd checks)"

definition metered :: "api \<Rightarrow> gate \<Rightarrow> gate" where
  "metered c g = (if c \<in> {Halt, Resume, Uncross} then g else g\<lparr>rg_window := rg_window g + 1\<rparr>)"

text \<open>What a refused call returns, and the owner an admitted submission is booked to.\<close>

fun refusal :: "api \<Rightarrow> reply" where
  "refusal (SubmitMarket s q ow stp) = RQty q"
| "refusal (ModifyOrder oid p q) = RBool False"
| "refusal _ = RId kInvalidOrderId"

fun booked :: "api \<Rightarrow> gate \<Rightarrow> gate" where
  "booked (SubmitLimit s p q tif ow stp) g = g\<lparr>rg_pending := ow\<rparr>"
| "booked (SubmitMarket s q ow stp) g = g\<lparr>rg_pending := ow\<rparr>"
| "booked (SubmitIceberg s p q d tif ow stp) g = g\<lparr>rg_pending := ow\<rparr>"
| "booked (SubmitStop s p q ow stp) g = g\<lparr>rg_pending := ow\<rparr>"
| "booked (SubmitStopLimit s p l q ow stp) g = g\<lparr>rg_pending := ow\<rparr>"
| "booked _ g = g"

lemma gate_reply_through: "gate_reply h (through f g) = through (\<lambda>e. reply_as h (f e)) g"
  by (simp add: gate_reply_def through_def handled_reply)

lemma gate_reply_Some: "gate_reply h (Some x) = Some (map_prod h id x)"
  by (simp add: gate_reply_def)

lemmas gate_defs = gate_submit_limit_def gate_submit_market_def gate_submit_iceberg_def gate_submit_stop_def
  gate_submit_stop_limit_def gate_cancel_def gate_reduce_def gate_modify_def gate_halt_def gate_resume_def
  gate_uncross_def

lemmas check_lists = entry_checks_def price_checks_def exposure_checks_def first_breach_def

lemma gate_shape:
  "gate_call c g = (let g1 = metered c g
     in case first_breach (ladder c g1) of
          None \<Rightarrow> through (call c) (booked c g1)
        | Some r \<Rightarrow> Some (refusal c, snd (fail r g1)))"
  by (cases c) (auto simp: gate_defs admit_def admit_market_def metered_def check_lists Let_def gate_reply_through
      fail_def gate_reply_Some call.simps [abs_def])

section \<open>What the events do to the gate\<close>

definition visible :: "gate \<Rightarrow> event \<Rightarrow> bool" where
  "visible g ev \<longleftrightarrow> rg_has_on_rest g \<or> (\<forall>oid s p q. ev \<noteq> Rested oid s p q)"

text \<open>Everything but the user's tape, the owner table and the positions is left alone.\<close>

definition same_controls :: "gate \<Rightarrow> gate \<Rightarrow> bool" where
  "same_controls g g' \<longleftrightarrow> rg_limits g' = rg_limits g \<and> rg_rejects g' = rg_rejects g \<and> rg_window g' = rg_window g \<and>
     rg_pending g' = rg_pending g \<and> rg_last_reject g' = rg_last_reject g \<and> rg_killed g' = rg_killed g \<and>
     rg_has_on_rest g' = rg_has_on_rest g"

lemma event_controls:
  "same_controls g (gate_event ev g)" "rg_user (gate_event ev g) = rg_user g @ filter (visible g) [ev]"
  by (auto simp: same_controls_def gate_event_def note_accept_def note_trade_def forward_def visible_def Let_def
      split: event.splits)

lemma events_controls:
  "same_controls g (fold gate_event evs g) \<and> rg_user (fold gate_event evs g) = rg_user g @ filter (visible g) evs"
proof (induction evs arbitrary: g)
  case (Cons ev evs)
  have "visible (gate_event ev g) = visible g"
    using event_controls(1) [of g ev] by (simp add: same_controls_def visible_def fun_eq_iff)
  with Cons.IH [of "gate_event ev g"] event_controls(1) [of g ev] event_controls(2) [of ev g] show ?case by (auto simp: same_controls_def)
qed (simp add: same_controls_def)

text \<open>A call that passes the ladder.\<close>

lemma metered_engine [simp]: "rg_engine (metered c g) = rg_engine g" "rg_user (metered c g) = rg_user g"
  "rg_owner_of (metered c g) = rg_owner_of g" "rg_positions (metered c g) = rg_positions g"
  "rg_limits (metered c g) = rg_limits g" "rg_killed (metered c g) = rg_killed g"
  "rg_has_on_rest (metered c g) = rg_has_on_rest g"
  by (simp_all add: metered_def)

lemma booked_fields [simp]: "rg_engine (booked c g) = rg_engine g" "rg_user (booked c g) = rg_user g"
  "rg_owner_of (booked c g) = rg_owner_of g" "rg_positions (booked c g) = rg_positions g"
  "rg_limits (booked c g) = rg_limits g" "rg_killed (booked c g) = rg_killed g"
  "rg_has_on_rest (booked c g) = rg_has_on_rest g"
  by (cases c; simp)+

lemma admitted_call:
  assumes "first_breach (ladder c (metered c g)) = None" "call c (rg_engine g) = Some (r, e')"
  shows "\<exists>g'. gate_call c g = Some (r, g') \<and> rg_engine g' = e' \<and> rg_limits g' = rg_limits g \<and>
    rg_killed g' = rg_killed g \<and> rg_has_on_rest g' = rg_has_on_rest g \<and>
    rg_user g' = rg_user g @ filter (visible g) (new_events (rg_engine g) e') \<and>
    g' = fold gate_event (new_events (rg_engine g) e') (booked c (metered c g)\<lparr>rg_engine := e'\<rparr>)"
proof -
  let ?g = "booked c (metered c g)\<lparr>rg_engine := e'\<rparr>"
  let ?evs = "new_events (rg_engine g) e'"
  have "gate_call c g = Some (r, fold gate_event ?evs ?g)"
    using assms rg.handled_Some [of "call c" "booked c (metered c g)" r e']
    by (simp add: gate_shape Let_def through_def)
  moreover have "visible ?g = visible g" by (simp add: visible_def fun_eq_iff)
  ultimately show ?thesis
    using events_controls [of ?g ?evs] rg.events_engine [of ?evs ?g] by (auto simp: same_controls_def)
qed

section \<open>Properties\<close>

text \<open>C20. The gate decides exactly by the documented ladder.  Each order-entry call is first metered, then
  refused for the first breached check in the documented order, or passed to the engine if
  none is breached; a refusal returns the invalid id, the untouched quantity or false,
  records and counts its reason, and leaves the engine, the user's tape and the positions
  untouched.  Cancels, reduces and session control have no check at all, whatever the kill
  switch and the budget say.\<close>

theorem gate_ladder:
  "(first_breach (ladder c (metered c g)) = None \<longrightarrow>
      gate_call c g = through (call c) (booked c (metered c g))) \<and>
   (\<forall>why. first_breach (ladder c (metered c g)) = Some why \<longrightarrow>
      (\<exists>g'. gate_call c g = Some (refusal c, g') \<and> rg_last_reject g' = why \<and>
         rg_rejects g' = (rg_rejects g)(why := rg_rejects g why + 1) \<and> rg_engine g' = rg_engine g \<and>
         rg_user g' = rg_user g \<and> rg_positions g' = rg_positions g)) \<and>
   ((\<exists>oid. c = CancelOrder oid) \<or> (\<exists>oid q. c = ReduceOrder oid q) \<or> c \<in> {Halt, Resume, Uncross} \<longrightarrow>
      first_breach (ladder c (metered c g)) = None)"
  by (auto simp: gate_shape Let_def fail_def metered_def first_breach_def split: option.splits)

text \<open>A gate that allows one message per window, orders of at most 50, and a notional of 1000.\<close>

definition demo_limits :: RiskLimits where
  "demo_limits = no_limits\<lparr>max_order_qty := 50, max_notional := 1000, max_messages := 1\<rparr>"

lemma demo_gate:
  obtains g where "gate_new 2 1 40 1 True demo_limits = Some g" "stands_for (rg_engine g) (astate_new 1 40)"
    "rg_killed g = False" "rg_window g = 0" "rg_limits g = demo_limits"
proof -
  have b: "band_ok 1 40" by (simp add: band_ok_def)
  obtain e where "engine_new 2 1 40 1 = Some e" using engine_new_refines [of 2 1 40 1] by auto
  moreover from stands_for_new [OF _ b this] have "stands_for e (astate_new 1 40)" by simp
  ultimately show ?thesis using that by (simp add: gate_new_def)
qed

theorem gate_ladder_witness:
  "\<exists>g g'. gate_new 2 1 40 1 True demo_limits = Some g \<and>
     gate_call (SubmitLimit Buy 30 40 GTC 0 CancelTaker) g = Some (RId kInvalidOrderId, g') \<and> rg_last_reject g' = Notional"
proof -
  obtain g where g: "gate_new 2 1 40 1 True demo_limits = Some g" "rg_killed g = False" "rg_window g = 0"
    "rg_limits g = demo_limits" using demo_gate by blast
  then have "first_breach (ladder (SubmitLimit Buy 30 40 GTC 0 CancelTaker) (metered (SubmitLimit Buy 30 40 GTC 0 CancelTaker) g))
      = Some Notional"
    by (simp add: check_lists metered_def over_budget_def check_qty_def check_notional_def demo_limits_def no_limits_def
        signed_divide_int_def)
  with g(1) gate_ladder [of "SubmitLimit Buy 30 40 GTC 0 CancelTaker" g] show ?thesis by fastforce
qed

lemma unlimited_passes:
  "rg_limits g = no_limits \<Longrightarrow> \<not> rg_killed g \<Longrightarrow> first_breach (ladder c (metered c g)) = None"
  by (cases c) (simp_all add: check_lists metered_def over_budget_def check_qty_def check_notional_def check_collar_def
      check_open_orders_def check_position_def no_limits_def)

lemma pass_through_history:
  assumes "stands_for (rg_engine g) a" "rg_limits g = no_limits" "\<not> rg_killed g"
    "rg_user g = filter (visible g) (e_tape (rg_engine g))" "history call cs (rg_engine g) = Some (rs, e)"
  shows "\<exists>g'. history gate_call cs g = Some (rs, g') \<and> rg_engine g' = e \<and>
    rg_user g' = filter (visible g) (e_tape e)"
  using assms
proof (induction cs arbitrary: g a rs)
  case (Cons c cs)
  obtain r e1 rs1 where e1: "call c (rg_engine g) = Some (r, e1)" "history call cs e1 = Some (rs1, e)" "rs = r # rs1"
    using Cons.prems(5) by (auto simp: bind_eq_Some_conv)
  obtain g1 where g1: "gate_call c g = Some (r, g1)" "rg_engine g1 = e1" "rg_limits g1 = rg_limits g"
    "rg_killed g1 = rg_killed g" "rg_has_on_rest g1 = rg_has_on_rest g"
    "rg_user g1 = rg_user g @ filter (visible g) (new_events (rg_engine g) e1)"
    using admitted_call [OF unlimited_passes e1(1)] Cons.prems(2,3) by blast
  note sf = stands_for_call [OF Cons.prems(1) e1(1)]
  have v: "visible g1 = visible g" using g1(5) by (simp add: visible_def fun_eq_iff)
  have "rg_user g1 = filter (visible g1) (e_tape (rg_engine g1))"
    using sf(5) g1(2,6) Cons.prems(4) v by (auto simp: new_events_def)
  with Cons.IH [of g1 "snd (a_call c a)" rs1] sf(1) g1 Cons.prems(2,3) e1 v show ?case by auto
qed auto

text \<open>C21. A gate with default limits is a pure pass-through: over every history of calls it returns the
  replies of a bare engine, its engine ends in the bare engine's state, and the user's handler
  receives exactly the bare engine's events (without the rests, if it has no \<^verbatim>\<open>on_rest\<close>).\<close>

theorem gate_pass_through:
  assumes "0 < chunk" "band_ok lo hi"
  shows "\<exists>g0 g rs e. gate_new chunk lo hi expected has_on_rest no_limits = Some g0 \<and>
    history gate_call cs g0 = Some (rs, g) \<and> session chunk lo hi expected cs = Some (rs, e) \<and>
    rg_engine g = e \<and> rg_user g = filter (visible g0) (e_tape e)"
proof -
  obtain e0 where e0: "engine_new chunk lo hi expected = Some e0"
    using engine_new_refines [OF assms(1), of lo hi expected] assms(2) by (auto simp: band_ok_def)
  obtain rs e where h: "session chunk lo hi expected cs = Some (rs, e)" using session_refines [OF assms, of expected cs] by blast
  then have h': "history call cs e0 = Some (rs, e)" by (simp add: session_def e0)
  note sf = stands_for_new [OF assms e0]
  have "e_tape e0 = []" using e0 by (auto simp: engine_new_def Let_def bind_eq_Some_conv)
  with pass_through_history [of "the (gate_new chunk lo hi expected has_on_rest no_limits)" _ cs rs e] sf h h' show ?thesis
    by (simp add: gate_new_def e0)
qed

theorem gate_pass_through_witness:
  "\<exists>g0 g. gate_new 2 1 6 1 False no_limits = Some g0 \<and>
     history gate_call demo g0 = Some ([RId 1, RId 2, RId 3, RId 4, RId 5], g)"
  using gate_pass_through [of 2 1 6 1 False demo] session_refines [of 2 1 6 1 demo] demo_band demo_abstract(1) by force

text \<open>Within the signed range the two wrapping checks compare distances.\<close>

lemma collar_exact:
  assumes "price_collar (rg_limits g) \<noteq> 0 \<Longrightarrow> e_has_last (rg_engine g) \<Longrightarrow> \<bar>px - e_last_px (rg_engine g)\<bar> < 2 ^ 63"
  shows "check_collar g px \<longleftrightarrow> price_collar (rg_limits g) = 0 \<or> \<not> e_has_last (rg_engine g) \<or>
    \<bar>px - e_last_px (rg_engine g)\<bar> \<le> price_collar (rg_limits g)"
proof (cases "price_collar (rg_limits g) = 0 \<or> \<not> e_has_last (rg_engine g)")
  case False
  then have d: "\<bar>px - e_last_px (rg_engine g)\<bar> < 2 ^ 63" using assms by blast
  then have "wrap64 (- (px - e_last_px (rg_engine g))) = - (px - e_last_px (rg_engine g))" by (intro wrap64_abs) simp
  with False wrap64_abs [OF d] show ?thesis by (simp add: check_collar_def Let_def abs_if)
qed (auto simp: check_collar_def)

lemma small_sint: "uint (q :: Qty) < 2 ^ 63 \<Longrightarrow> sint q = uint q"
  using signed_take_bit_int_eq_self [of 63 "uint q"] order_trans [OF _ uint_ge_0, of "- (2 ^ 63)" q]
  by (simp add: sint_uint)

lemma position_exact:
  assumes "max_position (rg_limits g) \<noteq> 0 \<Longrightarrow> owner \<noteq> 0 \<Longrightarrow> \<bar>rg_positions g owner\<bar> + uint q < 2 ^ 63"
  shows "check_position g owner side q \<longleftrightarrow> max_position (rg_limits g) = 0 \<or> owner = 0 \<or>
    \<bar>rg_positions g owner + (if side = Buy then uint q else - uint q)\<bar> \<le> max_position (rg_limits g)"
proof (cases "max_position (rg_limits g) = 0 \<or> owner = 0")
  case False
  then have r: "\<bar>rg_positions g owner\<bar> + uint q < 2 ^ 63" using assms by blast
  let ?d = "if side = Buy then uint q else - uint q" and ?w = "rg_positions g owner + (if side = Buy then uint q else - uint q)"
  have q: "sint q = uint q" using r by (intro small_sint) linarith
  have "wrap64 (- uint q) = - uint q" by (rule wrap64_abs) (use r in simp)
  then have d: "(if side = Buy then sint q else wrap64 (- sint q)) = ?d" by (simp add: q)
  have "\<bar>rg_positions g owner + uint q\<bar> < 2 ^ 63" "\<bar>rg_positions g owner - uint q\<bar> < 2 ^ 63"
    using r uint_ge_0 [of q] by (simp_all only: abs_less_iff) linarith+
  then have w: "\<bar>?w\<bar> < 2 ^ 63" by (cases side) simp_all
  then have "wrap64 (- ?w) = - ?w" by (intro wrap64_abs) (simp only: abs_minus_cancel)
  with False wrap64_abs [OF w] show ?thesis unfolding check_position_def Let_def d by (simp only: abs_if)
qed (auto simp: check_position_def)

lemma notional_exact:
  assumes "0 \<le> max_notional (rg_limits g)" "max_notional (rg_limits g) < 2 ^ 63"
  shows "check_notional g px q \<longleftrightarrow> max_notional (rg_limits g) = 0 \<or> px * uint q \<le> max_notional (rg_limits g)"
proof (cases "px \<le> 0")
  case True
  then have "px * uint q \<le> 0" by (simp add: mult_nonpos_nonneg)
  with True assms(1) show ?thesis by (simp add: check_notional_def)
next
  case False
  let ?m = "max_notional (rg_limits g)"
  have "?m sdiv px = ?m div px" using False assms(1) by (auto simp: signed_divide_int_def sgn_if)
  moreover have "0 \<le> ?m div px" using False assms(1) by (simp add: pos_imp_zdiv_nonneg_iff)
  moreover have "?m div px \<le> ?m" using False assms(1) zdiv_mono2 [of ?m 1 px] by simp
  ultimately have "q \<le> of_int (?m sdiv px) \<longleftrightarrow> uint q \<le> ?m div px"
    using assms(2) by (auto simp: word_le_def unsigned_of_int take_bit_int_eq_self)
  also have "\<dots> \<longleftrightarrow> px * uint q \<le> ?m"
  proof
    assume "uint q \<le> ?m div px"
    then have "px * uint q \<le> px * (?m div px)" using False by simp
    also have "\<dots> \<le> ?m" using False by (simp add: minus_mod_eq_mult_div [symmetric])
    finally show "px * uint q \<le> ?m" .
  next
    assume "px * uint q \<le> ?m"
    with False zdiv_mono1 [of "px * uint q" ?m px] show "uint q \<le> ?m div px" by simp
  qed
  finally show ?thesis using False by (simp add: check_notional_def)
qed

text \<open>C22. Pre-trade limits are exact.  A priced order is admitted exactly if it obeys every configured
  limit: the kill switch is off, this message is within the budget, the quantity is within its
  cap, price times quantity is within the notional cap as mathematical integers (the code
  divides instead of multiplying), the price is within the collar around the last trade, the
  open-order cap leaves room, and the owner's filled position plus or minus the whole order
  stays inside the position limit; and admitting it changes nothing but the message counter.
  The notional limit is not negative.  The two checks that add and negate in 64 bits are exact
  as long as the results fit: the price less than 2^63 away from the last trade, the filled
  position and the quantity together below 2^63; where they do not, \<open>position_check_wraps\<close> below
  shows orders that pass.\<close>

theorem admitted_within_limits:
  assumes "0 \<le> max_notional (rg_limits g)" "max_notional (rg_limits g) < 2 ^ 63"
    and "price_collar (rg_limits g) \<noteq> 0 \<Longrightarrow> e_has_last (rg_engine g) \<Longrightarrow> \<bar>px - e_last_px (rg_engine g)\<bar> < 2 ^ 63"
    and "max_position (rg_limits g) \<noteq> 0 \<Longrightarrow> owner \<noteq> 0 \<Longrightarrow> \<bar>position g owner\<bar> + uint q < 2 ^ 63"
  shows "admit owner side q px True g = (True, g\<lparr>rg_window := rg_window g + 1\<rparr>) \<longleftrightarrow>
    \<not> rg_killed g \<and>
    (max_messages (rg_limits g) \<noteq> 0 \<longrightarrow> rg_window g + 1 \<le> max_messages (rg_limits g)) \<and>
    (max_order_qty (rg_limits g) \<noteq> 0 \<longrightarrow> q \<le> max_order_qty (rg_limits g)) \<and>
    (max_notional (rg_limits g) \<noteq> 0 \<longrightarrow> px * uint q \<le> max_notional (rg_limits g)) \<and>
    (price_collar (rg_limits g) \<noteq> 0 \<and> e_has_last (rg_engine g) \<longrightarrow>
       \<bar>px - e_last_px (rg_engine g)\<bar> \<le> price_collar (rg_limits g)) \<and>
    (max_open_orders (rg_limits g) \<noteq> 0 \<longrightarrow> open_orders (rg_engine g) < max_open_orders (rg_limits g)) \<and>
    (max_position (rg_limits g) \<noteq> 0 \<and> owner \<noteq> 0 \<longrightarrow>
       \<bar>position g owner + (if side = Buy then uint q else - uint q)\<bar> \<le> max_position (rg_limits g))"
proof -
  let ?g = "g\<lparr>rg_window := rg_window g + 1\<rparr>"
  have admitted: "admit owner side q px True g = (True, ?g) \<longleftrightarrow> \<not> rg_killed g \<and> \<not> over_budget ?g \<and> check_qty ?g q \<and>
      check_notional ?g px q \<and> check_collar ?g px \<and> check_open_orders ?g \<and> check_position ?g owner side q"
    by (simp add: admit_def fail_def Let_def)
  have checks: "\<not> over_budget ?g \<longleftrightarrow> max_messages (rg_limits g) = 0 \<or> rg_window g + 1 \<le> max_messages (rg_limits g)"
    "check_qty ?g q \<longleftrightarrow> max_order_qty (rg_limits g) = 0 \<or> q \<le> max_order_qty (rg_limits g)"
    "check_notional ?g px q \<longleftrightarrow> max_notional (rg_limits g) = 0 \<or> px * uint q \<le> max_notional (rg_limits g)"
    "check_collar ?g px \<longleftrightarrow> price_collar (rg_limits g) = 0 \<or> \<not> e_has_last (rg_engine g) \<or>
      \<bar>px - e_last_px (rg_engine g)\<bar> \<le> price_collar (rg_limits g)"
    "check_open_orders ?g \<longleftrightarrow> max_open_orders (rg_limits g) = 0 \<or> open_orders (rg_engine g) < max_open_orders (rg_limits g)"
    "check_position ?g owner side q \<longleftrightarrow> max_position (rg_limits g) = 0 \<or> owner = 0 \<or>
      \<bar>position g owner + (if side = Buy then uint q else - uint q)\<bar> \<le> max_position (rg_limits g)"
    using notional_exact [of ?g px q] collar_exact [of ?g px] position_exact [of ?g owner q side] assms
    by (simp_all add: over_budget_def check_qty_def check_open_orders_def position_def not_less)
  show ?thesis unfolding admitted checks by (simp only: imp_conv_disj de_Morgan_conj not_not disj_assoc)
qed

text \<open>Every limit set: owner 3 buys 33 at 30, and no more than that.\<close>

definition tight_limits :: RiskLimits where
  "tight_limits = \<lparr>max_order_qty = 50, max_notional = 1000, price_collar = 5, max_open_orders = 4, max_position = 33,
     max_messages = 9, allow_market = True\<rparr>"

theorem admitted_within_limits_witness:
  "\<exists>g. gate_new 2 1 40 1 True tight_limits = Some g \<and> admit 3 Buy 33 30 True g = (True, g\<lparr>rg_window := 1\<rparr>) \<and>
     admit 3 Sell 34 29 True g \<noteq> (True, g\<lparr>rg_window := 1\<rparr>)"
proof -
  obtain e where e: "engine_new 2 1 40 1 = Some e" using engine_new_refines [of 2 1 40 1] by auto
  have "band_ok 1 40" by (simp add: band_ok_def)
  then have "stands_for e (astate_new 1 40)" using stands_for_new [OF _ _ e] by simp
  then have o: "open_orders e = 0"
    using open_orders_sim [OF refinesD(1), of e "astate_new 1 40"]
    by (simp add: stands_for_def live_list_def queue_def stop_queue_def ranks_def astate_new_def Let_def)
  have l: "\<not> e_has_last e" using e by (auto simp: engine_new_def Let_def bind_eq_Some_conv)
  obtain g where g: "gate_new 2 1 40 1 True tight_limits = Some g" "rg_engine g = e" "rg_limits g = tight_limits"
    "\<not> rg_killed g" "rg_window g = 0" "position g 3 = 0"
    using e by (simp add: gate_new_def position_def)
  have "max_position (rg_limits g) \<noteq> 0 \<Longrightarrow> (3 :: OwnerId) \<noteq> 0 \<Longrightarrow> \<bar>position g 3\<bar> + uint (33 :: Qty) < 2 ^ 63"
    "max_position (rg_limits g) \<noteq> 0 \<Longrightarrow> (3 :: OwnerId) \<noteq> 0 \<Longrightarrow> \<bar>position g 3\<bar> + uint (34 :: Qty) < 2 ^ 63"
    by (simp_all add: g(6))
  from admitted_within_limits [OF _ _ _ this(1), of 30 Buy] admitted_within_limits [OF _ _ _ this(2), of 29 Sell] g o l
  show ?thesis by (auto simp: tight_limits_def)
qed

text \<open>
  The side conditions are needed.  A quantity of 2^63 or more is negative as an \<^verbatim>\<open>int64_t\<close>, and an
  order of nearly 2^64 passes any position limit; and with a position of 1 an order of 2^63 - 1
  overflows to the least integer, whose negation is itself, and passes too.
\<close>

lemma position_check_wraps:
  "check_position (g\<lparr>rg_limits := no_limits\<lparr>max_position := 100\<rparr>, rg_positions := (\<lambda>_. 0)\<rparr>) 5 Buy (- 50)"
  "check_position (g\<lparr>rg_limits := no_limits\<lparr>max_position := 100\<rparr>, rg_positions := (\<lambda>_. 1)\<rparr>) 5 Buy 0x7FFFFFFFFFFFFFFF"
proof -
  have "wrap64 50 = 50" "wrap64 (- 50) = - 50" "wrap64 (2 ^ 63) = - (2 ^ 63)" "wrap64 (- (2 ^ 63)) = - (2 ^ 63)" by code_simp+
  moreover have "sint (0x7FFFFFFFFFFFFFFF :: Qty) = 2 ^ 63 - 1" by code_simp
  ultimately show
    "check_position (g\<lparr>rg_limits := no_limits\<lparr>max_position := 100\<rparr>, rg_positions := (\<lambda>_. 0)\<rparr>) 5 Buy (- 50)"
    "check_position (g\<lparr>rg_limits := no_limits\<lparr>max_position := 100\<rparr>, rg_positions := (\<lambda>_. 1)\<rparr>) 5 Buy 0x7FFFFFFFFFFFFFFF"
    by (simp_all add: check_position_def no_limits_def)
qed

text \<open>
  A modify that re-enters the order is told as a new accept, and \<^verbatim>\<open>note_accept\<close> gives the id to
  whoever submitted last: here owner 1 bids 5, owner 2 bids 1, owner 1 moves its bid up a tick,
  owner 3 sells it 5, and the position goes to owner 2.
\<close>

lemma modify_reattributes:
  "do { g \<leftarrow> gate_new 2 1 40 1 True no_limits;
     (_, g) \<leftarrow> gate_submit_limit Buy 10 5 GTC 1 CancelTaker g;
     (_, g) \<leftarrow> gate_submit_limit Buy 3 1 GTC 2 CancelTaker g;
     (_, g) \<leftarrow> gate_modify 1 11 5 g;
     (_, g) \<leftarrow> gate_submit_limit Sell 11 5 GTC 3 CancelTaker g;
     Some (rg_positions g 1, rg_positions g 2, rg_positions g 3) } = Some (0, 5, - 5)"
  by code_simp

section \<open>Flattening the book\<close>

lemma gate_kept: "rg_killed (fold gate_event evs g) = rg_killed g"
  using events_controls [of g evs] by (simp add: same_controls_def)

lemma cancel_each_flattens:
  assumes "stands_for (rg_engine g) a" "r_id ` set (live_list a) = set oids" "distinct oids"
  shows "\<exists>g' a'. cancel_each oids g = Some g' \<and> stands_for (rg_engine g') a' \<and> live_list a' = [] \<and>
    rg_killed g' = rg_killed g \<and> rg_user g' = rg_user g @ map Cancelled oids"
  using assms
proof (induction oids arbitrary: g a)
  case (Cons oid oids)
  have l: "oid \<in> r_id ` set (live_list a)" using Cons.prems(2) by auto
  show ?case
  proof (rule cancel_effect [OF Cons.prems(1), of oid])
    fix e' a' assume c: "cancel oid (rg_engine g) = Some (oid \<in> r_id ` set (live_list a), e')" "stands_for e' a'"
      and q: "\<And>s. queue s a' = others oid (queue s a)" "\<And>s. stop_queue s a' = others oid (stop_queue s a)"
      and t: "e_tape e' = e_tape (rg_engine g) @ (if oid \<in> r_id ` set (live_list a) then [Cancelled oid] else [])"
    let ?g1 = "gate_event (Cancelled oid) (g\<lparr>rg_engine := e'\<rparr>)"
    have th: "through (cancel oid) g = Some (True, ?g1)"
      unfolding through_def using handled_eq [of "cancel oid" rg_engine g True e' "[Cancelled oid]"] c(1) t l by simp
    have ll: "live_list a' = others oid (live_list a)" by (simp add: live_list_def q others_def)
    have e1: "rg_engine ?g1 = e'" "rg_killed ?g1 = rg_killed g" "rg_user ?g1 = rg_user g @ [Cancelled oid]"
      by (simp_all add: gate_event_def forward_def)
    have "r_id ` set (live_list a') = r_id ` set (live_list a) - {oid}" by (auto simp: ll others_def)
    also have "\<dots> = set oids" using Cons.prems(2,3) by auto
    finally have "r_id ` set (live_list a') = set oids" .
    from Cons.IH [OF _ this] c(2) e1 Cons.prems(3) obtain g' a'' where
      "cancel_each oids ?g1 = Some g'" "stands_for (rg_engine g') a''" "live_list a'' = []" "rg_killed g' = rg_killed ?g1"
      "rg_user g' = rg_user ?g1 @ map Cancelled oids" by (metis distinct.simps(2))
    with e1 th show ?thesis by auto
  qed
qed auto

text \<open>C23. \<^verbatim>\<open>kill_and_cancel_all\<close> flattens the venue: whatever the books and stop books of a reachable
  engine hold, the call returns with the kill switch on and no resting order and no pending
  stop left, and the user's handler has received exactly one Cancelled for each of them, bids
  in priority order first, then asks, then stops.\<close>

theorem kill_flattens:
  assumes "reachable (rg_engine g)"
  shows "\<exists>bids asks stops g'. sees (rg_engine g) = Some (bids, asks, stops) \<and> kill_and_cancel_all g = Some g' \<and>
    rg_killed g' \<and> open_orders (rg_engine g') = 0 \<and> sees (rg_engine g') = Some ([], [], []) \<and>
    rg_user g' = rg_user g @ map Cancelled (map fst bids @ map fst asks @ stops)"
proof -
  obtain a where a: "stands_for (rg_engine g) a" using reached_stands_for [OF assms] by blast
  then have rf: "refines (rg_engine g) a" by (simp add: stands_for_def)
  note e = refinesD(1) [OF rf]
  let ?oids = "map r_id (live_list a)"
  obtain g' a' where g': "cancel_each ?oids (g\<lparr>rg_killed := True\<rparr>) = Some g'" "stands_for (rg_engine g') a'"
    "live_list a' = []" "rg_killed g'" "rg_user g' = rg_user g @ map Cancelled ?oids"
    using cancel_each_flattens [of "g\<lparr>rg_killed := True\<rparr>" a ?oids] a live_distinct [OF e] by auto
  have "map fst (map shown os) = map r_id os" for os by (simp add: shown_def)
  then have "kill_and_cancel_all g = Some g'" "?oids = map fst (map shown (queue Buy a)) @ map fst (map shown (queue Sell a)) @
      map r_id (stop_queue Buy a @ stop_queue Sell a)"
    using g'(1) visit_orders_sim [OF e] visit_stops_sim [OF e]
    by (simp_all add: kill_and_cancel_all_def Let_def live_list_def del: map_map)
  moreover have rf': "refines (rg_engine g') a'" using g'(2) by (simp add: stands_for_def)
  moreover have "open_orders (rg_engine g') = 0" using open_orders_sim [OF refinesD(1) [OF rf']] g'(3) by simp
  moreover have "queue s a' = []" "stop_queue s a' = []" for s using g'(3) by (cases s; simp add: live_list_def)+
  ultimately show ?thesis using sees_sim [OF rf] sees_sim [OF rf'] g'(4,5) by (simp del: map_map)
qed

theorem kill_flattens_witness:
  "\<exists>g g'. kill_and_cancel_all g = Some g' \<and> open_orders (rg_engine g') = 0 \<and>
     rg_user g' = rg_user g @ [Cancelled 5, Cancelled 1, Cancelled 2, Cancelled 3]"
proof -
  obtain g0 where "gate_new 2 1 40 1 True demo_limits = Some g0" using demo_gate by blast
  obtain e where e: "reachable e" "sees e = Some ([(5, Buy, 2, 7)], [(1, Sell, 4, 4), (2, Sell, 5, 4)], [3])"
    by (rule demo_sees)
  define g where "g = g0\<lparr>rg_engine := e\<rparr>"
  have g: "reachable (rg_engine g)" "sees (rg_engine g) = Some ([(5, Buy, 2, 7)], [(1, Sell, 4, 4), (2, Sell, 5, 4)], [3])"
    using e by (simp_all add: g_def)
  from kill_flattens [OF g(1)] g(2) show ?thesis by auto
qed

end
