(* ===== verification/Spsc_Ring.thy ===== *)
theory Spsc_Ring
  imports Matchbook_Prelude
begin

text \<open>
  The lock-free ring of \<^verbatim>\<open>include/matchbook/spsc_ring.hpp\<close>: one producer thread, one consumer
  thread, two indices that only ever count up (modulo 2^64), and a cached copy of the other
  side's index on each side.

  The two threads interleave at every access to shared memory: each clause of the step
  relation is one access together with the thread-local computation around it, and a program
  counter on each side says where in its call the thread stands.  An acquire load may be
  stale: it returns any value the other side has published since the last one this side has
  seen, and that freedom is the \<open>lag\<close> of a step.  The slots of the buffer are ordinary
  memory, so the theory also shows that no slot is written and read at the same time.
\<close>

section \<open>State and atomic steps\<close>

datatype 'a producer = PIdle | PRefresh 'a | PWrite 'a | PPublish 'a

datatype 'a consumer = CIdle | CRefresh | CRead | CPublish 'a

record 'a ring =
  r_head :: "64 word"
  r_cached_tail :: "64 word"
  r_tail :: "64 word"
  r_cached_head :: "64 word"
  r_buf :: "'a list"
  r_producer :: "'a producer"
  r_consumer :: "'a consumer"

text \<open>The ring before any call; \<open>junk\<close> is what the uninitialised slots hold.\<close>

definition ring_new :: "nat \<Rightarrow> 'a \<Rightarrow> 'a ring" where
  "ring_new cap junk = \<lparr>r_head = 0, r_cached_tail = 0, r_tail = 0, r_cached_head = 0, r_buf = replicate cap junk,
     r_producer = PIdle, r_consumer = CIdle\<rparr>"

definition slot_of :: "nat \<Rightarrow> 64 word \<Rightarrow> nat" where
  "slot_of cap i = unat (i AND (of_nat cap - 1))"

text \<open>\<^verbatim>\<open>try_push\<close>: the test against the cached tail, the acquire load, the write, the release store.\<close>

definition push_begin :: "nat \<Rightarrow> 'a \<Rightarrow> 'a ring \<Rightarrow> 'a ring" where
  "push_begin cap v r = (if r_head r - r_cached_tail r = of_nat cap then r\<lparr>r_producer := PRefresh v\<rparr>
     else r\<lparr>r_producer := PWrite v\<rparr>)"

definition push_refresh :: "nat \<Rightarrow> nat \<Rightarrow> 'a \<Rightarrow> 'a ring \<Rightarrow> bool \<times> 'a ring" where
  "push_refresh cap lag v r =
     (let t = r_tail r - of_nat lag; r1 = r\<lparr>r_cached_tail := t\<rparr>
      in if r_head r - t = of_nat cap then (False, r1\<lparr>r_producer := PIdle\<rparr>) else (True, r1\<lparr>r_producer := PWrite v\<rparr>))"

definition push_write :: "nat \<Rightarrow> 'a \<Rightarrow> 'a ring \<Rightarrow> 'a ring" where
  "push_write cap v r = r\<lparr>r_buf := (r_buf r)[slot_of cap (r_head r) := v], r_producer := PPublish v\<rparr>"

definition push_publish :: "'a ring \<Rightarrow> 'a ring" where
  "push_publish r = r\<lparr>r_head := r_head r + 1, r_producer := PIdle\<rparr>"

text \<open>\<^verbatim>\<open>try_pop\<close>.\<close>

definition pop_begin :: "'a ring \<Rightarrow> 'a ring" where
  "pop_begin r = (if r_tail r = r_cached_head r then r\<lparr>r_consumer := CRefresh\<rparr> else r\<lparr>r_consumer := CRead\<rparr>)"

definition pop_refresh :: "nat \<Rightarrow> 'a ring \<Rightarrow> bool \<times> 'a ring" where
  "pop_refresh lag r =
     (let h = r_head r - of_nat lag; r1 = r\<lparr>r_cached_head := h\<rparr>
      in if r_tail r = h then (False, r1\<lparr>r_consumer := CIdle\<rparr>) else (True, r1\<lparr>r_consumer := CRead\<rparr>))"

definition pop_read :: "nat \<Rightarrow> 'a ring \<Rightarrow> 'a ring" where
  "pop_read cap r = r\<lparr>r_consumer := CPublish (r_buf r ! slot_of cap (r_tail r))\<rparr>"

definition pop_publish :: "'a ring \<Rightarrow> 'a ring" where
  "pop_publish r = r\<lparr>r_tail := r_tail r + 1, r_consumer := CIdle\<rparr>"

text \<open>\<^verbatim>\<open>size_approx\<close> from the consumer's thread: its own tail is exact, the head may be stale.\<close>

definition size_approx :: "nat \<Rightarrow> 'a ring \<Rightarrow> 64 word" where
  "size_approx lag r = (r_head r - of_nat lag) - r_tail r"

section \<open>Two threads\<close>

datatype 'a action = Tau | PushTrue 'a | PushFalse nat | PopTrue 'a | PopFalse nat

inductive ring_step :: "nat \<Rightarrow> 'a ring \<Rightarrow> 'a action \<Rightarrow> 'a ring \<Rightarrow> bool" for cap where
  push_call: "r_producer r = PIdle \<Longrightarrow> ring_step cap r Tau (push_begin cap v r)"
| push_load: "r_producer r = PRefresh v \<Longrightarrow> lag \<le> unat (r_tail r - r_cached_tail r) \<Longrightarrow>
    push_refresh cap lag v r = (ok, r') \<Longrightarrow> ring_step cap r (if ok then Tau else PushFalse lag) r'"
| push_store: "r_producer r = PWrite v \<Longrightarrow> ring_step cap r Tau (push_write cap v r)"
| push_return: "r_producer r = PPublish v \<Longrightarrow> ring_step cap r (PushTrue v) (push_publish r)"
| pop_call: "r_consumer r = CIdle \<Longrightarrow> ring_step cap r Tau (pop_begin r)"
| pop_load: "r_consumer r = CRefresh \<Longrightarrow> lag \<le> unat (r_head r - r_cached_head r) \<Longrightarrow>
    pop_refresh lag r = (ok, r') \<Longrightarrow> ring_step cap r (if ok then Tau else PopFalse lag) r'"
| pop_fetch: "r_consumer r = CRead \<Longrightarrow> ring_step cap r Tau (pop_read cap r)"
| pop_return: "r_consumer r = CPublish v \<Longrightarrow> ring_step cap r (PopTrue v) (pop_publish r)"

inductive ring_run :: "nat \<Rightarrow> 'a \<Rightarrow> 'a action list \<Rightarrow> 'a ring \<Rightarrow> bool" for cap junk where
  start: "ring_run cap junk [] (ring_new cap junk)"
| step: "ring_run cap junk tr r \<Longrightarrow> ring_step cap r a r' \<Longrightarrow> ring_run cap junk (tr @ [a]) r'"

text \<open>A schedule: whose turn it is, with the value of a fresh push and the staleness of a load.\<close>

datatype 'a turn = Producer 'a nat | Consumer nat

fun turn_step :: "nat \<Rightarrow> 'a turn \<Rightarrow> 'a ring \<Rightarrow> ('a action \<times> 'a ring) option" where
  "turn_step cap (Producer x lag) r =
     (case r_producer r of
        PIdle \<Rightarrow> Some (Tau, push_begin cap x r)
      | PRefresh v \<Rightarrow>
          if lag \<le> unat (r_tail r - r_cached_tail r)
          then let (ok, r') = push_refresh cap lag v r in Some (if ok then Tau else PushFalse lag, r') else None
      | PWrite v \<Rightarrow> Some (Tau, push_write cap v r)
      | PPublish v \<Rightarrow> Some (PushTrue v, push_publish r))"
| "turn_step cap (Consumer lag) r =
     (case r_consumer r of
        CIdle \<Rightarrow> Some (Tau, pop_begin r)
      | CRefresh \<Rightarrow>
          if lag \<le> unat (r_head r - r_cached_head r)
          then let (ok, r') = pop_refresh lag r in Some (if ok then Tau else PopFalse lag, r') else None
      | CRead \<Rightarrow> Some (Tau, pop_read cap r)
      | CPublish v \<Rightarrow> Some (PopTrue v, pop_publish r))"

lemma turn_step_sound: "turn_step cap t r = Some (a, r') \<Longrightarrow> ring_step cap r a r'"
  by (cases t) (auto split: producer.splits consumer.splits if_splits prod.splits
      intro: push_call push_store push_return pop_call pop_fetch pop_return
      dest: push_load [where ok = True] push_load [where ok = False] pop_load [where ok = True] pop_load [where ok = False])

fun schedule :: "nat \<Rightarrow> 'a turn list \<Rightarrow> 'a action list \<Rightarrow> 'a ring \<Rightarrow> ('a action list \<times> 'a ring) option" where
  "schedule cap [] tr r = Some (tr, r)"
| "schedule cap (t # ts) tr r = do { (a, r') \<leftarrow> turn_step cap t r; schedule cap ts (tr @ [a]) r' }"

lemma schedule_run:
  "ring_run cap junk tr r \<Longrightarrow> schedule cap ts tr r = Some (tr', r') \<Longrightarrow> ring_run cap junk tr' r'"
proof (induction ts arbitrary: tr r)
  case (Cons t ts)
  then obtain a r1 where "turn_step cap t r = Some (a, r1)" "schedule cap ts (tr @ [a]) r1 = Some (tr', r')"
    by (auto simp: bind_eq_Some_conv)
  with Cons.IH Cons.prems(1) show ?case by (blast intro: ring_run.step turn_step_sound)
qed simp

fun pushes :: "'a action list \<Rightarrow> 'a list" where
  "pushes [] = []"
| "pushes (PushTrue v # tr) = v # pushes tr"
| "pushes (a # tr) = pushes tr"

fun pops :: "'a action list \<Rightarrow> 'a list" where
  "pops [] = []"
| "pops (PopTrue v # tr) = v # pops tr"
| "pops (a # tr) = pops tr"

lemma pushes_append [simp]: "pushes (tr @ tr') = pushes tr @ pushes tr'"
  by (induction tr rule: pushes.induct) simp_all

lemma pops_append [simp]: "pops (tr @ tr') = pops tr @ pops tr'"
  by (induction tr rule: pops.induct) simp_all

section \<open>Indices\<close>

lemma index_diff: "a \<le> b \<Longrightarrow> (of_nat b - of_nat a :: 64 word) = of_nat (b - a)"
  by (simp add: of_nat_diff)

lemma index_unat [simp]: "n < 2 ^ 64 \<Longrightarrow> unat (of_nat n :: 64 word) = n"
  by (simp add: unat_of_nat)

lemma index_eq: "a < 2 ^ 64 \<Longrightarrow> b < 2 ^ 64 \<Longrightarrow> (of_nat a :: 64 word) = of_nat b \<longleftrightarrow> a = b"
  by (metis index_unat)

lemma index_full:
  "a \<le> b \<Longrightarrow> b - a \<le> cap \<Longrightarrow> cap < 2 ^ 64 \<Longrightarrow> (of_nat b - of_nat a :: 64 word) = of_nat cap \<longleftrightarrow> b = a + cap"
  by (simp only: index_diff) (auto simp: index_eq simp del: of_nat_diff)

lemma index_empty: "a \<le> b \<Longrightarrow> b - a < 2 ^ 64 \<Longrightarrow> (of_nat a :: 64 word) = of_nat b \<longleftrightarrow> a = b"
proof -
  assume ab: "a \<le> b" "b - a < 2 ^ 64"
  have "(of_nat a :: 64 word) = of_nat b \<longleftrightarrow> (of_nat b - of_nat a :: 64 word) = 0" by (metis right_minus_eq)
  also have "\<dots> \<longleftrightarrow> (of_nat (b - a) :: 64 word) = of_nat 0" by (simp only: index_diff [OF ab(1)] semiring_1_class.of_nat_0)
  also have "\<dots> \<longleftrightarrow> a = b" using ab index_eq [of "b - a" 0] by auto
  finally show ?thesis .
qed

lemma slot_of_index: "k < 64 \<Longrightarrow> slot_of (2 ^ k) (of_nat n) = n mod 2 ^ k"
proof -
  assume k: "k < 64"
  have "(of_nat (2 ^ k) - 1 :: 64 word) = mask k" by (simp add: mask_eq_exp_minus_1)
  then have "slot_of (2 ^ k) (of_nat n) = take_bit k (unat (of_nat n :: 64 word))"
    by (simp add: slot_of_def unsigned_take_bit_eq flip: take_bit_eq_mask)
  also have "\<dots> = take_bit k (take_bit 64 n)" by (simp add: unsigned_of_nat)
  also have "\<dots> = n mod 2 ^ k" using k by (simp add: min_def flip: take_bit_eq_mod)
  finally show ?thesis .
qed

lemma slots_distinct:
  assumes "(i :: nat) mod c = j mod c" "i < j"
  shows "i + c \<le> j"
proof -
  have "c dvd j - i" using assms mod_eq_dvd_iff_nat [of i j c] by simp
  then have "c \<le> j - i" using assms(2) by (simp add: dvd_imp_le)
  then show ?thesis using assms(2) by simp
qed

section \<open>The invariant\<close>

text \<open>
  \<open>xs\<close> is everything pushed so far and \<open>m\<close> how much of it has been popped; \<open>ct\<close> and \<open>ch\<close> are
  the unwrapped values of the cached indices.
\<close>

definition ring_inv :: "nat \<Rightarrow> 'a list \<Rightarrow> nat \<Rightarrow> nat \<Rightarrow> nat \<Rightarrow> 'a ring \<Rightarrow> bool" where
  "ring_inv cap xs m ct ch r \<longleftrightarrow>
     r_head r = of_nat (length xs) \<and> r_tail r = of_nat m \<and> r_cached_tail r = of_nat ct \<and> r_cached_head r = of_nat ch \<and>
     ct \<le> m \<and> m \<le> ch \<and> ch \<le> length xs \<and> length xs \<le> ct + cap \<and> length (r_buf r) = cap \<and>
     (\<forall>i. m \<le> i \<and> i < length xs \<longrightarrow> r_buf r ! (i mod cap) = xs ! i)"

definition producer_ok :: "nat \<Rightarrow> 'a list \<Rightarrow> nat \<Rightarrow> 'a ring \<Rightarrow> bool" where
  "producer_ok cap xs ct r \<longleftrightarrow>
     (case r_producer r of
        PIdle \<Rightarrow> True
      | PRefresh v \<Rightarrow> True
      | PWrite v \<Rightarrow> length xs < ct + cap
      | PPublish v \<Rightarrow> length xs < ct + cap \<and> r_buf r ! (length xs mod cap) = v)"

definition consumer_ok :: "'a list \<Rightarrow> nat \<Rightarrow> nat \<Rightarrow> 'a ring \<Rightarrow> bool" where
  "consumer_ok xs m ch r \<longleftrightarrow>
     (case r_consumer r of
        CIdle \<Rightarrow> True
      | CRefresh \<Rightarrow> True
      | CRead \<Rightarrow> m < ch
      | CPublish v \<Rightarrow> m < ch \<and> v = xs ! m)"

definition ring_ok :: "nat \<Rightarrow> 'a action list \<Rightarrow> 'a ring \<Rightarrow> bool" where
  "ring_ok cap tr r \<longleftrightarrow> (\<exists>m ct ch. pops tr = take m (pushes tr) \<and> ring_inv cap (pushes tr) m ct ch r \<and>
     producer_ok cap (pushes tr) ct r \<and> consumer_ok (pushes tr) m ch r)"

lemma producer_ok_frame [simp]:
  "producer_ok cap xs ct (r\<lparr>r_consumer := c\<rparr>) = producer_ok cap xs ct r"
  "producer_ok cap xs ct (r\<lparr>r_tail := i\<rparr>) = producer_ok cap xs ct r"
  "producer_ok cap xs ct (r\<lparr>r_cached_head := i\<rparr>) = producer_ok cap xs ct r"
  by (simp_all add: producer_ok_def split: producer.split)

lemma consumer_ok_frame [simp]:
  "consumer_ok xs m ch (r\<lparr>r_producer := p\<rparr>) = consumer_ok xs m ch r"
  "consumer_ok xs m ch (r\<lparr>r_head := i\<rparr>) = consumer_ok xs m ch r"
  "consumer_ok xs m ch (r\<lparr>r_cached_tail := i\<rparr>) = consumer_ok xs m ch r"
  "consumer_ok xs m ch (r\<lparr>r_buf := b\<rparr>) = consumer_ok xs m ch r"
  by (simp_all add: consumer_ok_def)

lemma ring_new_ok: "ring_ok cap [] (ring_new cap junk)"
  unfolding ring_ok_def by (intro exI [of _ 0]) (simp add: ring_new_def ring_inv_def producer_ok_def consumer_ok_def)

lemma push_begin_ok:
  assumes "ring_inv cap xs m ct ch r" "producer_ok cap xs ct r" "consumer_ok xs m ch r" "cap < 2 ^ 64"
  shows "ring_inv cap xs m ct ch (push_begin cap v r)" "producer_ok cap xs ct (push_begin cap v r)"
    "consumer_ok xs m ch (push_begin cap v r)"
proof -
  have "r_head r - r_cached_tail r = of_nat cap \<longleftrightarrow> length xs = ct + cap"
    using index_full [of ct "length xs" cap] assms(1,4) by (auto simp: ring_inv_def)
  with assms(1-3) show "ring_inv cap xs m ct ch (push_begin cap v r)" "producer_ok cap xs ct (push_begin cap v r)"
    "consumer_ok xs m ch (push_begin cap v r)"
    by (auto simp: push_begin_def ring_inv_def producer_ok_def consumer_ok_def)
qed

lemma push_refresh_ok:
  assumes "ring_inv cap xs m ct ch r" "consumer_ok xs m ch r" "cap < 2 ^ 64"
    "lag \<le> unat (r_tail r - r_cached_tail r)" "push_refresh cap lag v r = (ok, r')"
  shows "ring_inv cap xs m (m - lag) ch r'" "producer_ok cap xs (m - lag) r'" "consumer_ok xs m ch r'"
    "\<not> ok \<Longrightarrow> length xs + lag = m + cap"
proof -
  have i: "ct \<le> m" "m \<le> length xs" "length xs \<le> ct + cap" "r_tail r = of_nat m" "r_cached_tail r = of_nat ct"
    "r_head r = of_nat (length xs)" using assms(1) by (auto simp: ring_inv_def)
  have lag: "lag \<le> m - ct" using assms(3,4) i unfolding i(4,5) index_diff [OF i(1)] by (simp del: of_nat_diff)
  have t: "r_tail r - of_nat lag = of_nat (m - lag)" using lag i by (simp add: of_nat_diff)
  have full: "r_head r - of_nat (m - lag) = of_nat cap \<longleftrightarrow> length xs = m - lag + cap"
    using index_full [of "m - lag" "length xs" cap] lag i assms(3) by simp
  have r': "r' = r\<lparr>r_cached_tail := of_nat (m - lag), r_producer := if ok then PWrite v else PIdle\<rparr>"
    "ok = (r_head r - of_nat (m - lag) \<noteq> of_nat cap)"
    using assms(5) unfolding push_refresh_def t Let_def by (simp_all split: if_splits)
  show "ring_inv cap xs m (m - lag) ch r'" using assms(1) lag unfolding r'(1) by (auto simp: ring_inv_def)
  show "producer_ok cap xs (m - lag) r'" "\<not> ok \<Longrightarrow> length xs + lag = m + cap"
    using full lag i r'(2) unfolding r'(1) by (auto simp: producer_ok_def)
  show "consumer_ok xs m ch r'" using assms(2) unfolding r'(1) by simp
qed

lemma push_write_ok:
  assumes "ring_inv (2 ^ k) xs m ct ch r" "producer_ok (2 ^ k) xs ct r" "consumer_ok xs m ch r" "k < 64"
    "r_producer r = PWrite v"
  shows "ring_inv (2 ^ k) xs m ct ch (push_write (2 ^ k) v r)" "producer_ok (2 ^ k) xs ct (push_write (2 ^ k) v r)"
    "consumer_ok xs m ch (push_write (2 ^ k) v r)"
proof -
  have i: "ct \<le> m" "length xs < ct + 2 ^ k" "r_head r = of_nat (length xs)" "length (r_buf r) = 2 ^ k"
    using assms(1,2,5) by (auto simp: ring_inv_def producer_ok_def)
  have s: "slot_of (2 ^ k) (r_head r) = length xs mod 2 ^ k" using assms(4) i by (simp add: slot_of_index)
  have "j mod 2 ^ k \<noteq> length xs mod 2 ^ k" if "m \<le> j" "j < length xs" for j
    using slots_distinct [of j "2 ^ k" "length xs"] that i by auto
  then have "length xs mod 2 ^ k \<noteq> j mod 2 ^ k" if "m \<le> j" "j < length xs" for j using that by metis
  with assms(1) show "ring_inv (2 ^ k) xs m ct ch (push_write (2 ^ k) v r)"
    by (auto simp: ring_inv_def push_write_def s [unfolded i(3)])
  show "producer_ok (2 ^ k) xs ct (push_write (2 ^ k) v r)" using i by (simp add: producer_ok_def push_write_def s [unfolded i(3)])
  show "consumer_ok xs m ch (push_write (2 ^ k) v r)" using assms(3) by (simp add: consumer_ok_def push_write_def)
qed

lemma push_publish_ok:
  assumes "ring_inv cap xs m ct ch r" "producer_ok cap xs ct r" "consumer_ok xs m ch r" "r_producer r = PPublish v"
  shows "ring_inv cap (xs @ [v]) m ct ch (push_publish r)" "producer_ok cap (xs @ [v]) ct (push_publish r)"
    "consumer_ok (xs @ [v]) m ch (push_publish r)"
  using assms by (auto simp: ring_inv_def producer_ok_def consumer_ok_def push_publish_def nth_append less_Suc_eq
      split: consumer.splits)

lemma pop_begin_ok:
  assumes "ring_inv cap xs m ct ch r" "producer_ok cap xs ct r" "consumer_ok xs m ch r" "cap < 2 ^ 64"
  shows "ring_inv cap xs m ct ch (pop_begin r)" "producer_ok cap xs ct (pop_begin r)" "consumer_ok xs m ch (pop_begin r)"
proof -
  have "r_tail r = r_cached_head r \<longleftrightarrow> m = ch" using index_empty [of m ch] assms(1,4) by (auto simp: ring_inv_def)
  with assms(1-3) show "ring_inv cap xs m ct ch (pop_begin r)" "producer_ok cap xs ct (pop_begin r)"
    "consumer_ok xs m ch (pop_begin r)"
    by (auto simp: pop_begin_def ring_inv_def consumer_ok_def)
qed

lemma pop_refresh_ok:
  assumes "ring_inv cap xs m ct ch r" "producer_ok cap xs ct r" "cap < 2 ^ 64"
    "lag \<le> unat (r_head r - r_cached_head r)" "pop_refresh lag r = (ok, r')"
  shows "ring_inv cap xs m ct (length xs - lag) r'" "producer_ok cap xs ct r'" "consumer_ok xs m (length xs - lag) r'"
    "\<not> ok \<Longrightarrow> length xs = m + lag"
proof -
  have i: "ct \<le> m" "m \<le> ch" "ch \<le> length xs" "length xs \<le> ct + cap" "r_tail r = of_nat m" "r_cached_head r = of_nat ch"
    "r_head r = of_nat (length xs)" using assms(1) by (auto simp: ring_inv_def)
  have lag: "lag \<le> length xs - ch" using assms(3,4) i unfolding i(6,7) index_diff [OF i(3)] by (simp del: of_nat_diff)
  have h: "r_head r - of_nat lag = of_nat (length xs - lag)" using lag i by (simp add: of_nat_diff)
  have empty: "r_tail r = of_nat (length xs - lag) \<longleftrightarrow> m = length xs - lag"
    using index_empty [of m "length xs - lag"] lag i assms(3) by simp
  have r': "r' = r\<lparr>r_cached_head := of_nat (length xs - lag), r_consumer := if ok then CRead else CIdle\<rparr>"
    "ok = (r_tail r \<noteq> of_nat (length xs - lag))"
    using assms(5) unfolding pop_refresh_def h Let_def by (simp_all split: if_splits)
  show "ring_inv cap xs m ct (length xs - lag) r'" using assms(1) lag unfolding r'(1) by (auto simp: ring_inv_def)
  show "consumer_ok xs m (length xs - lag) r'" "\<not> ok \<Longrightarrow> length xs = m + lag"
    using empty lag i r'(2) unfolding r'(1) by (auto simp: consumer_ok_def)
  show "producer_ok cap xs ct r'" using assms(2) unfolding r'(1) by simp
qed

lemma pop_read_ok:
  assumes "ring_inv (2 ^ k) xs m ct ch r" "producer_ok (2 ^ k) xs ct r" "consumer_ok xs m ch r" "k < 64" "r_consumer r = CRead"
  shows "ring_inv (2 ^ k) xs m ct ch (pop_read (2 ^ k) r)" "producer_ok (2 ^ k) xs ct (pop_read (2 ^ k) r)"
    "consumer_ok xs m ch (pop_read (2 ^ k) r)"
  using assms by (auto simp: ring_inv_def consumer_ok_def pop_read_def slot_of_index)

lemma pop_publish_ok:
  assumes "ring_inv cap xs m ct ch r" "producer_ok cap xs ct r" "consumer_ok xs m ch r" "r_consumer r = CPublish v"
  shows "ring_inv cap xs (Suc m) ct ch (pop_publish r)" "producer_ok cap xs ct (pop_publish r)"
    "consumer_ok xs (Suc m) ch (pop_publish r)" "take (Suc m) xs = take m xs @ [v]"
  using assms by (auto simp: ring_inv_def consumer_ok_def pop_publish_def take_Suc_conv_app_nth)

lemma ring_okI:
  "pops tr = take m (pushes tr) \<Longrightarrow> ring_inv cap (pushes tr) m ct ch r \<Longrightarrow> producer_ok cap (pushes tr) ct r \<Longrightarrow>
   consumer_ok (pushes tr) m ch r \<Longrightarrow> ring_ok cap tr r"
  unfolding ring_ok_def by blast

lemma ring_inv_popped: "ring_inv cap xs m ct ch r \<Longrightarrow> m \<le> length xs"
  by (auto simp: ring_inv_def)

lemma ring_step_ok:
  assumes "ring_step (2 ^ k) r a r'" "ring_ok (2 ^ k) tr r" "k < 64"
  shows "ring_ok (2 ^ k) (tr @ [a]) r'"
proof -
  obtain m ct ch where inv: "pops tr = take m (pushes tr)" "ring_inv (2 ^ k) (pushes tr) m ct ch r"
    "producer_ok (2 ^ k) (pushes tr) ct r" "consumer_ok (pushes tr) m ch r"
    using assms(2) unfolding ring_ok_def by blast
  have cap: "(2 :: nat) ^ k < 2 ^ 64" by (rule power_strict_increasing [OF assms(3)]) simp
  note ml = ring_inv_popped [OF inv(2)]
  from assms(1) show ?thesis
  proof cases
    case (push_call v)
    then show ?thesis using inv(1) push_begin_ok [OF inv(2-4) cap, of v] by (auto intro: ring_okI [of _ m] ring_okI [of _ "Suc m"])
  next
    case (push_load v lag ok)
    then show ?thesis using inv(1) push_refresh_ok [OF inv(2,4) cap push_load(3,4)] by (auto intro: ring_okI [of _ m] ring_okI [of _ "Suc m"])
  next
    case (push_store v)
    then show ?thesis using inv(1) push_write_ok [OF inv(2-4) assms(3) push_store(3)] by (auto intro: ring_okI [of _ m] ring_okI [of _ "Suc m"])
  next
    case (push_return v)
    then show ?thesis using inv(1) ml push_publish_ok [OF inv(2-4) push_return(3)] by (auto intro: ring_okI [of _ m] ring_okI [of _ "Suc m"])
  next
    case pop_call
    then show ?thesis using inv(1) pop_begin_ok [OF inv(2-4) cap] by (auto intro: ring_okI [of _ m] ring_okI [of _ "Suc m"])
  next
    case (pop_load lag ok)
    then show ?thesis using inv(1) pop_refresh_ok [OF inv(2,3) cap pop_load(3,4)] by (auto intro: ring_okI [of _ m] ring_okI [of _ "Suc m"])
  next
    case pop_fetch
    then show ?thesis using inv(1) pop_read_ok [OF inv(2-4) assms(3) pop_fetch(3)] by (auto intro: ring_okI [of _ m] ring_okI [of _ "Suc m"])
  next
    case (pop_return v)
    then show ?thesis using inv(1) pop_publish_ok [OF inv(2-4) pop_return(3)] by (auto intro: ring_okI [of _ m] ring_okI [of _ "Suc m"])
  qed
qed

lemma ring_run_ok: "ring_run (2 ^ k) junk tr r \<Longrightarrow> k < 64 \<Longrightarrow> ring_ok (2 ^ k) tr r"
  by (induction rule: ring_run.induct) (simp_all add: ring_new_ok ring_step_ok)

lemma ring_okE:
  assumes "ring_ok cap tr r"
  obtains m ct ch where "m = length (pops tr)" "pops tr = take m (pushes tr)" "ring_inv cap (pushes tr) m ct ch r"
    "producer_ok cap (pushes tr) ct r" "consumer_ok (pushes tr) m ch r"
proof -
  obtain m ct ch where *: "pops tr = take m (pushes tr)" "ring_inv cap (pushes tr) m ct ch r"
    "producer_ok cap (pushes tr) ct r" "consumer_ok (pushes tr) m ch r"
    using assms unfolding ring_ok_def by blast
  then have "m = length (pops tr)" using ring_inv_popped [OF *(2)] by simp
  with * show ?thesis using that by blast
qed

section \<open>Correctness\<close>

text \<open>C29. The ring is a bounded FIFO under every interleaving of the two threads, with stale acquire loads
  and across the wrap-around of the 64-bit indices: what has been popped is, in order, exactly
  the first part of what has been pushed - nothing is lost, duplicated, reordered or
  overwritten - and at most the capacity lies in between.  A push is refused only if the tail
  it loaded is a whole capacity behind, and a pop only if the head it loaded shows no
  element; when the load is up to date, only if the ring is full or empty.\<close>

theorem ring_fifo:
  assumes "ring_run (2 ^ k) junk tr r" "k < 64"
  shows "pops tr = take (length (pops tr)) (pushes tr) \<and> length (pushes tr) \<le> length (pops tr) + 2 ^ k \<and>
    r_head r - r_tail r = of_nat (length (pushes tr) - length (pops tr)) \<and>
    (\<forall>lag r'. ring_step (2 ^ k) r (PushFalse lag) r' \<longrightarrow> length (pushes tr) + lag = length (pops tr) + 2 ^ k) \<and>
    (\<forall>lag r'. ring_step (2 ^ k) r (PopFalse lag) r' \<longrightarrow> length (pushes tr) = length (pops tr) + lag)"
proof -
  have cap: "(2 :: nat) ^ k < 2 ^ 64" by (rule power_strict_increasing [OF assms(2)]) simp
  obtain m ct ch where *: "m = length (pops tr)" "pops tr = take m (pushes tr)" "ring_inv (2 ^ k) (pushes tr) m ct ch r"
    "producer_ok (2 ^ k) (pushes tr) ct r" "consumer_ok (pushes tr) m ch r"
    by (rule ring_okE [OF ring_run_ok [OF assms]])
  have "length (pushes tr) + lag = m + 2 ^ k" if "ring_step (2 ^ k) r (PushFalse lag) r'" for lag r'
    using that push_refresh_ok(4) [OF *(3,5) cap] by cases (auto split: if_splits)
  moreover have "length (pushes tr) = m + lag" if "ring_step (2 ^ k) r (PopFalse lag) r'" for lag r'
    using that pop_refresh_ok(4) [OF *(3,4) cap] by cases (auto split: if_splits)
  moreover have "r_head r - r_tail r = of_nat (length (pushes tr) - m)" "length (pushes tr) \<le> m + 2 ^ k"
    using *(3) index_diff [OF ring_inv_popped [OF *(3)]] by (auto simp: ring_inv_def simp del: of_nat_diff)
  ultimately show ?thesis using * by blast
qed

text \<open>C30. The buffer needs no lock: whenever the producer is about to write a slot and the consumer about
  to read one, they are different slots, and the slot the consumer is about to read holds the
  oldest element not yet popped.\<close>

theorem ring_race_free:
  assumes "ring_run (2 ^ k) junk tr r" "k < 64" "r_consumer r = CRead"
  shows "(\<forall>v. r_producer r = PWrite v \<longrightarrow> slot_of (2 ^ k) (r_head r) \<noteq> slot_of (2 ^ k) (r_tail r)) \<and>
    length (pops tr) < length (pushes tr) \<and>
    r_buf r ! slot_of (2 ^ k) (r_tail r) = pushes tr ! length (pops tr)"
proof -
  obtain m ct ch where *: "m = length (pops tr)" "pops tr = take m (pushes tr)" "ring_inv (2 ^ k) (pushes tr) m ct ch r"
    "producer_ok (2 ^ k) (pushes tr) ct r" "consumer_ok (pushes tr) m ch r"
    by (rule ring_okE [OF ring_run_ok [OF assms(1,2)]])
  let ?n = "length (pushes tr)"
  have i: "ct \<le> m" "m < ?n" "r_head r = of_nat ?n" "r_tail r = of_nat m" "r_buf r ! (m mod 2 ^ k) = pushes tr ! m"
    using *(3,5) assms(3) by (auto simp: ring_inv_def consumer_ok_def)
  have s: "slot_of (2 ^ k) (r_head r) = ?n mod 2 ^ k" "slot_of (2 ^ k) (r_tail r) = m mod 2 ^ k"
    unfolding i(3,4) using assms(2) by (simp_all add: slot_of_index)
  have "?n mod 2 ^ k \<noteq> m mod 2 ^ k" if "r_producer r = PWrite v" for v
    using that *(4) slots_distinct [of m "2 ^ k" ?n] i(1,2) by (auto simp: producer_ok_def)
  then show ?thesis using i(2,5) s *(1) by auto
qed

text \<open>
  A ring of two slots: the producer pushes 7 and 8, the consumer finds the second one only with a
  fresh load, and a third push is refused on the stale tail.
\<close>

definition demo_turns :: "nat turn list" where
  "demo_turns = [Producer 7 0, Producer 0 0, Producer 0 0, Consumer 0, Consumer 0, Producer 8 0, Consumer 0, Producer 0 0,
     Producer 0 0, Consumer 0, Producer 9 0, Producer 0 1]"

lemma demo_schedule:
  "schedule (2 ^ 1) demo_turns [] (ring_new (2 ^ 1) 0) =
     Some ([Tau, Tau, PushTrue 7, Tau, Tau, Tau, Tau, Tau, PushTrue 8, PopTrue 7, Tau, PushFalse 1],
       \<lparr>r_head = 2, r_cached_tail = 0, r_tail = 1, r_cached_head = 1, r_buf = [7, 8], r_producer = PIdle, r_consumer = CIdle\<rparr>)"
  by code_simp

theorem ring_fifo_witness:
  "\<exists>tr r. schedule (2 ^ 1) demo_turns [] (ring_new (2 ^ 1) 0) = Some (tr, r) \<and> pushes tr = [7, 8] \<and> pops tr = [7] \<and>
     pops tr = take (length (pops tr)) (pushes tr)"
  using ring_fifo [OF schedule_run [OF ring_run.start demo_schedule]] demo_schedule by auto

theorem ring_race_free_witness:
  "\<exists>tr r. schedule (2 ^ 1) (take 6 demo_turns) [] (ring_new (2 ^ 1) 0) = Some (tr, r) \<and> r_consumer r = CRead \<and>
     r_producer r = PWrite 8 \<and> slot_of (2 ^ 1) (r_head r) \<noteq> slot_of (2 ^ 1) (r_tail r)"
proof -
  let ?r = "\<lparr>r_head = 1, r_cached_tail = 0, r_tail = 0, r_cached_head = 1, r_buf = [7, 0], r_producer = PWrite 8,
    r_consumer = CRead\<rparr>"
  have s: "schedule (2 ^ 1) (take 6 demo_turns) [] (ring_new (2 ^ 1) 0) = Some ([Tau, Tau, PushTrue 7, Tau, Tau, Tau], ?r)"
    by code_simp
  from ring_race_free [OF schedule_run [OF ring_run.start s]] s show ?thesis by auto
qed

end
