(* ===== verification/Displayed.thy ===== *)
theory Displayed
  imports Amend
begin

text \<open>
  The displayed book as a function of the engine's events.  A consumer that sees only the
  events keeps, per side and level, the list of the displayed orders with their shown
  quantities; the theory defines what each event does to such a book and shows that the
  events of a call, applied to the displayed book before it, give the displayed book after
  it.  On the way every Rested event meets the conditions a consumer needs: the order was
  not displayed, its quantity is not zero, and nothing on the other side is within its reach
  unless the engine is halted.
\<close>

section \<open>Displayed books\<close>

type_synonym dlevel = "(OrderId \<times> Qty) list"
type_synonym dbook = "Side \<Rightarrow> dlevel list"

definition show_level :: "ro list \<Rightarrow> dlevel" where
  "show_level os = map (\<lambda>r. (r_id r, r_qty r)) os"

definition displayed :: "astate \<Rightarrow> dbook" where
  "displayed a = (\<lambda>s. map show_level (a_books a s))"

definition level_ids :: "dlevel \<Rightarrow> OrderId set" where
  "level_ids os = fst ` set os"

definition book_ids :: "dbook \<Rightarrow> OrderId set" where
  "book_ids d = (\<Union>s. \<Union>os\<in>set (d s). level_ids os)"

text \<open>The ids outside one level.\<close>

definition elsewhere :: "dbook \<Rightarrow> Side \<Rightarrow> nat \<Rightarrow> OrderId set" where
  "elsewhere d s i = {oid. \<exists>t j. j < length (d t) \<and> (t, j) \<noteq> (s, i) \<and> oid \<in> level_ids (d t ! j)}"

text \<open>A fill takes from an order and removes it at zero; a cancel removes it.\<close>

fun take_from :: "OrderId \<Rightarrow> Qty \<Rightarrow> dlevel \<Rightarrow> dlevel" where
  "take_from oid q [] = []"
| "take_from oid q ((i, x) # os) =
     (if i = oid then (if q < x then (i, x - q) # take_from oid q os else take_from oid q os)
      else (i, x) # take_from oid q os)"

definition d_fill :: "OrderId \<Rightarrow> Qty \<Rightarrow> dbook \<Rightarrow> dbook" where
  "d_fill oid q d = (\<lambda>s. map (take_from oid q) (d s))"

definition drop_id :: "OrderId \<Rightarrow> dlevel \<Rightarrow> dlevel" where
  "drop_id oid = filter (\<lambda>(i, x). i \<noteq> oid)"

definition d_drop :: "OrderId \<Rightarrow> dbook \<Rightarrow> dbook" where
  "d_drop oid d = (\<lambda>s. map (drop_id oid) (d s))"

definition d_set :: "Side \<Rightarrow> nat \<Rightarrow> dlevel \<Rightarrow> dbook \<Rightarrow> dbook" where
  "d_set s i os d = d(s := (d s)[i := os])"

text \<open>Nothing on the other side at or beyond a level that an order resting there would reach.\<close>

definition clear_of :: "Side \<Rightarrow> nat \<Rightarrow> dbook \<Rightarrow> bool" where
  "clear_of s i d \<longleftrightarrow> (\<forall>j<length (d (opposite s)). d (opposite s) ! j \<noteq> [] \<longrightarrow> \<not> within_limit s (int j) (int i))"

definition d_step :: "Price \<Rightarrow> bool \<Rightarrow> bool \<Rightarrow> event \<Rightarrow> dbook \<Rightarrow> dbook option" where
  "d_step lo halted cross ev d =
     (case ev of
        Accept oid s p q \<Rightarrow> Some d
      | Rejected oid \<Rightarrow> Some d
      | Cancelled oid \<Rightarrow> Some (d_drop oid d)
      | Traded t \<Rightarrow>
          Some (d_fill (t_maker t) (t_qty t) (if cross then d_fill (t_taker t) (t_qty t) d else d))
      | Rested oid s p q \<Rightarrow>
          let i = nat (p - lo)
          in if lo \<le> p \<and> i < length (d s) \<and> q \<noteq> 0 \<and> oid \<notin> book_ids d \<and> (halted \<or> clear_of s i d)
             then Some (d_set s i (d s ! i @ [(oid, q)]) d) else None)"

fun d_replay :: "Price \<Rightarrow> bool \<Rightarrow> bool \<Rightarrow> event list \<Rightarrow> dbook \<Rightarrow> dbook option" where
  "d_replay lo halted cross [] d = Some d"
| "d_replay lo halted cross (ev # evs) d =
     do { d1 \<leftarrow> d_step lo halted cross ev d; d_replay lo halted cross evs d1 }"

lemma d_replay_append:
  "d_replay lo halted cross (evs @ evs') d =
     do { d1 \<leftarrow> d_replay lo halted cross evs d; d_replay lo halted cross evs' d1 }"
proof (induction evs arbitrary: d)
  case (Cons ev evs)
  then show ?case by (cases "d_step lo halted cross ev d") simp_all
qed simp

section \<open>Changes of one level\<close>

lemma level_ids_simps [simp]:
  "level_ids [] = {}" "level_ids ((i, x) # os) = insert i (level_ids os)" "level_ids (os @ os') = level_ids os \<union> level_ids os'"
  by (auto simp: level_ids_def)

lemma level_ids_show [simp]: "level_ids (show_level os) = r_id ` set os"
  by (auto simp: level_ids_def show_level_def image_image)

lemma show_level_simps [simp]:
  "show_level [] = []" "show_level (r # os) = (r_id r, r_qty r) # show_level os"
  "show_level (os @ os') = show_level os @ show_level os'"
  by (simp_all add: show_level_def)

lemma take_from_other: "oid \<notin> level_ids os \<Longrightarrow> take_from oid q os = os"
  by (induction oid q os rule: take_from.induct) auto

lemma drop_id_other: "oid \<notin> level_ids os \<Longrightarrow> drop_id oid os = os"
  by (induction os) (auto simp: drop_id_def)

lemma drop_id_simps [simp]:
  "drop_id oid [] = []" "drop_id oid ((i, x) # os) = (if i = oid then drop_id oid os else (i, x) # drop_id oid os)"
  by (simp_all add: drop_id_def)

lemma d_set_fields [simp]:
  "length (d_set s i os d t) = length (d t)" "d_set s i os d s = (d s)[i := os]" "t \<noteq> s \<Longrightarrow> d_set s i os d t = d t"
  "d_set s i os (d_set s i os' d) = d_set s i os d"
  by (auto simp: d_set_def)

lemma d_set_same: "d s ! i = os \<Longrightarrow> d_set s i os d = d"
  by (auto simp: d_set_def)

lemma d_set_other: "(t, j) \<noteq> (s, i) \<Longrightarrow> d_set s i os d t ! j = d t ! j"
  by (auto simp: d_set_def)

lemma elsewhere_set [simp]: "elsewhere (d_set s i os d) s i = elsewhere d s i"
  unfolding elsewhere_def by (simp add: d_set_other cong: conj_cong)

lemma book_ids_level: "i < length (d s) \<Longrightarrow> book_ids d = level_ids (d s ! i) \<union> elsewhere d s i"
  by (fastforce simp: book_ids_def elsewhere_def in_set_conv_nth)

lemma local_map:
  assumes "i < length (d s)" "\<And>t j. j < length (d t) \<Longrightarrow> (t, j) \<noteq> (s, i) \<Longrightarrow> f (d t ! j) = d t ! j"
  shows "(\<lambda>t. map f (d t)) = d_set s i (f (d s ! i)) d"
proof
  fix t show "map f (d t) = d_set s i (f (d s ! i)) d t"
    using assms by (intro nth_equalityI) (auto simp: d_set_def nth_list_update)
qed

lemma d_fill_local:
  "i < length (d s) \<Longrightarrow> oid \<notin> elsewhere d s i \<Longrightarrow> d_fill oid q d = d_set s i (take_from oid q (d s ! i)) d"
  unfolding d_fill_def by (rule local_map) (auto simp: elsewhere_def intro!: take_from_other)

lemma d_drop_local:
  "i < length (d s) \<Longrightarrow> oid \<notin> elsewhere d s i \<Longrightarrow> d_drop oid d = d_set s i (drop_id oid (d s ! i)) d"
  unfolding d_drop_def by (rule local_map) (auto simp: elsewhere_def intro!: drop_id_other)

lemma clear_of_set [simp]: "clear_of s i (d_set s k os d) = clear_of s i d"
  by (cases s) (simp_all add: clear_of_def)

section \<open>A sweep of one level\<close>

text \<open>The level a sweep works on, seen in a displayed book.\<close>

definition shows_level :: "Side \<Rightarrow> nat \<Rightarrow> ro list \<Rightarrow> dbook \<Rightarrow> bool" where
  "shows_level s i os d \<longleftrightarrow> i < length (d s) \<and> d s ! i = show_level os \<and> distinct (map r_id os) \<and>
     (\<forall>r\<in>set os. sound r \<and> r_side r = s) \<and> r_id ` set os \<inter> elsewhere d s i = {}"

lemma shows_levelD:
  assumes "shows_level s i os d"
  shows "i < length (d s)" "d s ! i = show_level os" "distinct (map r_id os)"
    "\<And>r. r \<in> set os \<Longrightarrow> sound r \<and> r_side r = s" "\<And>r. r \<in> set os \<Longrightarrow> r_id r \<notin> elsewhere d s i"
  using assms by (auto simp: shows_level_def)

lemma shows_level_set:
  "shows_level s i os d \<Longrightarrow> distinct (map r_id os') \<Longrightarrow> r_id ` set os' \<subseteq> r_id ` set os \<Longrightarrow>
   (\<forall>r\<in>set os'. sound r \<and> r_side r = s) \<Longrightarrow> shows_level s i os' (d_set s i (show_level os') d)"
  unfolding shows_level_def by (auto 4 3)

lemma fill_head:
  assumes "shows_level s i (r # os) d"
  shows "d_fill (r_id r) q d = d_set s i (show_level ((if q < r_qty r then [r\<lparr>r_qty := r_qty r - q\<rparr>] else []) @ os)) d"
proof -
  note l = shows_levelD [OF assms]
  have "r_id r \<notin> level_ids (show_level os)" using l(3) by simp
  then show ?thesis using d_fill_local [where s = s and i = i and d = d and oid = "r_id r" and q = q, OF l(1)] l(2) l(5) [of r] by (simp add: take_from_other)
qed

lemma drop_head:
  assumes "shows_level s i (r # os) d"
  shows "d_drop (r_id r) d = d_set s i (show_level os) d"
proof -
  note l = shows_levelD [OF assms]
  have "r_id r \<notin> level_ids (show_level os)" using l(3) by simp
  then show ?thesis using d_drop_local [where s = s and i = i and d = d and oid = "r_id r", OF l(1)] l(2) l(5) [of r] by (simp add: drop_id_other)
qed

lemma shows_level_tl: "shows_level s i (r # os) d \<Longrightarrow> shows_level s i os (d_set s i (show_level os) d)"
  by (rule shows_level_set [of s i "r # os"]) (auto simp: shows_level_def)

text \<open>Resting at the back of a level that no longer holds the order.\<close>

lemma rest_back:
  assumes l: "shows_level s i os d" and p: "nat (p - lo) = i" "lo \<le> p" and r: "sound r" "r_side r = s"
    and new: "r_id r \<notin> r_id ` set os" "r_id r \<notin> elsewhere d s i" and c: "halted \<or> clear_of s i d"
  shows "d_step lo halted cross (Rested (r_id r) s p (r_qty r)) d = Some (d_set s i (show_level (os @ [r])) d)"
    "shows_level s i (os @ [r]) (d_set s i (show_level (os @ [r])) d)"
proof -
  note l' = shows_levelD [OF l]
  have "r_id r \<notin> book_ids d" using new l'(2) by (simp add: book_ids_level [where s = s and i = i and d = d, OF l'(1)])
  moreover have "r_qty r \<noteq> 0" using r(1) by (simp add: sound_def)
  ultimately show "d_step lo halted cross (Rested (r_id r) s p (r_qty r)) d = Some (d_set s i (show_level (os @ [r])) d)"
    using l' p c by (simp add: d_step_def Let_def)
  show "shows_level s i (os @ [r]) (d_set s i (show_level (os @ [r])) d)"
    using l r new unfolding shows_level_def by auto
qed

lemma sweep_replay:
  assumes "a_sweep taker px ts owner stp q os = (q', h, evs, os')" "shows_level s i os d"
    "nat (px - lo) = i" "lo \<le> px" "clear_of s i d"
  shows "d_replay lo halted False evs d = Some (d_set s i (show_level os') d) \<and> shows_level s i os' (d_set s i (show_level os') d)"
proof -
  let ?P = "\<lambda>q os res. \<forall>d. shows_level s i os d \<longrightarrow> clear_of s i d \<longrightarrow> (case res of (q', h, evs, os') \<Rightarrow>
    d_replay lo halted False evs d = Some (d_set s i (show_level os') d) \<and> shows_level s i os' (d_set s i (show_level os') d))"
  have same: "d_set s i (show_level os) d = d" if "shows_level s i os d" for os d
    using that by (intro d_set_same) (simp add: shows_level_def)
  have fill: "d_step lo halted False (trade_of taker px ts r q) d = Some (d_fill (r_id r) q d)" for r q d
    by (simp add: d_step_def)
  have "?P q os (a_sweep taker px ts owner stp q os)"
  proof (rule a_sweep_rule [where P = ?P])
    fix q :: Qty and r :: ro and os q' h evs os'
    assume "?P q os (q', h, evs, os')"
    then show "?P q (r # os) (q', h, Cancelled (r_id r) # evs, os')"
      using shows_level_tl by (fastforce simp: d_step_def drop_head)
  next
    fix q :: Qty and r :: ro and os
    assume "q < r_qty r"
    moreover then have "r_qty r - q \<noteq> 0" by auto
    ultimately show "?P q (r # os) (0, False, [trade_of taker px ts r q], r\<lparr>r_qty := r_qty r - q\<rparr> # os)"
      by (auto simp: fill fill_head shows_level_def sound_def)
  next
    fix q :: Qty and r :: ro and os q' h evs os'
    assume a: "r_reserve r \<noteq> 0" "?P (q - r_qty r) (os @ [refill r]) (q', h, evs, os')"
    show "?P q (r # os) (q', h, trade_of taker px ts r (r_qty r) #
        Rested (r_id r) (r_side r) px (r_qty (refill r)) # evs, os')"
    proof (intro allI impI, simp only: prod.case)
      fix d assume d: "shows_level s i (r # os) d" "clear_of s i d"
      let ?d1 = "d_set s i (show_level os) d"
      have "shows_level s i os ?d1" "sound (refill r)" "r_side (refill r) = s" "r_id (refill r) \<notin> r_id ` set os"
        "r_id (refill r) \<notin> elsewhere ?d1 s i" "clear_of s i ?d1" "r_side r = s"
        using shows_level_tl [OF d(1)] d sound_refill a(1) by (auto simp: shows_level_def)
      from rest_back [OF this(1) assms(3,4) this(2-5)] this(6,7)
        a(2) [rule_format, of "d_set s i (show_level (os @ [refill r])) d"] d(1) show
        "d_replay lo halted False (trade_of taker px ts r (r_qty r) # Rested (r_id r) (r_side r) px (r_qty (refill r)) # evs) d =
           Some (d_set s i (show_level os') d) \<and> shows_level s i os' (d_set s i (show_level os') d)"
        by (simp add: fill fill_head)
    qed
  next
    fix q :: Qty and r :: ro and os q' h evs os'
    assume "?P (q - r_qty r) os (q', h, evs, os')"
    then show "?P q (r # os) (q', h, trade_of taker px ts r (r_qty r) # evs, os')"
      using shows_level_tl by (fastforce simp: fill fill_head)
  qed (auto simp: same d_step_def drop_head shows_level_tl simp del: show_level_simps(2))
  with assms show ?thesis by auto
qed

section \<open>States that can be displayed\<close>

definition orderly :: "astate \<Rightarrow> bool" where
  "orderly a \<longleftrightarrow> (\<forall>s i. i < length (a_books a s) \<longrightarrow> shows_level s i (a_books a s ! i) (displayed a))"

lemma displayed_fields [simp]:
  "length (displayed a s) = length (a_books a s)"
  "i < length (a_books a s) \<Longrightarrow> displayed a s ! i = show_level (a_books a s ! i)"
  by (simp_all add: displayed_def)

lemma displayed_cong: "a_books b = a_books a \<Longrightarrow> displayed b = displayed a"
  by (simp add: displayed_def)

lemma displayed_frame [simp]:
  "displayed (a_emit ev a) = displayed a" "displayed (a\<lparr>a_stp_halt := b\<rparr>) = displayed a"
  "displayed (a\<lparr>a_pumping := b\<rparr>) = displayed a" "displayed (a\<lparr>a_next := k\<rparr>) = displayed a"
  "displayed (a\<lparr>a_halted := b\<rparr>) = displayed a" "displayed (a_stop_level s i os a) = displayed a"
  by (simp_all add: displayed_def)

lemma displayed_level:
  "a_books b = (a_books a)(s := (a_books a s)[i := os]) \<Longrightarrow> displayed b = d_set s i (show_level os) (displayed a)"
  by (auto simp: displayed_def d_set_def map_update)

lemma orderly_cong: "a_books b = a_books a \<Longrightarrow> orderly b = orderly a"
  using displayed_cong [of b a] by (simp add: orderly_def)

lemma elsewhere_mono:
  assumes "\<And>t j. j < length (d' t) \<Longrightarrow> j < length (d t) \<and> level_ids (d' t ! j) \<subseteq> level_ids (d t ! j)"
  shows "elsewhere d' s i \<subseteq> elsewhere d s i" "book_ids d' \<subseteq> book_ids d"
  using assms unfolding elsewhere_def book_ids_def by (fastforce simp: in_set_conv_nth)+

lemma orderly_update:
  assumes o: "orderly a" and b: "a_books b = (a_books a)(s := (a_books a s)[i := os])" and i: "i < length (a_books a s)"
    and os: "distinct (map r_id os)" "r_id ` set os \<subseteq> r_id ` set (a_books a s ! i)" "\<forall>r\<in>set os. sound r \<and> r_side r = s"
  shows "orderly b" "book_ids (displayed b) \<subseteq> book_ids (displayed a)"
proof -
  have d: "displayed b = d_set s i (show_level os) (displayed a)" by (rule displayed_level [OF b])
  have sub: "j < length (displayed b t) \<Longrightarrow> j < length (displayed a t) \<and> level_ids (displayed b t ! j) \<subseteq> level_ids (displayed a t ! j)"
    for t j using os(2) i unfolding d by (cases "(t, j) = (s, i)") (auto simp: d_set_other)
  have mono: "elsewhere (displayed b) t j \<subseteq> elsewhere (displayed a) t j" for t j by (rule elsewhere_mono(1) [OF sub])
  show "book_ids (displayed b) \<subseteq> book_ids (displayed a)" by (rule elsewhere_mono(2) [OF sub])
  show "orderly b"
    unfolding orderly_def
  proof (intro allI impI)
    fix t j assume "j < length (a_books b t)"
    then have j: "j < length (a_books a t)" by (simp add: b split: if_splits)
    show "shows_level t j (a_books b t ! j) (displayed b)"
    proof (cases "(t, j) = (s, i)")
      case True
      with o i os d show ?thesis
        using shows_level_set [of s i "a_books a s ! i" "displayed a" os] by (simp add: orderly_def b)
    next
      case False
      then have same: "a_books b t ! j = a_books a t ! j" by (auto simp: b)
      have "shows_level t j (a_books a t ! j) (displayed a)" using o j by (simp add: orderly_def)
      moreover have "displayed b t ! j = displayed a t ! j" using False by (simp add: d d_set_other)
      ultimately show ?thesis using mono [of t j] j unfolding same shows_level_def by (auto simp: d)
    qed
  qed
qed

lemma erel_orderly:
  assumes e: "erel clean e a"
  shows "orderly a"
  unfolding orderly_def shows_level_def
proof (intro allI impI conjI ballI)
  fix s i assume i: "i < length (a_books a s)"
  then have n: "i < e_n e" using erel_lengths(1) [OF e] by simp
  show "i < length (displayed a s)" "displayed a s ! i = show_level (a_books a s ! i)" using i by simp_all
  show "distinct (map r_id (a_books a s ! i))" by (rule level_distinct(1) [OF e n])
  show "sound r" "r_side r = s" if "r \<in> set (a_books a s ! i)" for r
    using erel_sound [OF e n that] level_relD(4) [OF erel_level(2) [OF e n] that] by (simp_all add: resting_ok_def)
  have "False" if x: "x \<in> set (a_books a s ! i)" and y: "j < e_n e" "y \<in> set (a_books a t ! j)" "r_id x = r_id y"
    and ne: "(t, j) \<noteq> (s, i)" for x y t j
  proof -
    note lx = level_order [OF e n x] and ly = level_order [OF e y(1,2)]
    have "x = y" using same_id_same_order [of e x y] lx ly y(3) by blast
    then show False using lx ly ne by simp
  qed
  then show "r_id ` set (a_books a s ! i) \<inter> elsewhere (displayed a) s i = {}"
    using erel_lengths(1) [OF e] by (fastforce simp: elsewhere_def)
qed

section \<open>Steps that tell the displayed book\<close>

definition tells :: "bool \<Rightarrow> bool \<Rightarrow> astate \<Rightarrow> astate \<Rightarrow> bool" where
  "tells halted cross a b \<longleftrightarrow> a_min b = a_min a \<and>
     (\<exists>evs. a_tape b = a_tape a @ evs \<and> d_replay (a_min a) halted cross evs (displayed a) = Some (displayed b))"

lemma tells_trans [trans]: "tells halted cross a b \<Longrightarrow> tells halted cross b c \<Longrightarrow> tells halted cross a c"
  unfolding tells_def by (fastforce simp: d_replay_append)

lemma d_replay_lengths: "d_replay lo halted cross evs d = Some d' \<Longrightarrow> length (d' s) = length (d s)"
proof (induction evs arbitrary: d)
  case (Cons ev evs)
  then obtain d1 where d1: "d_step lo halted cross ev d = Some d1" "d_replay lo halted cross evs d1 = Some d'"
    by (auto simp: bind_eq_Some_conv)
  have "length (d1 s) = length (d s)"
    using d1(1) by (auto simp: d_step_def d_fill_def d_drop_def Let_def split: event.splits if_splits)
  with Cons.IH [OF d1(2)] show ?case by simp
qed simp

lemma tells_lengths: "tells halted cross a b \<Longrightarrow> length (a_books b s) = length (a_books a s)"
  by (auto simp: tells_def dest: d_replay_lengths [of _ _ _ _ _ _ s])

lemma tells_same: "a_min b = a_min a \<Longrightarrow> a_tape b = a_tape a \<Longrightarrow> a_books b = a_books a \<Longrightarrow> tells halted cross a b"
  using displayed_cong [of b a] by (simp add: tells_def)

lemma tells_step:
  "a_min b = a_min a \<Longrightarrow> a_tape b = a_tape a @ [ev] \<Longrightarrow> d_step (a_min a) halted cross ev (displayed a) = Some (displayed b) \<Longrightarrow>
   tells halted cross a b"
  by (simp add: tells_def)

lemma tells_entry: "tells halted cross a (a_emit (Accept oid s p q) a)" "tells halted cross a (a_emit (Rejected oid) a)"
  by (auto intro!: tells_step simp: d_step_def)

lemma d_drop_none: "oid \<notin> book_ids d \<Longrightarrow> d_drop oid d = d"
  unfolding d_drop_def by (fastforce simp: book_ids_def intro!: ext map_idI drop_id_other)

lemma tells_kill: "oid \<notin> book_ids (displayed a) \<Longrightarrow> tells halted cross a (a_emit (Cancelled oid) a)"
  by (auto intro!: tells_step simp: d_step_def d_drop_none)

section \<open>Matching, resting, placing\<close>

lemma clear_of_side: "d' (opposite s) = d (opposite s) \<Longrightarrow> clear_of s i d' = clear_of s i d"
  by (simp add: clear_of_def)

lemma uncrossed_clear: "uncrossed a \<Longrightarrow> i \<in> occ (a_books a s) \<Longrightarrow> clear_of s i (displayed a)"
  unfolding uncrossed_def clear_of_def by (cases s) (fastforce simp: occ_def within_limit_def show_level_def)+

lemma swept_tells:
  assumes sw: "a_sweep taker (a_min a + int i) ts owner stp q (a_books a ms ! i) = (q1, h, evs, os)"
    and o: "orderly a" and i: "i < length (a_books a ms)" and c: "a_books a ms ! i \<noteq> [] \<Longrightarrow> clear_of ms i (displayed a)"
  shows "tells halted False a (a_swept ms i (h, evs, os) a)" "orderly (a_swept ms i (h, evs, os) a)"
    "book_ids (displayed (a_swept ms i (h, evs, os) a)) \<subseteq> book_ids (displayed a)"
proof -
  let ?b = "a_swept ms i (h, evs, os) a"
  have l: "shows_level ms i (a_books a ms ! i) (displayed a)" using o i by (simp add: orderly_def)
  have b: "a_books ?b = (a_books a)(ms := (a_books a ms)[i := os])" by simp
  have d: "displayed ?b = d_set ms i (show_level os) (displayed a)" by (rule displayed_level [OF b])
  have r: "d_replay (a_min a) halted False evs (displayed a) = Some (displayed ?b) \<and> shows_level ms i os (displayed ?b)"
  proof (cases "a_books a ms ! i = []")
    case True
    then have "evs = []" "os = []" using sw by auto
    then show ?thesis using True i l d_set_same [of "displayed a" ms i "[]"] unfolding d by simp
  next
    case False
    then show ?thesis using sweep_replay [OF sw l, where lo = "a_min a" and halted = halted] c [OF False] unfolding d by simp
  qed
  then show "tells halted False a ?b" by (auto simp: tells_def a_swept_def)
  have "r_id ` set os \<subseteq> r_id ` set (a_books a ms ! i)" using a_sweep_ids [of taker "a_min a + int i" ts owner stp q "a_books a ms ! i"] sw by simp
  from orderly_update [OF o b i _ this] r show "orderly ?b" "book_ids (displayed ?b) \<subseteq> book_ids (displayed a)"
    unfolding shows_level_def by blast+
qed

lemma match_levels_tells:
  "a_match_levels ts taker owner stp is q a = (q', a') \<Longrightarrow> distinct is \<Longrightarrow> orderly a \<Longrightarrow>
   (\<forall>i\<in>set is. i < length (a_books a (opposite ts)) \<and>
     (a_books a (opposite ts) ! i \<noteq> [] \<longrightarrow> clear_of (opposite ts) i (displayed a))) \<Longrightarrow>
   tells halted False a a' \<and> orderly a' \<and> book_ids (displayed a') \<subseteq> book_ids (displayed a)"
proof (induction "is" arbitrary: q a)
  case (Cons i "is")
  let ?ms = "opposite ts"
  show ?case
  proof (cases "q = 0")
    case True
    with Cons.prems show ?thesis by (auto intro: tells_same)
  next
    case False
    obtain q1 h evs os where sw: "a_sweep taker (a_min a + int i) ts owner stp q (a_books a ?ms ! i) = (q1, h, evs, os)"
      and go: "(if a_stp_halt a \<or> h then (q1, a_swept ?ms i (h, evs, os) a)
        else a_match_levels ts taker owner stp is q1 (a_swept ?ms i (h, evs, os) a)) = (q', a')"
      using match_levels_split [OF Cons.prems(1) False] by blast
    let ?a1 = "a_swept ?ms i (h, evs, os) a"
    have s1: "tells halted False a ?a1" "orderly ?a1" "book_ids (displayed ?a1) \<subseteq> book_ids (displayed a)"
      using swept_tells [OF sw Cons.prems(3)] Cons.prems(4) by auto
    show ?thesis
    proof (cases "a_stp_halt a \<or> h")
      case True
      with go s1 show ?thesis by auto
    next
      case False
      then have m: "a_match_levels ts taker owner stp is q1 ?a1 = (q', a')" using go by simp
      have "displayed ?a1 (opposite ?ms) = displayed a (opposite ?ms)" by (cases ts) (simp_all add: displayed_def)
      then have "clear_of ?ms j (displayed ?a1) = clear_of ?ms j (displayed a)" for j by (rule clear_of_side)
      moreover have "i \<noteq> j" if "j \<in> set is" for j using Cons.prems(2) that by auto
      then have "\<forall>j\<in>set is. a_books ?a1 ?ms ! j = a_books a ?ms ! j" by simp
      ultimately have "tells halted False ?a1 a' \<and> orderly a' \<and> book_ids (displayed a') \<subseteq> book_ids (displayed ?a1)"
        using Cons.IH [OF m] Cons.prems(2,4) s1(2) by auto
      with s1 tells_trans show ?thesis by blast
    qed
  qed
qed (auto intro: tells_same)

lemma match_tells:
  assumes e: "erel clean e a" and u: "uncrossed a"
  shows "tells halted False a (snd (a_match ts taker q limit owner stp a))"
    "orderly (snd (a_match ts taker q limit owner stp a))"
    "book_ids (displayed (snd (a_match ts taker q limit owner stp a))) \<subseteq> book_ids (displayed a)"
proof -
  obtain q' a' where m: "a_match_levels ts taker owner stp (reach ts (a_n a) limit) q a = (q', a')" by fastforce
  have d: "distinct (reach ts (a_n a) limit)" by (cases ts) (simp_all add: reach_def)
  have "\<forall>i\<in>set (reach ts (a_n a) limit). i < length (a_books a (opposite ts))"
    using erel_lengths(1) [OF e] erelD(2) [OF e] by (cases ts) (auto simp: reach_def)
  then have "\<forall>i\<in>set (reach ts (a_n a) limit). i < length (a_books a (opposite ts)) \<and>
      (a_books a (opposite ts) ! i \<noteq> [] \<longrightarrow> clear_of (opposite ts) i (displayed a))"
    using uncrossed_clear [OF u] by (simp add: occ_def)
  from match_levels_tells [OF m d erel_orderly [OF e] this] m
  show "tells halted False a (snd (a_match ts taker q limit owner stp a))"
    "orderly (snd (a_match ts taker q limit owner stp a))"
    "book_ids (displayed (snd (a_match ts taker q limit owner stp a))) \<subseteq> book_ids (displayed a)"
    by (simp_all add: a_match_def)
qed

lemma new_order_sound: "q \<noteq> 0 \<Longrightarrow> sound (new_order oid side p q owner stp peak)"
  by (auto simp: new_order_def sound_def Let_def word_gt_0)

lemma rest_tells:
  assumes o: "orderly a" and band: "a_min a \<le> p" "a_idx a p < length (a_books a side)" and q: "q \<noteq> 0"
    and new: "oid \<notin> book_ids (displayed a)" and c: "halted \<or> clear_of side (a_idx a p) (displayed a)"
  shows "tells halted cross a (a_rest oid side p q owner stp peak a)"
proof -
  let ?r = "new_order oid side p q owner stp peak" and ?i = "a_idx a p"
  have l: "shows_level side ?i (a_books a side ! ?i) (displayed a)" using o band(2) by (simp add: orderly_def)
  have "oid \<notin> r_id ` set (a_books a side ! ?i) \<and> oid \<notin> elsewhere (displayed a) side ?i"
    using new book_ids_level [of ?i "displayed a" side] band(2) by simp
  then have "d_step (a_min a) halted cross (Rested oid side p (r_qty ?r)) (displayed a) =
      Some (d_set side ?i (show_level (a_books a side ! ?i @ [?r])) (displayed a))"
    using rest_back(1) [OF l, of p "a_min a" ?r halted cross] band(1) new_order_sound [OF q] c by (simp add: a_idx_def)
  moreover have "displayed (a_rest oid side p q owner stp peak a) =
      d_set side ?i (show_level (a_books a side ! ?i @ [?r])) (displayed a)"
    by (rule displayed_level) (simp add: a_rest_def Let_def)
  ultimately show ?thesis by (intro tells_step) (simp_all add: a_rest_def Let_def)
qed

lemma book_ids_subset:
  assumes "erel D e a"
  shows "book_ids (displayed a) \<subseteq> ids a"
  by (fastforce simp: book_ids_def displayed_def ids_def)

lemma place_tells:
  assumes r: "refines e a" and b: "in_band e price" and new: "oid \<notin> ids a" and q: "q \<noteq> 0"
    and u: "a_halted a \<or> uncrossed a"
  shows "tells (a_halted a) False a (a_place oid side price q tif owner stp peak a)"
proof -
  note e = refinesD(1) [OF r] and l = band_index(1) [OF b]
  have ix: "a_idx a price = idx e price" "a_min a \<le> price"
    using erelD(1) [OF e] b by (simp_all add: a_idx_def idx_def in_band_def)
  have new': "oid \<notin> book_ids (displayed a)" using new book_ids_subset [OF e] by blast
  have len: "a_idx a price < length (a_books a s)" for s using l ix erel_lengths(1) [OF e] by simp
  show ?thesis
  proof (cases "a_halted a")
    case True
    then show ?thesis
      using rest_tells [OF erel_orderly [OF e] ix(2) len q new', of True] by (simp add: a_place_def)
  next
    case False
    with u have u: "uncrossed a" by blast
    obtain rem a1 where m: "a_match side oid q (a_idx a price) owner stp a = (rem, a1)" by fastforce
    note mt = match_tells(1) [OF e u, where halted = False and ts = side and taker = oid and q = q and
        limit = "a_idx a price" and owner = owner and stp = stp, unfolded m snd_conv]
      match_tells(2,3) [OF e u, where ts = side and taker = oid and q = q and
        limit = "a_idx a price" and owner = owner and stp = stp, unfolded m snd_conv]
    note me = match_end [OF e l m [unfolded ix]]
    have f: "a_idx a1 price = idx e price" "a_min a1 = a_min a" "frame a a1"
      using frame_match [of a side oid q "a_idx a price" owner stp] m ix by (simp_all add: frame_def a_idx_def)
    have new1: "oid \<notin> book_ids (displayed a1)" using mt(3) new' by blast
    have len1: "length (a_books a1 s) = length (a_books a s)" for s
      by (rule tells_lengths [OF mt(1)])
    have rest: "tells False False a1 (a_rest oid side price rem owner stp peak a1)" if "rem \<noteq> 0" "\<not> a_stp_halt a1"
    proof -
      have "clear_of side (idx e price) (displayed a1)"
        using me(2) that by (auto simp: clear_of_def occ_def show_level_def)
      then show ?thesis using rest_tells [OF mt(2) _ _ that(1) new1, of price side False] f ix(2) len [of side] len1 ix(1) by simp
    qed
    have kill: "tells False False a1 (a_emit (Cancelled oid) (a1\<lparr>a_stp_halt := False\<rparr>))"
      "tells False False a1 (a1\<lparr>a_stp_halt := False\<rparr>)" "tells False False a1 (a_emit (Cancelled oid) a1)"
      using tells_trans [OF tells_same tells_kill, of "a1\<lparr>a_stp_halt := False\<rparr>" a1] tells_kill [of oid a1] new1
      by (auto intro: tells_same)
    from m False mt(1) rest kill show ?thesis
      by (auto simp: a_place_def Let_def word_gt_0 intro: tells_trans)
  qed
qed

section \<open>Stops\<close>

lemma execute_tells:
  assumes r: "refines e a" and b: "\<not> mkt \<Longrightarrow> in_band e limit" and new: "oid \<notin> ids a" and q: "q \<noteq> 0" and c: "continuous a"
  shows "tells False False a (a_execute oid side limit q mkt owner stp a)"
proof (cases mkt)
  case True
  have u: "uncrossed a" using c by (simp add: continuous_def)
  have "tells False False x (x\<lparr>a_stp_halt := False\<rparr>)" for x by (rule tells_same) simp_all
  from tells_trans [OF match_tells(1) [OF refinesD(1) [OF r] u] this]
  have "tells False False a ((snd (a_match side oid q l owner stp a))\<lparr>a_stp_halt := False\<rparr>)" for l .
  then show ?thesis using True unfolding a_execute_def a_match_market_def by simp
next
  case False
  then show ?thesis using place_tells [OF r b new q, of side GTC owner stp 0] c by (simp add: a_execute_def continuous_def)
qed

lemma fire_tells:
  assumes rf: "refines e a" and c: "continuous a" and si: "a_next_stop a = Some (s, i)"
  shows "tells False False a (a_fire s i a)"
proof -
  let ?b = "a_stop_level s i (tl (a_stops a s ! i)) a"
  have b: "continuous ?b" "tells False False a ?b" using c by (auto intro: tells_same)
  show ?thesis
    by (rule armed_taken [OF rf si refl refl])
       (auto simp: a_fire_def Let_def intro!: tells_trans [OF b(2)] execute_tells b(1))
qed

lemma pump_tells: "refines e a \<Longrightarrow> continuous a \<Longrightarrow> tells False False a (a_pump a)"
proof (induction a arbitrary: e rule: a_pump.induct)
  case (1 a)
  show ?case
  proof (cases "a_next_stop a")
    case None
    then show ?thesis by (simp add: pump_none tells_same)
  next
    case (Some si)
    obtain s i where si: "a_next_stop a = Some (s, i)" using Some by (cases si) auto
    obtain e' where e': "refines e' (a_fire s i a)" using fire_sim [OF 1(2) si] by blast
    have "a_pump a = a_pump (a_fire s i a)" by (subst a_pump.simps) (simp add: si)
    with tells_trans [OF fire_tells [OF 1(2,3) si] 1(1) [OF si refl e' fire_uncrossed [OF 1(2,3) si]]]
    show ?thesis by simp
  qed
qed

section \<open>Entry\<close>

lemma open_tells:
  assumes "a_fresh a = (oid, a')"
  shows "tells halted cross a (a_emit (Accept oid s p q) a')"
  using assms tells_trans [OF tells_same tells_entry(1), of a' a] by (auto simp: a_fresh_def)

lemma submit_tells:
  assumes r: "refines e a" and b: "in_band e price" and q: "q \<noteq> 0" and u: "a_halted a \<or> uncrossed a"
  shows "tells (a_halted a) False a (snd (a_submit side price q tif owner stp peak a))"
proof -
  obtain e' a' where f: "a_fresh a = (a_next a, a')" "refines e' a'" "a_next a \<notin> ids a'" "a_halted a' = a_halted a"
    "a_min a' = a_min a" "a_n a' = a_n a" "a_books a' = a_books a" using fresh_refines [OF r] by (auto simp: a_fresh_def)
  let ?x = "a_emit (Accept (a_next a) side price q) a'" and ?e = "emit (Accept (a_next a) side price q) e'"
  have x: "refines ?e ?x" "in_band ?e price" "a_next a \<notin> ids ?x" "a_halted ?x = a_halted a" "a_halted ?x \<or> uncrossed ?x"
    using refines_emit [OF f(2)] f b u in_band_sim [OF refinesD(1) [OF r], of price]
      in_band_sim [OF refinesD(1) [OF refines_emit [OF f(2)]], where p = price] uncrossed_books [of ?x a]
    by (simp_all add: a_in_band_def)
  note e = refinesD(1) [OF x(1)]
  have new: "a_next a \<notin> book_ids (displayed ?x)" using book_ids_subset [OF e] x(3) by blast
  have op: "tells (a_halted a) False a z" if "tells (a_halted a) False ?x z" for z
    by (rule tells_trans [OF open_tells [OF f(1)] that])
  have pl: "tells (a_halted a) False a (a_place (a_next a) side price q t owner stp peak ?x)" for t
    using op [OF place_tells [OF x(1-3) q x(5), unfolded x(4)]] .
  then have rs: "tells (a_halted a) False a (a_rest (a_next a) side price q owner stp peak ?x)" if "a_halted a"
    using that x(4) by (simp add: a_place_def)
  have "tells (a_halted a) False a (a_emit (Cancelled (a_next a)) ?x)" by (rule op [OF tells_kill [OF new]])
  with pl rs f(1) x(4) show ?thesis unfolding a_submit_def Let_def by (cases "a_halted a") simp_all
qed

lemma market_tells:
  assumes r: "refines e a" and u: "a_halted a \<or> uncrossed a"
  shows "tells (a_halted a) False a (snd (a_submit_market side q owner stp a))"
proof (cases "a_halted a")
  case True
  then show ?thesis by (simp add: a_submit_market_def tells_entry)
next
  case False
  obtain e' a' where f: "a_fresh a = (a_next a, a')" "refines e' a'" "a_books a' = a_books a" "a_halted a' = a_halted a"
    using fresh_refines [OF r] by (auto simp: a_fresh_def)
  let ?x = "a_emit (Accept (a_next a) side 0 q) a'"
  have "erel clean (emit (Accept (a_next a) side 0 q) e') ?x" "uncrossed ?x"
    using refinesD(1) [OF refines_emit [OF f(2)]] u False f(3) uncrossed_books [of ?x a] by simp_all
  note m = match_tells(1) [OF this]
  have s: "tells False False x (x\<lparr>a_stp_halt := False\<rparr>)" for x by (rule tells_same) simp_all
  show ?thesis
    using tells_trans [OF open_tells [OF f(1)] tells_trans [OF m s]] False f(1,4)
    by (simp add: a_submit_market_def a_match_market_def Let_def case_prod_beta)
qed

lemma stop_tells:
  assumes r: "refines e a" and u: "a_halted a \<or> uncrossed a"
  shows "tells (a_halted a) False a (snd (a_submit_stop s p l q m ow stp a))"
proof (cases "\<not> a_in_band a p \<or> q = 0 \<or> (\<not> m \<and> \<not> a_in_band a l)")
  case True
  then show ?thesis by (auto simp: a_submit_stop_def tells_entry)
next
  case False
  obtain e' a' where f: "a_fresh a = (a_next a, a')" "refines e' a'" "a_next a \<notin> ids a'" "a_halted a' = a_halted a"
    "a_min a' = a_min a" "a_n a' = a_n a" "a_books a' = a_books a" using fresh_refines [OF r] by (auto simp: a_fresh_def)
  let ?x = "a_emit (Accept (a_next a) s p q) a'" and ?e = "emit (Accept (a_next a) s p q) e'"
  have x: "refines ?e ?x" "a_next a \<notin> ids ?x" using refines_emit [OF f(2)] f(3) by simp_all
  have "in_band ?e l" if "\<not> m"
    using that False in_band_sim [OF refinesD(1) [OF x(1)], of l] f(5,6) by (simp add: a_in_band_def)
  moreover have "continuous ?x" if "\<not> a_halted a"
    using that u f(4,7) uncrossed_books [of ?x a] by (simp add: continuous_def)
  ultimately have "tells (a_halted a) False ?x (a_execute (a_next a) s l q m ow stp ?x)" if "\<not> a_halted a"
    using execute_tells [OF x(1) _ x(2)] False that by simp
  moreover have "tells (a_halted a) False ?x (a_rest_stop (a_next a) s p l q m ow stp ?x)"
    by (rule tells_same) (simp_all add: a_rest_stop_def Let_def)
  ultimately show ?thesis
    using tells_trans [OF open_tells [OF f(1)]] False f(1,4) by (auto simp: a_submit_stop_def Let_def)
qed

section \<open>Cancels and amendments\<close>

lemma show_others: "show_level (others oid os) = drop_id oid (show_level os)"
  by (induction os) (auto simp: others_def show_level_def drop_id_def)

lemma remove_displayed:
  "refines e a \<Longrightarrow> a_find oid a = Some r \<Longrightarrow> displayed (a_remove r a) = d_drop oid (displayed a)"
  by (rule ext) (simp add: displayed_def remove_books show_others d_drop_def)

lemma cancel_tells:
  assumes "refines e a"
  shows "tells halted cross a (snd (a_cancel oid a))"
proof (cases "a_find oid a")
  case None
  then show ?thesis by (simp add: a_cancel_def tells_same)
next
  case (Some r)
  then show ?thesis
    using remove_displayed [OF assms Some] by (intro tells_step [of _ _ "Cancelled oid"]) (simp_all add: a_cancel_def d_step_def)
qed

lemma found_home:
  assumes r: "refines e a" and f: "a_find oid a = Some r" and k: "\<not> r_stop r"
  shows "r \<in> set (a_books a (r_side r) ! a_idx a (r_price r))" "a_idx a (r_price r) < length (a_books a s)" "r_id r = oid"
proof -
  note e = refinesD(1) [OF r] and l = live_level [OF r f]
  have v: "view (e_store e) oid = Some r" using f find_sim [OF e] by simp
  have "home (a_books a) (a_stops a) (e_min e) (e_n e) r" using erelD(9) [OF e] v unfolding covered_def by blast
  then obtain i where "i < e_n e" "r_price r = e_min e + int i" "r \<in> set (a_books a (r_side r) ! i)"
    using k by (auto simp: home_def)
  then show "r \<in> set (a_books a (r_side r) ! a_idx a (r_price r))" using erelD(1) [OF e] by (simp add: a_idx_def)
  show "a_idx a (r_price r) < length (a_books a s)" using l(2) erel_lengths(1) [OF e] by simp
  show "r_id r = oid" by (rule l(1))
qed

lemma take_replaced:
  assumes "distinct (map r_id os)" "r \<in> set os" "r_id r' = r_id r" "r_qty r' = r_qty r - x" "x < r_qty r"
  shows "take_from (r_id r) x (show_level os) = show_level (map (\<lambda>y. if r_id y = r_id r then r' else y) os)"
  using assms
proof (induction os)
  case (Cons y os)
  have same: "take_from (r_id r) x (show_level os) = show_level (map (\<lambda>y. if r_id y = r_id r then r' else y) os)"
    if "r_id r \<notin> r_id ` set os"
  proof -
    have "map (\<lambda>y. if r_id y = r_id r then r' else y) os = os" using that by (intro map_idI) (metis image_eqI)
    then show ?thesis using that by (simp add: take_from_other)
  qed
  show ?case
  proof (cases "y = r")
    case True
    then show ?thesis using Cons.prems same by simp
  next
    case False
    then have "r \<in> set os" "r_id y \<noteq> r_id r" using Cons.prems(1,2) by (auto simp: rev_image_eqI)
    then show ?thesis using Cons by simp
  qed
qed simp

lemma replace_displayed:
  assumes r: "refines e a" "a_find oid a = Some r" "\<not> r_stop r" and r': "r_id r' = oid" "r_qty r' = r_qty r - x" "x < r_qty r"
  shows "displayed (a_replace r r' a) = d_fill oid x (displayed a)"
proof -
  note h = found_home [OF r] and o = erel_orderly [OF refinesD(1) [OF r(1)]]
  let ?i = "a_idx a (r_price r)" and ?s = "r_side r"
  let ?os = "a_books a ?s ! ?i"
  note l = shows_levelD [OF o [unfolded orderly_def, rule_format, OF h(2)]]
  have "oid \<notin> elsewhere (displayed a) ?s ?i" using l(5) [OF h(1)] h(3) by simp
  then have "d_fill oid x (displayed a) = d_set ?s ?i (take_from oid x (show_level ?os)) (displayed a)"
    using d_fill_local [of ?i "displayed a" ?s oid x] h(2) by simp
  also have "take_from oid x (show_level ?os) = show_level (map (\<lambda>y. if r_id y = r_id r then r' else y) ?os)"
    using take_replaced [OF l(3) h(1)] r' h(3) by simp
  also have "d_set ?s ?i \<dots> (displayed a) = displayed (a_replace r r' a)"
    by (rule displayed_level [symmetric]) (simp add: a_replace_def Let_def)
  finally show ?thesis by simp
qed

text \<open>The displayed quantity of an order: 0 if it is a stop or not live.\<close>

definition shown_qty :: "OrderId \<Rightarrow> astate \<Rightarrow> Qty" where
  "shown_qty oid a = (case a_find oid a of None \<Rightarrow> 0 | Some r \<Rightarrow> if r_stop r then 0 else r_qty r)"

lemma order_qty_sim:
  assumes "refines e a"
  shows "order_qty e oid = shown_qty oid a"
proof -
  note e = refinesD(1) [OF assms]
  show ?thesis
  proof (cases "view (e_store e) oid")
    case None
    then have "a_find oid a = None" "lookup (e_store e) oid = None" using find_sim [OF e, of oid] by (simp_all add: view_None)
    then show ?thesis by (simp add: order_qty_def shown_qty_def)
  next
    case (Some r)
    show ?thesis
      by (rule view_node [OF erelD(5) [OF e] Some])
         (use Some find_sim [OF e, of oid] in \<open>simp add: order_qty_def shown_qty_def\<close>)
  qed
qed

text \<open>A silent amendment: no event, and one displayed order smaller or gone.\<close>

definition amended :: "OrderId \<Rightarrow> astate \<Rightarrow> astate \<Rightarrow> bool" where
  "amended oid a b \<longleftrightarrow> a_tape b = a_tape a \<and> a_min b = a_min a \<and> 0 < shown_qty oid a \<and> shown_qty oid b \<le> shown_qty oid a \<and>
     displayed b = (if shown_qty oid b = 0 then d_drop oid (displayed a)
                    else d_fill oid (shown_qty oid a - shown_qty oid b) (displayed a))"

lemma find_member: "refines e a \<Longrightarrow> i < e_n e \<Longrightarrow> x \<in> set (a_books a s ! i) \<Longrightarrow> a_find (r_id x) a = Some x"
  using level_order [OF refinesD(1), of e a i x s] find_sim [OF refinesD(1), of e a "r_id x"] by simp

lemma shave_shown:
  assumes "d < r_qty x + r_reserve x" "resting_ok b s p x"
  shows "0 < r_qty (shave d x)" "r_qty (shave d x) \<le> r_qty x"
proof -
  have sz: "unat (r_qty x) + unat (r_reserve x) < 2 ^ 64" "r_qty x \<noteq> 0" using assms(2) by (auto simp: resting_ok_def)
  note sh = shave_amounts [OF assms(1) sz(1)]
  show "0 < r_qty (shave d x)" by (rule sh(2) [OF sz(2)])
  show "r_qty (shave d x) \<le> r_qty x"
  proof (cases "d < r_reserve x")
    case True
    then show ?thesis by (simp add: shave_def)
  next
    case False
    then have "r_reserve (shave d x) = 0" "unat (r_reserve x) \<le> unat d" by (auto simp: shave_def word_less_nat_alt)
    with sh(1) show ?thesis by (simp add: word_le_nat_alt)
  qed
qed

lemma find_removed:
  assumes "refines e a" "a_find oid a = Some r"
  shows "a_find oid (a_remove r a) = None"
  using remove_books [OF assms] by (auto simp: a_find_def find_None_iff order_list_def others_def)

lemma reduce_amends:
  assumes r: "refines e a" and d: "a_reduce oid delta a = (True, b)"
  shows "amended oid a b"
proof -
  note e = refinesD(1) [OF r]
  obtain x where x: "a_find oid a = Some x" "\<not> r_stop x"
    "b = (if delta \<ge> r_qty x + r_reserve x then a_remove x a else a_replace x (shave delta x) a)"
    using d by (auto simp: a_reduce_def split: option.splits if_splits)
  note h = found_home [OF r x(1,2)]
  have i: "a_idx a (r_price x) < e_n e" using h(2) [of Buy] erel_lengths(1) [OF e] by simp
  have so: "resting_ok False (r_side x) (e_min e + int (a_idx a (r_price x))) x" by (rule level_relD(4) [OF erel_level(2) [OF e i] h(1)])
  then have pos: "0 < r_qty x" by (auto simp: resting_ok_def word_gt_0)
  show ?thesis
  proof (cases "delta \<ge> r_qty x + r_reserve x")
    case True
    then show ?thesis
      using x find_removed [OF r x(1)] remove_displayed [OF r x(1)] pos by (simp add: amended_def shown_qty_def)
  next
    case False
    let ?x' = "shave delta x"
    have b: "b = a_replace x ?x' a" using x(3) False by simp
    have sh: "0 < r_qty ?x'" "r_qty ?x' \<le> r_qty x" using shave_shown [OF _ so, of delta] False by auto
    have "fst (a_reduce oid delta a)" "snd (a_reduce oid delta a) = b" using d by simp_all
    then obtain e' where e': "refines e' b" using simulatesD [OF reduce_sim r, of oid delta] by auto
    have "?x' \<in> set (a_books b (r_side x) ! a_idx b (r_price x))" "a_idx b (r_price x) < e_n e'"
      using h i erelD(2) [OF e] erelD(2) [OF refinesD(1) [OF e']] by (auto simp: b a_replace_def Let_def a_idx_def)
    then have "a_find oid b = Some ?x'" using find_member [OF e'] h(3) by fastforce
    moreover have "displayed b = d_fill oid (r_qty x - r_qty ?x') (displayed a)"
      unfolding b using h(3) sh by (intro replace_displayed [OF r x(1,2)]) (auto simp: word_less_nat_alt word_le_nat_alt unat_sub)
    moreover have "a_tape b = a_tape a" "a_min b = a_min a" by (simp_all add: b a_replace_def Let_def)
    ultimately show ?thesis using x(1,2) sh pos by (auto simp: amended_def shown_qty_def)
  qed
qed

lemma remove_refined:
  assumes r: "refines e a" and f: "a_find oid a = Some x"
  obtains e2 where "refines e2 (a_remove x a)" "oid \<notin> ids (a_remove x a)"
proof -
  have v: "view (e_store e) oid = Some x" using f find_sim [OF refinesD(1) [OF r], of oid] by simp
  moreover then obtain ord where "lookup (e_store e) oid = Some ord" by (auto simp: view_lookup)
  ultimately obtain e2 where "refines e2 (a_remove x a)" using remove_refines [OF r] by blast
  moreover have "oid \<notin> ids (a_remove x a)" using remove_books [OF r f] by (auto simp: ids_def others_def)
  ultimately show ?thesis using that by blast
qed

text \<open>What a modify does: nothing, a silent amendment, or a cancel followed by a fresh entry.\<close>

lemma modify_tells:
  assumes r: "refines e a" and u: "a_halted a \<or> uncrossed a"
  shows "a_modify oid p q a = (False, a) \<or>
    (\<exists>d. a_modify oid p q a = a_reduce oid d a) \<and> fst (a_modify oid p q a) \<and> amended oid a (snd (a_modify oid p q a)) \<or>
    fst (a_modify oid p q a) \<and> tells (a_halted a) False a (snd (a_modify oid p q a)) \<and>
      (\<exists>evs. a_tape (snd (a_modify oid p q a)) = a_tape a @ Cancelled oid # evs)"
proof (cases "a_find oid a")
  case None
  then show ?thesis by (simp add: a_modify_def)
next
  case (Some x)
  let ?b = "a_emit (Accept oid (r_side x) p q) (a_emit (Cancelled oid) (a_remove x a))"
  have red: "a_reduce oid d a = (False, a) \<or> fst (a_reduce oid d a) \<and> amended oid a (snd (a_reduce oid d a))" for d
  proof (cases "a_reduce oid d a")
    case (Pair ok b)
    then show ?thesis using reduce_amends [OF r, of oid d b] by (cases ok) (auto simp: a_reduce_def split: option.splits if_splits)
  qed
  have can: "tells (a_halted a) False a (a_emit (Cancelled oid) (a_remove x a))"
    using cancel_tells [OF r, of "a_halted a" False oid] Some by (simp add: a_cancel_def)
  have pl: "tells (a_halted a) False a (a_place oid (r_side x) p q GTC (r_owner x) (r_stp x) (r_peak x) ?b)"
    if "a_in_band a p" "q \<noteq> 0"
  proof (rule remove_refined [OF r Some])
    fix e2 assume e2: "refines e2 (a_remove x a)" "oid \<notin> ids (a_remove x a)"
    note rb = refines_emit [OF refines_emit [OF e2(1)], of "Accept oid (r_side x) p q" "Cancelled oid"]
    have b: "in_band (emit (Accept oid (r_side x) p q) (emit (Cancelled oid) e2)) p"
      using that in_band_sim [OF refinesD(1) [OF rb], of p] by (simp add: a_in_band_def)
    have ub: "a_halted ?b = a_halted a" "a_halted ?b \<or> uncrossed ?b"
      using u uncrossed_shrink [OF _ remove_shrink, of a x] uncrossed_books [of ?b "a_remove x a"] by auto
    show ?thesis
      using tells_trans [OF tells_trans [OF can tells_entry(1)] place_tells [OF rb b _ that(2) ub(2), of oid, unfolded ub(1)]] e2(2)
      by simp
  qed
  have ev: "\<exists>evs. a_tape (a_place oid s p q t ow st pk ?b) = a_tape a @ Cancelled oid # evs" for s t ow st pk
    using place_grows [of ?b oid s p q t ow st pk] by (auto simp: grows_def a_remove_def Let_def)
  have "a_modify oid p q a = (False, a) \<or> (\<exists>d. a_modify oid p q a = a_reduce oid d a) \<or>
      a_modify oid p q a = (True, a_emit (Cancelled oid) (a_remove x a)) \<or>
      a_in_band a p \<and> q \<noteq> 0 \<and> a_modify oid p q a = (True,
        a_place oid (r_side x) p q GTC (r_owner x) (r_stp x) (r_peak x) ?b)"
    using Some by (auto simp: a_modify_def a_cancel_def Let_def)
  then consider (refused) "a_modify oid p q a = (False, a)" | (amend) d where "a_modify oid p q a = a_reduce oid d a"
    | (cancel) "a_modify oid p q a = (True, a_emit (Cancelled oid) (a_remove x a))"
    | (replace) "a_in_band a p" "q \<noteq> 0" "a_modify oid p q a = (True,
        a_place oid (r_side x) p q GTC (r_owner x) (r_stp x) (r_peak x) ?b)"
    by blast
  then show ?thesis
  proof cases
    case (amend d)
    with red [of d] show ?thesis by auto
  next
    case cancel
    have "a_tape (a_remove x a) = a_tape a" by (simp add: a_remove_def Let_def)
    with cancel can show ?thesis by simp
  next
    case replace
    with pl ev show ?thesis by simp
  qed simp
qed

section \<open>Whole calls\<close>

lemma run_tells:
  assumes r: "refines e (snd (f a))" and t: "tells (a_halted a) False a (snd (f a))" and h: "a_halted (snd (f a)) = a_halted a"
    and c: "\<not> a_halted a \<Longrightarrow> continuous (snd (f a))"
  shows "tells (a_halted a) False a (snd (a_run f a))"
proof (cases "a_pumping (snd (f a)) \<or> a_halted a")
  case True
  then show ?thesis using t h by (simp add: a_run_def case_prod_beta)
next
  case False
  let ?b = "(snd (f a))\<lparr>a_pumping := True\<rparr>"
  have "tells False False ?b (a_pump ?b)" using pump_tells [OF refines_pumping [OF r]] c False by simp
  moreover have "tells False False (snd (f a)) ?b" "tells False False (a_pump ?b) ((a_pump ?b)\<lparr>a_pumping := False\<rparr>)"
    by (auto intro: tells_same)
  ultimately have "tells False False a ((a_pump ?b)\<lparr>a_pumping := False\<rparr>)" using t False by (auto intro: tells_trans)
  then show ?thesis using h False by (simp add: a_run_def case_prod_beta Let_def)
qed

text \<open>Calls that trade only while the engine is not halted, and neither halt nor open it.\<close>

definition steady :: "api \<Rightarrow> bool" where
  "steady c \<longleftrightarrow> c \<noteq> Halt \<and> c \<noteq> Resume \<and> c \<noteq> Uncross"

definition silent :: "api \<Rightarrow> OrderId option" where
  "silent c = (case c of ReduceOrder oid q \<Rightarrow> Some oid | ModifyOrder oid p q \<Rightarrow> Some oid | _ \<Rightarrow> None)"

lemma body_halted: "steady c \<Longrightarrow> a_halted (snd (a_body c a)) = a_halted a"
  using frame_place [unfolded frame_def] frame_execute [unfolded frame_def] frame_match [unfolded frame_def]
  by (cases c) (simp_all add: steady_def a_submit_limit_def a_submit_iceberg_def a_submit_market_def a_submit_stop_def
      a_submit_def a_fresh_def a_match_market_def a_rest_stop_def a_cancel_def a_reduce_def a_modify_def a_replace_def
      Let_def case_prod_beta split: option.splits)

lemma body_tells:
  assumes r: "refines e a" and u: "a_halted a \<or> uncrossed a" and c: "steady c" "silent c = None"
  shows "tells (a_halted a) False a (snd (a_body c a))"
  using c submit_tells [OF r _ _ u] in_band_sim [OF refinesD(1) [OF r]] market_tells [OF r u] stop_tells [OF r u] cancel_tells [OF r]
  by (cases c) (simp_all add: steady_def silent_def a_submit_limit_def a_submit_iceberg_def tells_entry)

lemma halted_continuous: "a_halted a \<or> uncrossed a \<longleftrightarrow> (\<not> a_halted a \<longrightarrow> continuous a)"
  by (auto simp: continuous_def)

text \<open>The events of a call, applied to the displayed book before it, give the displayed book after it.\<close>

lemma call_tells:
  assumes a: "stands_for e a" and u: "a_halted a \<or> uncrossed a" and c: "steady c" "silent c = None"
  shows "tells (a_halted a) False a (snd (a_call c a))"
proof -
  have r: "refines e a" using a by (simp add: stands_for_def)
  obtain e1 where e1: "refines e1 (snd (a_body c a))" using body_forward [OF r] by blast
  show ?thesis
    unfolding a_call_def
    by (rule run_tells [where f = "a_body c", OF e1 body_tells [OF r u c] body_halted [OF c(1)]])
       (use u c(1) body_continuous [OF r] in \<open>auto simp: continuous_def steady_def\<close>)
qed

lemma reduce_arms_none:
  assumes r: "refines e a" and n: "a_next_stop a = None"
  shows "a_next_stop (snd (a_reduce oid d a)) = None"
proof (cases "a_find oid a")
  case None
  with n show ?thesis by (simp add: a_reduce_def)
next
  case (Some x)
  have "a_next_stop (a_replace x y a) = None" for y
    by (rule next_stop_fewer [OF n]) (simp_all add: a_replace_def Let_def)
  moreover have "a_next_stop (a_remove x a) = None"
    by (rule next_stop_fewer [OF n]) (simp_all add: remove_books [OF r Some] occ_others)
  ultimately show ?thesis using Some n by (simp add: a_reduce_def)
qed

lemma reduce_call:
  assumes a: "stands_for e a"
  shows "a_call (ReduceOrder oid d) a = (RBool False, a) \<or>
    (\<exists>b. a_call (ReduceOrder oid d) a = (RBool True, b) \<and> a_reduce oid d a = (True, b) \<and> amended oid a b)"
proof -
  have r: "refines e a" and st: "settled a" using a by (simp_all add: stands_for_def)
  have "a_call (ReduceOrder oid d) a = a_body (ReduceOrder oid d) a"
    by (rule call_is_body [OF st body_halted]) (use reduce_arms_none [OF r] in \<open>simp_all add: steady_def\<close>)
  then show ?thesis
    using reduce_amends [OF r, of oid d] by (cases "a_reduce oid d a") (auto simp: a_reduce_def split: option.splits if_splits)
qed

lemma modify_call:
  assumes a: "stands_for e a" and u: "a_halted a \<or> uncrossed a"
  shows "a_call (ModifyOrder oid p q) a = (RBool False, a) \<or>
    (\<exists>b. a_call (ModifyOrder oid p q) a = (RBool True, b) \<and>
      (amended oid a b \<or> tells (a_halted a) False a b \<and> (\<exists>evs. a_tape b = a_tape a @ Cancelled oid # evs)))"
proof -
  have r: "refines e a" and st: "settled a" using a by (simp_all add: stands_for_def)
  let ?c = "ModifyOrder oid p q"
  consider (refused) "a_modify oid p q a = (False, a)"
    | (amend) d where "a_modify oid p q a = a_reduce oid d a" "fst (a_modify oid p q a)"
    | (told) "fst (a_modify oid p q a)" "tells (a_halted a) False a (snd (a_modify oid p q a))"
      "\<exists>evs. a_tape (snd (a_modify oid p q a)) = a_tape a @ Cancelled oid # evs"
    using modify_tells [OF r u, of oid p q] by blast
  then show ?thesis
  proof cases
    case refused
    then show ?thesis using call_noop [OF st, of ?c] by simp
  next
    case (amend d)
    have "a_call ?c a = a_body ?c a"
      by (rule call_is_body [OF st body_halted]) (use amend reduce_arms_none [OF r] in \<open>simp_all add: steady_def\<close>)
    with amend reduce_amends [OF r, of oid d] show ?thesis by (cases "a_reduce oid d a") auto
  next
    case told
    obtain e1 where e1: "refines e1 (snd (a_body ?c a))" using body_forward [OF r] by blast
    have "tells (a_halted a) False a (snd (a_call ?c a))"
      unfolding a_call_def
      by (rule run_tells [where f = "a_body ?c", OF e1 _ body_halted]) (use told u body_continuous [OF r, of ?c] in \<open>auto simp: continuous_def steady_def\<close>)
    moreover have "grows quiet (snd (a_body ?c a)) (snd (a_call ?c a))" unfolding a_call_def by (rule run_grows)
    moreover have "fst (a_call ?c a) = RBool True" using told(1) by (simp add: a_call_def a_run_def Let_def case_prod_beta)
    ultimately show ?thesis using told(3) by (cases "a_call ?c a") (auto simp: grows_def)
  qed
qed

end
