(* ===== verification/Book_Builder.thy ===== *)
theory Book_Builder
  imports Itch Engine_Properties
begin

text \<open>
  The consumers of an ITCH feed: the multi-symbol venue of \<^verbatim>\<open>include/matchbook/venue.hpp\<close> and the
  two book builders of \<^verbatim>\<open>include/matchbook/itch_book_builder.hpp\<close>, one for a single book and one
  that routes a mixed feed across a venue.
\<close>

section \<open>The venue\<close>

type_synonym SymbolId = "32 word"

definition kInvalidSymbol :: SymbolId where "kInvalidSymbol = 0xFFFFFFFF"

text \<open>One engine per symbol; the handlers are the tapes of the engines.\<close>

record venue =
  v_by_name :: "byte list \<rightharpoonup> SymbolId"
  v_engines :: "engine list"
  v_names :: "byte list list"

definition venue_new :: venue where
  "venue_new = \<lparr>v_by_name = Map.empty, v_engines = [], v_names = []\<rparr>"

definition pad :: "byte list \<Rightarrow> byte list" where
  "pad name = (let s = cstr name in take 8 s @ replicate (8 - length s) (ch CHR '' ''))"

definition find_symbol :: "byte list \<Rightarrow> venue \<Rightarrow> SymbolId" where
  "find_symbol name v = (case v_by_name v (pad name) of None \<Rightarrow> kInvalidSymbol | Some s \<Rightarrow> s)"

definition add_symbol :: "nat \<Rightarrow> byte list \<Rightarrow> Price \<Rightarrow> Price \<Rightarrow> nat \<Rightarrow> venue \<Rightarrow> (SymbolId \<times> venue) option" where
  "add_symbol chunk name lo hi expected v =
     (let key = pad name
      in case v_by_name v key of
           Some s \<Rightarrow> Some (s, v)
         | None \<Rightarrow> do {
             let s = of_nat (length (v_engines v));
             e \<leftarrow> engine_new chunk lo hi expected;
             Some (s, v\<lparr>v_engines := v_engines v @ [e], v_names := v_names v @ [take 8 key @ [0]],
                        v_by_name := (v_by_name v)(key \<mapsto> s)\<rparr>) })"

definition venue_size :: "venue \<Rightarrow> nat" where
  "venue_size v = length (v_engines v)"

definition engine_at :: "venue \<Rightarrow> SymbolId \<Rightarrow> engine option" where
  "engine_at v s = vec_at (v_engines v) (unat s)"

definition symbol_name :: "venue \<Rightarrow> SymbolId \<Rightarrow> byte list option" where
  "symbol_name v s = map_option cstr (vec_at (v_names v) (unat s))"

text \<open>An operation on the engine of one symbol.\<close>

definition at_symbol :: "SymbolId \<Rightarrow> (engine \<Rightarrow> ('r \<times> engine) option) \<Rightarrow> venue \<Rightarrow> ('r \<times> venue) option" where
  "at_symbol s f v = do {
     e \<leftarrow> engine_at v s;
     (r, e') \<leftarrow> f e;
     Some (r, v\<lparr>v_engines := (v_engines v)[unat s := e']\<rparr>) }"

section \<open>The single-book builder\<close>

type_synonym refmap = "64 word \<rightharpoonup> OrderId"

definition apply_add :: "Message \<Rightarrow> refmap \<times> engine \<Rightarrow> (refmap \<times> engine) option" where
  "apply_add m = (\<lambda>(rm, e). do {
     (oid, e') \<leftarrow> submit_limit (m_side m) (m_price m) (m_qty m) GTC 0 CancelTaker e;
     Some (if oid \<noteq> kInvalidOrderId then rm(m_ref m \<mapsto> oid) else rm, e') })"

definition apply_reduce :: "Message \<Rightarrow> refmap \<times> engine \<Rightarrow> (refmap \<times> engine) option" where
  "apply_reduce m = (\<lambda>(rm, e).
     case rm (m_ref m) of
       None \<Rightarrow> Some (rm, e)
     | Some oid \<Rightarrow> do {
         (ok, e') \<leftarrow> reduce oid (m_qty m) e;
         Some (if ok then rm else rm(m_ref m := None), e') })"

definition apply_delete :: "Message \<Rightarrow> refmap \<times> engine \<Rightarrow> (refmap \<times> engine) option" where
  "apply_delete m = (\<lambda>(rm, e).
     case rm (m_ref m) of
       None \<Rightarrow> Some (rm, e)
     | Some oid \<Rightarrow> do { (ok, e') \<leftarrow> cancel oid e; Some (rm(m_ref m := None), e') })"

definition apply_replace :: "Message \<Rightarrow> refmap \<times> engine \<Rightarrow> (refmap \<times> engine) option" where
  "apply_replace m = (\<lambda>(rm, e).
     case rm (m_ref m) of
       None \<Rightarrow> Some (rm, e)
     | Some oid \<Rightarrow> do {
         (ok, e') \<leftarrow> modify oid (m_price m) (m_qty m) e;
         Some (if ok then rm(m_ref m := None, m_new_ref m \<mapsto> oid) else rm, e') })"

definition apply_action :: "Message \<Rightarrow> refmap \<times> engine \<Rightarrow> (refmap \<times> engine) option" where
  "apply_action m = (\<lambda>(rm, e).
     if m_state m = ch CHR ''H'' then do { (u, e') \<leftarrow> halt e; Some (rm, e') }
     else if m_state m = ch CHR ''T'' then do { (u, e') \<leftarrow> resume e; Some (rm, e') }
     else Some (rm, e))"

definition apply_message :: "Message \<Rightarrow> refmap \<times> engine \<Rightarrow> (refmap \<times> engine) option" where
  "apply_message m b =
     (case m_type m of
        Add \<Rightarrow> apply_add m b
      | Execute \<Rightarrow> apply_reduce m b
      | Cancel \<Rightarrow> apply_reduce m b
      | Delete \<Rightarrow> apply_delete m b
      | Replace \<Rightarrow> apply_replace m b
      | Action \<Rightarrow> apply_action m b
      | Other \<Rightarrow> Some b)"

fun apply_messages :: "Message list \<Rightarrow> refmap \<times> engine \<Rightarrow> (refmap \<times> engine) option" where
  "apply_messages [] b = Some b"
| "apply_messages (m # ms) b = do { b1 \<leftarrow> apply_message m b; apply_messages ms b1 }"

section \<open>The venue builder\<close>

record venue_builder =
  vb_refs :: "64 word \<rightharpoonup> SymbolId \<times> OrderId"
  vb_auto_band :: Price
  vb_dropped :: "64 word"

definition venue_builder_new :: "Price \<Rightarrow> venue_builder" where
  "venue_builder_new auto_band = \<lparr>vb_refs = Map.empty, vb_auto_band = auto_band, vb_dropped = 0\<rparr>"

definition kExpectedOrders :: nat where "kExpectedOrders = 65536"

text \<open>The symbol an Add goes to: a known one, or one registered on the spot, or none.\<close>

definition add_target :: "nat \<Rightarrow> Message \<Rightarrow> venue_builder \<Rightarrow> venue \<Rightarrow> (SymbolId option \<times> venue) option" where
  "add_target chunk m b v =
     (let s = find_symbol (m_stock m) v
      in if s \<noteq> kInvalidSymbol then Some (Some s, v)
         else if vb_auto_band b = 0 then Some (None, v)
         else do {
           let lo = (if m_price m > vb_auto_band b then m_price m - vb_auto_band b else 1);
           (s, v1) \<leftarrow> add_symbol chunk (m_stock m) lo (m_price m + vb_auto_band b) kExpectedOrders v;
           Some (Some s, v1) })"

definition venue_add :: "nat \<Rightarrow> Message \<Rightarrow> venue_builder \<times> venue \<Rightarrow> (venue_builder \<times> venue) option" where
  "venue_add chunk m = (\<lambda>(b, v). do {
     (target, v1) \<leftarrow> add_target chunk m b v;
     case target of
       None \<Rightarrow> Some (b\<lparr>vb_dropped := vb_dropped b + 1\<rparr>, v1)
     | Some s \<Rightarrow> do {
         (oid, v2) \<leftarrow> at_symbol s (submit_limit (m_side m) (m_price m) (m_qty m) GTC 0 CancelTaker) v1;
         Some (if oid \<noteq> kInvalidOrderId then b\<lparr>vb_refs := (vb_refs b)(m_ref m \<mapsto> (s, oid))\<rparr>
               else b\<lparr>vb_dropped := vb_dropped b + 1\<rparr>, v2) } })"

definition venue_reduce :: "Message \<Rightarrow> venue_builder \<times> venue \<Rightarrow> (venue_builder \<times> venue) option" where
  "venue_reduce m = (\<lambda>(b, v).
     case vb_refs b (m_ref m) of
       None \<Rightarrow> Some (b, v)
     | Some (s, oid) \<Rightarrow> do {
         (ok, v') \<leftarrow> at_symbol s (reduce oid (m_qty m)) v;
         Some (if ok then b else b\<lparr>vb_refs := (vb_refs b)(m_ref m := None)\<rparr>, v') })"

definition venue_delete :: "Message \<Rightarrow> venue_builder \<times> venue \<Rightarrow> (venue_builder \<times> venue) option" where
  "venue_delete m = (\<lambda>(b, v).
     case vb_refs b (m_ref m) of
       None \<Rightarrow> Some (b, v)
     | Some (s, oid) \<Rightarrow> do {
         (ok, v') \<leftarrow> at_symbol s (cancel oid) v;
         Some (b\<lparr>vb_refs := (vb_refs b)(m_ref m := None)\<rparr>, v') })"

definition venue_replace :: "Message \<Rightarrow> venue_builder \<times> venue \<Rightarrow> (venue_builder \<times> venue) option" where
  "venue_replace m = (\<lambda>(b, v).
     case vb_refs b (m_ref m) of
       None \<Rightarrow> Some (b, v)
     | Some (s, oid) \<Rightarrow> do {
         (ok, v') \<leftarrow> at_symbol s (modify oid (m_price m) (m_qty m)) v;
         Some (if ok then b\<lparr>vb_refs := (vb_refs b)(m_ref m := None, m_new_ref m \<mapsto> (s, oid))\<rparr> else b, v') })"

definition venue_action :: "Message \<Rightarrow> venue_builder \<times> venue \<Rightarrow> (venue_builder \<times> venue) option" where
  "venue_action m = (\<lambda>(b, v).
     let s = find_symbol (m_stock m) v
     in if s = kInvalidSymbol then Some (b, v)
        else if m_state m = ch CHR ''H'' then do { (u, v') \<leftarrow> at_symbol s halt v; Some (b, v') }
        else if m_state m = ch CHR ''T'' then do { (u, v') \<leftarrow> at_symbol s resume v; Some (b, v') }
        else Some (b, v))"

definition venue_message :: "nat \<Rightarrow> Message \<Rightarrow> venue_builder \<times> venue \<Rightarrow> (venue_builder \<times> venue) option" where
  "venue_message chunk m bv =
     (case m_type m of
        Add \<Rightarrow> venue_add chunk m bv
      | Execute \<Rightarrow> venue_reduce m bv
      | Cancel \<Rightarrow> venue_reduce m bv
      | Delete \<Rightarrow> venue_delete m bv
      | Replace \<Rightarrow> venue_replace m bv
      | Action \<Rightarrow> venue_action m bv
      | Other \<Rightarrow> Some bv)"

fun venue_messages :: "nat \<Rightarrow> Message list \<Rightarrow> venue_builder \<times> venue \<Rightarrow> (venue_builder \<times> venue) option" where
  "venue_messages chunk [] bv = Some bv"
| "venue_messages chunk (m # ms) bv = do { bv1 \<leftarrow> venue_message chunk m bv; venue_messages chunk ms bv1 }"

end
