(* ===== verification/Rebuild.thy ===== *)
theory Rebuild
  imports Displayed Book_Builder
begin

text \<open>
  What the book builder does to its engine when it is fed the displayed book of another one:
  its engine holds neither stops nor hidden reserves, an Add that nothing opposes rests at the
  back of its level, an Execute or Cancel takes from one order, a Delete removes one.  The
  lemmas read each call as a step of the displayed book.
\<close>

section \<open>Plain books\<close>

definition plain :: "astate \<Rightarrow> bool" where
  "plain a \<longleftrightarrow> (\<forall>s. (\<forall>os\<in>set (a_stops a s). os = []) \<and> (\<forall>os\<in>set (a_books a s). \<forall>r\<in>set os. r_reserve r = 0))"

lemma plainD:
  assumes "plain a"
  shows "os \<in> set (a_stops a s) \<Longrightarrow> os = []" "i < length (a_stops a s) \<Longrightarrow> a_stops a s ! i = []"
    "os \<in> set (a_books a s) \<Longrightarrow> r \<in> set os \<Longrightarrow> r_reserve r = 0"
    "i < length (a_books a s) \<Longrightarrow> r \<in> set (a_books a s ! i) \<Longrightarrow> r_reserve r = 0"
  using assms nth_mem unfolding plain_def by blast+

lemma plainI:
  "(\<And>s os. os \<in> set (a_stops a s) \<Longrightarrow> os = []) \<Longrightarrow>
   (\<And>s os r. os \<in> set (a_books a s) \<Longrightarrow> r \<in> set os \<Longrightarrow> r_reserve r = 0) \<Longrightarrow> plain a"
  unfolding plain_def by blast

definition rebuilt :: "engine \<Rightarrow> astate \<Rightarrow> bool" where
  "rebuilt e a \<longleftrightarrow> stands_for e a \<and> plain a"

lemma rebuiltD:
  assumes "rebuilt e a"
  shows "stands_for e a" "refines e a" "settled a" "plain a" "erel clean e a"
  using assms by (simp_all add: rebuilt_def stands_for_def refinesD)

lemma plain_next_stop: "plain a \<Longrightarrow> a_next_stop a = None"
  by (auto simp: next_stop_none occ_def plainD)

lemma plain_books: "plain a \<Longrightarrow> a_books b = a_books a \<Longrightarrow> a_stops b = a_stops a \<Longrightarrow> plain b"
  by (simp add: plain_def)

lemma plain_level:
  "plain a \<Longrightarrow> a_books b = (a_books a)(s := (a_books a s)[i := os]) \<Longrightarrow> a_stops b = a_stops a \<Longrightarrow>
   \<forall>r\<in>set os. r_reserve r = 0 \<Longrightarrow> plain b"
  unfolding plain_def by (auto dest!: subsetD [OF set_update_subset_insert])

lemma plain_remove:
  assumes "refines e a" "a_find oid a = Some r" "plain a"
  shows "plain (a_remove r a)"
  by (rule plainI) (auto simp: remove_books [OF assms(1,2)] others_def dest: plainD(1,3) [OF assms(3)])

text \<open>Without stops a call is its body.\<close>

lemma plain_call:
  assumes "settled a" "a_body c a = (r, b)" "a_pumping b = a_pumping a" "plain b"
  shows "a_call c a = (r, b)"
proof -
  have "a_next_stop (b\<lparr>a_pumping := True\<rparr>) = None" "\<not> a_pumping b" using assms plain_next_stop by (simp_all add: settled_def)
  then show ?thesis using assms(2) by (auto simp: a_call_def a_run_def pump_none)
qed

lemma plain_find:
  assumes r: "refines e a" and p: "plain a" and f: "a_find oid a = Some x"
  shows "\<not> r_stop x" "r_reserve x = 0" "r_id x = oid"
proof -
  note e = refinesD(1) [OF r]
  have m: "x \<in> set (order_list a)" "r_id x = oid" using f by (auto simp: a_find_def find_Some_iff)
  have "concat (a_stops a s) = []" for s using plainD(1) [OF p] by auto
  with m(1) have "\<exists>s. x \<in> set (concat (a_books a s))" unfolding order_list_def by (metis UnE append_Nil2 set_append)
  then obtain s where "x \<in> set (concat (a_books a s))" by blast
  then obtain i where i: "i < e_n e" "x \<in> set (a_books a s ! i)"
    using erel_lengths(1) [OF e] by (auto simp: in_set_conv_nth [of _ "a_books a _"])
  show "\<not> r_stop x" by (rule level_order(5) [OF e i])
  have "a_books a s ! i \<in> set (a_books a s)" using i(1) erel_lengths(1) [OF e] by simp
  then show "r_reserve x = 0" using plainD(3) [OF p] i(2) by blast
  show "r_id x = oid" by (rule m(2))
qed

text \<open>An entry of the displayed book is a live order.\<close>

lemma shown_member:
  assumes r: "refines e a" and h: "os \<in> set (displayed a s)" "(oid, q) \<in> set os"
  obtains x where "a_find oid a = Some x" "r_qty x = q" "\<not> r_stop x"
proof -
  note e = refinesD(1) [OF r]
  obtain i x where i: "i < e_n e" "x \<in> set (a_books a s ! i)" "r_id x = oid" "r_qty x = q"
    using h erel_lengths(1) [OF e] by (auto simp: displayed_def show_level_def in_set_conv_nth [of _ "a_books a _"])
  with find_member [OF r i(1,2)] level_order(5) [OF e i(1,2)] that show ?thesis by auto
qed

lemma shown_found: "refines e a \<Longrightarrow> oid \<in> book_ids (displayed a) \<Longrightarrow> \<exists>x. a_find oid a = Some x"
  by (auto simp: book_ids_def level_ids_def elim!: shown_member)

section \<open>Add\<close>

lemma match_empty:
  "(\<forall>i\<in>set is. a_books a (opposite ts) ! i = []) \<Longrightarrow> \<not> a_stp_halt a \<Longrightarrow> a_match_levels ts taker owner stp is q a = (q, a)"
proof (induction "is" arbitrary: q)
  case (Cons i "is")
  have "a_swept (opposite ts) i (False, [], []) a = a"
    using Cons.prems list_update_id [of "a_books a (opposite ts)" i]
    by (cases a) (auto simp: a_swept_def a_level_def fun_upd_idem_iff)
  then show ?case using Cons by simp
qed simp

lemma place_clear:
  assumes e: "erel clean e a" and q: "q \<noteq> 0" and c: "a_halted a \<or> clear_of s (a_idx a p) (displayed a)"
    and h: "\<not> a_stp_halt a"
  shows "a_place oid s p q GTC owner stp peak a = a_rest oid s p q owner stp peak a"
proof (cases "a_halted a")
  case False
  have len: "length (a_books a t) = a_n a" for t using erel_lengths(1) [OF e] erelD(2) [OF e] by simp
  have "\<forall>i\<in>set (reach s (a_n a) (a_idx a p)). a_books a (opposite s) ! i = []"
    using c False len by (cases s) (force simp: clear_of_def reach_def within_limit_def show_level_def)+
  then show ?thesis using q h by (simp add: a_place_def a_match_def match_empty False word_gt_0)
qed (simp add: a_place_def)

lemma add_call:
  assumes a: "rebuilt e a" and p: "a_in_band a p" and q: "q \<noteq> 0"
    and c: "a_halted a \<or> clear_of s (a_idx a p) (displayed a)"
  obtains e' b where "submit_limit s p q GTC 0 CancelTaker e = Some (a_next a, e')" "rebuilt e' b"
    "displayed b = d_set s (a_idx a p) (displayed a s ! a_idx a p @ [(a_next a, q)]) (displayed a)"
    "a_min b = a_min a" "a_n b = a_n a" "a_halted b = a_halted a" "a_next a \<noteq> kInvalidOrderId" "a_next a \<notin> book_ids (displayed a)"
proof -
  note R = rebuiltD [OF a]
  obtain e1 a1 where f: "a_fresh a = (a_next a, a1)" "refines e1 a1" "a_next a \<notin> ids a1" "a_next a \<noteq> 0" "a_halted a1 = a_halted a"
    "a_min a1 = a_min a" "a_n a1 = a_n a" "a_books a1 = a_books a" "a_stops a1 = a_stops a" "a_pumping a1 = a_pumping a"
    using fresh_refines [OF R(2)] by (auto simp: a_fresh_def)
  let ?x = "a_emit (Accept (a_next a) s p q) a1" and ?c = "SubmitLimit s p q GTC 0 CancelTaker"
  have x: "erel clean (emit (Accept (a_next a) s p q) e1) ?x" "\<not> a_stp_halt ?x"
    using refinesD [OF refines_emit [OF f(2)]] by simp_all
  have ix: "a_idx ?x p = a_idx a p" using f(6) by (simp add: a_idx_def)
  have "displayed ?x = displayed a" by (rule displayed_cong) (simp add: f(8))
  then have pl: "a_place (a_next a) s p q GTC 0 CancelTaker 0 ?x = a_rest (a_next a) s p q 0 CancelTaker 0 ?x"
    by (intro place_clear [OF x(1) q _ x(2)]) (use c ix f(5) in simp)
  let ?b = "a_rest (a_next a) s p q 0 CancelTaker 0 ?x"
  have body: "a_body ?c a = (RId (a_next a), ?b)"
    using p q f(1) pl by (simp add: a_submit_limit_def a_submit_def Let_def)
  have "a_books ?b = (a_books a)(s := (a_books a s)[a_idx a p := a_books a s ! a_idx a p @
      [new_order (a_next a) s p q 0 CancelTaker 0]])" "a_stops ?b = a_stops a"
    by (simp_all add: a_rest_def Let_def ix f(8,9))
  note b = this
  have i: "a_idx a p < length (a_books a s)"
    using p erel_lengths(1) [OF R(5)] erelD(2,3) [OF R(5)] by (auto simp: a_in_band_def a_idx_def)
  have "\<forall>r\<in>set (a_books a s ! a_idx a p). r_reserve r = 0" using plainD(4) [OF R(4) i] by blast
  then have pb: "plain ?b" by (intro plain_level [OF R(4) b]) (auto simp: new_order_def Let_def)
  have cb: "a_call ?c a = (RId (a_next a), ?b)"
    by (rule plain_call [OF R(3) body _ pb]) (simp add: f(10) a_rest_def Let_def)
  have d: "displayed ?b = d_set s (a_idx a p) (displayed a s ! a_idx a p @ [(a_next a, q)]) (displayed a)"
    using displayed_level [OF b(1)] i by (simp add: new_order_def Let_def)
  obtain r e' where r: "call ?c e = Some (r, e')" using stands_for_runs [OF R(1)] by blast
  note sf = stands_for_call [OF R(1) r, unfolded cb]
  have "submit_limit s p q GTC 0 CancelTaker e = Some (a_next a, e')" using r sf(2) by (auto simp: reply_as_def)
  moreover have "a_next a \<notin> book_ids (displayed a)"
    using f(3) book_ids_subset [OF refinesD(1) [OF f(2)]] displayed_cong [OF f(8)] by auto
  moreover have "a_min ?b = a_min a" "a_n ?b = a_n a" "a_halted ?b = a_halted a"
    by (simp_all add: a_rest_def Let_def f(5-7))
  ultimately show ?thesis using that sf(1) pb d f(4) by (simp add: rebuilt_def kInvalidOrderId_def)
qed

section \<open>Execute, Cancel and Delete\<close>

lemma take_all: "\<forall>(i, x)\<in>set os. i = oid \<longrightarrow> x \<le> q \<Longrightarrow> take_from oid q os = drop_id oid os"
  by (induction os) auto

lemma take_call:
  assumes a: "rebuilt e a" and h: "oid \<in> book_ids (displayed a)"
  obtains e' b where "reduce oid q e = Some (True, e')" "rebuilt e' b" "displayed b = d_fill oid q (displayed a)"
    "a_min b = a_min a" "a_n b = a_n a" "a_halted b = a_halted a"
proof -
  note R = rebuiltD [OF a]
  obtain x where x: "a_find oid a = Some x" using shown_found [OF R(2) h] by blast
  note P = plain_find [OF R(2,4) x]
  define b where "b = (if q \<ge> r_qty x then a_remove x a else a_replace x (shave q x) a)"
  have body: "a_body (ReduceOrder oid q) a = (RBool True, b)" using x P(1,2) by (simp add: a_reduce_def b_def)
  have "plain (a_replace x (shave q x) a)"
    by (rule plain_level [OF R(4), where s = "r_side x" and i = "a_idx a (r_price x)"])
       (use plainD(4) [OF R(4) found_home(2) [OF R(2) x P(1)]] P(2) in \<open>auto simp: a_replace_def Let_def shave_def\<close>)
  then have pb: "plain b" using plain_remove [OF R(2) x R(4)] by (simp add: b_def)
  have cb: "a_call (ReduceOrder oid q) a = (RBool True, b)"
    by (rule plain_call [OF R(3) body _ pb]) (simp add: b_def a_replace_def Let_def)
  have d: "displayed b = d_fill oid q (displayed a)"
  proof (cases "q \<ge> r_qty x")
    case True
    have "y \<le> q" if "os \<in> set (displayed a s)" "(oid, y) \<in> set os" for s os y
      using shown_member [OF R(2) that] x True by auto
    then have "take_from oid q os = drop_id oid os" if "os \<in> set (displayed a s)" for s os
      using that by (intro take_all) auto
    then have "d_fill oid q (displayed a) = d_drop oid (displayed a)" by (auto simp: d_fill_def d_drop_def)
    with True remove_displayed [OF R(2) x] show ?thesis by (simp add: b_def)
  next
    case False
    then have "shave q x = x\<lparr>r_qty := r_qty x - q\<rparr>" using P(2) by (simp add: shave_def)
    then show ?thesis using False P replace_displayed [OF R(2) x P(1), of "shave q x" q] by (auto simp: b_def)
  qed
  obtain r e' where r: "call (ReduceOrder oid q) e = Some (r, e')" using stands_for_runs [OF R(1)] by blast
  note sf = stands_for_call [OF R(1) r, unfolded cb]
  have "reduce oid q e = Some (True, e')" using r sf(2) by (auto simp: reply_as_def)
  moreover have "a_min b = a_min a" "a_n b = a_n a" "a_halted b = a_halted a"
    by (simp_all add: b_def a_replace_def a_remove_def Let_def)
  ultimately show ?thesis using that sf(1) d pb by (simp add: rebuilt_def)
qed

lemma drop_call:
  assumes a: "rebuilt e a" and h: "oid \<in> book_ids (displayed a)"
  obtains e' b where "cancel oid e = Some (True, e')" "rebuilt e' b" "displayed b = d_drop oid (displayed a)"
    "a_min b = a_min a" "a_n b = a_n a" "a_halted b = a_halted a"
proof -
  note R = rebuiltD [OF a]
  obtain x where x: "a_find oid a = Some x" using shown_found [OF R(2) h] by blast
  let ?b = "a_emit (Cancelled oid) (a_remove x a)"
  obtain r e' where r: "call (CancelOrder oid) e = Some (r, e')" using stands_for_runs [OF R(1)] by blast
  note sf = stands_for_call [OF R(1) r, unfolded cancel_call [OF R(1) x]]
  have "cancel oid e = Some (True, e')" using r sf(2) by (auto simp: reply_as_def)
  moreover have "displayed ?b = d_drop oid (displayed a)" using remove_displayed [OF R(2) x] by simp
  moreover have "plain ?b" using plain_remove [OF R(2) x R(4)] by (rule plain_books) simp_all
  ultimately show ?thesis using that sf(1) by (simp add: rebuilt_def a_remove_def Let_def)
qed

section \<open>Trading actions\<close>

lemma state_call:
  assumes a: "rebuilt e a" and c: "a_body c a = (RVoid, a\<lparr>a_halted := h\<rparr>)"
  obtains e' where "call c e = Some (RVoid, e')" "rebuilt e' (a\<lparr>a_halted := h\<rparr>)"
proof -
  note R = rebuiltD [OF a]
  have p: "plain (a\<lparr>a_halted := h\<rparr>)" using R(4) by (rule plain_books) simp_all
  have cb: "a_call c a = (RVoid, a\<lparr>a_halted := h\<rparr>)"
    by (rule plain_call [OF R(3) c _ p]) simp
  obtain r e' where r: "call c e = Some (r, e')" using stands_for_runs [OF R(1)] by blast
  note sf = stands_for_call [OF R(1) r, unfolded cb]
  with that r p show ?thesis by (simp add: rebuilt_def)
qed

lemma rebuilt_new:
  assumes "0 < chunk" "band_ok lo hi" "engine_new chunk lo hi expected = Some e"
  shows "rebuilt e (astate_new lo hi)"
  using stands_for_new [OF assms] by (simp add: rebuilt_def plain_def astate_new_def Let_def)

end
