(* ===== verification/Publisher.thy ===== *)
theory Publisher
  imports Itch Handler
begin

text \<open>
  The market data publisher of \<^verbatim>\<open>include/matchbook/itch_publisher.hpp\<close>: it wraps one engine and
  turns the engine's events into ITCH messages that describe the displayed book.
\<close>

section \<open>State\<close>

record ref_slot =
  s_ref :: "64 word"
  s_displayed :: Qty

definition no_ref :: ref_slot where
  "no_ref = \<lparr>s_ref = 0, s_displayed = 0\<rparr>"

record publisher =
  pb_engine :: engine
  pb_stock :: "byte list"
  pb_refs :: "ref_slot list"
  pb_out :: "byte list list"
  pb_next_ref :: "64 word"
  pb_seq :: "64 word"
  pb_match :: "64 word"
  pb_in_cross :: bool
  pb_saw_book_event :: bool

text \<open>The stock symbol is padded with blanks, or cut, to eight bytes.\<close>

definition pad_stock :: "byte list \<Rightarrow> byte list" where
  "pad_stock name = (let s = cstr name in take 8 s @ replicate (8 - length s) (ch CHR '' ''))"

definition publisher_new :: "nat \<Rightarrow> Price \<Rightarrow> Price \<Rightarrow> byte list \<Rightarrow> nat \<Rightarrow> publisher option" where
  "publisher_new chunk lo hi stock expected = do {
     e \<leftarrow> engine_new chunk lo hi expected;
     Some \<lparr>pb_engine = e, pb_stock = pad_stock stock, pb_refs = [no_ref], pb_out = [], pb_next_ref = 1, pb_seq = 1,
           pb_match = 0, pb_in_cross = False, pb_saw_book_event = False\<rparr> }"

section \<open>Engine events to messages\<close>

text \<open>The displayed state of an order, if it is displayed.\<close>

definition slot :: "publisher \<Rightarrow> OrderId \<Rightarrow> ref_slot option" where
  "slot p oid = (if oid < length (pb_refs p) \<and> s_ref (pb_refs p ! oid) \<noteq> 0 then Some (pb_refs p ! oid) else None)"

definition set_slot :: "OrderId \<Rightarrow> ref_slot \<Rightarrow> publisher \<Rightarrow> publisher" where
  "set_slot oid r p = p\<lparr>pb_refs := (pb_refs p)[oid := r]\<rparr>"

definition publish :: "byte list \<Rightarrow> publisher \<Rightarrow> publisher" where
  "publish m p = p\<lparr>pb_out := pb_out p @ [m], pb_seq := pb_seq p + 1\<rparr>"

definition price32 :: "Price \<Rightarrow> 32 word" where
  "price32 px = word_of_int px"

definition side_byte :: "Side \<Rightarrow> byte" where
  "side_byte s = (if s = Buy then ch CHR ''B'' else ch CHR ''S'')"

definition ev_rest :: "OrderId \<Rightarrow> Side \<Rightarrow> Price \<Rightarrow> Qty \<Rightarrow> publisher \<Rightarrow> publisher" where
  "ev_rest oid s px displayed p =
     (let refs = (if length (pb_refs p) \<le> oid then pb_refs p @ replicate (oid + 1 - length (pb_refs p)) no_ref else pb_refs p);
          r = pb_next_ref p;
          p1 = p\<lparr>pb_saw_book_event := True, pb_refs := refs[oid := \<lparr>s_ref = r, s_displayed = displayed\<rparr>],
                 pb_next_ref := pb_next_ref p + 1\<rparr>
      in publish (encode_add [] (pb_seq p) r (side_byte s) (ucast displayed) (pb_stock p) (price32 px)) p1)"

text \<open>An order's displayed quantity after a fill; at zero its reference is dead.\<close>

definition shown_less :: "Qty \<Rightarrow> ref_slot \<Rightarrow> ref_slot" where
  "shown_less q r =
     (let d = s_displayed r - (if q < s_displayed r then q else s_displayed r)
      in r\<lparr>s_displayed := d, s_ref := (if d = 0 then 0 else s_ref r)\<rparr>)"

definition exec_cross :: "OrderId \<Rightarrow> Qty \<Rightarrow> Price \<Rightarrow> publisher \<Rightarrow> publisher" where
  "exec_cross oid fill px p =
     (case slot p oid of
        None \<Rightarrow> p
      | Some r \<Rightarrow>
          let part = (if fill < s_displayed r then fill else s_displayed r)
          in if part = 0 then p
             else let match = pb_match p + 1
                  in set_slot oid (shown_less part r)
                       (publish (encode_execute_px [] (pb_seq p) (s_ref r) (ucast part) match (price32 px) True)
                         (p\<lparr>pb_match := match\<rparr>)))"

definition pub_trade :: "Trade \<Rightarrow> publisher \<Rightarrow> publisher" where
  "pub_trade t p =
     (if pb_in_cross p
      then exec_cross (t_maker t) (t_qty t) (t_price t) (exec_cross (t_taker t) (t_qty t) (t_price t) p)
      else case slot p (t_maker t) of
             None \<Rightarrow> p
           | Some r \<Rightarrow>
               let match = pb_match p + 1
               in set_slot (t_maker t) (shown_less (t_qty t) r)
                    (publish (encode_execute [] (pb_seq p) (s_ref r) (ucast (t_qty t)) match) (p\<lparr>pb_match := match\<rparr>)))"

definition pub_cancel :: "OrderId \<Rightarrow> publisher \<Rightarrow> publisher" where
  "pub_cancel oid p0 =
     (let p = p0\<lparr>pb_saw_book_event := True\<rparr>
      in case slot p oid of
           None \<Rightarrow> p
         | Some r \<Rightarrow> set_slot oid no_ref (publish (encode_delete [] (pb_seq p) (s_ref r)) p))"

definition pub_event :: "event \<Rightarrow> publisher \<Rightarrow> publisher" where
  "pub_event ev p =
     (case ev of
        Accept oid s px q \<Rightarrow> p
      | Traded t \<Rightarrow> pub_trade t p
      | Cancelled oid \<Rightarrow> pub_cancel oid p
      | Rejected oid \<Rightarrow> p
      | Rested oid s px q \<Rightarrow> ev_rest oid s px q p)"

lemma set_slot_fields [simp]:
  "pb_engine (set_slot oid r p) = pb_engine p" "pb_stock (set_slot oid r p) = pb_stock p"
  "pb_refs (set_slot oid r p) = (pb_refs p)[oid := r]" "pb_out (set_slot oid r p) = pb_out p"
  "pb_next_ref (set_slot oid r p) = pb_next_ref p" "pb_seq (set_slot oid r p) = pb_seq p"
  "pb_match (set_slot oid r p) = pb_match p" "pb_in_cross (set_slot oid r p) = pb_in_cross p"
  "pb_saw_book_event (set_slot oid r p) = pb_saw_book_event p"
  by (simp_all add: set_slot_def)

lemma publish_fields [simp]:
  "pb_engine (publish m p) = pb_engine p" "pb_stock (publish m p) = pb_stock p" "pb_refs (publish m p) = pb_refs p"
  "pb_out (publish m p) = pb_out p @ [m]" "pb_next_ref (publish m p) = pb_next_ref p"
  "pb_seq (publish m p) = pb_seq p + 1" "pb_match (publish m p) = pb_match p"
  "pb_in_cross (publish m p) = pb_in_cross p" "pb_saw_book_event (publish m p) = pb_saw_book_event p"
  by (simp_all add: publish_def)

lemma exec_cross_engine [simp]: "pb_engine (exec_cross oid f px p) = pb_engine p"
  by (simp add: exec_cross_def Let_def split: option.split)

interpretation pub: handler pb_engine "\<lambda>e p. p\<lparr>pb_engine := e\<rparr>" pub_event
  by unfold_locales
    (auto simp: pub_event_def pub_trade_def pub_cancel_def ev_rest_def Let_def split: event.splits option.splits)

definition pub_call :: "(engine \<Rightarrow> ('r \<times> engine) option) \<Rightarrow> publisher \<Rightarrow> ('r \<times> publisher) option" where
  "pub_call = handled pb_engine (\<lambda>e p. p\<lparr>pb_engine := e\<rparr>) pub_event"

section \<open>Operations\<close>

definition pub_submit_limit :: "Side \<Rightarrow> Price \<Rightarrow> Qty \<Rightarrow> TimeInForce \<Rightarrow> OwnerId \<Rightarrow> StpPolicy \<Rightarrow>
    publisher \<Rightarrow> (OrderId \<times> publisher) option" where
  "pub_submit_limit side px qty tif owner stp = pub_call (submit_limit side px qty tif owner stp)"

definition pub_submit_market :: "Side \<Rightarrow> Qty \<Rightarrow> OwnerId \<Rightarrow> StpPolicy \<Rightarrow> publisher \<Rightarrow> (Qty \<times> publisher) option" where
  "pub_submit_market side qty owner stp = pub_call (submit_market side qty owner stp)"

definition pub_submit_iceberg :: "Side \<Rightarrow> Price \<Rightarrow> Qty \<Rightarrow> Qty \<Rightarrow> TimeInForce \<Rightarrow> OwnerId \<Rightarrow> StpPolicy \<Rightarrow>
    publisher \<Rightarrow> (OrderId \<times> publisher) option" where
  "pub_submit_iceberg side px total_qty display tif owner stp =
     pub_call (submit_iceberg side px total_qty display tif owner stp)"

definition pub_submit_stop :: "Side \<Rightarrow> Price \<Rightarrow> Qty \<Rightarrow> OwnerId \<Rightarrow> StpPolicy \<Rightarrow> publisher \<Rightarrow> (OrderId \<times> publisher) option" where
  "pub_submit_stop side stop_px qty owner stp = pub_call (submit_stop side stop_px qty owner stp)"

definition pub_submit_stop_limit :: "Side \<Rightarrow> Price \<Rightarrow> Price \<Rightarrow> Qty \<Rightarrow> OwnerId \<Rightarrow> StpPolicy \<Rightarrow>
    publisher \<Rightarrow> (OrderId \<times> publisher) option" where
  "pub_submit_stop_limit side stop_px limit_px qty owner stp = pub_call (submit_stop_limit side stop_px limit_px qty owner stp)"

definition pub_cancel_order :: "OrderId \<Rightarrow> publisher \<Rightarrow> (bool \<times> publisher) option" where
  "pub_cancel_order oid = pub_call (cancel oid)"

definition publish_shrink :: "OrderId \<Rightarrow> Qty \<Rightarrow> publisher \<Rightarrow> publisher" where
  "publish_shrink oid before_qty p =
     (case slot p oid of
        None \<Rightarrow> p
      | Some r \<Rightarrow>
          let after = order_qty (pb_engine p) oid
          in if after = 0 then set_slot oid no_ref (publish (encode_delete [] (pb_seq p) (s_ref r)) p)
             else if after < before_qty
             then set_slot oid (r\<lparr>s_displayed := after\<rparr>)
                    (publish (encode_cancel [] (pb_seq p) (s_ref r) (ucast (before_qty - after))) p)
             else p)"

definition pub_modify :: "OrderId \<Rightarrow> Price \<Rightarrow> Qty \<Rightarrow> publisher \<Rightarrow> (bool \<times> publisher) option" where
  "pub_modify oid new_px new_qty p = do {
     let before_qty = order_qty (pb_engine p) oid;
     (ok, p1) \<leftarrow> pub_call (modify oid new_px new_qty) (p\<lparr>pb_saw_book_event := False\<rparr>);
     Some (ok, if ok \<and> \<not> pb_saw_book_event p1 \<and> 0 < before_qty then publish_shrink oid before_qty p1 else p1) }"

definition pub_reduce :: "OrderId \<Rightarrow> Qty \<Rightarrow> publisher \<Rightarrow> (bool \<times> publisher) option" where
  "pub_reduce oid delta p = do {
     let before_qty = order_qty (pb_engine p) oid;
     (ok, p1) \<leftarrow> pub_call (reduce oid delta) p;
     Some (ok, if ok \<and> 0 < before_qty then publish_shrink oid before_qty p1 else p1) }"

definition emit_action :: "char \<Rightarrow> publisher \<Rightarrow> publisher" where
  "emit_action c p = publish (encode_action [] (pb_seq p) (pb_stock p) (ch c)) p"

definition pub_halt :: "publisher \<Rightarrow> (unit \<times> publisher) option" where
  "pub_halt p = pub_call halt (emit_action CHR ''H'' p)"

definition pub_resume :: "publisher \<Rightarrow> (unit \<times> publisher) option" where
  "pub_resume p = pub_call resume (emit_action CHR ''T'' p)"

definition pub_uncross :: "publisher \<Rightarrow> (Qty \<times> publisher) option" where
  "pub_uncross p = do {
     (total, p1) \<leftarrow> pub_call uncross (p\<lparr>pb_in_cross := True\<rparr>);
     let p2 = p1\<lparr>pb_in_cross := False\<rparr>;
     Some (total,
       if 0 < total
       then publish (encode_cross [] (pb_seq p2) total (pb_stock p2) (price32 (e_last_px (pb_engine p2))) (pb_match p2 + 1) (ch CHR ''O''))
              (p2\<lparr>pb_match := pb_match p2 + 1\<rparr>)
       else p2) }"

section \<open>Snapshots and the stream\<close>

definition snapshot_adds :: "publisher \<Rightarrow> Side \<Rightarrow> byte list list option" where
  "snapshot_adds p s = do {
     os \<leftarrow> visit_orders (pb_engine p) s;
     fold (\<lambda>(oid, side, px, q) acc. do {
         ms \<leftarrow> acc;
         r \<leftarrow> vec_at (pb_refs p) oid;
         Some (ms @ [encode_add [] 0 (s_ref r) (side_byte side) (ucast q) (pb_stock p) (price32 px)]) }) os (Some []) }"

definition snapshot :: "byte list list \<Rightarrow> publisher \<Rightarrow> (64 word \<times> byte list list) option" where
  "snapshot out p = do {
     let head = (if e_halted (pb_engine p) then [encode_action [] 0 (pb_stock p) (ch CHR ''H'')] else []);
     bids \<leftarrow> snapshot_adds p Buy;
     asks \<leftarrow> snapshot_adds p Sell;
     Some (pb_seq p, out @ head @ bids @ asks) }"

definition take_messages :: "publisher \<Rightarrow> byte list list \<times> publisher" where
  "take_messages p = (pb_out p, p\<lparr>pb_out := []\<rparr>)"

definition append_stream :: "byte list \<Rightarrow> publisher \<Rightarrow> byte list \<times> publisher" where
  "append_stream out p = (fold (\<lambda>m acc. frame_msg acc m) (pb_out p) out, p\<lparr>pb_out := []\<rparr>)"

section \<open>Calls of a publisher\<close>

definition pub_reply :: "('r \<Rightarrow> reply) \<Rightarrow> ('r \<times> publisher) option \<Rightarrow> (reply \<times> publisher) option" where
  "pub_reply f = map_option (map_prod f id)"

fun pub_api :: "api \<Rightarrow> publisher \<Rightarrow> (reply \<times> publisher) option" where
  "pub_api (SubmitLimit s p q tif ow stp) b = pub_reply RId (pub_submit_limit s p q tif ow stp b)"
| "pub_api (SubmitMarket s q ow stp) b = pub_reply RQty (pub_submit_market s q ow stp b)"
| "pub_api (SubmitIceberg s p q d tif ow stp) b = pub_reply RId (pub_submit_iceberg s p q d tif ow stp b)"
| "pub_api (SubmitStop s p q ow stp) b = pub_reply RId (pub_submit_stop s p q ow stp b)"
| "pub_api (SubmitStopLimit s p l q ow stp) b = pub_reply RId (pub_submit_stop_limit s p l q ow stp b)"
| "pub_api (CancelOrder oid) b = pub_reply RBool (pub_cancel_order oid b)"
| "pub_api (ReduceOrder oid q) b = pub_reply RBool (pub_reduce oid q b)"
| "pub_api (ModifyOrder oid p q) b = pub_reply RBool (pub_modify oid p q b)"
| "pub_api Halt b = pub_reply (\<lambda>_. RVoid) (pub_halt b)"
| "pub_api Resume b = pub_reply (\<lambda>_. RVoid) (pub_resume b)"
| "pub_api Uncross b = pub_reply RQty (pub_uncross b)"

end
