(* ===== verification/Feed.thy ===== *)
theory Feed
  imports Rebuild Publisher
begin

text \<open>
  The loop through the wire: what a publisher writes, the parser reads and the book builder
  applies, and the builder's book is the publisher's displayed book, order for order and in
  the same queue positions.  The relation between the two sides is kept by every event.
\<close>

section \<open>Consuming a stream\<close>

text \<open>Each message is parsed; what parses is applied, the rest is skipped.\<close>

fun consume :: "Message \<Rightarrow> byte list list \<Rightarrow> refmap \<times> engine \<Rightarrow> (refmap \<times> engine) option" where
  "consume out [] b = Some b"
| "consume out (m # ms) b = do {
     (ok, msg) \<leftarrow> parse m out;
     b1 \<leftarrow> (if ok then apply_message msg b else Some b);
     consume out ms b1 }"

lemma consume_append:
  "consume out (ms @ ms') b = do { b1 \<leftarrow> consume out ms b; consume out ms' b1 }"
proof (induction ms arbitrary: b)
  case (Cons m ms)
  then show ?case by (cases "parse m out") (auto simp: Let_def split: Option.bind_splits)
qed simp

section \<open>Entries of a displayed book\<close>

definition has :: "dbook \<Rightarrow> OrderId \<Rightarrow> Qty \<Rightarrow> bool" where
  "has d oid q \<longleftrightarrow> (\<exists>s. \<exists>os\<in>set (d s). (oid, q) \<in> set os)"

lemma book_ids_has: "oid \<in> book_ids d \<longleftrightarrow> (\<exists>q. has d oid q)"
  by (force simp: book_ids_def level_ids_def has_def)

lemma mem_take_from:
  "(i, x) \<in> set (take_from oid q os) \<longleftrightarrow>
     (if i = oid then \<exists>y. (oid, y) \<in> set os \<and> q < y \<and> x = y - q else (i, x) \<in> set os)"
  by (induction os) (auto split: if_splits)

lemma has_fill:
  "has (d_fill oid q d) i x \<longleftrightarrow> (if i = oid then \<exists>y. has d oid y \<and> q < y \<and> x = y - q else has d i x)"
  unfolding has_def d_fill_def by (auto simp: mem_take_from)

lemma has_drop: "has (d_drop oid d) i x \<longleftrightarrow> i \<noteq> oid \<and> has d i x"
  unfolding has_def d_drop_def drop_id_def by auto

lemma has_nth: "has d i x \<longleftrightarrow> (\<exists>t j. j < length (d t) \<and> (i, x) \<in> set (d t ! j))"
  unfolding has_def by (metis in_set_conv_nth)

lemma has_back:
  assumes "k < length (d s)"
  shows "has (d_set s k (d s ! k @ [(oid, q)]) d) i x \<longleftrightarrow> (i = oid \<and> x = q) \<or> has d i x"
proof -
  let ?d = "d_set s k (d s ! k @ [(oid, q)]) d"
  have "(i, x) \<in> set (?d t ! j) \<longleftrightarrow> (t, j) = (s, k) \<and> (i, x) = (oid, q) \<or> (i, x) \<in> set (d t ! j)"
    if "j < length (d t)" for t j
    using that assms by (cases "(t, j) = (s, k)") (auto simp: d_set_other)
  then have "has ?d i x \<longleftrightarrow> (\<exists>t j. j < length (d t) \<and> ((t, j) = (s, k) \<and> (i, x) = (oid, q) \<or> (i, x) \<in> set (d t ! j)))"
    unfolding has_nth by (simp cong: conj_cong)
  then show ?thesis using assms unfolding has_nth by auto
qed

lemma book_ids_changes:
  "book_ids (d_fill oid q d) \<subseteq> book_ids d" "book_ids (d_drop oid d) = book_ids d - {oid}"
  "k < length (d s) \<Longrightarrow> book_ids (d_set s k (d s ! k @ [(oid, q)]) d) = insert oid (book_ids d)"
  by (auto simp: book_ids_has has_fill has_drop has_back split: if_splits)

section \<open>Renaming\<close>

definition ren_level :: "(OrderId \<Rightarrow> OrderId) \<Rightarrow> dlevel \<Rightarrow> dlevel" where
  "ren_level \<tau> os = map (\<lambda>(i, x). (\<tau> i, x)) os"

definition ren :: "(OrderId \<Rightarrow> OrderId) \<Rightarrow> dbook \<Rightarrow> dbook" where
  "ren \<tau> d = (\<lambda>s. map (ren_level \<tau>) (d s))"

lemma ren_level_simps [simp]:
  "ren_level \<tau> [] = []" "ren_level \<tau> ((i, x) # os) = (\<tau> i, x) # ren_level \<tau> os"
  "ren_level \<tau> (os @ os') = ren_level \<tau> os @ ren_level \<tau> os'" "level_ids (ren_level \<tau> os) = \<tau> ` level_ids os"
  "ren_level \<tau> os = [] \<longleftrightarrow> os = []"
  by (force simp: ren_level_def level_ids_def)+

lemma ren_lengths [simp]: "length (ren \<tau> d s) = length (d s)"
  by (simp add: ren_def)

lemma ren_nth [simp]: "i < length (d s) \<Longrightarrow> ren \<tau> d s ! i = ren_level \<tau> (d s ! i)"
  by (simp add: ren_def)

lemma book_ids_ren: "book_ids (ren \<tau> d) = \<tau> ` book_ids d"
  by (auto simp: book_ids_def ren_def)

lemma take_ren:
  "\<forall>i\<in>level_ids os. \<tau> i = \<tau> oid \<longleftrightarrow> i = oid \<Longrightarrow> ren_level \<tau> (take_from oid q os) = take_from (\<tau> oid) q (ren_level \<tau> os)"
  by (induction os) auto

lemma drop_ren:
  "\<forall>i\<in>level_ids os. \<tau> i = \<tau> oid \<longleftrightarrow> i = oid \<Longrightarrow> ren_level \<tau> (drop_id oid os) = drop_id (\<tau> oid) (ren_level \<tau> os)"
  by (induction os) auto

lemma ren_ops:
  assumes "inj_on \<tau> (book_ids d)" "oid \<in> book_ids d"
  shows "ren \<tau> (d_fill oid q d) = d_fill (\<tau> oid) q (ren \<tau> d)" "ren \<tau> (d_drop oid d) = d_drop (\<tau> oid) (ren \<tau> d)"
proof -
  have "\<forall>i\<in>level_ids os. \<tau> i = \<tau> oid \<longleftrightarrow> i = oid" if "os \<in> set (d s)" for s os
    using that assms inj_onD [OF assms(1)] by (fastforce simp: book_ids_def)
  then show "ren \<tau> (d_fill oid q d) = d_fill (\<tau> oid) q (ren \<tau> d)" "ren \<tau> (d_drop oid d) = d_drop (\<tau> oid) (ren \<tau> d)"
    by (auto simp: ren_def d_fill_def d_drop_def take_ren drop_ren)
qed

lemma ren_level_cong: "\<forall>i\<in>level_ids os. \<sigma> i = \<tau> i \<Longrightarrow> ren_level \<sigma> os = ren_level \<tau> os"
  by (induction os) auto

lemma ren_back:
  assumes "k < length (d s)" "oid \<notin> book_ids d"
  shows "ren (\<tau>(oid := i)) (d_set s k (d s ! k @ [(oid, q)]) d) = d_set s k (ren \<tau> d s ! k @ [(i, q)]) (ren \<tau> d)"
proof -
  have old: "ren_level (\<tau>(oid := i)) os = ren_level \<tau> os" if "os \<in> set (d t)" for t os
    using that assms(2) by (intro ren_level_cong) (auto simp: book_ids_def)
  then have "ren (\<tau>(oid := i)) d = ren \<tau> d" by (auto simp: ren_def)
  moreover have "ren \<sigma> (d_set s k os d) = d_set s k (ren_level \<sigma> os) (ren \<sigma> d)" for \<sigma> os
    by (auto simp: ren_def d_set_def map_update)
  ultimately show ?thesis using assms(1) old [of "d s ! k" s] by simp
qed

lemma clear_of_ren: "clear_of s i (ren \<tau> d) = clear_of s i d"
  by (simp add: clear_of_def)

section \<open>The slots of a publisher\<close>

lemma slot_Some: "slot p oid = Some r \<longleftrightarrow> oid < length (pb_refs p) \<and> r = pb_refs p ! oid \<and> s_ref r \<noteq> 0"
  by (auto simp: slot_def)

lemma slot_cong: "pb_refs p' = pb_refs p \<Longrightarrow> slot p' oid = slot p oid"
  by (simp add: slot_def)

lemma slot_update:
  "pb_refs p' = (pb_refs p)[oid := r] \<Longrightarrow> oid < length (pb_refs p) \<Longrightarrow>
   slot p' i = (if i = oid then if s_ref r = 0 then None else Some r else slot p i)"
  by (auto simp: slot_def)

lemma shown_less_fields:
  "s_displayed (shown_less x r) = (if x < s_displayed r then s_displayed r - x else 0)"
  "s_ref r \<noteq> 0 \<Longrightarrow> s_ref (shown_less x r) = (if x < s_displayed r then s_ref r else 0)"
  by (auto simp: shown_less_def Let_def)

section \<open>The two sides\<close>

text \<open>
  A publisher with displayed book \<open>d\<close> and a builder: the slots hold exactly the displayed
  orders, under references that are live, distinct and older than the next one; the builder's
  book is the same up to the names of the orders, and its map leads from each reference to
  the builder's name.
\<close>

definition shown_ok :: "Qty \<Rightarrow> bool" where
  "shown_ok q \<longleftrightarrow> q \<noteq> 0 \<and> unat q < 2 ^ 32"

definition linked :: "publisher \<Rightarrow> dbook \<Rightarrow> refmap \<Rightarrow> engine \<Rightarrow> astate \<Rightarrow> bool" where
  "linked p d rm e a \<longleftrightarrow> rebuilt e a \<and>
     (\<forall>oid q. has d oid q \<longrightarrow> (\<exists>r. slot p oid = Some r \<and> s_displayed r = q)) \<and>
     (\<forall>oid r. slot p oid = Some r \<longrightarrow> oid \<in> book_ids d \<and> shown_ok (s_displayed r) \<and> s_ref r < pb_next_ref p) \<and>
     (\<forall>i j r r'. slot p i = Some r \<longrightarrow> slot p j = Some r' \<longrightarrow> s_ref r = s_ref r' \<longrightarrow> i = j) \<and>
     (\<exists>\<tau>. inj_on \<tau> (book_ids d) \<and> displayed a = ren \<tau> d \<and> (\<forall>oid r. slot p oid = Some r \<longrightarrow> rm (s_ref r) = Some (\<tau> oid)))"

lemma linkedD:
  assumes "linked p d rm e a"
  shows "rebuilt e a" "has d oid q \<Longrightarrow> \<exists>r. slot p oid = Some r \<and> s_displayed r = q"
    "slot p oid = Some r \<Longrightarrow> oid \<in> book_ids d" "slot p oid = Some r \<Longrightarrow> shown_ok (s_displayed r)"
    "slot p oid = Some r \<Longrightarrow> s_ref r < pb_next_ref p"
    "slot p i = Some r \<Longrightarrow> slot p j = Some r' \<Longrightarrow> s_ref r = s_ref r' \<Longrightarrow> i = j"
  using assms unfolding linked_def by blast+

lemma linked_names:
  assumes "linked p d rm e a"
  obtains \<tau> where "inj_on \<tau> (book_ids d)" "displayed a = ren \<tau> d" "\<And>oid r. slot p oid = Some r \<Longrightarrow> rm (s_ref r) = Some (\<tau> oid)"
  using assms unfolding linked_def by blast

lemma linked_shown:
  assumes "linked p d rm e a" "slot p oid = Some r"
  shows "has d oid q \<longleftrightarrow> q = s_displayed r"
  using linkedD(2) [OF assms(1), of oid] linkedD(3) [OF assms] assms(2) by (fastforce simp: book_ids_has)

lemma linked_none: "linked p d rm e a \<Longrightarrow> slot p oid = None \<Longrightarrow> oid \<notin> book_ids d"
  by (auto simp: book_ids_has dest: linkedD(2))

lemma linked_cong:
  assumes "linked p d rm e a" "pb_refs p' = pb_refs p" "pb_next_ref p' = pb_next_ref p"
  shows "linked p' d rm e a"
proof -
  have "slot p' = slot p" using slot_cong [OF assms(2)] by blast
  with assms(1,3) show ?thesis by (simp add: linked_def)
qed

lemma d_fill_none: "oid \<notin> book_ids d \<Longrightarrow> d_fill oid q d = d"
  unfolding d_fill_def by (fastforce simp: book_ids_def intro!: ext map_idI take_from_other)

section \<open>One order smaller or gone\<close>

lemma linked_take:
  assumes l: "linked p d rm e a" and s: "slot p oid = Some r"
    and refs: "pb_refs p' = (pb_refs p)[oid := shown_less x r]" "pb_next_ref p' = pb_next_ref p"
    and m: "m_type m = Execute \<or> m_type m = Cancel" "m_ref m = s_ref r" "m_qty m = x"
  obtains e' a' where "apply_message m (rm, e) = Some (rm, e')" "linked p' (d_fill oid x d) rm e' a'"
    "a_min a' = a_min a" "a_n a' = a_n a" "a_halted a' = a_halted a"
proof -
  note L = linkedD [OF l] and S = s [unfolded slot_Some]
  obtain \<tau> where \<tau>: "inj_on \<tau> (book_ids d)" "displayed a = ren \<tau> d" "\<And>oid r. slot p oid = Some r \<Longrightarrow> rm (s_ref r) = Some (\<tau> oid)"
    using linked_names [OF l] by blast
  have oid: "oid \<in> book_ids d" by (rule L(3) [OF s])
  then have "\<tau> oid \<in> book_ids (displayed a)" by (simp add: \<tau>(2) book_ids_ren)
  then obtain e' a' where t: "reduce (\<tau> oid) x e = Some (True, e')" "rebuilt e' a'" "displayed a' = d_fill (\<tau> oid) x (displayed a)"
    "a_min a' = a_min a" "a_n a' = a_n a" "a_halted a' = a_halted a" by (rule take_call [OF L(1)])
  have d: "displayed a' = ren \<tau> (d_fill oid x d)" using t(3) \<tau>(2) ren_ops(1) [OF \<tau>(1) oid] by simp
  have slot': "slot p' i = (if i = oid then if x < s_displayed r then Some (shown_less x r) else None else slot p i)" for i
    using slot_update [OF refs(1)] S shown_less_fields(2) [of r x] by auto
  have le: "shown_ok (s_displayed r - x)" if "x < s_displayed r"
    using that L(4) [OF s] by (auto simp: shown_ok_def unat_sub word_less_nat_alt word_le_nat_alt)
  have "linked p' (d_fill oid x d) rm e' a'"
    unfolding linked_def
  proof (intro conjI allI impI exI [of _ \<tau>])
    show "\<exists>r. slot p' i = Some r \<and> s_displayed r = q" if "has (d_fill oid x d) i q" for i q
      using that linked_shown [OF l s] L(2) by (auto simp: has_fill slot' shown_less_fields split: if_splits)
    show "i \<in> book_ids (d_fill oid x d)" if "slot p' i = Some r'" for i r'
      using that L(3) linked_shown [OF l s] by (auto simp: slot' book_ids_has has_fill split: if_splits)
    show "shown_ok (s_displayed r')" "s_ref r' < pb_next_ref p'" if "slot p' i = Some r'" for i r'
      using that le L(4,5) s S refs(2) by (fastforce simp: slot' shown_less_fields split: if_splits)+
    show "i = j" if "slot p' i = Some r1" "slot p' j = Some r2" "s_ref r1 = s_ref r2" for i j r1 r2
      using that L(6) [of oid r] L(6) [of _ _ oid r] L(6) s S by (auto simp: slot' shown_less_fields split: if_splits)
    show "inj_on \<tau> (book_ids (d_fill oid x d))" by (rule inj_on_subset [OF \<tau>(1) book_ids_changes(1)])
    show "rm (s_ref r') = Some (\<tau> i)" if "slot p' i = Some r'" for i r'
      using that \<tau>(3) s S by (auto simp: slot' shown_less_fields split: if_splits)
  qed (rule t(2), rule d)
  moreover have "apply_message m (rm, e) = Some (rm, e')"
    using m \<tau>(3) [OF s] t(1) by (auto simp: apply_message_def apply_reduce_def)
  ultimately show ?thesis using that t(4-6) by blast
qed

lemma linked_drop:
  assumes l: "linked p d rm e a" and s: "slot p oid = Some r"
    and refs: "pb_refs p' = (pb_refs p)[oid := no_ref]" "pb_next_ref p' = pb_next_ref p"
    and m: "m_type m = Delete" "m_ref m = s_ref r"
  obtains rm' e' a' where "apply_message m (rm, e) = Some (rm', e')" "linked p' (d_drop oid d) rm' e' a'"
    "a_min a' = a_min a" "a_n a' = a_n a" "a_halted a' = a_halted a"
proof -
  note L = linkedD [OF l] and S = s [unfolded slot_Some]
  obtain \<tau> where \<tau>: "inj_on \<tau> (book_ids d)" "displayed a = ren \<tau> d" "\<And>oid r. slot p oid = Some r \<Longrightarrow> rm (s_ref r) = Some (\<tau> oid)"
    using linked_names [OF l] by blast
  have oid: "oid \<in> book_ids d" by (rule L(3) [OF s])
  then have "\<tau> oid \<in> book_ids (displayed a)" by (simp add: \<tau>(2) book_ids_ren)
  then obtain e' a' where t: "cancel (\<tau> oid) e = Some (True, e')" "rebuilt e' a'" "displayed a' = d_drop (\<tau> oid) (displayed a)"
    "a_min a' = a_min a" "a_n a' = a_n a" "a_halted a' = a_halted a" by (rule drop_call [OF L(1)])
  have d: "displayed a' = ren \<tau> (d_drop oid d)" using t(3) \<tau>(2) ren_ops(2) [OF \<tau>(1) oid] by simp
  let ?rm = "rm(s_ref r := None)"
  have slot': "slot p' i = (if i = oid then None else slot p i)" for i
    using slot_update [OF refs(1)] S by (simp add: no_ref_def)
  have "linked p' (d_drop oid d) ?rm e' a'"
    unfolding linked_def
  proof (intro conjI allI impI exI [of _ \<tau>])
    show "\<exists>r. slot p' i = Some r \<and> s_displayed r = q" if "has (d_drop oid d) i q" for i q
      using that L(2) by (auto simp: has_drop slot')
    show "i \<in> book_ids (d_drop oid d)" if "slot p' i = Some r'" for i r'
      using that L(3) by (auto simp: slot' book_ids_changes(2) split: if_splits)
    show "shown_ok (s_displayed r')" "s_ref r' < pb_next_ref p'" if "slot p' i = Some r'" for i r'
      using that L(4,5) refs(2) by (auto simp: slot' split: if_splits)
    show "i = j" if "slot p' i = Some r1" "slot p' j = Some r2" "s_ref r1 = s_ref r2" for i j r1 r2
      using that L(6) by (auto simp: slot' split: if_splits)
    show "inj_on \<tau> (book_ids (d_drop oid d))" using \<tau>(1) by (auto simp: book_ids_changes(2) inj_on_diff)
    show "?rm (s_ref r') = Some (\<tau> i)" if "slot p' i = Some r'" for i r'
      using that \<tau>(3) L(6) [OF s] by (auto simp: slot' split: if_splits)
  qed (rule t(2), rule d)
  moreover have "apply_message m (rm, e) = Some (?rm, e')"
    using m \<tau>(3) [OF s] t(1) by (auto simp: apply_message_def apply_delete_def)
  ultimately show ?thesis using that t(4-6) by blast
qed

section \<open>A new order\<close>

definition fits :: "event \<Rightarrow> bool" where
  "fits ev = (case ev of Rested oid s p q \<Rightarrow> unat q < 2 ^ 32 | Traded t \<Rightarrow> unat (t_qty t) < 2 ^ 32 | _ \<Rightarrow> True)"

text \<open>The prices of the band fit the 32-bit price field, the symbol is eight bytes.\<close>

definition fair :: "publisher \<Rightarrow> astate \<Rightarrow> bool" where
  "fair p a \<longleftrightarrow> length (pb_stock p) = 8 \<and> 0 \<le> a_min a \<and> a_min a + int (a_n a) \<le> 2 ^ 32 \<and> pb_next_ref p \<noteq> 0"

lemma narrow: "unat (q :: Qty) < 2 ^ 32 \<Longrightarrow> ucast (ucast q :: 32 word) = q"
  by (simp add: word_unat_eq_iff unsigned_ucast_eq unsigned_take_bit_eq take_bit_nat_eq_self)

lemma price_fits: "0 \<le> px \<Longrightarrow> px < 2 ^ 32 \<Longrightarrow> uint (price32 px) = px"
  by (simp add: price32_def uint_word_of_int take_bit_int_eq_self)

lemma slot_rest:
  "s_ref (\<lparr>s_ref = pb_next_ref p, s_displayed = q\<rparr>) \<noteq> 0 \<Longrightarrow>
   slot (ev_rest oid s px q p) i = (if i = oid then Some \<lparr>s_ref = pb_next_ref p, s_displayed = q\<rparr> else slot p i)"
  by (auto simp: slot_def ev_rest_def Let_def nth_append no_ref_def)

lemma linked_add:
  assumes l: "linked p d rm e a" and st: "d_step (a_min a) (a_halted a) cross (Rested oid s px q) d = Some d'"
    and f: "fair p a" and q: "unat q < 2 ^ 32" and n: "unat (pb_next_ref p) + 1 < 2 ^ 64"
  obtains rm' e' a' m where "pb_out (ev_rest oid s px q p) = pb_out p @ [m]" "consume out [m] (rm, e) = Some (rm', e')"
    "linked (ev_rest oid s px q p) d' rm' e' a'" "a_min a' = a_min a" "a_n a' = a_n a" "a_halted a' = a_halted a"
proof -
  note L = linkedD [OF l] and R = rebuiltD [OF L(1)]
  let ?i = "nat (px - a_min a)"
  have d: "a_min a \<le> px" "?i < length (d s)" "q \<noteq> 0" "oid \<notin> book_ids d" "a_halted a \<or> clear_of s ?i d"
    "d' = d_set s ?i (d s ! ?i @ [(oid, q)]) d" using st by (auto simp: d_step_def Let_def split: if_splits)
  obtain \<tau> where \<tau>: "inj_on \<tau> (book_ids d)" "displayed a = ren \<tau> d" "\<And>oid r. slot p oid = Some r \<Longrightarrow> rm (s_ref r) = Some (\<tau> oid)"
    using linked_names [OF l] by blast
  have len: "length (d s) = a_n a"
    using arg_cong [OF \<tau>(2), of "\<lambda>f. length (f s)"] erel_lengths(1) [OF R(5), of s] erelD(2) [OF R(5)] by simp
  then have band: "a_in_band a px" "px < 2 ^ 32" "0 \<le> px" using d(1,2) f by (auto simp: a_in_band_def fair_def)
  have ix: "a_idx a px = ?i" by (simp add: a_idx_def)
  have clear: "a_halted a \<or> clear_of s (a_idx a px) (displayed a)" using d(5) by (simp add: \<tau>(2) clear_of_ren ix)
  obtain e' a' where t: "submit_limit s px q GTC 0 CancelTaker e = Some (a_next a, e')" "rebuilt e' a'"
    "displayed a' = d_set s ?i (displayed a s ! ?i @ [(a_next a, q)]) (displayed a)"
    "a_min a' = a_min a" "a_n a' = a_n a" "a_halted a' = a_halted a" "a_next a \<noteq> kInvalidOrderId" "a_next a \<notin> book_ids (displayed a)"
    using add_call [OF L(1) band(1) d(3) clear] unfolding ix by blast
  let ?r = "pb_next_ref p" and ?\<tau> = "\<tau>(oid := a_next a)" and ?p = "ev_rest oid s px q p"
  let ?rm = "rm(?r \<mapsto> a_next a)"
  have new: "pb_next_ref ?p = ?r + 1" "?r \<noteq> 0" "?r < ?r + 1"
    using f n by (auto simp: ev_rest_def Let_def fair_def word_less_nat_alt unat_word_ariths)
  note bk = has_back [where d = d and s = s and k = ?i, OF d(2)] and ids = book_ids_changes(3) [where d = d and s = s and k = ?i, OF d(2)]
  note slot' = slot_rest [of p q oid s px, simplified, OF new(2)]
  have old: "s_ref r \<noteq> ?r" "s_ref r < ?r + 1" if "slot p i = Some r" for i r
    using L(5) [OF that] new(3) by (auto intro: order_less_trans)
  have same: "?\<tau> i = \<tau> i" if "i \<in> book_ids d" for i using that d(4) by auto
  have names: "inj_on ?\<tau> (book_ids d)" by (rule inj_on_cong [THEN iffD2, OF _ \<tau>(1)]) (rule same)
  have same: "?\<tau> ` book_ids d = \<tau> ` book_ids d" using same by (rule image_cong [OF refl])
  have "linked ?p d' ?rm e' a'"
    unfolding linked_def
  proof (intro conjI allI impI exI [of _ ?\<tau>])
    show "\<exists>r. slot ?p i = Some r \<and> s_displayed r = x" if "has d' i x" for i x
      using that L(2) d(4) by (auto simp: d(6) bk slot' book_ids_has)
    show "i \<in> book_ids d'" if "slot ?p i = Some r'" for i r'
      using that L(3) by (auto simp: slot' d(6) ids split: if_splits)
    show "shown_ok (s_displayed r')" "s_ref r' < pb_next_ref ?p" if "slot ?p i = Some r'" for i r'
      using that L(4) old(2) new q d(3) by (auto simp: slot' shown_ok_def split: if_splits)
    show "i = j" if "slot ?p i = Some r1" "slot ?p j = Some r2" "s_ref r1 = s_ref r2" for i j r1 r2
      using that L(6) [of i r1 j r2] old(1) [of i r1] old(1) [of j r2] by (auto simp: slot' split: if_splits)
    show "inj_on ?\<tau> (book_ids d')"
      using names t(8) d(4) unfolding d(6) ids inj_on_insert \<tau>(2) book_ids_ren by auto
    show "?rm (s_ref r') = Some (?\<tau> i)" if "slot ?p i = Some r'" for i r'
      using that \<tau>(3) old(1) by (auto simp: slot' split: if_splits)
    show "displayed a' = ren ?\<tau> d'" using t(3) \<tau>(2) ren_back [where d = d and s = s and k = ?i, OF d(2,4), of \<tau> "a_next a" q] by (simp add: d(6))
  qed (rule t(2))
  moreover define m where "m = encode_add [] (pb_seq p) ?r (side_byte s) (ucast q) (pb_stock p) (price32 px)"
  have "length (pb_stock p) = 8" using f by (simp add: fair_def)
  then have "parse m out = Some (True, out\<lparr>m_type := Add, m_ref := ?r,
      m_side := s, m_qty := q, m_stock := pb_stock p @ [0], m_price := px\<rparr>)"
    using parse_encoded(1) [of "pb_stock p" "pb_seq p" ?r "side_byte s" "ucast q" "price32 px" out] price_fits [OF band(3,2)] narrow [OF q]
    by (cases s) (simp_all add: m_def side_byte_def)
  then have "consume out [m] (rm, e) = Some (?rm, e')"
    using t(1,7) by (simp add: apply_message_def apply_add_def)
  moreover have "pb_out ?p = pb_out p @ [m]" by (simp add: ev_rest_def Let_def m_def)
  ultimately show ?thesis using that t(4-6) by blast
qed

section \<open>Events keep the two sides together\<close>

definition in_sync :: "Message \<Rightarrow> refmap \<times> engine \<Rightarrow> Price \<Rightarrow> nat \<Rightarrow> bool \<Rightarrow> publisher \<Rightarrow> dbook \<Rightarrow> bool" where
  "in_sync out b0 lo n h p d \<longleftrightarrow>
     (\<exists>rm e a. consume out (pb_out p) b0 = Some (rm, e) \<and> linked p d rm e a \<and> a_min a = lo \<and> a_n a = n \<and> a_halted a = h)"

lemma in_syncI:
  "consume out (pb_out p) b0 = Some (rm, e) \<Longrightarrow> linked p d rm e a \<Longrightarrow> a_min a = lo \<Longrightarrow> a_n a = n \<Longrightarrow> a_halted a = h \<Longrightarrow>
   in_sync out b0 lo n h p d"
  unfolding in_sync_def by blast

lemma in_sync_cong:
  "in_sync out b0 lo n h p d \<Longrightarrow> pb_refs p' = pb_refs p \<Longrightarrow> pb_next_ref p' = pb_next_ref p \<Longrightarrow> pb_out p' = pb_out p \<Longrightarrow>
   in_sync out b0 lo n h p' d"
  unfolding in_sync_def using linked_cong by fastforce

text \<open>A message that changes nothing in the slots and is applied or skipped.\<close>

lemma consume_one:
  "consume out (pb_out p) b0 = Some b \<Longrightarrow> pb_out p' = pb_out p @ [m] \<Longrightarrow> parse m out = Some (True, msg) \<Longrightarrow>
   apply_message msg b = Some b' \<Longrightarrow> consume out (pb_out p') b0 = Some b'"
  by (simp add: consume_append)

lemma sync_take:
  assumes y: "in_sync out b0 lo n h p d" and s: "slot p oid = Some r"
    and p': "pb_refs p' = (pb_refs p)[oid := shown_less x r]" "pb_next_ref p' = pb_next_ref p" "pb_out p' = pb_out p @ [m]"
    and m: "parse m out = Some (True, msg)" "m_type msg = Execute \<or> m_type msg = Cancel" "m_ref msg = s_ref r" "m_qty msg = x"
  shows "in_sync out b0 lo n h p' (d_fill oid x d)"
proof -
  obtain rm e a where c: "consume out (pb_out p) b0 = Some (rm, e)" "linked p d rm e a" "a_min a = lo" "a_n a = n" "a_halted a = h"
    using y unfolding in_sync_def by blast
  obtain e' a' where t: "apply_message msg (rm, e) = Some (rm, e')" "linked p' (d_fill oid x d) rm e' a'"
    "a_min a' = a_min a" "a_n a' = a_n a" "a_halted a' = a_halted a"
    by (rule linked_take [OF c(2) s p'(1,2) m(2-4)])
  show ?thesis by (rule in_syncI [OF consume_one [OF c(1) p'(3) m(1) t(1)] t(2)]) (simp_all add: t c)
qed

lemma sync_drop:
  assumes y: "in_sync out b0 lo n h p d" and s: "slot p oid = Some r"
    and p': "pb_refs p' = (pb_refs p)[oid := no_ref]" "pb_next_ref p' = pb_next_ref p" "pb_out p' = pb_out p @ [m]"
    and m: "parse m out = Some (True, msg)" "m_type msg = Delete" "m_ref msg = s_ref r"
  shows "in_sync out b0 lo n h p' (d_drop oid d)"
proof -
  obtain rm e a where c: "consume out (pb_out p) b0 = Some (rm, e)" "linked p d rm e a" "a_min a = lo" "a_n a = n" "a_halted a = h"
    using y unfolding in_sync_def by blast
  obtain rm' e' a' where t: "apply_message msg (rm, e) = Some (rm', e')" "linked p' (d_drop oid d) rm' e' a'"
    "a_min a' = a_min a" "a_n a' = a_n a" "a_halted a' = a_halted a"
    by (rule linked_drop [OF c(2) s p'(1,2) m(2,3)])
  show ?thesis by (rule in_syncI [OF consume_one [OF c(1) p'(3) m(1) t(1)] t(2)]) (simp_all add: t c)
qed

lemma sync_slot_none: "in_sync out b0 lo n h p d \<Longrightarrow> slot p oid = None \<Longrightarrow> oid \<notin> book_ids d"
  by (auto simp: in_sync_def dest: linked_none)

lemma sync_slot_ok: "in_sync out b0 lo n h p d \<Longrightarrow> slot p oid = Some r \<Longrightarrow> shown_ok (s_displayed r)"
  by (auto simp: in_sync_def dest: linkedD(4))

lemma sync_shown: "in_sync out b0 lo n h p d \<Longrightarrow> slot p oid = Some r \<Longrightarrow> has d oid q \<longleftrightarrow> q = s_displayed r"
  unfolding in_sync_def using linked_shown by blast

lemma sync_cancel:
  assumes y: "in_sync out b0 lo n h p d" and st: "length (pb_stock p) = 8"
  shows "in_sync out b0 lo n h (pub_cancel oid p) (d_drop oid d)"
proof -
  let ?p = "p\<lparr>pb_saw_book_event := True\<rparr>"
  have y': "in_sync out b0 lo n h ?p d" by (rule in_sync_cong [OF y]) simp_all
  show ?thesis
  proof (cases "slot ?p oid")
    case None
    then show ?thesis using y' sync_slot_none [OF y' None] by (simp add: pub_cancel_def d_drop_none)
  next
    case (Some r)
    show ?thesis
      by (rule sync_drop [OF y' Some _ _ _ parse_encoded(5) [OF st]]) (simp_all add: pub_cancel_def Some)
  qed
qed

lemma sync_execute:
  assumes y: "in_sync out b0 lo n h p d" and st: "length (pb_stock p) = 8" and f: "unat (t_qty t) < 2 ^ 32" and c: "\<not> pb_in_cross p"
  shows "in_sync out b0 lo n h (pub_trade t p) (d_fill (t_maker t) (t_qty t) d)"
proof (cases "slot p (t_maker t)")
  case None
  then show ?thesis using y sync_slot_none [OF y None] c by (simp add: pub_trade_def d_fill_none)
next
  case (Some r)
  show ?thesis
    by (rule sync_take [OF y Some _ _ _ parse_encoded(2) [OF st, where shares = "ucast (t_qty t)" and ref = "s_ref r"]])
      (simp_all add: pub_trade_def Some c Let_def narrow [OF f])
qed

lemma d_fill_part: "(\<And>q. has d oid q \<Longrightarrow> q = y) \<Longrightarrow> d_fill oid (if f < y then f else y) d = d_fill oid f d"
proof -
  have "take_from oid (if f < y then f else y) os = take_from oid f os" if "\<forall>q. (oid, q) \<in> set os \<longrightarrow> q = y" for os
    using that by (induction os) auto
  moreover assume "\<And>q. has d oid q \<Longrightarrow> q = y"
  ultimately show ?thesis unfolding d_fill_def has_def by (intro ext map_cong refl) blast
qed

lemma fill_nothing: "(\<And>q. has d oid q \<Longrightarrow> q \<noteq> 0) \<Longrightarrow> d_fill oid 0 d = d"
proof -
  have "take_from oid 0 os = os" if "\<forall>q. (oid, q) \<in> set os \<longrightarrow> q \<noteq> 0" for os
    using that by (induction os) (auto simp: word_gt_0)
  moreover assume "\<And>q. has d oid q \<Longrightarrow> q \<noteq> 0"
  ultimately show ?thesis unfolding d_fill_def has_def by (intro ext map_idI) blast
qed

lemma sync_exec_cross:
  assumes y: "in_sync out b0 lo n h p d" and st: "length (pb_stock p) = 8"
  shows "in_sync out b0 lo n h (exec_cross oid f px p) (d_fill oid f d)"
proof (cases "slot p oid")
  case None
  then show ?thesis using y sync_slot_none [OF y None] by (simp add: exec_cross_def d_fill_none)
next
  case (Some r)
  let ?part = "if f < s_displayed r then f else s_displayed r"
  note ok = sync_slot_ok [OF y Some] and sh = sync_shown [OF y Some]
  have part: "d_fill oid ?part d = d_fill oid f d" by (rule d_fill_part) (simp add: sh)
  show ?thesis
  proof (cases "?part = 0")
    case True
    then have "d_fill oid ?part d = d" using ok fill_nothing [of d oid] sh by (simp add: shown_ok_def split: if_splits)
    with True y part Some show ?thesis by (simp add: exec_cross_def)
  next
    case False
    have "unat ?part < 2 ^ 32" using ok by (auto simp: shown_ok_def word_less_nat_alt)
    note w = narrow [OF this]
    have "in_sync out b0 lo n h (exec_cross oid f px p) (d_fill oid ?part d)"
      by (rule sync_take [OF y Some _ _ _ parse_encoded(3) [OF st, where shares = "ucast ?part" and ref = "s_ref r"]])
         (use False in \<open>simp_all add: exec_cross_def Some Let_def w del: if_split\<close>)
    with part show ?thesis by simp
  qed
qed

lemma exec_cross_fields [simp]:
  "pb_stock (exec_cross oid f px p) = pb_stock p" "pb_next_ref (exec_cross oid f px p) = pb_next_ref p"
  "pb_in_cross (exec_cross oid f px p) = pb_in_cross p"
  by (simp_all add: exec_cross_def Let_def split: option.split)

lemma pub_event_fields:
  "pb_stock (pub_event ev p) = pb_stock p" "pb_in_cross (pub_event ev p) = pb_in_cross p"
  "pb_next_ref (pub_event ev p) = pb_next_ref p + (case ev of Rested oid s px q \<Rightarrow> 1 | _ \<Rightarrow> 0)"
  by (simp_all add: pub_event_def pub_trade_def pub_cancel_def ev_rest_def Let_def split: event.splits option.splits)

text \<open>Conditions on the wire: 32-bit prices, an eight-byte symbol, references that do not run out.\<close>

definition wired :: "Price \<Rightarrow> nat \<Rightarrow> nat \<Rightarrow> publisher \<Rightarrow> bool" where
  "wired lo n k p \<longleftrightarrow> 0 \<le> lo \<and> lo + int n \<le> 2 ^ 32 \<and> length (pb_stock p) = 8 \<and> pb_next_ref p \<noteq> 0 \<and>
     unat (pb_next_ref p) + k < 2 ^ 64"

lemma wired_step: "wired lo n (Suc k) p \<Longrightarrow> wired lo n k (pub_event ev p)"
  by (auto simp: wired_def pub_event_fields word_unat_eq_iff unat_word_ariths split: event.split)

lemma sync_event:
  assumes y: "in_sync out b0 lo n h p d" and w: "wired lo n (Suc k) p" and f: "fits ev"
    and st: "d_step lo h (pb_in_cross p) ev d = Some d'"
  shows "in_sync out b0 lo n h (pub_event ev p) d'"
proof (cases ev)
  case (Accept oid s px q)
  then show ?thesis using y st by (simp add: pub_event_def d_step_def)
next
  case (Traded t)
  have len: "length (pb_stock p) = 8" using w by (simp add: wired_def)
  show ?thesis
  proof (cases "pb_in_cross p")
    case True
    with Traded st len sync_exec_cross [OF sync_exec_cross [OF y len, where f = "t_qty t"], where f = "t_qty t"] show ?thesis
      by (auto simp: pub_event_def pub_trade_def d_step_def)
  next
    case False
    with Traded st f sync_execute [OF y len, of t] show ?thesis by (auto simp: pub_event_def d_step_def fits_def)
  qed
next
  case (Cancelled oid)
  with sync_cancel [OF y, of oid] w st show ?thesis by (auto simp: pub_event_def d_step_def wired_def)
next
  case (Rejected oid)
  then show ?thesis using y st by (simp add: pub_event_def d_step_def)
next
  case (Rested oid s px q)
  obtain rm e a where c: "consume out (pb_out p) b0 = Some (rm, e)" "linked p d rm e a" "a_min a = lo" "a_n a = n" "a_halted a = h"
    using y unfolding in_sync_def by blast
  have fa: "fair p a" "unat (pb_next_ref p) + 1 < 2 ^ 64" "unat q < 2 ^ 32"
    using w c f by (auto simp: wired_def fair_def Rested fits_def)
  obtain rm' e' a' m where t: "pb_out (ev_rest oid s px q p) = pb_out p @ [m]" "consume out [m] (rm, e) = Some (rm', e')"
    "linked (ev_rest oid s px q p) d' rm' e' a'" "a_min a' = a_min a" "a_n a' = a_n a" "a_halted a' = a_halted a"
    by (rule linked_add [OF c(2) st [unfolded Rested, folded c(3,5)] fa(1,3,2)])
  have "consume out (pb_out (ev_rest oid s px q p)) b0 = Some (rm', e')" using t(1,2) c(1) by (simp add: consume_append)
  from in_syncI [OF this t(3)] t(4-6) c(3-5) show ?thesis by (simp add: pub_event_def Rested)
qed

lemma sync_events:
  "in_sync out b0 lo n h p d \<Longrightarrow> wired lo n (length evs + k) p \<Longrightarrow> \<forall>ev\<in>set evs. fits ev \<Longrightarrow>
   d_replay lo h (pb_in_cross p) evs d = Some d' \<Longrightarrow>
   in_sync out b0 lo n h (fold pub_event evs p) d' \<and> wired lo n k (fold pub_event evs p)"
proof (induction evs arbitrary: p d)
  case (Cons ev evs)
  then obtain d1 where d1: "d_step lo h (pb_in_cross p) ev d = Some d1" "d_replay lo h (pb_in_cross p) evs d1 = Some d'"
    by (auto simp: bind_eq_Some_conv)
  have w: "wired lo n (Suc (length evs + k)) p" using Cons.prems(2) by simp
  from Cons.IH [OF sync_event [OF Cons.prems(1) w _ d1(1)] wired_step [OF w]] Cons.prems(3) d1(2)
  show ?case by (simp add: pub_event_fields)
qed simp

end
