(* ===== verification/Feed_Calls.thy ===== *)
theory Feed_Calls
  imports Feed
begin

text \<open>
  The calls of a publisher: after each of them a builder that has consumed everything published
  so far shows the displayed book of the publisher's engine, in a band that may be wider.
\<close>

section \<open>A wider band\<close>

text \<open>
  The builder's band may be wider than the publisher's: its book then has \<open>k\<close> more levels below and
  \<open>m\<close> more above, all of them empty.
\<close>

definition widen :: "nat \<Rightarrow> nat \<Rightarrow> dbook \<Rightarrow> dbook" where
  "widen k m d = (\<lambda>s. replicate k [] @ d s @ replicate m [])"

lemma widen_length [simp]: "length (widen k m d s) = k + length (d s) + m"
  by (simp add: widen_def)

lemma widen_nth: "widen k m d s ! j = (if k \<le> j \<and> j < k + length (d s) then d s ! (j - k) else [])" if "j < k + length (d s) + m"
  using that by (auto simp: widen_def nth_append)

lemma has_widen: "has (widen k m d) = has d"
  by (auto simp: fun_eq_iff has_def widen_def)

lemma book_ids_widen: "book_ids (widen k m d) = book_ids d"
  by (auto simp: book_ids_has has_widen)

lemma widen_ops:
  "widen k m (d_fill oid q d) = d_fill oid q (widen k m d)" "widen k m (d_drop oid d) = d_drop oid (widen k m d)"
  by (simp_all add: widen_def d_fill_def d_drop_def)

lemma widen_set: "i < length (d s) \<Longrightarrow> d_set s (k + i) os (widen k m d) = widen k m (d_set s i os d)"
  by (auto simp: widen_def d_set_def list_update_append)

lemma clear_widen: "clear_of s (k + i) (widen k m d) = clear_of s i d"
proof -
  have within: "within_limit s (int (k + j)) (int (k + i)) = within_limit s (int j) (int i)" for j
    by (cases s) (simp_all add: within_limit_def)
  show ?thesis unfolding clear_of_def
  proof (intro iffI allI impI)
    fix j assume "\<forall>j<length (widen k m d (opposite s)). widen k m d (opposite s) ! j \<noteq> [] \<longrightarrow> \<not> within_limit s (int j) (int (k + i))"
      "j < length (d (opposite s))" "d (opposite s) ! j \<noteq> []"
    then show "\<not> within_limit s (int j) (int i)" using within [of j] by (auto simp: widen_nth dest!: spec [of _ "k + j"])
  next
    fix j assume c: "\<forall>j<length (d (opposite s)). d (opposite s) ! j \<noteq> [] \<longrightarrow> \<not> within_limit s (int j) (int i)"
      and "j < length (widen k m d (opposite s))" "widen k m d (opposite s) ! j \<noteq> []"
    then have j: "k \<le> j" "j - k < length (d (opposite s))" "d (opposite s) ! (j - k) \<noteq> []"
      by (auto simp: widen_nth split: if_splits)
    then have "\<not> within_limit s (int (j - k)) (int i)" using c by blast
    with within [of "j - k"] j(1) show "\<not> within_limit s (int j) (int (k + i))" by simp
  qed
qed

lemma step_widen:
  assumes "d_step (lo + int k) h c ev d = Some d'"
  shows "d_step lo h c ev (widen k m d) = Some (widen k m d')"
proof (cases ev)
  case (Rested oid s p q)
  let ?i = "nat (p - (lo + int k))"
  have d: "lo + int k \<le> p" "?i < length (d s)" "q \<noteq> 0" "oid \<notin> book_ids d" "h \<or> clear_of s ?i d"
    "d' = d_set s ?i (d s ! ?i @ [(oid, q)]) d"
    using assms by (auto simp: Rested d_step_def Let_def split: if_splits)
  have i: "nat (p - lo) = k + ?i" using d(1) by simp
  have nth: "widen k m d s ! (k + ?i) = d s ! ?i" using d(2) by (simp add: widen_nth)
  show ?thesis
    unfolding Rested d_step_def event.case Let_def i nth
    using d by (simp add: book_ids_widen clear_widen widen_set)
qed (use assms in \<open>auto simp: d_step_def widen_ops\<close>)

lemma replay_widen:
  "d_replay (lo + int k) h c evs d = Some d' \<Longrightarrow> d_replay lo h c evs (widen k m d) = Some (widen k m d')"
proof (induction evs arbitrary: d)
  case (Cons ev evs)
  then obtain d1 where d1: "d_step (lo + int k) h c ev d = Some d1" "d_replay (lo + int k) h c evs d1 = Some d'"
    by (auto simp: bind_eq_Some_conv)
  with Cons.IH [OF d1(2)] step_widen [OF d1(1)] show ?case by simp
qed simp

text \<open>The book of \<open>a\<close> in the band of \<open>n\<close> levels from \<open>lo\<close>.\<close>

definition placed :: "Price \<Rightarrow> nat \<Rightarrow> astate \<Rightarrow> dbook" where
  "placed lo n a = widen (nat (a_min a - lo)) (nat (lo + int n - (a_min a + int (a_n a)))) (displayed a)"

lemma placed_cong: "displayed b = displayed a \<Longrightarrow> a_min b = a_min a \<Longrightarrow> a_n b = a_n a \<Longrightarrow> placed lo n b = placed lo n a"
  by (simp add: placed_def)

lemma placed_replay:
  assumes "lo \<le> a_min a" "a_min b = a_min a" "a_n b = a_n a" "d_replay (a_min a) h c evs (displayed a) = Some (displayed b)"
  shows "d_replay lo h c evs (placed lo n a) = Some (placed lo n b)"
  using replay_widen [of lo "nat (a_min a - lo)"] assms by (simp add: placed_def)

lemma placed_ops:
  assumes "a_min b = a_min a" "a_n b = a_n a"
  shows "displayed b = d_fill oid q (displayed a) \<Longrightarrow> placed lo n b = d_fill oid q (placed lo n a)"
    "displayed b = d_drop oid (displayed a) \<Longrightarrow> placed lo n b = d_drop oid (placed lo n a)"
  using assms by (simp_all add: placed_def widen_ops)

section \<open>Silent amendments\<close>

lemma shown_has:
  assumes "refines e a" "shown_qty oid a \<noteq> 0"
  shows "has (displayed a) oid (shown_qty oid a)"
proof -
  obtain x where x: "a_find oid a = Some x" "\<not> r_stop x" "shown_qty oid a = r_qty x"
    using assms(2) by (auto simp: shown_qty_def split: option.splits if_splits)
  note h = found_home [OF assms(1) x(1,2)]
  have "(oid, r_qty x) \<in> set (displayed a (r_side x) ! a_idx a (r_price x))"
    using h by (force simp: show_level_def)
  then show ?thesis unfolding has_nth x(3) using h(2) by (intro exI [of _ "r_side x"] exI [of _ "a_idx a (r_price x)"]) simp
qed

lemma order_qty_shown: "stands_for e a \<Longrightarrow> order_qty e oid = shown_qty oid a"
  by (simp add: stands_for_def order_qty_sim)

text \<open>The wrapper tells the amendment that the engine left unsaid.\<close>

lemma sync_shrink:
  assumes y: "in_sync out b0 lo n h p (placed lo n a)" and r: "refines e a" and st: "length (pb_stock p) = 8"
    and am: "amended oid a b" and an: "a_n b = a_n a" and q: "order_qty (pb_engine p) oid = shown_qty oid b"
  shows "in_sync out b0 lo n h (publish_shrink oid (shown_qty oid a) p) (placed lo n b)"
proof -
  let ?before = "shown_qty oid a" and ?after = "shown_qty oid b"
  have am': "?before \<noteq> 0" "?after \<le> ?before"
    "placed lo n b = (if ?after = 0 then d_drop oid (placed lo n a) else d_fill oid (?before - ?after) (placed lo n a))"
    using am placed_ops [OF _ an] by (auto simp: amended_def)
  have "has (placed lo n a) oid ?before" using shown_has [OF r am'(1)] by (simp add: placed_def has_widen)
  then obtain r' where s: "slot p oid = Some r'" "s_displayed r' = ?before"
    using y linkedD(2) unfolding in_sync_def by blast
  have ok: "unat ?before < 2 ^ 32" using sync_slot_ok [OF y s(1)] s(2) by (simp add: shown_ok_def)
  consider (gone) "?after = 0" | (same) "?after = ?before" | (less) "?after \<noteq> 0" "?after < ?before"
    using am'(2) by fastforce
  then show ?thesis
  proof cases
    case gone
    have "in_sync out b0 lo n h (publish_shrink oid ?before p) (d_drop oid (placed lo n a))"
      by (rule sync_drop [OF y s(1) _ _ _ parse_encoded(5) [OF st, where ref = "s_ref r'"]])
         (simp_all add: publish_shrink_def s(1) q gone)
    with gone am'(3) show ?thesis by simp
  next
    case same
    have "d_fill oid 0 (placed lo n a) = placed lo n a"
      by (rule fill_nothing) (use sync_shown [OF y s(1)] s(2) am'(1) in simp)
    moreover have "publish_shrink oid ?before p = p" using same am'(1) by (simp add: publish_shrink_def s(1) q Let_def)
    ultimately show ?thesis using y same am'(1,3) by simp
  next
    case less
    have d: "unat (?before - ?after) < 2 ^ 32" using ok less(2) by (simp add: unat_sub word_less_nat_alt word_le_nat_alt)
    have le: "?before - ?after < ?before" using less by (auto simp: unat_sub word_less_nat_alt word_le_nat_alt word_neq_0_unat)
    have sl: "shown_less (?before - ?after) r' = r'\<lparr>s_displayed := ?after\<rparr>"
      using le less(1) s by (simp add: shown_less_def slot_Some Let_def)
    have "in_sync out b0 lo n h (publish_shrink oid ?before p) (d_fill oid (?before - ?after) (placed lo n a))"
      by (rule sync_take [OF y s(1) _ _ _ parse_encoded(4) [OF st, where ref = "s_ref r'" and shares = "ucast (?before - ?after)"]])
         (simp_all add: publish_shrink_def s(1) q less sl narrow [OF d] Let_def)
    with less(1) am'(3) show ?thesis by simp
  qed
qed

section \<open>The state between calls\<close>

definition fed :: "Message \<Rightarrow> refmap \<times> engine \<Rightarrow> Price \<Rightarrow> nat \<Rightarrow> publisher \<Rightarrow> astate \<Rightarrow> bool" where
  "fed out b0 lo n p a \<longleftrightarrow> stands_for (pb_engine p) a \<and> (a_halted a \<or> uncrossed a) \<and> \<not> pb_in_cross p \<and>
     in_sync out b0 lo n (a_halted a) p (placed lo n a) \<and>
     lo \<le> a_min a \<and> a_min a + int (a_n a) \<le> lo + int n \<and> 0 \<le> lo \<and> lo + int n \<le> 2 ^ 32 \<and> length (pb_stock p) = 8 \<and> pb_next_ref p \<noteq> 0 \<and>
     unat (pb_next_ref p) \<le> Suc (length (a_tape a))"

lemma fedD:
  assumes "fed out b0 lo n p a"
  shows "stands_for (pb_engine p) a" "refines (pb_engine p) a" "a_halted a \<or> uncrossed a" "\<not> pb_in_cross p"
    "in_sync out b0 lo n (a_halted a) p (placed lo n a)" "length (pb_stock p) = 8"
    "lo \<le> a_min a" "a_min a + int (a_n a) \<le> lo + int n"
  using assms by (simp_all add: fed_def stands_for_def)

lemma fed_wired: "fed out b0 lo n p a \<Longrightarrow> length (a_tape a) + k < 2 ^ 64 - 1 \<Longrightarrow> wired lo n k p"
  by (simp add: fed_def wired_def)

lemma unat_next: "unat (x + 1 :: 64 word) \<le> Suc (unat x)"
  by (simp add: unat_word_ariths)

lemma next_ref_events: "unat (pb_next_ref (fold pub_event evs p)) \<le> unat (pb_next_ref p) + length evs"
proof (induction evs arbitrary: p)
  case (Cons ev evs)
  have "unat (pb_next_ref (pub_event ev p)) \<le> Suc (unat (pb_next_ref p))"
    using unat_next [of "pb_next_ref p"] by (simp add: pub_event_fields split: event.split)
  with Cons [of "pub_event ev p"] show ?case by simp
qed simp

lemma events_fields:
  "pb_stock (fold pub_event evs p) = pb_stock p" "pb_in_cross (fold pub_event evs p) = pb_in_cross p"
  by (induction evs arbitrary: p) (simp_all add: pub_event_fields)

text \<open>A call whose events tell the displayed book.\<close>

lemma fed_told:
  assumes y: "in_sync out b0 lo n h p (placed lo n a)" and w: "wired lo n (length evs) p"
    and t: "d_replay (a_min a) h (pb_in_cross p) evs (displayed a) = Some (displayed b)"
    and band: "lo \<le> a_min a" "a_min a + int (a_n a) \<le> lo + int n"
    and f: "\<forall>ev\<in>set evs. fits ev" and nr: "unat (pb_next_ref p) + length evs \<le> Suc (length (a_tape b))"
    and b: "stands_for e' b" "a_halted b \<or> uncrossed b" "a_min b = a_min a" "a_n b = a_n a" "a_halted b = h"
    and c: "\<not> pb_in_cross p'" "pb_refs p' = pb_refs (fold pub_event evs p)" "pb_next_ref p' = pb_next_ref (fold pub_event evs p)"
      "pb_out p' = pb_out (fold pub_event evs p)" "pb_engine p' = e'" "pb_stock p' = pb_stock p"
  shows "fed out b0 lo n p' b"
proof -
  have "d_replay lo h (pb_in_cross p) evs (placed lo n a) = Some (placed lo n b)"
    using placed_replay [OF band(1) b(3,4) t] .
  from sync_events [OF y, of evs 0] w this f
  have s: "in_sync out b0 lo n h (fold pub_event evs p) (placed lo n b)" "wired lo n 0 (fold pub_event evs p)"
    by simp_all
  from in_sync_cong [OF s(1) c(2-4)] s(2) b band c(1,3,5,6) next_ref_events [of evs p] nr show ?thesis
    by (simp add: fed_def wired_def events_fields)
qed

section \<open>Every call\<close>

lemma pub_call_events:
  assumes a: "stands_for (pb_engine p) a" and c: "call c (pb_engine p) = reply_as h (f (pb_engine p))"
  obtains r p' evs where "pub_call f p = Some (r, p')" "stands_for (pb_engine p') (snd (a_call c a))" "h r = fst (a_call c a)"
    "p' = fold pub_event evs (p\<lparr>pb_engine := pb_engine p'\<rparr>)" "a_tape (snd (a_call c a)) = a_tape a @ evs"
    "e_tape (pb_engine p') = a_tape (snd (a_call c a))"
proof -
  obtain r p' evs where *: "pub_call f p = Some (r, p')" "stands_for (pb_engine p') (snd (a_call c a))" "h r = fst (a_call c a)"
    "p' = fold pub_event evs (p\<lparr>pb_engine := pb_engine p'\<rparr>)" "evs = new_events (pb_engine p) (pb_engine p')"
    "e_tape (pb_engine p) = a_tape a" "e_tape (pb_engine p') = a_tape (snd (a_call c a))"
    using pub.handled_call [where f = f and h = h, OF a c] unfolding pub_call_def by blast
  obtain evs' where "a_tape (snd (a_call c a)) = a_tape a @ evs'" using call_extends [of a c] by (auto simp: grows_def)
  with * that show ?thesis by (simp add: new_events_def)
qed

lemma pub_api_call: "steady c \<Longrightarrow> silent c = None \<Longrightarrow> pub_api c p = pub_call (call c) p"
  by (cases c) (auto simp: steady_def silent_def pub_reply_def pub_call_def handled_reply pub_submit_limit_def
      pub_submit_market_def pub_submit_iceberg_def pub_submit_stop_def pub_submit_stop_limit_def pub_cancel_order_def
      intro!: handled_cong)

lemma reply_as_id [simp]: "reply_as id x = x"
  by (simp add: reply_as_def prod.map_id0 option.map_id)

text \<open>The quantities on the tape fit the wire, and the references do not run out.\<close>

definition small :: "event list \<Rightarrow> bool" where
  "small evs \<longleftrightarrow> (\<forall>ev\<in>set evs. fits ev) \<and> length evs < 2 ^ 64 - 1"

lemma fed_events:
  assumes y: "fed out b0 lo n p a" and t: "tells (a_halted a) False a b" and ab: "a_tape b = a_tape a @ evs" and sm: "small (a_tape b)"
    and b: "stands_for e' b" "a_halted b \<or> uncrossed b" "a_n b = a_n a" "a_halted b = a_halted a"
    and q: "pb_refs q = pb_refs p" "pb_next_ref q = pb_next_ref p" "pb_out q = pb_out p" "pb_in_cross q = pb_in_cross p" "pb_stock q = pb_stock p"
    and p': "p' = fold pub_event evs q" "pb_engine p' = e'"
  shows "fed out b0 lo n p' b"
proof -
  note F = fedD [OF y]
  have le: "length (a_tape a) + length evs < 2 ^ 64 - 1" "\<forall>ev\<in>set evs. fits ev" using sm ab by (auto simp: small_def)
  have w: "wired lo n (length evs) q" using fed_wired [OF y le(1)] q by (simp add: wired_def)
  have rp: "d_replay (a_min a) (a_halted a) (pb_in_cross q) evs (displayed a) = Some (displayed b)" "a_min b = a_min a"
    using t ab F(4) q(4) by (auto simp: tells_def)
  have nr: "unat (pb_next_ref q) + length evs \<le> Suc (length (a_tape b))" using y q(2) ab by (simp add: fed_def)
  show ?thesis
    by (rule fed_told [OF in_sync_cong [OF F(5) q(1-3)] w rp(1) F(7,8) le(2) nr b(1,2) rp(2) b(3,4)])
       (use p' q F(4) in \<open>simp_all add: events_fields\<close>)
qed

lemma body_band: "steady c \<Longrightarrow> a_n (snd (a_body c a)) = a_n a \<and> a_min (snd (a_body c a)) = a_min a"
  using frame_place [unfolded frame_def] frame_execute [unfolded frame_def] frame_match [unfolded frame_def]
  by (cases c) (simp_all add: steady_def a_submit_limit_def a_submit_iceberg_def a_submit_market_def a_submit_stop_def
      a_submit_def a_fresh_def a_match_market_def a_rest_stop_def a_cancel_def a_reduce_def a_modify_def a_replace_def
      Let_def case_prod_beta split: option.splits)

lemma steady_keeps:
  assumes r: "refines e a" and u: "a_halted a \<or> uncrossed a" and c: "steady c"
  shows "a_halted (snd (a_call c a)) = a_halted a" "a_halted (snd (a_call c a)) \<or> uncrossed (snd (a_call c a))"
    "a_n (snd (a_call c a)) = a_n a" "a_min (snd (a_call c a)) = a_min a"
proof -
  have "a_halted (snd (a_run f a)) = a_halted (snd (f a))" "a_n (snd (a_run f a)) = a_n (snd (f a))"
    "a_min (snd (a_run f a)) = a_min (snd (f a))" for f :: "astate \<Rightarrow> reply \<times> astate"
    using frame_pump by (simp_all add: a_run_def case_prod_beta Let_def)
  then show "a_halted (snd (a_call c a)) = a_halted a" "a_n (snd (a_call c a)) = a_n a" "a_min (snd (a_call c a)) = a_min a"
    using body_halted [OF c, of a] body_band [OF c, of a] by (simp_all add: a_call_def)
  with u continuous_call [OF r, of c] c show "a_halted (snd (a_call c a)) \<or> uncrossed (snd (a_call c a))"
    by (auto simp: continuous_def steady_def)
qed

lemma fed_call:
  assumes y: "fed out b0 lo n p a" and c: "steady c" "silent c = None" and p': "pub_api c p = Some (r, p')" and sm: "small (e_tape (pb_engine p'))"
  shows "fed out b0 lo n p' (snd (a_call c a))"
proof -
  note F = fedD [OF y]
  have cc: "call c (pb_engine p) = reply_as id (call c (pb_engine p))" by simp
  obtain r2 p2 evs where *: "pub_call (call c) p = Some (r2, p2)" "stands_for (pb_engine p2) (snd (a_call c a))" "id r2 = fst (a_call c a)"
    "p2 = fold pub_event evs (p\<lparr>pb_engine := pb_engine p2\<rparr>)" "a_tape (snd (a_call c a)) = a_tape a @ evs"
    "e_tape (pb_engine p2) = a_tape (snd (a_call c a))"
    by (rule pub_call_events [where f = "call c" and h = id, OF F(1) cc])
  then have eq: "p2 = p'" using p' pub_api_call [OF c] by simp
  note K = steady_keeps [OF F(2,3) c(1)]
  show ?thesis
    by (rule fed_events [where q = "p\<lparr>pb_engine := pb_engine p'\<rparr>", OF y call_tells [OF F(1,3) c] *(5) _ *(2) K(2,3,1)])
       (use *(4,6) sm eq in simp_all)
qed

lemma saw_stays: "pb_saw_book_event p \<Longrightarrow> pb_saw_book_event (fold pub_event evs p)"
proof (induction evs arbitrary: p)
  case (Cons ev evs)
  have "pb_saw_book_event (exec_cross oid f px p) = pb_saw_book_event p" for oid f px p
    by (simp add: exec_cross_def Let_def split: option.split)
  then have "pb_saw_book_event (pub_event ev p)"
    using Cons.prems by (simp add: pub_event_def pub_trade_def pub_cancel_def ev_rest_def Let_def split: event.split option.split)
  from Cons.IH [OF this] show ?case by simp
qed simp

lemma saw_cancel: "pb_saw_book_event (fold pub_event (Cancelled oid # evs) p)"
  by (simp add: saw_stays pub_event_def pub_cancel_def Let_def split: option.split)

lemma publish_shrink_engine [simp]: "pb_engine (publish_shrink oid before p) = pb_engine p"
  by (simp add: publish_shrink_def Let_def split: option.split)

lemma publish_shrink_fields [simp]:
  "pb_stock (publish_shrink oid before p) = pb_stock p" "pb_next_ref (publish_shrink oid before p) = pb_next_ref p"
  "pb_in_cross (publish_shrink oid before p) = pb_in_cross p"
  by (simp_all add: publish_shrink_def Let_def split: option.split)

text \<open>After an engine call without events: nothing happened, or one order was amended.\<close>

lemma fed_quiet:
  assumes y: "fed out b0 lo n p a" and q: "pb_refs q = pb_refs p" "pb_next_ref q = pb_next_ref p" "pb_out q = pb_out p"
    "pb_in_cross q = pb_in_cross p" "pb_stock q = pb_stock p" and b: "stands_for (pb_engine q) a"
  shows "fed out b0 lo n q a"
  using y in_sync_cong [OF fedD(5) [OF y] q(1-3)] q b by (simp add: fed_def)

lemma fed_amended:
  assumes y: "fed out b0 lo n p a" and q: "pb_refs q = pb_refs p" "pb_next_ref q = pb_next_ref p" "pb_out q = pb_out p"
    "pb_in_cross q = pb_in_cross p" "pb_stock q = pb_stock p" and b: "stands_for (pb_engine q) b"
    and k: "a_halted b = a_halted a" "a_halted b \<or> uncrossed b" "a_n b = a_n a" and am: "amended oid a b"
  shows "fed out b0 lo n (publish_shrink oid (shown_qty oid a) q) b"
proof -
  note F = fedD [OF y]
  have "in_sync out b0 lo n (a_halted a) (publish_shrink oid (shown_qty oid a) q) (placed lo n b)"
    by (rule sync_shrink [OF in_sync_cong [OF F(5) q(1-3)] F(2) _ am k(3) order_qty_shown [OF b]]) (simp add: q(5) F(6))
  then show ?thesis using y q b k am by (simp add: fed_def amended_def)
qed

lemma kept_fields:
  assumes "evs = []" "q = fold pub_event evs (p\<lparr>pb_engine := x\<rparr>)"
  shows "pb_refs q = pb_refs p" "pb_next_ref q = pb_next_ref p" "pb_out q = pb_out p" "pb_in_cross q = pb_in_cross p"
    "pb_stock q = pb_stock p" "pb_saw_book_event q = pb_saw_book_event p"
  using assms by simp_all

lemma fed_reduce:
  assumes y: "fed out b0 lo n p a" and p': "pub_reduce oid d p = Some (ok, p')"
  shows "fed out b0 lo n p' (snd (a_call (ReduceOrder oid d) a))"
proof -
  note F = fedD [OF y]
  let ?c = "ReduceOrder oid d" and ?before = "shown_qty oid a"
  obtain r q evs where *: "pub_call (reduce oid d) p = Some (r, q)" "stands_for (pb_engine q) (snd (a_call ?c a))"
    "RBool r = fst (a_call ?c a)" "q = fold pub_event evs (p\<lparr>pb_engine := pb_engine q\<rparr>)" "a_tape (snd (a_call ?c a)) = a_tape a @ evs"
    "e_tape (pb_engine q) = a_tape (snd (a_call ?c a))"
    by (rule pub_call_events [where f = "reduce oid d" and h = RBool, OF F(1) call.simps(7)])
  note K = steady_keeps [OF F(2,3), of ?c]
  have eq: "p' = (if r \<and> 0 < ?before then publish_shrink oid ?before q else q)"
    using p' *(1) order_qty_shown [OF F(1), of oid] by (auto simp: pub_reduce_def Let_def)
  consider (refused) "a_call ?c a = (RBool False, a)" | (amend) b where "a_call ?c a = (RBool True, b)" "amended oid a b"
    using reduce_call [OF F(1), of oid d] by blast
  then show ?thesis
  proof cases
    case refused
    have "evs = []" "\<not> r" using *(3,5) refused by simp_all
    note kept = kept_fields [OF this(1) *(4)]
    have "fed out b0 lo n q a" by (rule fed_quiet [OF y]) (use *(2) refused in \<open>simp_all add: kept\<close>)
    with eq \<open>\<not> r\<close> refused show ?thesis by simp
  next
    case amend
    have "evs = []" r "0 < ?before" using *(3,5) amend by (simp_all add: amended_def)
    note kept = kept_fields [OF this(1) *(4)]
    have "fed out b0 lo n (publish_shrink oid ?before q) b"
      by (rule fed_amended [OF y _ _ _ _ _ _ _ _ _ amend(2)]) (use *(2) amend K in \<open>simp_all add: kept steady_def\<close>)
    with eq \<open>r\<close> \<open>0 < ?before\<close> amend show ?thesis by simp
  qed
qed

lemma fed_modify:
  assumes y: "fed out b0 lo n p a" and p': "pub_modify oid px d p = Some (ok, p')" and sm: "small (e_tape (pb_engine p'))"
  shows "fed out b0 lo n p' (snd (a_call (ModifyOrder oid px d) a))"
proof -
  let ?c = "ModifyOrder oid px d" and ?before = "shown_qty oid a" and ?p = "p\<lparr>pb_saw_book_event := False\<rparr>"
  note F = fedD [OF y]
  have y': "fed out b0 lo n ?p a" by (rule fed_quiet [OF y]) (use F(1) in simp_all)
  note F' = fedD [OF y']
  obtain r q evs where *: "pub_call (modify oid px d) ?p = Some (r, q)" "stands_for (pb_engine q) (snd (a_call ?c a))"
    "RBool r = fst (a_call ?c a)" "q = fold pub_event evs (?p\<lparr>pb_engine := pb_engine q\<rparr>)" "a_tape (snd (a_call ?c a)) = a_tape a @ evs"
    "e_tape (pb_engine q) = a_tape (snd (a_call ?c a))"
    by (rule pub_call_events [where f = "modify oid px d" and h = RBool, OF F'(1) call.simps(8)])
  note K = steady_keeps [OF F(2,3), of ?c]
  have eq: "p' = (if r \<and> \<not> pb_saw_book_event q \<and> 0 < ?before then publish_shrink oid ?before q else q)"
    using p' *(1) order_qty_shown [OF F(1), of oid] by (auto simp: pub_modify_def Let_def)
  consider (refused) "a_call ?c a = (RBool False, a)" | (amend) b where "a_call ?c a = (RBool True, b)" "amended oid a b"
    | (told) b evs' where "a_call ?c a = (RBool True, b)" "tells (a_halted a) False a b" "a_tape b = a_tape a @ Cancelled oid # evs'"
    using modify_call [OF F(1,3), of oid px d] by blast
  then show ?thesis
  proof cases
    case refused
    have "evs = []" "\<not> r" using *(3,5) refused by simp_all
    note kept = kept_fields [OF this(1) *(4)]
    have "fed out b0 lo n q a" by (rule fed_quiet [OF y]) (use *(2) refused in \<open>simp_all add: kept\<close>)
    with eq \<open>\<not> r\<close> refused show ?thesis by simp
  next
    case amend
    have "evs = []" r "0 < ?before" using *(3,5) amend by (simp_all add: amended_def)
    note kept = kept_fields [OF this(1) *(4)]
    have "fed out b0 lo n (publish_shrink oid ?before q) b"
      by (rule fed_amended [OF y _ _ _ _ _ _ _ _ _ amend(2)]) (use *(2) amend K in \<open>simp_all add: kept steady_def\<close>)
    with eq \<open>r\<close> \<open>0 < ?before\<close> kept(6) amend show ?thesis by simp
  next
    case told
    have evs: "evs = Cancelled oid # evs'" using *(5) told by simp
    have saw: "pb_saw_book_event q" using saw_cancel *(4) evs by metis
    have "fed out b0 lo n q (snd (a_call ?c a))"
      by (rule fed_events [where q = "?p\<lparr>pb_engine := pb_engine q\<rparr>", OF y' _ *(5) _ *(2) K(2,3,1)])
         (use told *(4,6) sm eq saw in \<open>simp_all add: steady_def\<close>)
    with eq saw show ?thesis by simp
  qed
qed

section \<open>Halt and resume\<close>

lemma linked_state: "linked p d rm e a \<Longrightarrow> rebuilt e' (a\<lparr>a_halted := h\<rparr>) \<Longrightarrow> linked p d rm e' (a\<lparr>a_halted := h\<rparr>)"
  unfolding linked_def by simp

lemma sync_action:
  assumes y: "in_sync out b0 lo n h p d" and st: "length (pb_stock p) = 8"
    and c: "c = CHR ''H'' \<and> h' = True \<or> c = CHR ''T'' \<and> h' = False"
  shows "in_sync out b0 lo n h' (emit_action c p) d"
proof -
  obtain rm e a where s: "consume out (pb_out p) b0 = Some (rm, e)" "linked p d rm e a" "a_min a = lo" "a_n a = n" "a_halted a = h"
    using y unfolding in_sync_def by blast
  let ?c = "if h' then Halt else Resume"
  have body: "a_body ?c a = (RVoid, a\<lparr>a_halted := h'\<rparr>)" by simp
  obtain e' where e': "call ?c e = Some (RVoid, e')" "rebuilt e' (a\<lparr>a_halted := h'\<rparr>)"
    by (rule state_call [OF linkedD(1) [OF s(2)] body])
  have "consume out (pb_out (emit_action c p)) b0 = Some (rm, e')"
    by (rule consume_one [OF s(1) _ parse_encoded(6) [OF st, where state = "ch c" and ts = "pb_seq p"]])
       (use e'(1) c in \<open>auto simp: emit_action_def apply_message_def apply_action_def reply_as_def split: if_splits\<close>)
  moreover have "linked (emit_action c p) d rm e' (a\<lparr>a_halted := h'\<rparr>)"
    by (rule linked_cong [OF linked_state [OF s(2) e'(2)]]) (simp_all add: emit_action_def)
  ultimately show ?thesis by (rule in_syncI) (use s in simp_all)
qed

lemma emit_action_fields [simp]:
  "pb_engine (emit_action c p) = pb_engine p" "pb_stock (emit_action c p) = pb_stock p" "pb_refs (emit_action c p) = pb_refs p"
  "pb_next_ref (emit_action c p) = pb_next_ref p" "pb_in_cross (emit_action c p) = pb_in_cross p"
  by (simp_all add: emit_action_def)

lemma fed_halt:
  assumes y: "fed out b0 lo n p a" and p': "pub_halt p = Some (u, p')"
  shows "fed out b0 lo n p' (snd (a_call Halt a))"
proof -
  let ?p = "emit_action CHR ''H'' p"
  note F = fedD [OF y]
  have a: "stands_for (pb_engine ?p) a" using F(1) by simp
  obtain r q evs where *: "pub_call halt ?p = Some (r, q)" "stands_for (pb_engine q) (snd (a_call Halt a))"
    "RVoid = fst (a_call Halt a)" "q = fold pub_event evs (?p\<lparr>pb_engine := pb_engine q\<rparr>)" "a_tape (snd (a_call Halt a)) = a_tape a @ evs"
    "e_tape (pb_engine q) = a_tape (snd (a_call Halt a))"
    by (rule pub_call_events [where f = halt and h = "\<lambda>_. RVoid", OF a call.simps(9)])
  have c: "a_call Halt a = (RVoid, a\<lparr>a_halted := True\<rparr>)" by (simp add: a_call_def a_run_def)
  then have "evs = []" using *(5) by simp
  note kept = kept_fields [OF this *(4)]
  have "in_sync out b0 lo n True ?p (placed lo n a)" by (rule sync_action [OF F(5,6)]) simp
  then have "in_sync out b0 lo n True q (placed lo n a)" by (rule in_sync_cong) (simp_all add: kept)
  moreover have "placed lo n (a\<lparr>a_halted := True\<rparr>) = placed lo n a" by (rule placed_cong) (simp_all add: displayed_def)
  moreover have "q = p'" using p' *(1) by (simp add: pub_halt_def)
  ultimately show ?thesis using y *(2) kept by (simp add: c fed_def)
qed

lemma fed_resume:
  assumes y: "fed out b0 lo n p a" and p': "pub_resume p = Some (u, p')" and sm: "small (e_tape (pb_engine p'))" and un: "uncrossed a"
  shows "fed out b0 lo n p' (snd (a_call Resume a))"
proof -
  let ?p = "emit_action CHR ''T'' p" and ?x = "a\<lparr>a_halted := False\<rparr>"
  note F = fedD [OF y]
  have a: "stands_for (pb_engine ?p) a" using F(1) by simp
  obtain r q evs where *: "pub_call resume ?p = Some (r, q)" "stands_for (pb_engine q) (snd (a_call Resume a))"
    "RVoid = fst (a_call Resume a)" "q = fold pub_event evs (?p\<lparr>pb_engine := pb_engine q\<rparr>)" "a_tape (snd (a_call Resume a)) = a_tape a @ evs"
    "e_tape (pb_engine q) = a_tape (snd (a_call Resume a))"
    by (rule pub_call_events [where f = resume and h = "\<lambda>_. RVoid", OF a call.simps(10)])
  have eq: "q = p'" using p' *(1) by (simp add: pub_resume_def)
  obtain e1 where e1: "refines e1 ?x" using body_forward [OF F(2), of Resume] by auto
  have same: "a_call Resume ?x = a_call Resume a" by (simp add: a_call_def a_run_def)
  have cx: "continuous ?x" using un by (simp add: continuous_def uncrossed_def)
  have "tells (a_halted ?x) False ?x (snd (a_run (a_body Resume) ?x))"
    by (rule run_tells [where f = "a_body Resume", of e1]) (use e1 cx in \<open>simp_all add: tells_same\<close>)
  then have t: "tells False False ?x (snd (a_call Resume a))" using same by (simp add: a_call_def)
  have cb: "continuous (snd (a_call Resume a))" using continuous_call [OF e1 cx, of Resume] same by simp
  have fr: "a_n (snd (a_call Resume a)) = a_n a" "a_min (snd (a_call Resume a)) = a_min a"
    using frame_pump by (simp_all add: a_call_def a_run_def Let_def)
  have le: "length (a_tape a) + length evs < 2 ^ 64 - 1" "\<forall>ev\<in>set evs. fits ev" using sm *(5,6) eq by (auto simp: small_def)
  have w: "wired lo n (length evs) ?p" using fed_wired [OF y le(1)] by (simp add: wired_def)
  have y1: "in_sync out b0 lo n False ?p (placed lo n a)" by (rule sync_action [OF F(5,6)]) simp
  have rp: "d_replay (a_min a) False (pb_in_cross ?p) evs (displayed a) = Some (displayed (snd (a_call Resume a)))"
    using t *(5) F(4) by (auto simp: tells_def)
  have nr: "unat (pb_next_ref ?p) + length evs \<le> Suc (length (a_tape (snd (a_call Resume a))))" using y *(5) by (simp add: fed_def)
  let ?q = "?p\<lparr>pb_engine := pb_engine q\<rparr>"
  have y2: "in_sync out b0 lo n False ?q (placed lo n a)" by (rule in_sync_cong [OF y1]) simp_all
  have pq: "pb_in_cross p' = pb_in_cross p" "pb_stock p' = pb_stock p"
    unfolding eq [symmetric] by (subst *(4), simp add: events_fields)+
  show ?thesis
    by (rule fed_told [where p = ?q, OF y2 _ _ F(7,8) le(2) _ *(2)])
       (use w rp nr cb fr eq *(4) F(4) pq in \<open>simp_all add: continuous_def wired_def\<close>)
qed

section \<open>The auction\<close>

lemma parse_cross: "parse (encode_cross [] ts q stock px m ct) out = Some (False, out\<lparr>m_type := Other\<rparr>)"
proof -
  have "encode_cross [] ts q stock px m ct = enc_head [] CHR ''Q'' ts @ (enc64 [] q @ stock @ enc32 [] px @ enc64 [] m @ [ct])"
    by (simp add: encode_cross_def enc_head_def enc16_def enc32_def enc48_def enc64_def)
  then show ?thesis by (simp add: parse_def head_type)
qed

lemma sync_skip:
  assumes "in_sync out b0 lo n h p d" "pb_refs p' = pb_refs p" "pb_next_ref p' = pb_next_ref p" "pb_out p' = pb_out p @ [m]"
    "parse m out = Some (False, x)"
  shows "in_sync out b0 lo n h p' d"
  using assms linked_cong [OF _ assms(2,3)] unfolding in_sync_def by (fastforce simp: consume_append)

text \<open>One step of the crossing loop takes the same quantity from both heads, if nothing is hidden.\<close>

definition no_reserve :: "astate \<Rightarrow> bool" where
  "no_reserve a \<longleftrightarrow> (\<forall>s. \<forall>os\<in>set (a_books a s). \<forall>r\<in>set os. r_reserve r = 0)"

lemma no_reserve_cong: "a_books b = a_books a \<Longrightarrow> no_reserve b = no_reserve a"
  by (simp add: no_reserve_def)

lemma clip_fill:
  assumes o: "orderly a" and n: "no_reserve a" and i: "i < length (a_books a s)" and os: "a_books a s ! i = r # os"
    and f: "f \<le> r_qty r" "f \<noteq> 0"
  shows "displayed (a_clip s i f px a) = d_fill (r_id r) f (displayed a)" "orderly (a_clip s i f px a)"
    "no_reserve (a_clip s i f px a)" "a_tape (a_clip s i f px a) = a_tape a" "a_min (a_clip s i f px a) = a_min a"
    "t \<noteq> s \<Longrightarrow> a_books (a_clip s i f px a) t = a_books a t" "length (a_books (a_clip s i f px a) t) = length (a_books a t)"
proof -
  have mem: "r # os \<in> set (a_books a s)" using i os by (metis nth_mem)
  then have z: "r_reserve r = 0" "\<forall>x\<in>set os. r_reserve x = 0" using n unfolding no_reserve_def by fastforce+
  let ?os = "(if f < r_qty r then [r\<lparr>r_qty := r_qty r - f, r_reserve := 0\<rparr>] else []) @ os"
  have fill: "a_auction_fill f px (r # os) = ([], ?os)" using f(1) z(1) by (auto simp: a_auction_fill_def Let_def)
  then have c: "a_clip s i f px a = a_level s i ?os a" by (simp add: a_clip_def os)
  have b: "a_books (a_clip s i f px a) = (a_books a)(s := (a_books a s)[i := ?os])" unfolding c by simp
  have "shows_level s i (a_books a s ! i) (displayed a)" using o i unfolding orderly_def by blast
  then have l: "shows_level s i (r # os) (displayed a)" unfolding os .
  note l' = shows_levelD [OF l]
  have "show_level ?os = show_level ((if f < r_qty r then [r\<lparr>r_qty := r_qty r - f\<rparr>] else []) @ os)" by simp
  then show "displayed (a_clip s i f px a) = d_fill (r_id r) f (displayed a)"
    using displayed_level [OF b] fill_head [OF l, of f] by simp
  have "sound (r\<lparr>r_qty := r_qty r - f, r_reserve := 0\<rparr>)" if "f < r_qty r"
    using that l'(4) [of r] by (auto simp: sound_def)
  moreover have "r_side r = s" "\<forall>x\<in>set os. sound x \<and> r_side x = s" using l'(4) by simp_all
  ultimately have "\<forall>x\<in>set ?os. sound x \<and> r_side x = s" by (cases "f < r_qty r") simp_all
  moreover have "distinct (map r_id ?os)" "r_id ` set ?os \<subseteq> r_id ` set (a_books a s ! i)" using l'(3) by (cases "f < r_qty r", simp_all add: os subset_insertI)+
  ultimately show "orderly (a_clip s i f px a)" using orderly_update(1) [OF o b i] by blast
  show "no_reserve (a_clip s i f px a)"
    unfolding no_reserve_def b
  proof (intro allI ballI)
    fix t xs x assume xs: "xs \<in> set (((a_books a)(s := (a_books a s)[i := ?os])) t)" "x \<in> set xs"
    then have "xs = ?os \<or> xs \<in> set (a_books a t)"
      using set_update_subset_insert [of "a_books a s" i ?os] by (cases "t = s") auto
    moreover have "\<forall>x\<in>set ?os. r_reserve x = 0" using z(2) by auto
    ultimately show "r_reserve x = 0" using n xs(2) unfolding no_reserve_def by blast
  qed
  show "a_tape (a_clip s i f px a) = a_tape a" "a_min (a_clip s i f px a) = a_min a" unfolding c by simp_all
  show "t \<noteq> s \<Longrightarrow> a_books (a_clip s i f px a) t = a_books a t" "length (a_books (a_clip s i f px a) t) = length (a_books a t)"
    unfolding b by simp_all
qed

lemma cross_step_tells:
  assumes o: "orderly a" and n: "no_reserve a"
    and i: "i < length (a_books a Buy)" "a_books a Buy ! i = bid # bs" and j: "j < length (a_books a Sell)" "a_books a Sell ! j = ask # as"
    and f: "f \<le> r_qty bid" "f \<le> r_qty ask" "f \<noteq> 0"
  shows "tells True True a (a_cross_step i j f p a) \<and> orderly (a_cross_step i j f p a) \<and> no_reserve (a_cross_step i j f p a)"
proof -
  define t where "t = \<lparr>t_taker = r_id bid, t_maker = r_id ask, t_price = p, t_qty = f, t_side = Buy\<rparr>"
  define a1 where "a1 = a_emit (Traded t) (a\<lparr>a_last := p, a_has_last := True\<rparr>)"
  have step: "d_step (a_min a) True True (Traded t) (displayed a) = Some (d_fill (r_id ask) f (d_fill (r_id bid) f (displayed a)))"
    unfolding d_step_def event.case by (simp add: t_def)
  have b1: "a_books a1 = a_books a" by (simp add: a1_def)
  have a1: "orderly a1" "no_reserve a1" "displayed a1 = displayed a"
    using o n orderly_cong [OF b1] no_reserve_cong [OF b1] displayed_cong [OF b1] by simp_all
  let ?a2 = "a_clip Buy i f p a1" and ?a3 = "a_clip Sell j f p (a_clip Buy i f p a1)"
  note c2 = clip_fill [where s = Buy and px = p, OF a1(1,2) i [folded b1] f(1,3)]
  have j2: "j < length (a_books ?a2 Sell)" "a_books ?a2 Sell ! j = ask # as" using c2(6,7) j b1 by simp_all
  note c3 = clip_fill [where s = Sell and px = p, OF c2(2,3) j2 f(2,3)]
  have eq: "a_cross_step i j f p a = ?a3" by (simp add: a_cross_step_def Let_def a1_def t_def i j)
  have "tells True True a ?a3"
    by (rule tells_step [where ev = "Traded t"]) (simp_all add: c2 c3 a1 step, simp_all add: a1_def)
  with c3 eq show ?thesis by simp
qed

lemma cross_tells:
  "orderly a \<Longrightarrow> no_reserve a \<Longrightarrow> tells True True a (snd (a_cross p_idx p crossed a))"
proof (induction p_idx p crossed a rule: a_cross.induct)
  case (1 p_idx p crossed a)
  note same = tells_same [of a a True True, OF refl refl refl]
  show ?case
  proof (cases "highest (a_books a Buy)"; cases "lowest (a_books a Sell)")
    fix i j assume h: "highest (a_books a Buy) = Some i" "lowest (a_books a Sell) = Some j"
    note hi = highest_in [OF h(1)] and lo = lowest_in [OF h(2)]
    obtain bid bs ask as where b: "a_books a Buy ! i = bid # bs" "a_books a Sell ! j = ask # as"
      using hi lo by (meson list.exhaust)
    let ?f = "if ro_total (hd (a_books a Buy ! i)) < ro_total (hd (a_books a Sell ! j))
      then ro_total (hd (a_books a Buy ! i)) else ro_total (hd (a_books a Sell ! j))"
    have "bid # bs \<in> set (a_books a Buy)" "ask # as \<in> set (a_books a Sell)" using hi lo b by (metis nth_mem)+
    then have "r_reserve bid = 0" "r_reserve ask = 0" using "1.prems"(2) unfolding no_reserve_def by fastforce+
    then have f: "?f \<le> r_qty bid" "?f \<le> r_qty ask" by (auto simp: b ro_total_def)
    show ?thesis
    proof (cases "p_idx \<le> i \<and> j \<le> p_idx \<and> ?f \<noteq> 0")
      case True
      then have st: "tells True True a (a_cross_step i j ?f p a) \<and> orderly (a_cross_step i j ?f p a) \<and> no_reserve (a_cross_step i j ?f p a)"
        using cross_step_tells [OF "1.prems" conjunct1 [OF hi] b(1) conjunct1 [OF lo] b(2) f] by blast
      have "tells True True (a_cross_step i j ?f p a) (snd (a_cross p_idx p (crossed + ?f) (a_cross_step i j ?f p a)))"
        by (rule "1.IH" [OF _ refl refl refl refl refl True]) (use h st in simp_all)
      with tells_trans [OF conjunct1 [OF st] this] h True show ?thesis
        by (subst a_cross.simps) (simp add: Let_def)
    qed (subst a_cross.simps, auto simp: h Let_def same)
  qed (subst a_cross.simps, simp add: same)+
qed

lemma uncross_tells: "orderly a \<Longrightarrow> no_reserve a \<Longrightarrow> tells True True a (snd (a_uncross a))"
  using cross_tells tells_same [of a a True True, OF refl refl refl]
  by (simp add: a_uncross_def Let_def split: option.splits prod.splits)

text \<open>The orders with a hidden reserve machinery; an auction without them prints everything it trades.\<close>

definition open_icebergs :: "engine \<Rightarrow> OrderId list" where
  "open_icebergs e = filter (\<lambda>i. case lookup (e_store e) i of None \<Rightarrow> False | Some ord \<Rightarrow> flag ord kIceberg)
     [0..<length (st_orders (e_store e))]"

lemma no_icebergs:
  assumes r: "refines e a" and n: "open_icebergs e = []"
  shows "no_reserve a"
  unfolding no_reserve_def
proof (intro allI ballI)
  fix s os x assume os: "os \<in> set (a_books a s)" "x \<in> set os"
  note e = refinesD(1) [OF r]
  obtain i where i: "i < e_n e" "x \<in> set (a_books a s ! i)" using os erel_lengths(1) [OF e] by (metis in_set_conv_nth)
  have v: "view (e_store e) (r_id x) = Some x" by (rule level_order(1) [OF e i])
  obtain ord where o: "lookup (e_store e) (r_id x) = Some ord" "\<not> flag ord kIceberg \<Longrightarrow> r_reserve x = 0"
    by (rule view_node [OF erelD(5) [OF e] v]) blast
  have "r_id x < length (st_orders (e_store e))" using o(1) by (auto simp: lookup_def split: if_splits)
  with n o show "r_reserve x = 0" by (force simp: open_icebergs_def filter_empty_conv)
qed

lemma uncross_frame: "a_halted (snd (a_uncross a)) = a_halted a \<and> a_n (snd (a_uncross a)) = a_n a \<and> a_min (snd (a_uncross a)) = a_min a"
  using cross_frame by (simp add: a_uncross_def frame_def Let_def case_prod_beta split: option.splits)

lemma uncross_call_halted: "a_halted a \<Longrightarrow> a_call Uncross a = a_body Uncross a"
  using uncross_frame [of a] by (cases "a_uncross a") (simp add: a_call_def a_run_def)

lemma fed_uncross:
  assumes y: "fed out b0 lo n p a" and p': "pub_uncross p = Some (tot, p')" and sm: "small (e_tape (pb_engine p'))"
    and ice: "a_halted a \<Longrightarrow> open_icebergs (pb_engine p) = []"
  shows "fed out b0 lo n p' (snd (a_call Uncross a))"
proof -
  let ?p = "p\<lparr>pb_in_cross := True\<rparr>" and ?b = "snd (a_call Uncross a)"
  note F = fedD [OF y]
  have a: "stands_for (pb_engine ?p) a" using F(1) by simp
  obtain r q evs where *: "pub_call uncross ?p = Some (r, q)" "stands_for (pb_engine q) ?b"
    "RQty r = fst (a_call Uncross a)" "q = fold pub_event evs (?p\<lparr>pb_engine := pb_engine q\<rparr>)" "a_tape ?b = a_tape a @ evs"
    "e_tape (pb_engine q) = a_tape ?b"
    by (rule pub_call_events [where f = uncross and h = RQty, OF a call.simps(11)])
  let ?q = "q\<lparr>pb_in_cross := False\<rparr>"
  have pe: "pb_engine p' = pb_engine q" "pb_stock p' = pb_stock q" "pb_in_cross p' = False" "pb_refs p' = pb_refs q" "pb_next_ref p' = pb_next_ref q"
    using p' *(1) by (auto simp: pub_uncross_def Let_def split: if_splits)
  have "fed out b0 lo n ?q ?b"
  proof (cases "a_halted a")
    case True
    have "a_body Uncross a = map_prod RQty id (a_uncross a)" by simp
    then have t: "tells True True a ?b" "a_halted ?b = True" "a_n ?b = a_n a" "a_min ?b = a_min a"
      using uncross_tells [OF erel_orderly [OF refinesD(1) [OF F(2)]] no_icebergs [OF F(2) ice [OF True]]] uncross_frame [of a] True
      by (simp_all add: uncross_call_halted [OF True])
    have le: "length (a_tape a) + length evs < 2 ^ 64 - 1" "\<forall>ev\<in>set evs. fits ev"
      using sm *(5,6) pe(1) by (auto simp: small_def)
    let ?p1 = "?p\<lparr>pb_engine := pb_engine q\<rparr>"
    have y1: "in_sync out b0 lo n True ?p1 (placed lo n a)" using in_sync_cong [OF F(5), of ?p1] True by simp
    have w: "wired lo n (length evs) ?p1" using fed_wired [OF y le(1)] by (simp add: wired_def)
    have rp: "d_replay (a_min a) True (pb_in_cross ?p1) evs (displayed a) = Some (displayed ?b)"
      using t(1) *(5) by (auto simp: tells_def)
    have nr: "unat (pb_next_ref ?p1) + length evs \<le> Suc (length (a_tape ?b))" using y *(5) by (simp add: fed_def)
    have st: "pb_stock q = pb_stock p" by (subst *(4)) (simp add: events_fields)
    show ?thesis
      by (rule fed_told [where p = ?p1, OF y1 w rp F(7,8) le(2) nr *(2)]) (use t *(4) st in \<open>simp_all add: arg_cong [OF *(4) [symmetric]]\<close>)
  next
    case False
    then have "continuous a" using F(3) by (simp add: continuous_def)
    then have c: "a_call Uncross a = (RQty 0, a)" using call_noop [of a Uncross] uncross_continuous F(1) by (simp add: stands_for_def)
    then have "evs = []" using *(5) by simp
    then have "q = ?p\<lparr>pb_engine := pb_engine q\<rparr>" using *(4) by simp
    note k = arg_cong [OF this, of pb_refs] arg_cong [OF this, of pb_next_ref] arg_cong [OF this, of pb_out] arg_cong [OF this, of pb_stock]
    have "fed out b0 lo n ?q a" by (rule fed_quiet [OF y]) (use k *(2) c F(4) in simp_all)
    then show ?thesis by (simp add: c)
  qed
  note fq = this
  show ?thesis
  proof (cases "0 < r")
    case True
    have eq: "p' = publish (encode_cross [] (pb_seq ?q) r (pb_stock ?q) (price32 (e_last_px (pb_engine ?q))) (pb_match ?q + 1) (ch CHR ''O''))
        (?q\<lparr>pb_match := pb_match ?q + 1\<rparr>)"
      using p' *(1) True by (auto simp: pub_uncross_def Let_def)
    have "in_sync out b0 lo n (a_halted ?b) p' (placed lo n ?b)"
      by (rule sync_skip [OF fedD(5) [OF fq] _ _ _ parse_cross]) (simp_all add: eq)
    then show ?thesis using fq pe *(2) by (simp add: fed_def)
  next
    case False
    then have "p' = ?q" using p' *(1) by (simp add: pub_uncross_def Let_def)
    with fq show ?thesis by simp
  qed
qed

end
