(* ===== verification/Feed_Properties.thy ===== *)
theory Feed_Properties
  imports Feed_Calls
begin

text \<open>
  Histories of a publisher and the theorem of the loop: whoever parses and applies the published
  messages holds the displayed book.
\<close>

section \<open>The order walk of a displayed book\<close>

definition walk :: "Price \<Rightarrow> Side \<Rightarrow> dlevel list \<Rightarrow> (OrderId \<times> Side \<times> Price \<times> Qty) list" where
  "walk lo s oss = (let rows = map (\<lambda>i. map (\<lambda>(oid, q). (oid, s, lo + int i, q)) (oss ! i)) [0..<length oss]
     in concat (case s of Buy \<Rightarrow> rev rows | Sell \<Rightarrow> rows))"

definition rename :: "(OrderId \<Rightarrow> OrderId) \<Rightarrow> (OrderId \<times> Side \<times> Price \<times> Qty) list \<Rightarrow> (OrderId \<times> Side \<times> Price \<times> Qty) list" where
  "rename \<tau> = map (\<lambda>(oid, s, px, q). (\<tau> oid, s, px, q))"

lemma visit_walk:
  assumes r: "refines e a"
  shows "visit_orders e s = Some (walk (a_min a) s (displayed a s))"
proof -
  note e = refinesD(1) [OF r]
  have row: "map shown (a_books a s ! i) = map (\<lambda>(oid, q). (oid, s, a_min a + int i, q)) (displayed a s ! i)"
    if "i < length (a_books a s)" for i
    using level_order(3,4) [OF e, of i _ s] that erel_lengths(1) [OF e] erelD(1) [OF e] by (auto simp: shown_def show_level_def)
  have "map (map shown) (a_books a s) =
      map (\<lambda>i. map (\<lambda>(oid, q). (oid, s, a_min a + int i, q)) (displayed a s ! i)) [0..<length (displayed a s)]"
    using row by (intro nth_equalityI) simp_all
  then have "map shown (queue s a) = walk (a_min a) s (displayed a s)"
    by (cases s) (simp_all add: queue_concat walk_def Let_def map_concat rev_map [symmetric])
  with visit_orders_sim [OF e, of s] show ?thesis by simp
qed

lemma walk_ren: "walk lo s (ren \<tau> d s) = rename \<tau> (walk lo s (d s))"
proof -
  have "map (\<lambda>i. map (\<lambda>(oid, q). (oid, s, lo + int i, q)) (ren \<tau> d s ! i)) [0..<length (ren \<tau> d s)] =
      map (rename \<tau>) (map (\<lambda>i. map (\<lambda>(oid, q). (oid, s, lo + int i, q)) (d s ! i)) [0..<length (d s)])"
    by (auto simp: rename_def ren_level_def)
  then show ?thesis
    by (cases s) (simp_all only: walk_def Let_def Side.case rev_map map_concat rename_def)
qed

lemma walk_widen: "walk lo s (widen k m d s) = walk (lo + int k) s (d s)"
proof -
  let ?row = "\<lambda>lo oss i. map (\<lambda>(oid, q). (oid, s, lo + int i, q)) (oss ! i)"
  let ?w = "widen k m d s" and ?n = "length (d s)"
  have upt: "map ((+) j) [0..<l] = [j..<j + l]" for j l
    by (rule nth_equalityI) simp_all
  have "[0..<length ?w] = [0..<k] @ map ((+) k) [0..<?n] @ map ((+) (k + ?n)) [0..<m]"
    unfolding upt using upt_add_eq_append [of 0 k "?n + m"] upt_add_eq_append [of k "k + ?n" m] by (simp add: add.assoc)
  moreover have "map (?row lo ?w) [0..<k] = replicate k []" "map (?row lo ?w \<circ> (+) (k + ?n)) [0..<m] = replicate m []"
    by (intro nth_equalityI; simp add: widen_nth)+
  moreover have "map (?row lo ?w \<circ> (+) k) [0..<?n] = map (?row (lo + int k) (d s)) [0..<?n]"
    by (intro map_cong refl) (simp add: widen_nth add.assoc)
  ultimately have "map (?row lo ?w) [0..<length ?w] = replicate k [] @ map (?row (lo + int k) (d s)) [0..<?n] @ replicate m []"
    by (simp only: map_append map_map)
  moreover have "concat (replicate j []) = []" for j by (induction j) simp_all
  ultimately show ?thesis by (cases s) (simp_all add: walk_def Let_def)
qed

lemma sides: "(\<Union>s. f s) = f Buy \<union> f Sell"
  by (auto) (metis Side.exhaust)

lemma walk_ids: "fst ` set (walk lo Buy (d Buy)) \<union> fst ` set (walk lo Sell (d Sell)) = book_ids d"
proof -
  have "set (walk lo s oss) = (\<Union>i<length oss. (\<lambda>(oid, q). (oid, s, lo + int i, q)) ` set (oss ! i))" for s oss
    by (cases s) (simp_all add: walk_def Let_def atLeast0LessThan)
  then have "fst ` set (walk lo s oss) = (\<Union>i<length oss. level_ids (oss ! i))" for s oss
    by (simp add: image_UN image_image level_ids_def case_prod_beta)
  moreover have "book_ids d = (\<Union>i<length (d Buy). level_ids (d Buy ! i)) \<union> (\<Union>i<length (d Sell). level_ids (d Sell ! i))"
    unfolding book_ids_def sides by (auto simp: set_conv_nth)
  ultimately show ?thesis by simp
qed

section \<open>Histories\<close>

fun pub_run :: "api list \<Rightarrow> publisher \<Rightarrow> publisher option" where
  "pub_run [] p = Some p"
| "pub_run (c # cs) p = do { (r, p1) \<leftarrow> pub_api c p; pub_run cs p1 }"

text \<open>
  What the round trip asks of the operator: trading resumes on a book that is not crossed, and
  an auction is run while no iceberg rests.
\<close>

definition crossed_book :: "engine \<Rightarrow> bool" where
  "crossed_book e \<longleftrightarrow> has_bid e \<and> has_ask e \<and> best_ask e \<le> best_bid e"

definition careful :: "api \<Rightarrow> engine \<Rightarrow> bool" where
  "careful c e \<longleftrightarrow> (c = Resume \<longrightarrow> \<not> crossed_book e) \<and> (c = Uncross \<and> e_halted e \<longrightarrow> open_icebergs e = [])"

fun careful_run :: "api list \<Rightarrow> publisher \<Rightarrow> bool" where
  "careful_run [] p = True"
| "careful_run (c # cs) p = (careful c (pb_engine p) \<and> (case pub_api c p of None \<Rightarrow> True | Some (r, p1) \<Rightarrow> careful_run cs p1))"

lemma not_crossed:
  assumes r: "refines e a" and c: "\<not> crossed_book e"
  shows "uncrossed a"
  unfolding uncrossed_def
proof (intro ballI)
  note e = refinesD(1) [OF r]
  fix i j assume ij: "i \<in> occ (a_books a Buy)" "j \<in> occ (a_books a Sell)"
  have "is_max (occ (a_books a Buy)) (bk_best (e_bids e))" "is_min (occ (a_books a Sell)) (bk_best (e_asks e))"
    using erel_best [OF e, of Buy] erel_best [OF e, of Sell] by (simp_all add: best_rel_def book_of_sides)
  then have "int i \<le> bk_best (e_bids e)" "bk_best (e_asks e) \<le> int j" "0 \<le> bk_best (e_asks e)"
    using ij by (auto simp: is_max_def is_min_def split: if_splits)
  with c show "i < j" by (auto simp: crossed_book_def has_bid_def has_ask_def best_bid_def best_ask_def)
qed

lemma pub_reply_Some: "pub_reply f x = Some (r, p') \<Longrightarrow> \<exists>r0. x = Some (r0, p')"
  by (cases x) (auto simp: pub_reply_def)

lemma halted_sim: "refines e a \<Longrightarrow> e_halted e = a_halted a"
  using erelD(14) [OF refinesD(1)] by simp

text \<open>Every call of a publisher returns, and its engine does what the bare engine does.\<close>

lemma pub_call_total:
  assumes a: "stands_for (pb_engine p) a" and q: "pb_engine q = pb_engine p" and f: "call c (pb_engine p) = reply_as h (f (pb_engine p))"
  shows "\<exists>r p'. pub_call f q = Some (r, p') \<and> stands_for (pb_engine p') (snd (a_call c a)) \<and>
    (\<exists>evs. e_tape (pb_engine p') = e_tape (pb_engine p) @ evs)"
proof -
  have "stands_for (pb_engine q) a" "call c (pb_engine q) = reply_as h (f (pb_engine q))" using a q f by simp_all
  then show ?thesis
  proof (rule pub_call_events [where f = f and h = h])
    fix r p' evs assume "pub_call f q = Some (r, p')" "stands_for (pb_engine p') (snd (a_call c a))"
      "a_tape (snd (a_call c a)) = a_tape a @ evs" "e_tape (pb_engine p') = a_tape (snd (a_call c a))"
    moreover have "e_tape (pb_engine p) = a_tape a" using a erelD(16) [OF refinesD(1)] by (auto simp: stands_for_def)
    ultimately show ?thesis by auto
  qed
qed

lemma pub_api_total:
  assumes a: "stands_for (pb_engine p) a"
  shows "\<exists>r p'. pub_api c p = Some (r, p') \<and> stands_for (pb_engine p') (snd (a_call c a)) \<and>
    (\<exists>evs. e_tape (pb_engine p') = e_tape (pb_engine p) @ evs)"
proof (cases "steady c \<and> silent c = None")
  case True
  with pub_call_total [where f = "call c" and h = id and q = p, OF a] show ?thesis by (simp add: pub_api_call)
next
  case False
  then consider (red) oid d where "c = ReduceOrder oid d" | (modi) oid px d where "c = ModifyOrder oid px d"
    | (halt) "c = Halt" | (res) "c = Resume" | (unc) "c = Uncross"
    by (cases c) (auto simp: steady_def silent_def)
  then show ?thesis
  proof cases
    case (red oid d)
    then show ?thesis
      using pub_call_total [where f = "reduce oid d" and h = RBool and q = p and c = c, OF a]
      by (auto simp: pub_reply_def pub_reduce_def Let_def)
  next
    case (modi oid px d)
    then show ?thesis
      using pub_call_total [where f = "modify oid px d" and h = RBool and q = "p\<lparr>pb_saw_book_event := False\<rparr>" and c = c, OF a]
      by (auto simp: pub_reply_def pub_modify_def Let_def)
  next
    case halt
    then show ?thesis
      using pub_call_total [where f = halt and h = "\<lambda>_. RVoid" and q = "emit_action CHR ''H'' p" and c = c, OF a]
      by (auto simp: pub_reply_def pub_halt_def)
  next
    case res
    then show ?thesis
      using pub_call_total [where f = resume and h = "\<lambda>_. RVoid" and q = "emit_action CHR ''T'' p" and c = c, OF a]
      by (auto simp: pub_reply_def pub_resume_def)
  next
    case unc
    obtain r q where q: "pub_call uncross (p\<lparr>pb_in_cross := True\<rparr>) = Some (r, q)"
      "stands_for (pb_engine q) (snd (a_call c a))" "\<exists>evs. e_tape (pb_engine q) = e_tape (pb_engine p) @ evs"
      using pub_call_total [where f = uncross and h = RQty and q = "p\<lparr>pb_in_cross := True\<rparr>" and c = c, OF a] unc by auto
    then show ?thesis by (auto simp: pub_reply_def pub_uncross_def Let_def unc)
  qed
qed

lemma fed_api:
  assumes y: "fed out b0 LO N p a" and p': "pub_api c p = Some (r, p')" and c: "careful c (pb_engine p)" and sm: "small (e_tape (pb_engine p'))"
  shows "fed out b0 LO N p' (snd (a_call c a))"
proof (cases "steady c \<and> silent c = None")
  case True
  show ?thesis by (rule fed_call [OF y conjunct1 [OF True] conjunct2 [OF True] p' sm])
next
  case False
  note F = fedD [OF y]
  show ?thesis
  proof (cases c)
    case Resume
    with fed_resume [OF y _ sm not_crossed [OF F(2)]] c p' show ?thesis by (auto simp: careful_def dest!: pub_reply_Some)
  next
    case Uncross
    with fed_uncross [OF y _ sm] c p' halted_sim [OF F(2)] show ?thesis by (auto simp: careful_def dest!: pub_reply_Some)
  qed (use False fed_reduce [OF y] fed_modify [OF y _ sm] fed_halt [OF y] p' in
      \<open>auto simp: steady_def silent_def dest!: pub_reply_Some\<close>)
qed

lemma pub_run_total:
  "stands_for (pb_engine p) a \<Longrightarrow> \<exists>p' a' evs. pub_run cs p = Some p' \<and> stands_for (pb_engine p') a' \<and>
     e_tape (pb_engine p') = e_tape (pb_engine p) @ evs"
proof (induction cs arbitrary: p a)
  case (Cons c cs)
  obtain r p1 evs where p1: "pub_api c p = Some (r, p1)" "stands_for (pb_engine p1) (snd (a_call c a))"
    "e_tape (pb_engine p1) = e_tape (pb_engine p) @ evs" using pub_api_total [OF Cons.prems] by blast
  with Cons.IH [OF p1(2)] show ?case by auto
qed auto

lemma pub_run_tape:
  "stands_for (pb_engine p) a \<Longrightarrow> pub_run cs p = Some p' \<Longrightarrow> \<exists>evs. e_tape (pb_engine p') = e_tape (pb_engine p) @ evs"
  using pub_run_total [of p a cs] by auto

lemma small_prefix: "small (xs @ ys) \<Longrightarrow> small xs"
  by (simp add: small_def)

lemma fed_run:
  assumes "fed out b0 LO N p a" "careful_run cs p" "pub_run cs p = Some p'" "small (e_tape (pb_engine p'))"
  shows "\<exists>a'. fed out b0 LO N p' a'"
  using assms
proof (induction cs arbitrary: p a)
  case (Cons c cs)
  obtain r p1 evs where p1: "pub_api c p = Some (r, p1)" "stands_for (pb_engine p1) (snd (a_call c a))"
    using pub_api_total [OF fedD(1) [OF Cons.prems(1)], of c] by blast
  then have run: "pub_run cs p1 = Some p'" "careful c (pb_engine p)" "careful_run cs p1" using Cons.prems(2,3) by simp_all
  have "small (e_tape (pb_engine p1))"
    using pub_run_tape [OF p1(2) run(1)] Cons.prems(4) small_prefix by metis
  from Cons.IH [OF fed_api [OF Cons.prems(1) p1(1) run(2) this] run(3,1) Cons.prems(4)] show ?case .
qed auto

section \<open>The beginning\<close>

lemma displayed_new: "displayed (astate_new lo hi) = (\<lambda>s. replicate (nat (hi - lo + 1)) [])"
  by (simp add: displayed_def astate_new_def Let_def)

lemma uncrossed_new: "uncrossed (astate_new lo hi)"
  using continuous_new [of lo hi] by (simp add: continuous_def)

lemma placed_new:
  assumes "lo \<le> hi" "LO \<le> lo" "hi \<le> HI"
  shows "displayed (astate_new LO HI) = placed LO (nat (HI - LO + 1)) (astate_new lo hi)"
proof -
  have "nat (HI - LO + 1) = nat (lo - LO) + nat (hi - lo + 1) + nat (HI - hi)" using assms by simp
  moreover have "a_min (astate_new lo hi) = lo" "int (a_n (astate_new lo hi)) = hi - lo + 1"
    "LO + int (nat (HI - LO + 1)) - (lo + (hi - lo + 1)) = HI - hi"
    using assms by (simp_all add: astate_new_def Let_def)
  ultimately show ?thesis by (simp add: placed_def widen_def displayed_new replicate_add)
qed

lemma fed_new:
  assumes c: "0 < chunk" "0 < chunk'" and band: "lo \<le> hi" "LO \<le> lo" "hi \<le> HI" "0 \<le> LO" "HI < 2 ^ 32"
    and p: "publisher_new chunk lo hi stock expected = Some p" and e: "engine_new chunk' LO HI expected' = Some e0"
  shows "fed out (Map.empty, e0) LO (nat (HI - LO + 1)) p (astate_new lo hi)"
proof -
  let ?a = "astate_new lo hi" and ?b = "astate_new LO HI" and ?d = "placed LO (nat (HI - LO + 1)) (astate_new lo hi)"
  have bo: "band_ok lo hi" "band_ok LO HI" using band by (simp_all add: band_ok_def)
  obtain e where pe: "engine_new chunk lo hi expected = Some e" "pb_engine p = e" "pb_stock p = pad_stock stock" "pb_refs p = [no_ref]"
    "pb_out p = []" "pb_next_ref p = 1" "\<not> pb_in_cross p"
    using p by (auto simp: publisher_new_def bind_eq_Some_conv)
  have sl: "slot p oid = None" for oid by (cases oid) (auto simp: slot_def pe no_ref_def)
  note d = placed_new [OF band(1-3), symmetric]
  have "length (pad_stock stock) = 8" by (simp add: pad_stock_def Let_def)
  moreover have "rebuilt e0 ?b" by (rule rebuilt_new [OF c(2) bo(2) e])
  moreover have "book_ids ?d = {}" "\<not> has ?d oid q" for oid q
    unfolding d by (auto simp: displayed_new book_ids_def has_def)
  moreover have "displayed ?b = ren id ?d" unfolding d by (simp add: displayed_new ren_def)
  ultimately have "linked p ?d Map.empty e0 ?b" "length (pb_stock p) = 8"
    unfolding linked_def by (auto simp: sl pe)
  moreover have "\<not> a_halted ?a" "a_tape ?a = []" "a_min ?a = lo" "int (a_n ?a) = hi - lo + 1"
    "\<not> a_halted ?b" "a_min ?b = LO" "a_n ?b = nat (HI - LO + 1)" "LO + int (nat (HI - LO + 1)) = HI + 1"
    using band by (simp_all add: astate_new_def Let_def)
  ultimately show ?thesis
    using stands_for_new [OF c(1) bo(1) pe(1)] band pe uncrossed_new [of lo hi] by (auto simp: fed_def in_sync_def)
qed

section \<open>The loop closes\<close>

lemma feed_rebuilds:
  assumes "0 < chunk" "0 < chunk'" "lo \<le> hi" "LO \<le> lo" "hi \<le> HI" "0 \<le> LO" "HI < 2 ^ 32"
    "publisher_new chunk lo hi stock expected = Some p0" "engine_new chunk' LO HI expected' = Some e0"
  shows "\<exists>p bids asks. pub_run cs p0 = Some p \<and>
    visit_orders (pb_engine p) Buy = Some bids \<and> visit_orders (pb_engine p) Sell = Some asks \<and>
    (careful_run cs p0 \<and> small (e_tape (pb_engine p)) \<longrightarrow>
      (\<exists>rm e \<tau>. consume out (pb_out p) (Map.empty, e0) = Some (rm, e) \<and>
        visit_orders e Buy = Some (rename \<tau> bids) \<and> visit_orders e Sell = Some (rename \<tau> asks) \<and>
        inj_on \<tau> (fst ` set bids \<union> fst ` set asks) \<and>
        (\<forall>oid\<in>fst ` set bids \<union> fst ` set asks. \<exists>r. slot p oid = Some r \<and> rm (s_ref r) = Some (\<tau> oid)) \<and>
        e_halted e = e_halted (pb_engine p)))"
proof -
  note y0 = fed_new [OF assms, of out]
  obtain p a evs where p: "pub_run cs p0 = Some p" "stands_for (pb_engine p) a"
    using pub_run_total [OF fedD(1) [OF y0], of cs] by blast
  have r: "refines (pb_engine p) a" using p(2) by (simp add: stands_for_def)
  have fin: "\<exists>rm e \<tau>. consume out (pb_out p) (Map.empty, e0) = Some (rm, e) \<and>
      visit_orders e Buy = Some (rename \<tau> (walk (a_min a) Buy (displayed a Buy))) \<and>
      visit_orders e Sell = Some (rename \<tau> (walk (a_min a) Sell (displayed a Sell))) \<and>
      inj_on \<tau> (book_ids (displayed a)) \<and>
      (\<forall>oid\<in>book_ids (displayed a). \<exists>r. slot p oid = Some r \<and> rm (s_ref r) = Some (\<tau> oid)) \<and> e_halted e = e_halted (pb_engine p)"
    if cr: "careful_run cs p0" and sm: "small (e_tape (pb_engine p))"
  proof -
    obtain a' where y: "fed out (Map.empty, e0) LO (nat (HI - LO + 1)) p a'" using fed_run [OF y0 cr p(1) sm] by blast
    have walks: "walk (a_min a') s (displayed a' s) = walk (a_min a) s (displayed a s)" for s
      using visit_walk [OF fedD(2) [OF y], of s] visit_walk [OF r, of s] by simp
    have halted: "a_halted a' = e_halted (pb_engine p)" using halted_sim [OF fedD(2) [OF y]] by simp
    have bk: "book_ids (displayed a') = book_ids (displayed a)"
      using walks [of Buy] walks [of Sell] walk_ids [of "a_min a'" "displayed a'"] walk_ids [of "a_min a" "displayed a"] by simp
    let ?d = "placed LO (nat (HI - LO + 1)) a'"
    have dk: "book_ids ?d = book_ids (displayed a')" by (simp add: placed_def book_ids_widen)
    have dw: "walk LO s (?d s) = walk (a_min a') s (displayed a' s)" for s
      using fedD(7) [OF y] by (simp add: placed_def walk_widen)
    obtain rm e b where c: "consume out (pb_out p) (Map.empty, e0) = Some (rm, e)" "linked p ?d rm e b"
      "a_min b = LO" "a_halted b = a_halted a'"
      using fedD(5) [OF y] unfolding in_sync_def by blast
    obtain \<tau> where \<tau>: "inj_on \<tau> (book_ids ?d)" "displayed b = ren \<tau> ?d"
      "\<And>oid r. slot p oid = Some r \<Longrightarrow> rm (s_ref r) = Some (\<tau> oid)"
      using linked_names [OF c(2)] by blast
    have rb: "refines e b" using rebuiltD(2) [OF linkedD(1) [OF c(2)]] .
    have "visit_orders e s = Some (rename \<tau> (walk (a_min a) s (displayed a s)))" for s
      using visit_walk [OF rb, of s] by (simp add: c(3) \<tau>(2) walk_ren dw walks)
    moreover have "\<exists>r. slot p oid = Some r \<and> rm (s_ref r) = Some (\<tau> oid)" if "oid \<in> book_ids ?d" for oid
      using that \<tau>(3) linkedD(2) [OF c(2)] unfolding book_ids_has by blast
    moreover have "e_halted e = e_halted (pb_engine p)" using halted_sim [OF rb] halted c(4) by simp
    ultimately show ?thesis using c(1) \<tau>(1) unfolding dk bk by blast
  qed
  show ?thesis
    by (intro exI [of _ p] exI [of _ "walk (a_min a) Buy (displayed a Buy)"] exI [of _ "walk (a_min a) Sell (displayed a Sell)"]
        conjI impI p(1) visit_walk [OF r]) (simp only: walk_ids, blast intro: fin)
qed

lemma feed_walks:
  assumes "0 < chunk" "lo \<le> hi" "0 \<le> lo" "hi < 2 ^ 32"
    "publisher_new chunk lo hi stock expected = Some p0" "pub_run cs p0 = Some p"
  shows "\<exists>bids asks. visit_orders (pb_engine p) Buy = Some bids \<and> visit_orders (pb_engine p) Sell = Some asks"
proof -
  obtain e0 where "engine_new chunk lo hi expected = Some e0" using assms(5) by (auto simp: publisher_new_def bind_eq_Some_conv)
  from feed_rebuilds [OF assms(1,1,2) order_refl order_refl assms(3-5) this, of cs] assms(6) show ?thesis by fastforce
qed

text \<open>C3. The feed rebuilds the book.  Take a publisher on any band of 32-bit prices and any
  sequence of calls: limit, market, iceberg and stop orders, cancels, reductions, modifications,
  halts, resumes and auctions.  Every call returns.  If the quantities fit the 32-bit fields of
  the wire, trading was resumed on uncrossed books only, and no iceberg rested in an auction,
  then a book builder that parses and applies the published messages in order ends with the
  same displayed book: on both sides the same orders with the same prices and quantities in the
  same queue positions, under a one-to-one renaming of the order ids which its map records under
  the published references, and with the same halt state.\<close>

theorem feed_rebuilds_book:
  assumes "0 < chunk" "0 < chunk'" "lo \<le> hi" "0 \<le> lo" "hi < 2 ^ 32"
    "publisher_new chunk lo hi stock expected = Some p0" "engine_new chunk' lo hi expected' = Some e0"
  shows "\<exists>p bids asks. pub_run cs p0 = Some p \<and>
    visit_orders (pb_engine p) Buy = Some bids \<and> visit_orders (pb_engine p) Sell = Some asks \<and>
    (careful_run cs p0 \<and> small (e_tape (pb_engine p)) \<longrightarrow>
      (\<exists>rm e \<tau>. consume out (pb_out p) (Map.empty, e0) = Some (rm, e) \<and>
        visit_orders e Buy = Some (rename \<tau> bids) \<and> visit_orders e Sell = Some (rename \<tau> asks) \<and>
        inj_on \<tau> (fst ` set bids \<union> fst ` set asks) \<and>
        (\<forall>oid\<in>fst ` set bids \<union> fst ` set asks. \<exists>r. slot p oid = Some r \<and> rm (s_ref r) = Some (\<tau> oid)) \<and>
        e_halted e = e_halted (pb_engine p)))"
  by (rule feed_rebuilds [OF assms(1-3) order_refl order_refl assms(4-7)])

text \<open>A session with an iceberg, a stop that fires, amendments and a halt.\<close>

definition feed_demo :: "api list" where
  "feed_demo = demo @ [ReduceOrder 5 3, ModifyOrder 1 4 2, Halt, SubmitLimit Buy 3 2 GTC 0 CancelTaker, Resume, CancelOrder 2]"

definition feed_start :: "publisher option" where
  "feed_start = publisher_new 2 1 6 [77, 66] 1"

lemma feed_demo_run:
  "do { p0 \<leftarrow> feed_start; p \<leftarrow> pub_run feed_demo p0;
        Some (careful_run feed_demo p0, e_tape (pb_engine p), visit_orders (pb_engine p) Buy, visit_orders (pb_engine p) Sell) } =
   Some (True,
     [Accept 1 Sell 4 10, Rested 1 Sell 4 10, Accept 2 Sell 5 9, Rested 2 Sell 5 4, Accept 3 Buy 5 3, Accept 4 Buy 4 6,
      Traded \<lparr>t_taker = 4, t_maker = 1, t_price = 4, t_qty = 6, t_side = Buy\<rparr>,
      Accept 5 Buy 2 7, Rested 5 Buy 2 7, Accept 6 Buy 3 2, Rested 6 Buy 3 2, Cancelled 2],
     Some [(6, Buy, 3, 2), (5, Buy, 2, 4)], Some [(1, Sell, 4, 2)])"
  by code_simp

theorem feed_rebuilds_book_witness:
  "\<exists>p0 p e0 rm e (\<tau> :: OrderId \<Rightarrow> OrderId). feed_start = Some p0 \<and> pub_run feed_demo p0 = Some p \<and> engine_new 2 1 6 1 = Some e0 \<and>
     consume blank (pb_out p) (Map.empty, e0) = Some (rm, e) \<and>
     visit_orders e Buy = Some [(\<tau> 6, Buy, 3, 2), (\<tau> 5, Buy, 2, 4)] \<and> visit_orders e Sell = Some [(\<tau> 1, Sell, 4, 2)]"
proof -
  obtain p0 p where p0: "feed_start = Some p0" "pub_run feed_demo p0 = Some p" "careful_run feed_demo p0"
    and tape: "e_tape (pb_engine p) = [Accept 1 Sell 4 10, Rested 1 Sell 4 10, Accept 2 Sell 5 9, Rested 2 Sell 5 4, Accept 3 Buy 5 3,
      Accept 4 Buy 4 6, Traded \<lparr>t_taker = 4, t_maker = 1, t_price = 4, t_qty = 6, t_side = Buy\<rparr>,
      Accept 5 Buy 2 7, Rested 5 Buy 2 7, Accept 6 Buy 3 2, Rested 6 Buy 3 2, Cancelled 2]"
    and v: "visit_orders (pb_engine p) Buy = Some [(6, Buy, 3, 2), (5, Buy, 2, 4)]" "visit_orders (pb_engine p) Sell = Some [(1, Sell, 4, 2)]"
    using feed_demo_run by (auto simp: bind_eq_Some_conv)
  have sm: "small (e_tape (pb_engine p))" unfolding tape by (simp add: small_def fits_def)
  have "engine_new 2 1 6 1 \<noteq> None" by code_simp
  then obtain e0 where e0: "engine_new 2 1 6 1 = Some e0" by auto
  have "publisher_new 2 1 6 [77, 66] 1 = Some p0" using p0(1) by (simp add: feed_start_def)
  from feed_rebuilds_book [OF _ _ _ _ _ this e0, of feed_demo blank] p0 sm v
  obtain rm e \<tau> where k: "consume blank (pb_out p) (Map.empty, e0) = Some (rm, e)"
    "visit_orders e Buy = Some (rename \<tau> [(6, Buy, 3, 2), (5, Buy, 2, 4)])" "visit_orders e Sell = Some (rename \<tau> [(1, Sell, 4, 2)])"
    by auto
  have "rename \<tau> [(6, Buy, 3, 2), (5, Buy, 2, 4)] = [(\<tau> 6, Buy, 3, 2), (\<tau> 5, Buy, 2, 4)]"
    "rename \<tau> [(1, Sell, 4, 2)] = [(\<tau> 1, Sell, 4, 2)]" by (simp_all add: rename_def)
  with p0(1,2) e0 k show ?thesis by metis
qed

end
