(* ===== verification/Deferred.thy ===== *)
theory Deferred
  imports Handler
begin

text \<open>
  The re-entrant mode of \<^verbatim>\<open>matching_engine.hpp\<close> (\<^verbatim>\<open>DeferEvents = true\<close>): events go to \<^verbatim>\<open>queue_\<close> while
  an operation runs and are dispatched when the outermost call unwinds, and a handler may call
  the engine again from inside an event, or throw.  The tape of the engine plays \<^verbatim>\<open>queue_\<close> here:
  \<^verbatim>\<open>emit_*\<close> appends to it, and the outermost \<^verbatim>\<open>Session\<close> empties it.
\<close>

section \<open>Handlers and sessions\<close>

text \<open>
  The code of a handler in the middle of an event: it is done, it throws, or it makes a public
  call and goes on with the reply, seeing the engine as the call left it.
\<close>

datatype 'h code = Done 'h | Throw 'h | Call api "reply \<Rightarrow> engine \<Rightarrow> 'h code"

type_synonym 'h reacts = "event \<Rightarrow> 'h \<Rightarrow> engine \<Rightarrow> 'h code"

text \<open>
  \<open>re_seen\<close> and \<open>re_made\<close> are history variables: the events dispatched and the calls made since
  the outermost call began.
\<close>

record 'h reentrant =
  re_engine :: engine
  re_depth :: nat
  re_user :: 'h
  re_seen :: "event list"
  re_made :: "api list"

abbreviation queue_of :: "'h reentrant \<Rightarrow> event list" where
  "queue_of s \<equiv> e_tape (re_engine s)"

definition reentrant_new :: "engine \<Rightarrow> 'h \<Rightarrow> 'h reentrant" where
  "reentrant_new e h = \<lparr>re_engine = e, re_depth = 0, re_user = h, re_seen = [], re_made = []\<rparr>"

definition open_session :: "'h reentrant \<Rightarrow> 'h reentrant" where
  "open_session s = (let s1 = s\<lparr>re_depth := re_depth s + 1\<rparr>
     in if re_depth s = 0 then s1\<lparr>re_seen := [], re_made := []\<rparr> else s1)"

definition close_session :: "'h reentrant \<Rightarrow> 'h reentrant" where
  "close_session s = (let s1 = s\<lparr>re_depth := re_depth s - 1\<rparr>
     in if re_depth s1 = 0 then s1\<lparr>re_engine := re_engine s1\<lparr>e_tape := []\<rparr>\<rparr> else s1)"

datatype outcome = Returned reply | Threw

text \<open>
  \<open>deferred_run\<close> is \<^verbatim>\<open>run\<close> around one public operation, \<open>drain\<close> the dispatch loop from index \<open>i\<close>, and
  \<open>exec\<close> the code of a handler.  The loop need not end (a handler may answer every event with
  a new order), hence the fuel.
\<close>

fun deferred_run :: "nat \<Rightarrow> 'h reacts \<Rightarrow> api \<Rightarrow> 'h reentrant \<Rightarrow> (outcome \<times> 'h reentrant) option"
and drain :: "nat \<Rightarrow> 'h reacts \<Rightarrow> nat \<Rightarrow> 'h reentrant \<Rightarrow> (bool \<times> 'h reentrant) option"
and exec :: "nat \<Rightarrow> 'h reacts \<Rightarrow> 'h code \<Rightarrow> 'h reentrant \<Rightarrow> (bool \<times> 'h reentrant) option" where
  "deferred_run n on_event c s = (case n of 0 \<Rightarrow> None | Suc m \<Rightarrow> do {
     let s1 = open_session s;
     (r, e) \<leftarrow> call c (re_engine s1);
     let s2 = s1\<lparr>re_engine := e, re_made := re_made s1 @ [c]\<rparr>;
     (threw, s3) \<leftarrow> (if re_depth s2 = 1 then drain m on_event 0 s2 else Some (False, s2));
     Some (if threw then Threw else Returned r, close_session s3) })"
| "drain n on_event i s =
     (if i < length (queue_of s)
      then (case n of 0 \<Rightarrow> None | Suc m \<Rightarrow>
        (let ev = queue_of s ! i; s1 = s\<lparr>re_seen := re_seen s @ [ev]\<rparr>
         in do {
           (threw, s2) \<leftarrow> exec m on_event (on_event ev (re_user s1) (re_engine s1)) s1;
           if threw then Some (True, s2) else drain m on_event (i + 1) s2 }))
      else Some (False, s))"
| "exec n on_event (Done h) s = Some (False, s\<lparr>re_user := h\<rparr>)"
| "exec n on_event (Throw h) s = Some (True, s\<lparr>re_user := h\<rparr>)"
| "exec n on_event (Call c k) s = (case n of 0 \<Rightarrow> None | Suc m \<Rightarrow> do {
     (out, s1) \<leftarrow> deferred_run m on_event c s;
     case out of Threw \<Rightarrow> Some (True, s1)
     | Returned r \<Rightarrow> exec m on_event (k r (re_engine s1)) s1 })"

declare deferred_run.simps [simp del] drain.simps [simp del] exec.simps [simp del]

section \<open>Calls from inside an event\<close>

text \<open>A nested call does not dispatch: it runs on the engine and appends its events.\<close>

definition nested :: "api \<Rightarrow> engine \<Rightarrow> 'h reentrant \<Rightarrow> 'h reentrant" where
  "nested c e s = s\<lparr>re_engine := e, re_made := re_made s @ [c]\<rparr>"

lemma nested_simps [simp]:
  "re_engine (nested c e s) = e" "re_depth (nested c e s) = re_depth s" "re_user (nested c e s) = re_user s"
  "re_seen (nested c e s) = re_seen s" "re_made (nested c e s) = re_made s @ [c]"
  by (simp_all add: nested_def)

lemma deferred_nested:
  "re_depth s = 1 \<Longrightarrow> deferred_run (Suc n) on_event c s =
     do { (r, e) \<leftarrow> call c (re_engine s); Some (Returned r, nested c e s) }"
  by (cases s) (simp add: deferred_run.simps open_session_def close_session_def nested_def Let_def)

text \<open>So the code of a handler is a plain sequence of engine calls.\<close>

primrec play :: "'h code \<Rightarrow> 'h reentrant \<Rightarrow> (bool \<times> 'h reentrant) option" where
  "play (Done h) s = Some (False, s\<lparr>re_user := h\<rparr>)"
| "play (Throw h) s = Some (True, s\<lparr>re_user := h\<rparr>)"
| "play (Call c k) s = do { (r, e) \<leftarrow> call c (re_engine s); play (k r e) (nested c e s) }"

lemma exec_play:
  "re_depth s = 1 \<Longrightarrow> exec n on_event p s = Some x \<Longrightarrow> play p s = Some x"
proof (induction p arbitrary: n s)
  case (Call c k)
  from Call.prems obtain m where n: "n = Suc m" by (cases n) (auto simp: exec.simps)
  with Call.prems obtain l where m: "m = Suc l" by (cases m) (auto simp: exec.simps deferred_run.simps)
  from Call.prems n m obtain r e where "call c (re_engine s) = Some (r, e)"
    "exec m on_event (k r e) (nested c e s) = Some x"
    by (auto simp: exec.simps deferred_nested bind_eq_Some_conv)
  with Call.IH [OF rangeI rangeI] Call.prems(1) show ?case by (simp add: nested_def)
qed (auto simp: exec.simps)

text \<open>What a handler leaves behind: the engine has made the calls \<open>cs\<close>, and nothing else changed.\<close>

definition made_calls :: "api list \<Rightarrow> 'h reentrant \<Rightarrow> 'h reentrant \<Rightarrow> bool" where
  "made_calls cs s s' \<longleftrightarrow> (\<exists>rs. history call cs (re_engine s) = Some (rs, re_engine s')) \<and>
     re_made s' = re_made s @ cs \<and> re_seen s' = re_seen s \<and> re_depth s' = re_depth s"

lemma made_calls_user: "made_calls [] s (s\<lparr>re_user := h\<rparr>)"
  by (simp add: made_calls_def)

lemma made_calls_Cons:
  assumes "call c (re_engine s) = Some (r, e)" "made_calls cs (nested c e s) s'"
  shows "made_calls (c # cs) s s'"
  using assms by (auto simp: made_calls_def)

lemma play_made: "play p s = Some (t, s') \<Longrightarrow> \<exists>cs. made_calls cs s s'"
proof (induction p arbitrary: s)
  case (Call c k)
  then obtain r e where c: "call c (re_engine s) = Some (r, e)" "play (k r e) (nested c e s) = Some (t, s')"
    by (auto simp: bind_eq_Some_conv)
  with Call.IH [OF rangeI rangeI] made_calls_Cons show ?case by blast
qed (auto intro: made_calls_user)

text \<open>An engine at rest: it stands for an abstract engine, its pump at its fixpoint.\<close>

definition at_rest :: "engine \<Rightarrow> bool" where
  "at_rest e \<longleftrightarrow> (\<exists>a. stands_for e a)"

lemma at_rest_runs: "at_rest e \<Longrightarrow> \<exists>r e'. call c e = Some (r, e') \<and> at_rest e' \<and> (\<exists>evs. e_tape e' = e_tape e @ evs)"
  using stands_for_runs stands_for_call(1,5) unfolding at_rest_def by metis

lemma at_rest_history:
  "at_rest e \<Longrightarrow> history call cs e = Some (rs, e') \<Longrightarrow> at_rest e' \<and> (\<exists>evs. e_tape e' = e_tape e @ evs)"
proof (induction cs arbitrary: e rs)
  case (Cons c cs)
  obtain r e1 where c: "call c e = Some (r, e1)" "at_rest e1" "\<exists>evs. e_tape e1 = e_tape e @ evs"
    using at_rest_runs [OF Cons.prems(1)] by blast
  with Cons.prems(2) obtain rs' where "history call cs e1 = Some (rs', e')" by (auto simp: bind_eq_Some_conv)
  with Cons.IH [OF c(2)] c(3) show ?case by fastforce
qed simp

lemma at_rest_tape: "at_rest e \<Longrightarrow> at_rest (e\<lparr>e_tape := t\<rparr>)"
proof -
  assume "at_rest e"
  then obtain a where a: "refines e a" "settled a" by (auto simp: at_rest_def stands_for_def)
  have ns: "a_next_stop (a\<lparr>a_tape := t\<rparr>) = a_next_stop a"
    by (simp add: a_next_stop_def Let_def cong: if_cong option.case_cong)
  have "refines (e\<lparr>e_tape := t\<rparr>) (a\<lparr>a_tape := t\<rparr>)"
    using a(1) by (simp add: refines_def erel_tape limits_ok_def a_in_band_def)
  moreover have "settled (a\<lparr>a_tape := t\<rparr>)" using a(2) by (simp add: settled_def ns)
  ultimately show ?thesis by (auto simp: at_rest_def stands_for_def)
qed

lemma made_calls_rest:
  assumes "made_calls cs s s'" "at_rest (re_engine s)"
  shows "at_rest (re_engine s')" "\<exists>evs. queue_of s' = queue_of s @ evs"
  using assms at_rest_history unfolding made_calls_def by blast+

section \<open>The dispatch loop\<close>

text \<open>
  The state of the loop at index \<open>i\<close>: the engine, reached from \<open>e0\<close> by the calls made so far, is at
  rest, and the events before \<open>i\<close> are the dispatched ones.
\<close>

definition draining :: "engine \<Rightarrow> nat \<Rightarrow> 'h reentrant \<Rightarrow> bool" where
  "draining e0 i s \<longleftrightarrow> at_rest (re_engine s) \<and> re_depth s = 1 \<and> i \<le> length (queue_of s) \<and>
     re_seen s = take i (queue_of s) \<and>
     (\<exists>rs. history call (re_made s) e0 = Some (rs, re_engine s))"

lemma draining_step:
  assumes d: "draining e0 i s" and i: "i < length (queue_of s)"
    and p: "play p (s\<lparr>re_seen := re_seen s @ [queue_of s ! i]\<rparr>) = Some (t, s')"
  shows "draining e0 (i + 1) s'" "\<exists>cs. re_made s' = re_made s @ cs"
proof -
  obtain cs where cs: "made_calls cs (s\<lparr>re_seen := re_seen s @ [queue_of s ! i]\<rparr>) s'" using play_made [OF p] by blast
  have r: "at_rest (re_engine s')" "\<exists>evs. queue_of s' = queue_of s @ evs"
    using made_calls_rest [OF cs] d by (simp_all add: draining_def)
  from d cs have "\<exists>rs. history call (re_made s') e0 = Some (rs, re_engine s')"
    by (auto simp: draining_def made_calls_def history_append)
  moreover have "re_seen s' = take (Suc i) (queue_of s')"
    using d cs i r(2) by (auto simp: draining_def made_calls_def take_Suc_conv_app_nth nth_append)
  ultimately show "draining e0 (i + 1) s'" using d cs i r by (auto simp: draining_def made_calls_def)
  show "\<exists>cs. re_made s' = re_made s @ cs" using cs by (simp add: made_calls_def)
qed

text \<open>When the loop ends, every event was dispatched, or the handler threw.\<close>

lemma drain_end:
  assumes "draining e0 i s" "drain n on_event i s = Some (t, s')"
  shows "\<exists>j cs. draining e0 j s' \<and> (\<not> t \<longrightarrow> j = length (queue_of s')) \<and> re_made s' = re_made s @ cs"
  using assms
proof (induction n arbitrary: i s)
  case 0
  then show ?case
    by (intro exI [of _ i] exI [of _ "[]"]) (auto simp: drain.simps draining_def split: if_splits)
next
  case (Suc n)
  show ?case
  proof (cases "i < length (queue_of s)")
    case True
    let ?s = "s\<lparr>re_seen := re_seen s @ [queue_of s ! i]\<rparr>"
    obtain t1 s1 where e: "exec n on_event (on_event (queue_of s ! i) (re_user s) (re_engine s)) ?s = Some (t1, s1)"
      and k: "(if t1 then Some (True, s1) else drain n on_event (i + 1) s1) = Some (t, s')"
      using Suc.prems(2) True by (auto simp: drain.simps bind_eq_Some_conv Let_def)
    have "play (on_event (queue_of s ! i) (re_user s) (re_engine s)) ?s = Some (t1, s1)"
      using exec_play [OF _ e] Suc.prems(1) by (simp add: draining_def)
    from draining_step [OF Suc.prems(1) True this]
    have d1: "draining e0 (i + 1) s1" and m1: "\<exists>cs. re_made s1 = re_made s @ cs" .
    show ?thesis
    proof (cases t1)
      case True
      with k d1 m1 show ?thesis by auto
    next
      case False
      with k have "drain n on_event (i + 1) s1 = Some (t, s')" by simp
      from Suc.IH [OF d1 this] m1 show ?thesis by fastforce
    qed
  next
    case False
    then show ?thesis using Suc.prems
      by (intro exI [of _ i] exI [of _ "[]"]) (auto simp: drain.simps draining_def split: if_splits)
  qed
qed

section \<open>Handlers that stop calling\<close>

text \<open>The code of one event always ends, with the same result for all fuel from some point on.\<close>

lemma exec_returns:
  assumes "at_rest (re_engine s)" "re_depth s = 1"
  shows "\<exists>x n0. play p s = Some x \<and> (\<forall>n\<ge>n0. exec n on_event p s = Some x)"
  using assms
proof (induction p arbitrary: s)
  case (Call c k)
  obtain r e where c: "call c (re_engine s) = Some (r, e)" "at_rest e" using at_rest_runs [OF Call.prems(1)] by blast
  then have "at_rest (re_engine (nested c e s))" "re_depth (nested c e s) = 1" using Call.prems(2) by simp_all
  from Call.IH [OF rangeI rangeI this, of r e] obtain x n0 where x: "play (k r e) (nested c e s) = Some x"
    "\<forall>n\<ge>n0. exec n on_event (k r e) (nested c e s) = Some x" by blast
  have "exec n on_event (Call c k) s = Some x" if n: "Suc (Suc n0) \<le> n" for n
  proof -
    obtain l where "n = Suc (Suc l)" "n0 \<le> Suc l" using n by (cases n; cases "n - 1") auto
    then show ?thesis using c(1) x(2) Call.prems(2) by (simp add: exec.simps(3) deferred_nested)
  qed
  with x(1) c(1) show ?case by auto
qed (auto simp: exec.simps)

text \<open>
  \<open>dispatched k\<close> is the loop stopped after \<open>k\<close> events.  A handler makes finitely many calls during
  \<open>c\<close> if the number of calls made has a bound that holds however many events are dispatched.
\<close>

fun dispatched :: "nat \<Rightarrow> 'h reacts \<Rightarrow> nat \<Rightarrow> 'h reentrant \<Rightarrow> (bool \<times> 'h reentrant) option" where
  "dispatched k on_event i s =
     (case k of 0 \<Rightarrow> Some (False, s)
      | Suc l \<Rightarrow> if i < length (queue_of s)
          then (let ev = queue_of s ! i; s1 = s\<lparr>re_seen := re_seen s @ [ev]\<rparr>
            in do {
              (threw, s2) \<leftarrow> play (on_event ev (re_user s1) (re_engine s1)) s1;
              if threw then Some (True, s2) else dispatched l on_event (i + 1) s2 })
          else Some (False, s))"

declare dispatched.simps [simp del]

definition calls_at_most :: "nat \<Rightarrow> 'h reacts \<Rightarrow> nat \<Rightarrow> 'h reentrant \<Rightarrow> bool" where
  "calls_at_most b on_event i s \<longleftrightarrow>
     (\<forall>k t s'. dispatched k on_event i s = Some (t, s') \<longrightarrow> length (re_made s') \<le> b)"

lemma calls_at_most_now: "calls_at_most b on_event i s \<Longrightarrow> length (re_made s) \<le> b"
  unfolding calls_at_most_def by (drule spec [of _ 0], drule spec [of _ False], drule spec [of _ s]) (simp add: dispatched.simps)

lemma calls_at_most_step:
  assumes "calls_at_most b on_event i s" "i < length (queue_of s)"
    and "play (on_event (queue_of s ! i) (re_user s) (re_engine s)) (s\<lparr>re_seen := re_seen s @ [queue_of s ! i]\<rparr>) = Some (False, s1)"
  shows "calls_at_most b on_event (i + 1) s1"
  unfolding calls_at_most_def
proof (intro allI impI)
  fix k t s' assume "dispatched k on_event (i + 1) s1 = Some (t, s')"
  then have "dispatched (Suc k) on_event i s = Some (t, s')"
    using assms(2,3) by (simp add: dispatched.simps [of "Suc k"] Let_def)
  with assms(1) show "length (re_made s') \<le> b" unfolding calls_at_most_def by blast
qed

text \<open>With every event, either a call is made or the number of undelivered events shrinks.\<close>

lemma drain_returns_step:
  assumes "calls_at_most b on_event i s" "draining e0 i s"
    and IH: "\<And>i1 s1. b - length (re_made s1) < b - length (re_made s) \<or>
      length (re_made s1) = length (re_made s) \<and> length (queue_of s1) - i1 < length (queue_of s) - i \<Longrightarrow>
      draining e0 i1 s1 \<Longrightarrow> calls_at_most b on_event i1 s1 \<Longrightarrow> \<exists>n0. \<forall>n\<ge>n0. drain n on_event i1 s1 \<noteq> None"
  shows "\<exists>n0. \<forall>n\<ge>n0. drain n on_event i s \<noteq> None"
proof (cases "i < length (queue_of s)")
  case True
  let ?s = "s\<lparr>re_seen := re_seen s @ [queue_of s ! i]\<rparr>" and ?p = "on_event (queue_of s ! i) (re_user s) (re_engine s)"
  have pre: "at_rest (re_engine ?s)" "re_depth ?s = 1" using assms(2) by (simp_all add: draining_def)
  obtain t s1 n1 where e: "play ?p ?s = Some (t, s1)" and ex: "\<forall>n\<ge>n1. exec n on_event ?p ?s = Some (t, s1)"
    using exec_returns [OF pre, of ?p on_event] by auto
  have dr: "draining e0 (i + 1) s1" by (rule draining_step(1) [OF assms(2) True e])
  have "\<exists>n2. \<forall>n\<ge>n2. t \<or> drain n on_event (i + 1) s1 \<noteq> None"
  proof (cases t)
    case False
    with e have ca: "calls_at_most b on_event (i + 1) s1" by (intro calls_at_most_step [OF assms(1) True]) simp
    obtain cs where cs: "made_calls cs ?s s1" using play_made [OF e] by blast
    have "b - length (re_made s1) < b - length (re_made s) \<or>
      length (re_made s1) = length (re_made s) \<and> length (queue_of s1) - (i + 1) < length (queue_of s) - i"
      using cs True calls_at_most_now [OF ca] by (cases cs) (auto simp: made_calls_def)
    from IH [OF this dr ca] show ?thesis by blast
  qed simp
  then obtain n2 where n2: "\<forall>n\<ge>n2. t \<or> drain n on_event (i + 1) s1 \<noteq> None" by blast
  have "drain n on_event i s \<noteq> None" if n: "Suc (max n1 n2) \<le> n" for n
  proof -
    obtain l where l: "n = Suc l" "n1 \<le> l" "n2 \<le> l" using n by (cases n) auto
    show ?thesis using ex n2 l True by (auto simp: drain.simps [of "Suc l"] Let_def)
  qed
  then show ?thesis by blast
next
  case False
  then show ?thesis by (simp add: drain.simps)
qed

lemma drain_returns:
  assumes "calls_at_most b on_event i s" "draining e0 i s"
  shows "\<exists>n0. \<forall>n\<ge>n0. drain n on_event i s \<noteq> None"
proof -
  define R :: "((nat \<times> 'a reentrant) \<times> (nat \<times> 'a reentrant)) set" where
    "R = inv_image (less_than <*lex*> less_than) (\<lambda>(i, s). (b - length (re_made s), length (queue_of s) - i))"
  have "wf R" by (simp add: R_def wf_lex_prod wf_inv_image)
  then have "calls_at_most b on_event (fst x) (snd x) \<longrightarrow> draining e0 (fst x) (snd x) \<longrightarrow>
      (\<exists>n0. \<forall>n\<ge>n0. drain n on_event (fst x) (snd x) \<noteq> None)" for x
  proof (induction x rule: wf_induct_rule)
    case (less x)
    obtain i s where x: "x = (i, s)" by (cases x)
    show ?case unfolding x fst_conv snd_conv
    proof (intro impI)
      assume dr0: "calls_at_most b on_event i s" "draining e0 i s"
      have IH: "\<exists>n0. \<forall>n\<ge>n0. drain n on_event i1 s1 \<noteq> None"
        if "((i1, s1), (i, s)) \<in> R" "draining e0 i1 s1" "calls_at_most b on_event i1 s1" for i1 s1
        using less.IH [of "(i1, s1)"] that by (simp add: x)
      show "\<exists>n0. \<forall>n\<ge>n0. drain n on_event i s \<noteq> None"
        by (rule drain_returns_step [OF dr0 IH [unfolded R_def]]) auto
    qed
  qed
  from this [of "(i, s)"] assms show ?thesis by simp
qed

text \<open>Conversely, a loop that ends has made all its calls.\<close>

lemma drain_dispatched:
  assumes "draining e0 i s" "drain n on_event i s = Some (t, s')" "dispatched k on_event i s = Some (u, s'')"
  shows "length (re_made s'') \<le> length (re_made s')"
  using assms
proof (induction n arbitrary: i s k)
  case 0
  then show ?case by (auto simp: drain.simps dispatched.simps split: if_splits nat.splits)
next
  case (Suc n)
  have grow: "length (re_made s) \<le> length (re_made s')" using drain_end [OF Suc.prems(1,2)] by auto
  show ?case
  proof (cases "i < length (queue_of s) \<and> k \<noteq> 0")
    case True
    then obtain l where k: "k = Suc l" and i: "i < length (queue_of s)" by (cases k) auto
    let ?s = "s\<lparr>re_seen := re_seen s @ [queue_of s ! i]\<rparr>" and ?p = "on_event (queue_of s ! i) (re_user s) (re_engine s)"
    obtain t1 s1 where e: "exec n on_event ?p ?s = Some (t1, s1)"
      and rest: "(if t1 then Some (True, s1) else drain n on_event (i + 1) s1) = Some (t, s')"
      using Suc.prems(2) i by (auto simp: drain.simps [of "Suc n"] bind_eq_Some_conv Let_def)
    have p: "play ?p ?s = Some (t1, s1)" using exec_play [OF _ e] Suc.prems(1) by (simp add: draining_def)
    with Suc.prems(3) i k have d: "(if t1 then Some (True, s1) else dispatched l on_event (i + 1) s1) = Some (u, s'')"
      by (simp add: dispatched.simps [of "Suc l"] Let_def)
    show ?thesis
    proof (cases t1)
      case False
      with Suc.IH [OF draining_step(1) [OF Suc.prems(1) i p]] rest d show ?thesis by simp
    qed (use rest d in simp)
  next
    case False
    then show ?thesis using Suc.prems(3) grow by (auto simp: dispatched.simps [of k] split: nat.splits)
  qed
qed

section \<open>One outermost call\<close>

lemma call_tape:
  "at_rest e \<Longrightarrow> call c e = Some (r, e') \<Longrightarrow> at_rest e' \<and> (\<exists>evs. e_tape e' = e_tape e @ evs)"
  using at_rest_runs [of e c] by auto

text \<open>The state in which the outermost call starts to drain.\<close>

definition drain_start :: "api \<Rightarrow> engine \<Rightarrow> 'h reentrant \<Rightarrow> 'h reentrant" where
  "drain_start c e s = \<lparr>re_engine = e, re_depth = 1, re_user = re_user s, re_seen = [], re_made = [c]\<rparr>"

lemma deferred_outermost:
  assumes "re_depth s = 0" "call c (re_engine s) = Some (r, e)"
  shows "deferred_run (Suc n) on_event c s =
    map_option (\<lambda>(t, s'). (if t then Threw else Returned r, close_session s')) (drain n on_event 0 (drain_start c e s))"
proof -
  have "open_session s\<lparr>re_engine := e, re_made := re_made (open_session s) @ [c]\<rparr> = drain_start c e s"
    "re_engine (open_session s) = re_engine s" "re_depth (open_session s) = 1"
    using assms(1) by (cases s; simp add: open_session_def drain_start_def)+
  then show ?thesis
    using assms(2) by (cases "drain n on_event 0 (drain_start c e s)")
      (auto simp: deferred_run.simps drain_start_def)
qed

lemma drain_start_draining:
  assumes "at_rest (re_engine s)" "call c (re_engine s) = Some (r, e)"
  shows "draining (re_engine s) 0 (drain_start c e s)"
  using call_tape [OF assms] assms by (auto simp: draining_def drain_start_def)

text \<open>What an outermost call ends with.\<close>

definition served :: "api \<Rightarrow> 'h reentrant \<Rightarrow> outcome \<Rightarrow> 'h reentrant \<Rightarrow> bool" where
  "served c s out s' \<longleftrightarrow> (\<exists>cs r rs e. re_made s' = c # cs \<and>
     history call (c # cs) (re_engine s) = Some (r # rs, e) \<and>
     re_engine s' = e\<lparr>e_tape := []\<rparr> \<and> re_depth s' = 0 \<and>
     (case out of Returned x \<Rightarrow> x = r \<and> re_seen s' = e_tape e
      | Threw \<Rightarrow> (\<exists>j. re_seen s' = take j (e_tape e))))"

lemma deferred_served:
  assumes "at_rest (re_engine s)" "re_depth s = 0" "deferred_run n on_event c s = Some (out, s')"
  shows "served c s out s' \<and> at_rest (re_engine s')"
proof -
  obtain r e where c: "call c (re_engine s) = Some (r, e)" using at_rest_runs [OF assms(1)] by blast
  obtain l where n: "n = Suc l" using assms(3) by (cases n) (auto simp: deferred_run.simps)
  obtain t s1 where d: "drain l on_event 0 (drain_start c e s) = Some (t, s1)"
    "out = (if t then Threw else Returned r)" "s' = close_session s1"
    using assms(3) by (auto simp: n deferred_outermost [OF assms(2) c])
  obtain j cs where e: "draining (re_engine s) j s1" "\<not> t \<longrightarrow> j = length (queue_of s1)" "re_made s1 = c # cs"
    using drain_end [OF drain_start_draining [OF assms(1) c] d(1)] by (auto simp: drain_start_def)
  have f: "re_engine s' = re_engine s1\<lparr>e_tape := []\<rparr>" "re_depth s' = 0" "re_seen s' = re_seen s1" "re_made s' = c # cs"
    using e(1,3) by (simp_all add: d(3) close_session_def draining_def Let_def)
  obtain rs where h: "history call (c # cs) (re_engine s) = Some (rs, re_engine s1)"
    using e(1,3) by (auto simp: draining_def)
  then obtain rs' where "rs = r # rs'" using c by (auto simp: bind_eq_Some_conv)
  with h have h': "history call (c # cs) (re_engine s) = Some (r # rs', re_engine s1)" by simp
  have "case out of Returned x \<Rightarrow> x = r \<and> re_seen s' = queue_of s1 | Threw \<Rightarrow> (\<exists>j. re_seen s' = take j (queue_of s1))"
    using e(1,2) d(2) f(3) by (cases t) (auto simp: draining_def)
  with h' f have "served c s out s'" unfolding served_def by blast
  moreover have "at_rest (re_engine s')" using e(1) at_rest_tape by (simp add: f(1) draining_def)
  ultimately show ?thesis by simp
qed

text \<open>The handler makes finitely many calls during the outermost call \<open>c\<close>.\<close>

definition finite_calls :: "'h reacts \<Rightarrow> api \<Rightarrow> 'h reentrant \<Rightarrow> bool" where
  "finite_calls on_event c s \<longleftrightarrow> (\<exists>b. \<forall>k r e t s'. call c (re_engine s) = Some (r, e) \<longrightarrow>
     dispatched k on_event 0 (drain_start c e s) = Some (t, s') \<longrightarrow> length (re_made s') \<le> b)"

lemma finite_calls_eq:
  "call c (re_engine s) = Some (r, e) \<Longrightarrow>
     finite_calls on_event c s \<longleftrightarrow> (\<exists>b. calls_at_most b on_event 0 (drain_start c e s))"
  by (simp add: finite_calls_def calls_at_most_def)

lemma deferred_returns:
  assumes "at_rest (re_engine s)" "re_depth s = 0" "finite_calls on_event c s"
  shows "\<exists>n0. \<forall>n\<ge>n0. \<exists>out s'. deferred_run n on_event c s = Some (out, s')"
proof -
  obtain r e where c: "call c (re_engine s) = Some (r, e)" using at_rest_runs [OF assms(1)] by blast
  obtain b where "calls_at_most b on_event 0 (drain_start c e s)" using assms(3) finite_calls_eq [OF c] by blast
  from drain_returns [OF this drain_start_draining [OF assms(1) c]]
  obtain n0 where n0: "\<forall>n\<ge>n0. drain n on_event 0 (drain_start c e s) \<noteq> None" by blast
  have "\<exists>out s'. deferred_run n on_event c s = Some (out, s')" if "Suc n0 \<le> n" for n
  proof -
    from that obtain l where "n = Suc l" "n0 \<le> l" using Suc_le_D by auto
    with n0 show ?thesis by (auto simp: deferred_outermost [OF assms(2) c])
  qed
  then show ?thesis by blast
qed

text \<open>No other handler returns.\<close>

lemma returned_finite_calls:
  assumes "at_rest (re_engine s)" "re_depth s = 0" "deferred_run n on_event c s = Some (out, s')"
  shows "finite_calls on_event c s"
proof -
  obtain r e where c: "call c (re_engine s) = Some (r, e)" using at_rest_runs [OF assms(1)] by blast
  obtain l where n: "n = Suc l" using assms(3) by (cases n) (auto simp: deferred_run.simps)
  obtain t s1 where "drain l on_event 0 (drain_start c e s) = Some (t, s1)"
    using assms(3) by (auto simp: n deferred_outermost [OF assms(2) c])
  from drain_dispatched [OF drain_start_draining [OF assms(1) c] this]
  show ?thesis unfolding finite_calls_eq [OF c] calls_at_most_def by blast
qed

section \<open>Histories of outermost calls\<close>

text \<open>States reached from a new engine by outermost calls, with the fuel each of them took.\<close>

inductive re_reached :: "'h reacts \<Rightarrow> 'h reentrant \<Rightarrow> bool" for on_event where
  new: "0 < chunk \<Longrightarrow> band_ok lo hi \<Longrightarrow> engine_new chunk lo hi expected = Some e \<Longrightarrow>
    re_reached on_event (reentrant_new e h)"
| step: "re_reached on_event s \<Longrightarrow> deferred_run n on_event c s = Some (out, s') \<Longrightarrow> re_reached on_event s'"

lemma re_reached_rest:
  "re_reached on_event s \<Longrightarrow> at_rest (re_engine s) \<and> re_depth s = 0 \<and> queue_of s = []"
proof (induction rule: re_reached.induct)
  case (new chunk lo hi expected e h)
  have y: "stands_for e (astate_new lo hi)" by (rule stands_for_new [OF new])
  then have "e_tape e = a_tape (astate_new lo hi)" using erelD(16) [OF refinesD(1)] unfolding stands_for_def by metis
  with y show ?case by (auto simp: reentrant_new_def at_rest_def astate_new_def Let_def)
next
  case (step s n c out s')
  with deferred_served [of s n on_event c out s'] show ?case by (auto simp: served_def)
qed

text \<open>The handler is only ever asked in states at rest: on others it may be anything.\<close>

lemma play_cong: "p = p' \<Longrightarrow> play p s = play p' s"
  by simp

lemma exec_agree:
  "re_depth s = 1 \<Longrightarrow> exec n f p s = exec n g p s"
proof (induction p arbitrary: n s)
  case (Call c k)
  show ?case
  proof (cases n)
    case (Suc m)
    have "exec m f (k r e) (nested c e s) = exec m g (k r e) (nested c e s)" for r e
      using Call.IH [OF rangeI rangeI] Call.prems by simp
    then show ?thesis using Call.prems Suc
      by (cases m; cases "call c (re_engine s)") (auto simp: exec.simps deferred_run.simps(1) [of 0] deferred_nested)
  qed (simp add: exec.simps)
qed (auto simp: exec.simps)

lemma drain_agree:
  assumes "\<And>ev h e. at_rest e \<Longrightarrow> f ev h e = g ev h e" "draining e0 i s"
  shows "drain n f i s = drain n g i s"
  using assms(2)
proof (induction n arbitrary: i s)
  case (Suc n)
  show ?case
  proof (cases "i < length (queue_of s)")
    case True
    let ?s = "s\<lparr>re_seen := re_seen s @ [queue_of s ! i]\<rparr>"
    let ?p = "g (queue_of s ! i) (re_user s) (re_engine s)"
    have p: "f (queue_of s ! i) (re_user s) (re_engine s) = ?p" using assms(1) Suc.prems by (simp add: draining_def)
    have d: "re_depth ?s = 1" using Suc.prems by (simp add: draining_def)
    have "drain n f (Suc i) s1 = drain n g (Suc i) s1" if "exec n g ?p ?s = Some (t, s1)" for t s1
      using Suc.IH draining_step(1) [OF Suc.prems True exec_play [OF d that]] by simp
    then show ?thesis using True p exec_agree [OF d, of n f ?p g]
      by (cases "exec n g ?p ?s") (auto simp: drain.simps Let_def)
  qed (simp add: drain.simps)
qed (simp add: drain.simps)

lemma deferred_agree:
  assumes "\<And>ev h e. at_rest e \<Longrightarrow> f ev h e = g ev h e" "at_rest (re_engine s)" "re_depth s = 0"
  shows "deferred_run n f c s = deferred_run n g c s"
proof (cases n)
  case (Suc l)
  obtain r e where c: "call c (re_engine s) = Some (r, e)" using at_rest_runs [OF assms(2)] by blast
  show ?thesis using drain_agree [of f g, OF assms(1) drain_start_draining [OF assms(2) c]]
    by (simp add: Suc deferred_outermost [OF assms(3) c])
qed (simp add: deferred_run.simps)

text \<open>A handler that neither calls nor throws.\<close>

lemma drain_quiet:
  assumes "length (queue_of s) - i < n" "i \<le> length (queue_of s)"
  shows "\<exists>s'. drain n (\<lambda>ev h _. Done (f ev h)) i s = Some (False, s') \<and>
    s' = s\<lparr>re_user := fold f (drop i (queue_of s)) (re_user s), re_seen := re_seen s @ drop i (queue_of s)\<rparr>"
  using assms
proof (induction n arbitrary: i s)
  case (Suc n)
  show ?case
  proof (cases "i < length (queue_of s)")
    case True
    let ?s = "s\<lparr>re_user := f (queue_of s ! i) (re_user s), re_seen := re_seen s @ [queue_of s ! i]\<rparr>"
    have d: "drop i (queue_of s) = queue_of s ! i # drop (Suc i) (queue_of s)" using True by (simp add: Cons_nth_drop_Suc)
    have e: "drain (Suc n) (\<lambda>ev h _. Done (f ev h)) i s = drain n (\<lambda>ev h _. Done (f ev h)) (Suc i) ?s"
      using True by (cases s) (simp add: drain.simps [of "Suc n"] exec.simps(1) Let_def)
    show ?thesis using Suc.IH [of ?s "Suc i"] Suc.prems True by (simp add: d e)
  qed (use Suc.prems in \<open>cases s, simp add: drain.simps\<close>)
qed simp

section \<open>Properties of the re-entrant mode\<close>

text \<open>C8. In the re-entrant mode an outermost call made in any state reached by such calls returns,
  whatever the handler does in its events, as long as it makes finitely many calls: the number of
  calls made during this outermost call stays bounded, however many events are dispatched (a
  handler that calls without end does not return, so nothing less would do).  The handler's calls
  are serialised: the engine ends exactly where the calls made (the outermost one first, then the
  handler's in the order it made them) would take an engine of the default mode, and the reply is
  that engine's.  If no event throws, the handler has seen every event of these calls exactly
  once, in order; if one throws, the rest of the batch is dropped.  Either way no event is left in
  the queue and the nesting depth is back to zero.\<close>

theorem deferred_serialised:
  assumes "re_reached on_event s" "finite_calls on_event c s"
  shows "\<exists>n0. \<forall>n\<ge>n0. \<exists>out s' cs r rs e. deferred_run n on_event c s = Some (out, s') \<and>
    re_made s' = c # cs \<and> history call (c # cs) (re_engine s) = Some (r # rs, e) \<and>
    re_engine s' = e\<lparr>e_tape := []\<rparr> \<and> re_depth s' = 0 \<and>
    (case out of Returned x \<Rightarrow> x = r \<and> re_seen s' = e_tape e
     | Threw \<Rightarrow> (\<exists>j. re_seen s' = take j (e_tape e)))"
proof -
  note r = re_reached_rest [OF assms(1)]
  obtain n0 where n0: "\<forall>n\<ge>n0. \<exists>out s'. deferred_run n on_event c s = Some (out, s')"
    using deferred_returns [OF conjunct1 [OF r] conjunct1 [OF conjunct2 [OF r]] assms(2)] by blast
  show ?thesis
  proof (intro exI [of _ n0] allI impI)
    fix n assume "n0 \<le> n"
    then obtain out s' where d: "deferred_run n on_event c s = Some (out, s')" using n0 by blast
    then have "served c s out s'" using deferred_served [OF _ _ d] r by simp
    with d show "\<exists>out s' cs r rs e. deferred_run n on_event c s = Some (out, s') \<and>
        re_made s' = c # cs \<and> history call (c # cs) (re_engine s) = Some (r # rs, e) \<and>
        re_engine s' = e\<lparr>e_tape := []\<rparr> \<and> re_depth s' = 0 \<and>
        (case out of Returned x \<Rightarrow> x = r \<and> re_seen s' = e_tape e
         | Threw \<Rightarrow> (\<exists>j. re_seen s' = take j (e_tape e)))"
      unfolding served_def by blast
  qed
qed

text \<open>A handler that answers a trade with a new order, as long as its budget lasts.\<close>

definition refill :: "nat reacts" where
  "refill ev h e = (case ev of Traded t \<Rightarrow>
     (if 0 < h then Call (SubmitLimit Buy 3 2 GTC 0 CancelTaker) (\<lambda>_ _. Done (h - 1)) else Done h) | _ \<Rightarrow> Done h)"

definition refill_demo :: "(outcome \<times> nat reentrant) option" where
  "refill_demo = do {
     e \<leftarrow> engine_new 2 1 6 1;
     (_, s) \<leftarrow> deferred_run 9 refill (SubmitLimit Sell 3 5 GTC 0 CancelTaker) (reentrant_new e 1);
     deferred_run 9 refill (SubmitLimit Buy 3 2 GTC 0 CancelTaker) s }"

lemma refill_demo_run:
  "map_option (\<lambda>(out, s). (out, re_made s, re_seen s, re_user s)) refill_demo =
     Some (Returned (RId 2), [SubmitLimit Buy 3 2 GTC 0 CancelTaker, SubmitLimit Buy 3 2 GTC 0 CancelTaker],
       [Accept 2 Buy 3 2, Traded \<lparr>t_taker = 2, t_maker = 1, t_price = 3, t_qty = 2, t_side = Buy\<rparr>,
        Accept 3 Buy 3 2, Traded \<lparr>t_taker = 3, t_maker = 1, t_price = 3, t_qty = 2, t_side = Buy\<rparr>], 0)"
  by code_simp

text \<open>
  Two handlers of \<^verbatim>\<open>tests/test_engine.cpp\<close>: \<open>refill\<close> above follows \<^verbatim>\<open>Refill\<close>, and this is
  \<^verbatim>\<open>CancelMaker\<close>, which cancels a maker from inside its trade and counts the cancels that succeed.
\<close>

definition cancel_maker :: "(nat \<times> nat) reacts" where
  "cancel_maker ev h e = (case ev of Traded t \<Rightarrow>
     (if t_maker t = fst h
      then Call (CancelOrder (fst h)) (\<lambda>r _. Done (fst h, if r = RBool True then snd h + 1 else snd h))
      else Done h) | _ \<Rightarrow> Done h)"

abbreviation maker_sells :: api where
  "maker_sells \<equiv> SubmitLimit Sell 3 10 GTC 0 CancelTaker"

abbreviation taker_buys :: api where
  "taker_buys \<equiv> SubmitLimit Buy 3 4 GTC 0 CancelTaker"

lemma cancel_maker_run:
  "map_option (\<lambda>(out, s). (out, re_made s, re_user s, open_orders (re_engine s)))
     (do { e \<leftarrow> engine_new 2 1 6 1; (_, s) \<leftarrow> deferred_run 9 cancel_maker maker_sells (reentrant_new e (1, 0));
           deferred_run 9 cancel_maker taker_buys s }) =
   Some (Returned (RId 2), [taker_buys, CancelOrder 1], (1, 1), 0)"
  by code_simp

theorem deferred_serialised_witness:
  "\<exists>e s n0. engine_new 2 1 6 1 = Some e \<and> deferred_run 9 cancel_maker maker_sells (reentrant_new e (1, 0)) = Some (Returned (RId 1), s) \<and>
     (\<forall>n\<ge>n0. \<exists>out s' cs r rs e'. deferred_run n cancel_maker taker_buys s = Some (out, s') \<and> re_made s' = taker_buys # cs \<and>
       history call (taker_buys # cs) (re_engine s) = Some (r # rs, e') \<and> re_engine s' = e'\<lparr>e_tape := []\<rparr>)"
proof -
  have "map_option fst (do { e \<leftarrow> engine_new 2 1 6 1; deferred_run 9 cancel_maker maker_sells (reentrant_new e (1, 0)) }) =
      Some (Returned (RId 1))" by code_simp
  then obtain e s where e: "engine_new 2 1 6 1 = Some e"
    and s: "deferred_run 9 cancel_maker maker_sells (reentrant_new e (1, 0)) = Some (Returned (RId 1), s)"
    by (auto simp: bind_eq_Some_conv)
  have r: "re_reached cancel_maker s"
    by (rule re_reached.step [OF re_reached.new [OF _ _ e] s]) (simp_all add: band_ok_def)
  have "deferred_run 9 cancel_maker taker_buys s \<noteq> None"
    using cancel_maker_run unfolding e bind.bind_lunit s prod.case by (cases "deferred_run 9 cancel_maker taker_buys s") simp_all
  then obtain x where x: "deferred_run 9 cancel_maker taker_buys s = Some x" by blast
  have "finite_calls cancel_maker taker_buys s"
    using returned_finite_calls [of s 9 cancel_maker taker_buys "fst x" "snd x"] re_reached_rest [OF r] x by simp
  from deferred_serialised [OF r this] obtain n0 where n0: "\<forall>n\<ge>n0. \<exists>out s' cs r rs e'. deferred_run n cancel_maker taker_buys s = Some (out, s') \<and>
      re_made s' = taker_buys # cs \<and> history call (taker_buys # cs) (re_engine s) = Some (r # rs, e') \<and> re_engine s' = e'\<lparr>e_tape := []\<rparr> \<and>
      re_depth s' = 0 \<and> (case out of Returned x \<Rightarrow> x = r \<and> re_seen s' = e_tape e' | Threw \<Rightarrow> (\<exists>j. re_seen s' = take j (e_tape e')))" ..
  show ?thesis by (intro exI [of _ e] exI [of _ s] exI [of _ n0]) (use e s n0 in blast)
qed

text \<open>C15. In the re-entrant mode every event is dispatched while the engine is at rest: what the
  handler can see or build on is always an engine whose operations are complete and whose stop
  pump has run out.  So two handlers that react alike to engines at rest are indistinguishable.\<close>

theorem deferred_sees_rest:
  assumes "re_reached f s" "\<And>ev h e. at_rest e \<Longrightarrow> f ev h e = g ev h e"
  shows "deferred_run n f c s = deferred_run n g c s"
proof (rule deferred_agree)
  show "f ev h e = g ev h e" if "at_rest e" for ev h e using assms(2) that by blast
qed (use re_reached_rest [OF assms(1)] in simp_all)

theorem deferred_sees_rest_witness:
  "\<exists>e. engine_new 2 1 6 1 = Some e \<and>
     deferred_run 9 refill (SubmitLimit Sell 3 5 GTC 0 CancelTaker) (reentrant_new e 1) =
     deferred_run 9 (\<lambda>ev h e. if next_triggered_stop e = Some None \<or> e_halted e then refill ev h e else Throw h)
       (SubmitLimit Sell 3 5 GTC 0 CancelTaker) (reentrant_new e 1)"
proof -
  have "engine_new 2 1 6 1 \<noteq> None" by code_simp
  then obtain e where e: "engine_new 2 1 6 1 = Some e" by auto
  have r: "re_reached refill (reentrant_new e 1)" by (rule re_reached.new [OF _ _ e]) (simp_all add: band_ok_def)
  have "next_triggered_stop e' = Some None \<or> e_halted e'" if e': "at_rest e'" for e'
  proof -
    obtain a where a: "refines e' a" "settled a" using e' unfolding at_rest_def stands_for_def by blast
    note y = refinesD(1) [OF a(1)]
    show ?thesis using a(2) erelD(14) [OF y] next_stop_sim [OF y] by (auto simp: settled_def)
  qed
  then have q: "refill ev h e' = (if next_triggered_stop e' = Some None \<or> e_halted e' then refill ev h e' else Throw h)"
    if "at_rest e'" for ev h e' using that by simp
  from deferred_sees_rest [OF r, of "\<lambda>ev h e'. if next_triggered_stop e' = Some None \<or> e_halted e' then refill ev h e' else Throw h", OF q]
  show ?thesis using e by blast
qed

text \<open>C16. For a handler that only listens, the re-entrant mode is the default one: the same reply,
  the same events in the same order, all delivered before the call returns.\<close>

theorem deferred_as_default:
  assumes "re_reached (\<lambda>ev h _. Done (f ev h)) s"
  shows "\<exists>r e n0. call c (re_engine s) = Some (r, e) \<and> (\<forall>n\<ge>n0. \<exists>s'.
    deferred_run n (\<lambda>ev h _. Done (f ev h)) c s = Some (Returned r, s') \<and>
    re_user s' = fold f (e_tape e) (re_user s) \<and> re_engine s' = e\<lparr>e_tape := []\<rparr>)"
proof -
  note s = re_reached_rest [OF assms]
  obtain r e where c: "call c (re_engine s) = Some (r, e)" using at_rest_runs s by blast
  have "\<exists>s'. deferred_run n (\<lambda>ev h _. Done (f ev h)) c s = Some (Returned r, s') \<and>
      re_user s' = fold f (e_tape e) (re_user s) \<and> re_engine s' = e\<lparr>e_tape := []\<rparr>"
    if n: "length (e_tape e) + 2 \<le> n" for n
  proof -
    from n obtain l where l: "n = Suc l" "length (e_tape e) < l" by (cases n) auto
    then have "length (queue_of (drain_start c e s)) - 0 < l" by (simp add: drain_start_def)
    from drain_quiet [OF this] show ?thesis
      using s deferred_outermost [OF _ c, of l] l(1) by (auto simp: drain_start_def close_session_def)
  qed
  then show ?thesis using c by blast
qed

theorem deferred_as_default_witness:
  "\<exists>e0 r e n0. engine_new 2 1 6 1 = Some e0 \<and> call (SubmitLimit Sell 3 5 GTC 0 CancelTaker) e0 = Some (r, e) \<and>
     (\<forall>n\<ge>n0. \<exists>s'. deferred_run n (\<lambda>ev h _. Done (ev # h)) (SubmitLimit Sell 3 5 GTC 0 CancelTaker) (reentrant_new e0 []) =
       Some (Returned r, s') \<and> re_user s' = rev (e_tape e))"
proof -
  have "engine_new 2 1 6 1 \<noteq> None" by code_simp
  then obtain e0 where e0: "engine_new 2 1 6 1 = Some e0" by auto
  have r: "re_reached (\<lambda>ev h _. Done (ev # h)) (reentrant_new e0 [])"
    by (rule re_reached.new [OF _ _ e0]) (simp_all add: band_ok_def)
  have "fold (\<lambda>ev h. ev # h) evs h = rev evs @ h" for evs h :: "event list" by (induction evs arbitrary: h) simp_all
  with deferred_as_default [of "\<lambda>ev h. ev # h", OF r, of "SubmitLimit Sell 3 5 GTC 0 CancelTaker"] e0
  show ?thesis by (fastforce simp: reentrant_new_def)
qed

end
