(* ===== verification/Execution.thy ===== *)
theory Execution
  imports Feed_Calls
begin

text \<open>
  Price-time priority.  A limit order trades against the opposite side exactly as a walk down
  the visible book would have it: best price first, oldest order first, each resting order
  filled to the end before the next, nothing beyond the limit; what is left joins its own side
  behind every order at its price or better.  The reference is a few functions on the order
  walks that market data shows.
\<close>

section \<open>The reference\<close>

type_synonym walk = "(OrderId \<times> Side \<times> Price \<times> Qty) list"

text \<open>Would an order of side \<open>s\<close> with limit \<open>lim\<close> trade at \<open>px\<close>?\<close>

definition reaches :: "Side \<Rightarrow> Price \<Rightarrow> Price \<Rightarrow> bool" where
  "reaches s px lim \<longleftrightarrow> (case s of Buy \<Rightarrow> px \<le> lim | Sell \<Rightarrow> lim \<le> px)"

text \<open>What a taker of quantity \<open>q\<close> gets from a walk of resting orders, what it is left with, and what it leaves.\<close>

fun take_from :: "Side \<Rightarrow> Price \<Rightarrow> Qty \<Rightarrow> walk \<Rightarrow> (OrderId \<times> Price \<times> Qty) list \<times> Qty \<times> walk" where
  "take_from s lim q [] = ([], q, [])"
| "take_from s lim q ((oid, sd, px, n) # os) =
     (if q = 0 \<or> \<not> reaches s px lim then ([], q, (oid, sd, px, n) # os)
      else if q < n then ([(oid, px, q)], 0, (oid, sd, px, n - q) # os)
      else let (fills, rem, left) = take_from s lim (q - n) os in ((oid, px, n) # fills, rem, left))"

definition fills_of :: "OrderId \<Rightarrow> Side \<Rightarrow> (OrderId \<times> Price \<times> Qty) list \<Rightarrow> event list" where
  "fills_of oid s = map (\<lambda>(m, px, f). Traded \<lparr>t_taker = oid, t_maker = m, t_price = px, t_qty = f, t_side = s\<rparr>)"

text \<open>Join one's own side: behind every order at the price or better.\<close>

definition join :: "OrderId \<Rightarrow> Side \<Rightarrow> Price \<Rightarrow> Qty \<Rightarrow> walk \<Rightarrow> walk" where
  "join oid s p q os =
     (let ahead = (\<lambda>(_, _, px, _). reaches (opposite s) px p)
      in takeWhile ahead os @ (oid, s, p, q) # dropWhile ahead os)"

text \<open>The events of a limit order, its own side afterwards, and the opposite side.\<close>

definition limit_order :: "OrderId \<Rightarrow> Side \<Rightarrow> Price \<Rightarrow> Qty \<Rightarrow> TimeInForce \<Rightarrow> walk \<Rightarrow> walk \<Rightarrow> event list \<times> walk \<times> walk" where
  "limit_order oid s p q tif own opp =
     (let (fills, rem, left) = take_from s p q opp
      in if tif = FOK \<and> rem \<noteq> 0 \<or> tif = PostOnly \<and> fills \<noteq> [] then ([Cancelled oid], own, opp)
         else if rem = 0 then (fills_of oid s fills, own, left)
         else if tif = IOC then (fills_of oid s fills @ [Cancelled oid], own, left)
         else (fills_of oid s fills @ [Rested oid s p rem], join oid s p rem own, left))"

section \<open>Facts of the reference\<close>

lemma take_from_0 [simp]: "take_from s lim 0 os = ([], 0, os)"
  by (cases os) auto

abbreviation in_reach :: "Side \<Rightarrow> Price \<Rightarrow> walk \<Rightarrow> bool" where
  "in_reach s lim os \<equiv> \<forall>(_, _, px, _)\<in>set os. reaches s px lim"

abbreviation out_of_reach :: "Side \<Rightarrow> Price \<Rightarrow> walk \<Rightarrow> bool" where
  "out_of_reach s lim os \<equiv> \<forall>(_, _, px, _)\<in>set os. \<not> reaches s px lim"

lemma take_from_append:
  "in_reach s lim xs \<Longrightarrow>
   take_from s lim q (xs @ ys) =
     (let (f, r, l) = take_from s lim q xs; (g, r', l') = take_from s lim r ys in (f @ g, r', l @ l'))"
proof (induction xs arbitrary: q)
  case (Cons x xs)
  then show ?case by (cases x) (auto simp: Let_def case_prod_beta)
qed simp

lemma take_from_beyond: "out_of_reach s lim ys \<Longrightarrow> take_from s lim q ys = ([], q, ys)"
  by (cases ys) auto

text \<open>The volume of a walk, as a natural number.\<close>

definition walk_vol :: "walk \<Rightarrow> nat" where
  "walk_vol os = sum_list (map (\<lambda>(_, _, _, n). unat n) os)"

lemma take_from_rem:
  "in_reach s lim xs \<Longrightarrow> unat (fst (snd (take_from s lim q xs))) = unat q - walk_vol xs"
proof (induction xs arbitrary: q)
  case (Cons x xs)
  obtain oid sd px n where x: "x = (oid, sd, px, n)" by (cases x)
  show ?case
  proof (cases "q = 0 \<or> q < n")
    case False
    then have "unat (q - n) = unat q - unat n" by (simp add: unat_sub word_le_nat_alt not_less)
    with False Cons.IH [of "q - n"] Cons.prems show ?thesis by (simp add: x walk_vol_def case_prod_beta Let_def)
  qed (use Cons.prems in \<open>auto simp: x walk_vol_def word_less_nat_alt\<close>)
qed (simp add: walk_vol_def)

lemma take_from_none: "q \<noteq> 0 \<Longrightarrow> in_reach s lim xs \<Longrightarrow> fst (take_from s lim q xs) = [] \<longleftrightarrow> xs = []"
  by (cases xs) (auto simp: Let_def case_prod_beta split: if_splits)

lemma take_from_idle: "fst (take_from s lim q xs) = [] \<Longrightarrow> take_from s lim q xs = ([], q, xs)"
  by (cases xs) (auto simp: Let_def case_prod_beta split: if_splits)

lemma join_at:
  assumes "in_reach (opposite s) p xs" "out_of_reach (opposite s) p ys"
  shows "join oid s p q (xs @ ys) = xs @ (oid, s, p, q) # ys"
proof -
  have "takeWhile (\<lambda>(_, _, px, _). reaches (opposite s) px p) ys = []"
    "dropWhile (\<lambda>(_, _, px, _). reaches (opposite s) px p) ys = ys"
    using assms(2) by (cases ys; auto)+
  with assms(1) show ?thesis by (simp add: join_def Let_def takeWhile_append2 dropWhile_append2)
qed

section \<open>One level\<close>

definition plain_level :: "Side \<Rightarrow> Price \<Rightarrow> Price \<Rightarrow> ro list \<Rightarrow> bool" where
  "plain_level ts lim px os \<longleftrightarrow> reaches ts px lim \<and> (\<forall>r\<in>set os. r_reserve r = 0 \<and> r_qty r \<noteq> 0 \<and> r_price r = px)"

lemma shown_eq: "shown r = (r_id r, r_side r, r_price r, r_qty r)"
  by (simp add: shown_def)

lemma sweep_take:
  assumes "plain_level ts lim px os" "a_sweep taker px ts 0 stp q os = (q', h, evs, os')"
  shows "\<exists>f. take_from ts lim q (map shown os) = (f, q', map shown os') \<and> evs = fills_of taker ts f \<and> \<not> h"
  using assms
proof (induction os arbitrary: q q' h evs os')
  case Nil
  then show ?case by (simp add: fills_of_def)
next
  case (Cons r os)
  have r: "r_reserve r = 0" "r_qty r \<noteq> 0" "r_price r = px" "reaches ts px lim" "plain_level ts lim px os"
    using Cons.prems(1) by (simp_all add: plain_level_def)
  show ?case
  proof (cases "q = 0 \<or> q < r_qty r")
    case True
    have "(if q < r_qty r then q else r_qty r) \<noteq> r_qty r" if "q < r_qty r" using that by simp
    with Cons.prems(2) r True show ?thesis
      by (cases "q = 0") (auto simp: a_sweep.simps(2) shown_eq fills_of_def Let_def simp del: if_P split: if_splits)
  next
    case False
    then have fl: "(if q < r_qty r then q else r_qty r) = r_qty r" by simp
    obtain q1 h1 evs1 os1 where s: "a_sweep taker px ts 0 stp (q - r_qty r) os = (q1, h1, evs1, os1)" by (metis prod_cases4)
    from Cons.IH [OF r(5) s] Cons.prems(2) False r s show ?thesis
      by (auto simp: a_sweep.simps(2) shown_eq fills_of_def Let_def fl)
  qed
qed

section \<open>The levels\<close>

abbreviation rows :: "Side \<Rightarrow> astate \<Rightarrow> nat list \<Rightarrow> walk" where
  "rows s a is \<equiv> map shown (concat (map (\<lambda>i. a_books a s ! i) is))"

lemma rows_cong: "(\<And>i. i \<in> set is \<Longrightarrow> a_books b s ! i = a_books a s ! i) \<Longrightarrow> rows s b is = rows s a is"
  by (induction "is") auto

lemma rows_append: "rows s a (is @ js) = rows s a is @ rows s a js"
  by simp

definition plain_levels :: "Side \<Rightarrow> Price \<Rightarrow> nat list \<Rightarrow> astate \<Rightarrow> bool" where
  "plain_levels ts lim is a \<longleftrightarrow>
     (\<forall>i\<in>set is. i < length (a_books a (opposite ts)) \<and> plain_level ts lim (a_min a + int i) (a_books a (opposite ts) ! i))"

lemma plain_in_reach: "plain_levels ts lim is a \<Longrightarrow> in_reach ts lim (rows (opposite ts) a is)"
  by (auto simp: plain_levels_def plain_level_def shown_eq)

lemma match_take:
  assumes "a_match_levels ts taker 0 stp is q a = (q', a')" "\<not> a_stp_halt a" "distinct is" "plain_levels ts lim is a"
  shows "\<exists>f. take_from ts lim q (rows (opposite ts) a is) = (f, q', rows (opposite ts) a' is) \<and>
    a_tape a' = a_tape a @ fills_of taker ts f \<and> \<not> a_stp_halt a' \<and>
    length (a_books a' (opposite ts)) = length (a_books a (opposite ts)) \<and>
    (\<forall>j. j \<notin> set is \<longrightarrow> a_books a' (opposite ts) ! j = a_books a (opposite ts) ! j)"
  using assms
proof (induction "is" arbitrary: q a)
  case Nil
  then show ?case by (simp add: fills_of_def)
next
  case (Cons i "is")
  let ?ms = "opposite ts"
  show ?case
  proof (cases "q = 0")
    case True
    with Cons.prems show ?thesis by (simp add: fills_of_def)
  next
    case False
    obtain q1 h evs os where sw: "a_sweep taker (a_min a + int i) ts 0 stp q (a_books a ?ms ! i) = (q1, h, evs, os)"
      and go: "(if a_stp_halt a \<or> h then (q1, a_swept ?ms i (h, evs, os) a)
        else a_match_levels ts taker 0 stp is q1 (a_swept ?ms i (h, evs, os) a)) = (q', a')"
      using match_levels_split [OF Cons.prems(1) False] by blast
    let ?a1 = "a_swept ?ms i (h, evs, os) a" and ?L = "map shown (a_books a ?ms ! i)"
    have i: "i < length (a_books a ?ms)" "plain_level ts lim (a_min a + int i) (a_books a ?ms ! i)" "plain_levels ts lim is a"
      using Cons.prems(4) by (simp_all add: plain_levels_def)
    obtain f where f: "take_from ts lim q ?L = (f, q1, map shown os)" "evs = fills_of taker ts f" "\<not> h"
      using sweep_take [OF i(2) sw] by blast
    have same: "a_books ?a1 ?ms ! j = a_books a ?ms ! j" if "j \<noteq> i" for j using that by simp
    have d: "i \<notin> set is" "distinct is" using Cons.prems(3) by simp_all
    have pre: "plain_levels ts lim is ?a1" using i(3) d(1) unfolding plain_levels_def by (metis a_swept_fields(1,3) fun_upd_same length_list_update same)
    have "a_match_levels ts taker 0 stp is q1 ?a1 = (q', a')" "\<not> a_stp_halt ?a1"
      using go f(3) Cons.prems(2) by (simp_all add: a_swept_def)
    from Cons.IH [OF this d(2) pre] obtain g where g: "take_from ts lim q1 (rows ?ms ?a1 is) = (g, q', rows ?ms a' is)"
      "a_tape a' = a_tape ?a1 @ fills_of taker ts g" "\<not> a_stp_halt a'" "length (a_books a' ?ms) = length (a_books ?a1 ?ms)" "\<forall>j. j \<notin> set is \<longrightarrow> a_books a' ?ms ! j = a_books ?a1 ?ms ! j"
      by blast
    have "rows ?ms ?a1 is = rows ?ms a is" using d(1) by (intro rows_cong same) auto
    moreover have "a_books a' ?ms ! i = os" using g(5) d(1) i(1) by simp
    ultimately have "take_from ts lim q (?L @ rows ?ms a is) = (f @ g, q', map shown os @ rows ?ms a' is)"
      "map shown os = map shown (a_books a' ?ms ! i)"
      using take_from_append [of ?L ts lim q "rows ?ms a is"] plain_in_reach [of ts lim "[i]" a] i f(1) g(1)
      by (simp_all add: plain_levels_def)
    moreover have "a_tape ?a1 = a_tape a @ evs" by (simp add: a_swept_def)
    ultimately show ?thesis using g(2-5) f(2) same by (auto simp: fills_of_def)
  qed
qed

section \<open>The whole side\<close>

definition beyond :: "Side \<Rightarrow> nat \<Rightarrow> nat \<Rightarrow> nat list" where
  "beyond ts n limit = (case ts of Buy \<Rightarrow> [Suc limit..<n] | Sell \<Rightarrow> rev [0..<limit])"

lemma split_reach:
  assumes "limit < n"
  shows "(case ts of Buy \<Rightarrow> [0..<n] | Sell \<Rightarrow> rev [0..<n]) = reach ts n limit @ beyond ts n limit"
proof -
  have "[0..<n] = [0..<Suc limit] @ [Suc limit..<n]"
    using assms by (metis Suc_leI le_add_diff_inverse upt_add_eq_append zero_le)
  moreover have "[0..<n] = [0..<limit] @ [limit..<n]"
    using assms by (metis less_imp_le le_add_diff_inverse upt_add_eq_append zero_le)
  then have "rev [0..<n] = rev [limit..<n] @ rev [0..<limit]" by (simp only: rev_append)
  ultimately show ?thesis using assms
    by (cases ts) (simp_all only: reach_def beyond_def min_absorb2 Suc_leI Side.case)
qed

lemma queue_same: "a_books x t = a_books y t \<Longrightarrow> queue t x = queue t y"
  by (cases t) (simp_all add: queue_concat)

lemma queue_rows:
  assumes "limit < n" "length (a_books a (opposite ts)) = n"
  shows "map shown (queue (opposite ts) a) = rows (opposite ts) a (reach ts n limit) @ rows (opposite ts) a (beyond ts n limit)"
proof -
  have "(case opposite ts of Buy \<Rightarrow> rev (a_books a (opposite ts)) | Sell \<Rightarrow> a_books a (opposite ts)) =
      map (\<lambda>i. a_books a (opposite ts) ! i) (case ts of Buy \<Rightarrow> [0..<n] | Sell \<Rightarrow> rev [0..<n])"
    using assms(2) map_nth [of "a_books a (opposite ts)"] by (cases ts) (simp_all add: rev_map [symmetric])
  then show ?thesis by (simp add: queue_concat split_reach [OF assms(1)])
qed

lemma levels_apart: "limit < n \<Longrightarrow> distinct (reach ts n limit) \<and> set (reach ts n limit) \<inter> set (beyond ts n limit) = {} \<and>
    set (reach ts n limit) \<subseteq> {..<n} \<and> set (beyond ts n limit) \<subseteq> {..<n}"
  by (cases ts) (auto simp: reach_def beyond_def)

section \<open>A plain book\<close>

text \<open>No hidden reserve, and every listed order is alive and at the price of its level.\<close>

definition plain :: "astate \<Rightarrow> bool" where
  "plain a \<longleftrightarrow> 0 < a_n a \<and> (\<forall>s. length (a_books a s) = a_n a \<and>
     (\<forall>i<a_n a. \<forall>r\<in>set (a_books a s ! i). r_reserve r = 0 \<and> r_qty r \<noteq> 0 \<and> r_price r = a_min a + int i))"

lemma refines_plain:
  assumes "refines e a" "open_icebergs e = []"
  shows "plain a"
proof -
  note e = refinesD(1) [OF assms(1)]
  have "r_reserve r = 0" if "i < a_n a" "r \<in> set (a_books a s ! i)" for s i r
    using no_icebergs [OF assms] that nth_mem [of i "a_books a s"] erel_lengths(1) [OF e, of s] erelD(2) [OF e]
    unfolding no_reserve_def by metis
  with level_order(3,6) [OF e] show ?thesis
    using erelD(1-3) [OF e] erel_lengths(1) [OF e] unfolding plain_def by auto
qed

lemma plain_cong: "a_books b = a_books a \<Longrightarrow> a_n b = a_n a \<Longrightarrow> a_min b = a_min a \<Longrightarrow> plain b = plain a"
  by (simp add: plain_def)

lemma plain_reach:
  assumes "plain a" "a_in_band a p"
  shows "a_idx a p < a_n a" "plain_levels ts p (reach ts (a_n a) (a_idx a p)) a"
    "out_of_reach ts p (rows (opposite ts) a (beyond ts (a_n a) (a_idx a p)))"
proof -
  show l: "a_idx a p < a_n a" using assms(2) by (auto simp: a_in_band_def a_idx_def)
  have p: "p = a_min a + int (a_idx a p)" using assms(2) by (simp add: a_in_band_def a_idx_def)
  have in': "i < a_n a \<and> reaches ts (a_min a + int i) p" if "i \<in> set (reach ts (a_n a) (a_idx a p))" for i
    using that l p by (cases ts) (auto simp: reach_def reaches_def)
  show "plain_levels ts p (reach ts (a_n a) (a_idx a p)) a"
    using in' assms(1) by (auto simp: plain_levels_def plain_level_def plain_def)
  have out: "i < a_n a \<and> \<not> reaches ts (a_min a + int i) p" if "i \<in> set (beyond ts (a_n a) (a_idx a p))" for i
    using that l p by (cases ts) (auto simp: beyond_def reaches_def)
  show "out_of_reach ts p (rows (opposite ts) a (beyond ts (a_n a) (a_idx a p)))"
    using out assms(1) by (fastforce simp: shown_eq plain_def)
qed

section \<open>Matching against a plain book\<close>

lemma match_plain:
  assumes a: "plain a" "a_in_band a p" "\<not> a_stp_halt a" and m: "a_match s oid q (a_idx a p) 0 stp a = (rem, a')"
  shows "\<exists>fills. take_from s p q (map shown (queue (opposite s) a)) = (fills, rem, map shown (queue (opposite s) a')) \<and>
    a_tape a' = a_tape a @ fills_of oid s fills \<and> \<not> a_stp_halt a' \<and> a_books a' s = a_books a s \<and> frame a a'"
proof -
  note L = plain_reach(1) [OF a(1,2)] plain_reach(2,3) [OF a(1,2), of s] and ap = levels_apart [OF plain_reach(1) [OF a(1,2)], of s]
  let ?R = "reach s (a_n a) (a_idx a p)" and ?B = "beyond s (a_n a) (a_idx a p)"
  have m': "a_match_levels s oid 0 stp ?R q a = (rem, a')" using m by (simp add: a_match_def)
  note fr = frame_match_levels [OF m']
  obtain f where f: "take_from s p q (rows (opposite s) a ?R) = (f, rem, rows (opposite s) a' ?R)"
    "a_tape a' = a_tape a @ fills_of oid s f" "\<not> a_stp_halt a'"
    "length (a_books a' (opposite s)) = length (a_books a (opposite s))" "\<forall>j. j \<notin> set ?R \<longrightarrow> a_books a' (opposite s) ! j = a_books a (opposite s) ! j"
    using match_take [OF m' a(3) conjunct1 [OF ap] L(2)] by blast
  have len: "length (a_books a (opposite s)) = a_n a" "length (a_books a' (opposite s)) = a_n a"
    using a(1) f(4) by (simp_all add: plain_def)
  have "rows (opposite s) a' ?B = rows (opposite s) a ?B" using f(5) ap by (intro rows_cong) blast
  with f(1) take_from_append [OF plain_in_reach [OF L(2)], of q "rows (opposite s) a ?B"] take_from_beyond [OF L(3), of rem]
  have "take_from s p q (map shown (queue (opposite s) a)) = (f, rem, map shown (queue (opposite s) a'))"
    by (simp only: queue_rows [OF L(1) len(1)] queue_rows [OF L(1) len(2)]) simp
  with f fr show ?thesis by blast
qed

lemma join_rows:
  assumes a: "plain a" "a_in_band a p"
  shows "map shown (queue s (a_rest oid s p q 0 stp 0 a)) = join oid s p q (map shown (queue s a))"
proof -
  let ?t = "opposite s" and ?i = "a_idx a p" and ?b = "a_rest oid s p q 0 stp 0 a"
  let ?R = "reach ?t (a_n a) ?i" and ?B = "beyond ?t (a_n a) ?i"
  have o: "opposite ?t = s" by (cases s) simp_all
  note L = plain_reach(1) [OF a] plain_reach(2,3) [OF a, of ?t, unfolded o] and ap = levels_apart [OF plain_reach(1) [OF a], of ?t]
  have len: "length (a_books a s) = a_n a" using a(1) by (simp add: plain_def)
  have bk: "a_books ?b s = (a_books a s)[?i := a_books a s ! ?i @ [new_order oid s p q 0 stp 0]]"
    by (simp add: a_rest_def Let_def)
  obtain R' where R': "?R = R' @ [?i]" using L(1) by (cases s) (simp_all add: reach_def upt_conv_Cons min_absorb2 Suc_leI)
  have sh: "shown (new_order oid s p q 0 stp 0) = (oid, s, p, q)" by (simp add: shown_eq new_order_def)
  have "?i \<notin> set R'" "?i \<notin> set ?B" using ap R' by auto
  then have r: "rows s ?b R' = rows s a R'" "rows s ?b ?B = rows s a ?B"
    by (intro rows_cong; metis bk nth_list_update_neq)+
  then have "rows s ?b ?R = rows s a ?R @ [(oid, s, p, q)]" using L(1) len by (simp add: R' bk sh)
  moreover have "in_reach ?t p (rows s a ?R)" using plain_in_reach [OF L(2)] unfolding o .
  ultimately show ?thesis using r(2) len
    by (simp only: queue_rows [OF L(1), of a ?t, unfolded o] queue_rows [OF L(1), of ?b ?t, unfolded o] bk length_list_update
        join_at [OF _ L(3)] append_assoc append.simps)
qed

section \<open>Placing and submitting\<close>

lemma place_plain:
  assumes a: "plain a" "a_in_band a p" "\<not> a_stp_halt a" "\<not> a_halted a"
    and t: "take_from s p q (map shown (queue (opposite s) a)) = (fills, rem, left)"
    and b: "a_place oid s p q tif 0 stp 0 a = b"
  shows "a_tape b = a_tape a @ fills_of oid s fills @
      (if rem = 0 then [] else if tif = IOC \<or> tif = FOK then [Cancelled oid] else [Rested oid s p rem])"
    "map shown (queue (opposite s) b) = left"
    "map shown (queue s b) =
      (if rem = 0 \<or> tif = IOC \<or> tif = FOK then map shown (queue s a) else join oid s p rem (map shown (queue s a)))"
    "frame a b"
proof -
  obtain rem' a1 where m: "a_match s oid q (a_idx a p) 0 stp a = (rem', a1)" by fastforce
  obtain f where f: "take_from s p q (map shown (queue (opposite s) a)) = (f, rem', map shown (queue (opposite s) a1))"
    "a_tape a1 = a_tape a @ fills_of oid s f" "\<not> a_stp_halt a1" "a_books a1 s = a_books a s" "frame a a1"
    using match_plain [OF a(1-3) m] by blast
  then have eq: "f = fills" "rem' = rem" "map shown (queue (opposite s) a1) = left" using t by simp_all
  have b': "b = (if rem = 0 then a1 else if tif = IOC \<or> tif = FOK then a_emit (Cancelled oid) a1 else a_rest oid s p rem 0 stp 0 a1)"
    using b m f(3) a(4) eq by (auto simp: a_place_def word_gt_0)
  have q: "queue t x = queue t y" if "a_books x t = a_books y t" for t x y using that by (rule queue_same)
  have os: "opposite s \<noteq> s" by (cases s) simp_all
  have one: "map shown (queue s (a_rest oid s p rem 0 stp 0 a1)) = join oid s p rem (map shown (queue s a))"
  proof -
    let ?x = "a1\<lparr>a_books := a_books a\<rparr>"
    have x: "plain ?x" "a_in_band ?x p" using a(1,2) f(5) by (simp_all add: plain_def frame_def a_in_band_def)
    have "a_books (a_rest oid s p rem 0 stp 0 a1) s = a_books (a_rest oid s p rem 0 stp 0 ?x) s"
      using f(4) by (simp add: a_rest_def Let_def a_idx_def)
    then have "queue s (a_rest oid s p rem 0 stp 0 a1) = queue s (a_rest oid s p rem 0 stp 0 ?x)" by (rule q)
    moreover have "queue s ?x = queue s a" by (rule q) simp
    ultimately show ?thesis using join_rows [OF x, of s oid rem stp] by simp
  qed
  have two: "queue (opposite s) (a_rest oid s p rem 0 stp 0 a1) = queue (opposite s) a1"
    using os by (intro q) (simp add: a_rest_def Let_def)
  show "a_tape b = a_tape a @ fills_of oid s fills @
      (if rem = 0 then [] else if tif = IOC \<or> tif = FOK then [Cancelled oid] else [Rested oid s p rem])"
    using f(2) eq by (simp add: b' a_rest_def Let_def new_order_def)
  show "map shown (queue (opposite s) b) = left" using eq two q [of "a_emit (Cancelled oid) a1"] by (simp add: b')
  show "map shown (queue s b) =
      (if rem = 0 \<or> tif = IOC \<or> tif = FOK then map shown (queue s a) else join oid s p rem (map shown (queue s a)))"
    using one q [OF f(4)] q [of "a_emit (Cancelled oid) a1" s a] f(4) by (simp add: b')
  show "frame a b" using frame_place b by blast
qed

lemma vol_shown: "walk_vol (map shown os) = (\<Sum>r\<leftarrow>os. unat (r_qty r))"
  by (induction os) (simp_all add: walk_vol_def shown_def)

lemma exec_qty_plain:
  "\<forall>r\<in>set os. r_reserve r = 0 \<Longrightarrow> walk_vol (map shown os) < 2 ^ 64 \<Longrightarrow> unat (exec_qty os) = walk_vol (map shown os)"
proof (induction os)
  case (Cons r os)
  then have "unat (r_qty r) + (\<Sum>r\<leftarrow>os. unat (r_qty r)) < 2 ^ 64" "unat (exec_qty os) = (\<Sum>r\<leftarrow>os. unat (r_qty r))"
    unfolding vol_shown by simp_all
  then have "unat (r_qty r + exec_qty os) = unat (r_qty r) + walk_vol (map shown os)"
    by (subst unat_plus_if') (simp add: vol_shown)
  with Cons.prems(1) show ?case unfolding vol_shown by (simp add: exec_qty_def add.assoc)
qed (simp add: exec_qty_def walk_vol_def)

lemma walk_vol_append: "walk_vol (xs @ ys) = walk_vol xs + walk_vol ys"
  by (simp add: walk_vol_def)

lemma fill_scan_plain:
  assumes "\<forall>i\<in>set is. \<forall>r\<in>set (a_books a s ! i). r_reserve r = 0" "unat acc + walk_vol (rows s a is) < 2 ^ 64"
  shows "a_fill_scan want (a_books a s) is acc < want \<longleftrightarrow> unat acc + walk_vol (rows s a is) < unat want"
  using assms
proof (induction "is" arbitrary: acc)
  case (Cons i "is")
  have v: "walk_vol (rows s a (i # is)) = walk_vol (map shown (a_books a s ! i)) + walk_vol (rows s a is)"
    by (simp add: walk_vol_append)
  then have x: "unat (exec_qty (a_books a s ! i)) = walk_vol (map shown (a_books a s ! i))"
    using Cons.prems by (intro exec_qty_plain) simp_all
  then have "unat (acc + exec_qty (a_books a s ! i)) = unat acc + walk_vol (map shown (a_books a s ! i))"
    using Cons.prems(2) v by (subst unat_plus_if') simp
  with Cons.IH [of "acc + exec_qty (a_books a s ! i)"] Cons.prems v show ?case by (auto simp: word_less_nat_alt)
qed (simp add: walk_vol_def word_less_nat_alt)

lemma submit_plain:
  assumes a: "plain a" "a_in_band a p" "\<not> a_stp_halt a" "\<not> a_halted a" and q: "q \<noteq> 0"
    and vol: "tif = FOK \<longrightarrow> walk_vol (map shown (queue (opposite s) a)) < 2 ^ 64"
    and b: "a_submit_limit s p q tif 0 stp a = (oid, b)"
    and ref: "limit_order (a_next a) s p q tif (map shown (queue s a)) (map shown (queue (opposite s) a)) = (evs, own, opp)"
  shows "oid = a_next a" "a_tape b = a_tape a @ Accept oid s p q # evs" "map shown (queue s b) = own"
    "map shown (queue (opposite s) b) = opp" "a_stops b = a_stops a" "a_halted b = a_halted a" "a_pumping b = a_pumping a"
proof -
  let ?x = "a_emit (Accept (a_next a) s p q) (a\<lparr>a_next := Suc (a_next a)\<rparr>)"
  have x: "plain ?x" "a_in_band ?x p" "\<not> a_stp_halt ?x" "\<not> a_halted ?x" using a by (simp_all add: plain_def a_in_band_def)
  have qx: "queue t ?x = queue t a" for t by (rule queue_same) simp
  obtain fills rem left where t: "take_from s p q (map shown (queue (opposite s) a)) = (fills, rem, left)"
    by (metis prod_cases3)
  note L = plain_reach(1) [OF x(1,2)] plain_reach(2,3) [OF x(1,2), of s]
  let ?R = "reach s (a_n ?x) (a_idx ?x p)"
  have sp: "map shown (queue (opposite s) a) = rows (opposite s) ?x ?R @ rows (opposite s) ?x (beyond s (a_n ?x) (a_idx ?x p))"
    using queue_rows [OF L(1), of ?x s] x(1) unfolding qx by (simp add: plain_def)
  have tk: "take_from s p q (map shown (queue (opposite s) a)) =
      (fst (take_from s p q (rows (opposite s) ?x ?R)), fst (snd (take_from s p q (rows (opposite s) ?x ?R))), left)"
    using t unfolding sp take_from_append [OF plain_in_reach [OF L(2)]] take_from_beyond [OF L(3)]
    by (auto simp: Let_def case_prod_beta)
  have "a_fillable s p q ?x < q \<longleftrightarrow> rem \<noteq> 0" if "tif = FOK"
  proof -
    have z: "\<forall>i\<in>set ?R. \<forall>r\<in>set (a_books ?x (opposite s) ! i). r_reserve r = 0"
      using L(2) by (simp add: plain_levels_def plain_level_def)
    have "a_fillable s p q ?x < q \<longleftrightarrow> walk_vol (rows (opposite s) ?x ?R) < unat q"
      unfolding a_fillable_def using fill_scan_plain [OF z, of 0 q] vol that unfolding sp walk_vol_append by simp
    also have "\<dots> \<longleftrightarrow> rem \<noteq> 0"
    proof -
      have "rem = fst (snd (take_from s p q (rows (opposite s) ?x ?R)))" using tk t by simp
      then have "unat rem = unat q - walk_vol (rows (opposite s) ?x ?R)"
        using take_from_rem [OF plain_in_reach [OF L(2)], of q] by simp
      then show ?thesis by (metis unat_eq_zero zero_less_diff neq0_conv)
    qed
    finally show ?thesis .
  qed
  then have fok: "tif = FOK \<and> a_fillable s p q ?x < q \<longleftrightarrow> tif = FOK \<and> rem \<noteq> 0" by blast
  have post: "a_would_cross s p ?x \<longleftrightarrow> fills \<noteq> []"
    using take_from_none [OF q plain_in_reach [OF L(2)]] tk t unfolding a_would_cross_def by (auto simp: concat_eq_Nil_conv)
  have go: "(oid, b) = (if (tif = FOK \<and> rem \<noteq> 0) \<or> (tif = PostOnly \<and> fills \<noteq> []) then (a_next a, a_emit (Cancelled (a_next a)) ?x)
      else (a_next a, a_place (a_next a) s p q tif 0 stp 0 ?x))"
    using b a(2,4) q fok post by (simp add: a_submit_limit_def a_submit_def a_fresh_def Let_def) (auto split: if_splits)
  then show oid: "oid = a_next a" by (simp split: if_splits)
  note P = place_plain [OF x, unfolded qx, OF t refl, of "a_next a" tif stp]
  have goal: "a_tape b = a_tape a @ Accept oid s p q # evs \<and> map shown (queue s b) = own \<and>
      map shown (queue (opposite s) b) = opp \<and> a_stops b = a_stops a \<and> a_halted b = a_halted a \<and> a_pumping b = a_pumping a"
  proof (cases "(tif = FOK \<and> rem \<noteq> 0) \<or> (tif = PostOnly \<and> fills \<noteq> [])")
    case True
    then have r: "evs = [Cancelled (a_next a)]" "own = map shown (queue s a)" "opp = map shown (queue (opposite s) a)"
      using ref t by (auto simp: limit_order_def)
    have b': "b = a_emit (Cancelled (a_next a)) ?x" using go True by simp
    have "queue u b = queue u a" for u unfolding b' by (rule queue_same) simp
    with r oid show ?thesis by (simp add: b')
  next
    case False
    then have b': "b = a_place (a_next a) s p q tif 0 stp 0 ?x" using go by (simp only: if_False prod.inject)
    note P' = P [folded b']
    have "a_stops b = a_stops a \<and> a_halted b = a_halted a \<and> a_pumping b = a_pumping a" using P'(4) by (simp add: frame_def)
    moreover have "a_tape b = a_tape a @ Accept oid s p q # evs \<and> map shown (queue s b) = own \<and> map shown (queue (opposite s) b) = opp"
    proof (cases "rem = 0")
      case True
      with P'(1-3) ref t False oid show ?thesis by (auto simp: limit_order_def)
    next
      case rem: False
      with False have tif: "tif \<noteq> FOK" by blast
      show ?thesis
      proof (cases "tif = IOC")
        case True
        with P'(1-3) ref t rem oid show ?thesis by (auto simp: limit_order_def)
      next
        case ioc: False
        with P'(1-3) ref t rem tif False oid show ?thesis by (auto simp: limit_order_def)
      qed
    qed
    ultimately show ?thesis by blast
  qed
  then show "a_tape b = a_tape a @ Accept oid s p q # evs" "map shown (queue s b) = own" "map shown (queue (opposite s) b) = opp"
      "a_stops b = a_stops a" "a_halted b = a_halted a" "a_pumping b = a_pumping a"
    by blast+
qed

section \<open>The call\<close>

lemma no_stop_armed: "stop_count a = 0 \<Longrightarrow> a_next_stop a = None"
proof -
  assume z: "stop_count a = 0"
  then have "\<forall>s. \<forall>os\<in>set (a_stops a s). os = []"
    unfolding stop_count_def by (intro allI, case_tac s) auto
  then have "lowest (a_stops a s) = None" "highest (a_stops a s) = None" for s
    by (auto simp: lowest_def highest_def find_None_iff all_set_conv_all_nth)
  then show ?thesis by (simp add: a_next_stop_def)
qed

lemma run_idle:
  assumes "f a = (r, b)" "stop_count b = 0" "\<not> a_pumping b"
  shows "a_run f a = (r, b)"
proof -
  have "a_next_stop (b\<lparr>a_pumping := True\<rparr>) = None" using assms(2) by (intro no_stop_armed) (simp add: stop_count_def)
  then have "a_pump (b\<lparr>a_pumping := True\<rparr>) = b\<lparr>a_pumping := True\<rparr>" by (simp add: a_pump.simps)
  with assms show ?thesis by (simp add: a_run_def)
qed

text \<open>C2. Price-time priority, in full: with no hidden reserves and no pending stops (and, for
  fill-or-kill, less than 2^64 resting against it), a limit order of an anonymous owner in continuous trading does
  to the two sides of the visible book, and tells the handler, exactly what the reference
  computes from the order walks: a sweep of the opposite walk in order, each resting order
  filled before the next and none beyond the limit; fill-or-kill all or nothing; post-only
  only without a fill; the remainder cancelled or behind every order at its price or better.\<close>

theorem limit_order_exact:
  assumes "reachable e" "\<not> e_halted e" "open_icebergs e = []" "e_pending_stops e = 0" "in_band e p" "q \<noteq> 0"
    and "visit_orders e s = Some own" "visit_orders e (opposite s) = Some opp" "tif = FOK \<longrightarrow> walk_vol opp < 2 ^ 64"
    and "limit_order (length (st_orders (e_store e))) s p q tif own opp = (evs, own', opp')"
  shows "\<exists>e'. submit_limit s p q tif 0 stp e = Some (length (st_orders (e_store e)), e') \<and>
    e_tape e' = e_tape e @ Accept (length (st_orders (e_store e))) s p q # evs \<and>
    visit_orders e' s = Some own' \<and> visit_orders e' (opposite s) = Some opp'"
proof -
  obtain a where a: "stands_for e a" using reached_stands_for [OF assms(1)] by blast
  then have r: "refines e a" "settled a" by (simp_all add: stands_for_def)
  note e = refinesD(1) [OF r(1)]
  have nx: "a_next a = length (st_orders (e_store e))" using erelD(6) [OF e] .
  have pl: "plain a" "a_in_band a p" "\<not> a_stp_halt a" "\<not> a_halted a"
    using refines_plain [OF r(1) assms(3)] in_band_sim [OF e] assms(2,5) refinesD(2) [OF r(1)] erelD(14) [OF e] by simp_all
  have w: "map shown (queue s a) = own" "map shown (queue (opposite s) a) = opp"
    using visit_orders_sim [OF e] assms(7,8) by simp_all
  obtain oid b where b: "a_submit_limit s p q tif 0 stp a = (oid, b)" by fastforce
  note S = submit_plain [OF pl assms(6) _ b, unfolded w nx, OF assms(9,10)]
  have "a_run (a_submit_limit s p q tif 0 stp) a = (oid, b)"
    using run_idle [of "a_submit_limit s p q tif 0 stp", OF b] S(5,7) r(2) assms(4) erelD(10) [OF e] by (simp add: stop_count_def settled_def)
  then have "a_call (SubmitLimit s p q tif 0 stp) a = (RId oid, b)"
    by (simp add: a_call_def a_body.simps [abs_def] a_run_map)
  with call_forward [OF r(1), of "SubmitLimit s p q tif 0 stp"]
  obtain e' where e': "submit_limit s p q tif 0 stp e = Some (oid, e')" "refines e' b"
    by (auto simp: reply_as_def)
  note f = refinesD(1) [OF e'(2)]
  show ?thesis
    using e'(1) S(1-4) visit_orders_sim [OF f] erelD(16) [OF f] erelD(16) [OF e] by simp
qed

definition ladder_session :: "api list" where
  "ladder_session = [SubmitLimit Sell 5 4 GTC 0 CancelTaker, SubmitLimit Sell 4 3 GTC 0 CancelTaker,
     SubmitLimit Sell 4 6 GTC 0 CancelTaker, SubmitLimit Buy 2 7 GTC 0 CancelTaker]"

lemma ladder_engine:
  obtains e where "reachable e" "\<not> e_halted e" "open_icebergs e = []" "e_pending_stops e = 0" "in_band e 5"
    "length (st_orders (e_store e)) = 5" "visit_orders e Buy = Some [(4, Buy, 2, 7)]"
    "visit_orders e Sell = Some [(2, Sell, 4, 3), (3, Sell, 4, 6), (1, Sell, 5, 4)]"
proof -
  have b: "band_ok 1 6" by (simp add: band_ok_def)
  obtain rs e where s: "session 2 1 6 1 ladder_session = Some (rs, e)"
    using session_refines [of 2 1 6 1 ladder_session] b by auto
  have "map_option (\<lambda>(rs, e). (e_halted e, open_icebergs e, e_pending_stops e, in_band e 5, length (st_orders (e_store e)),
      visit_orders e Buy, visit_orders e Sell)) (session 2 1 6 1 ladder_session) =
    Some (False, [], 0, True, 5, Some [(4, Buy, 2, 7)], Some [(2, Sell, 4, 3), (3, Sell, 4, 6), (1, Sell, 5, 4)])"
    by code_simp
  with s session_reached [OF _ b s, of "\<lambda>c. True"] that show ?thesis by simp
qed

theorem limit_order_exact_witness:
  "\<exists>e e'. reachable e \<and> submit_limit Buy 5 10 GTC 0 CancelTaker e = Some (5, e') \<and>
     e_tape e' = e_tape e @ [Accept 5 Buy 5 10,
       Traded \<lparr>t_taker = 5, t_maker = 2, t_price = 4, t_qty = 3, t_side = Buy\<rparr>,
       Traded \<lparr>t_taker = 5, t_maker = 3, t_price = 4, t_qty = 6, t_side = Buy\<rparr>,
       Traded \<lparr>t_taker = 5, t_maker = 1, t_price = 5, t_qty = 1, t_side = Buy\<rparr>] \<and>
     visit_orders e' Buy = Some [(4, Buy, 2, 7)] \<and> visit_orders e' Sell = Some [(1, Sell, 5, 3)]"
proof -
  obtain e where e: "reachable e" "\<not> e_halted e" "open_icebergs e = []" "e_pending_stops e = 0" "in_band e 5"
    "length (st_orders (e_store e)) = 5" "visit_orders e Buy = Some [(4, Buy, 2, 7)]"
    "visit_orders e (opposite Buy) = Some [(2, Sell, 4, 3), (3, Sell, 4, 6), (1, Sell, 5, 4)]"
    by (rule ladder_engine) simp
  have v: "GTC = FOK \<longrightarrow> walk_vol [(2, Sell, 4, 3), (3, Sell, 4, 6), (1, Sell, 5, 4)] < 2 ^ 64" by (simp add: walk_vol_def)
  have l: "limit_order (length (st_orders (e_store e))) Buy 5 10 GTC [(4, Buy, 2, 7)] [(2, Sell, 4, 3), (3, Sell, 4, 6), (1, Sell, 5, 4)] =
    ([Traded \<lparr>t_taker = 5, t_maker = 2, t_price = 4, t_qty = 3, t_side = Buy\<rparr>,
      Traded \<lparr>t_taker = 5, t_maker = 3, t_price = 4, t_qty = 6, t_side = Buy\<rparr>,
      Traded \<lparr>t_taker = 5, t_maker = 1, t_price = 5, t_qty = 1, t_side = Buy\<rparr>], [(4, Buy, 2, 7)], [(1, Sell, 5, 3)])"
    unfolding e(6) by code_simp
  from limit_order_exact [OF e(1-5) _ e(7,8) v l, of CancelTaker] e(1,6) show ?thesis by auto
qed

end
