(* ===== verification/Py_Engine.thy ===== *)
theory Py_Engine
  imports Handler
begin

text \<open>
  The engine of the Python bindings (\<^verbatim>\<open>bindings/py_matchbook.cpp\<close>): an engine whose handler
  collects trades, cancelled ids and a count of rejects, for the script to drain between calls.
\<close>

section \<open>The collector\<close>

record py_engine =
  py_engine :: engine
  py_trades :: "Trade list"
  py_cancels :: "OrderId list"
  py_rejects :: "64 word"

fun collect :: "event \<Rightarrow> py_engine \<Rightarrow> py_engine" where
  "collect (Traded t) s = s\<lparr>py_trades := py_trades s @ [t]\<rparr>"
| "collect (Cancelled oid) s = s\<lparr>py_cancels := py_cancels s @ [oid]\<rparr>"
| "collect (Rejected oid) s = s\<lparr>py_rejects := py_rejects s + 1\<rparr>"
| "collect _ s = s"

lemma collect_engine [simp]: "py_engine (collect ev s) = py_engine s"
  by (cases ev) simp_all

interpretation py: handler py_engine "\<lambda>e s. s\<lparr>py_engine := e\<rparr>" collect
  by unfold_locales simp_all

definition py_new :: "nat \<Rightarrow> Price \<Rightarrow> Price \<Rightarrow> nat \<Rightarrow> py_engine option" where
  "py_new chunk min_price max_price expected_orders = do {
     e \<leftarrow> engine_new chunk min_price max_price expected_orders;
     Some \<lparr>py_engine = e, py_trades = [], py_cancels = [], py_rejects = 0\<rparr> }"

text \<open>Every method that changes the engine forwards to it.\<close>

definition py_call :: "api \<Rightarrow> py_engine \<Rightarrow> (reply \<times> py_engine) option" where
  "py_call c = handled py_engine (\<lambda>e s. s\<lparr>py_engine := e\<rparr>) collect (call c)"

definition take_trades :: "py_engine \<Rightarrow> Trade list \<times> py_engine" where
  "take_trades s = (py_trades s, s\<lparr>py_trades := []\<rparr>)"

definition take_cancels :: "py_engine \<Rightarrow> OrderId list \<times> py_engine" where
  "take_cancels s = (py_cancels s, s\<lparr>py_cancels := []\<rparr>)"

section \<open>Scripts\<close>

text \<open>A script calls the engine and drains the two lists whenever it likes.\<close>

datatype py_op = PyCall api | TakeTrades | TakeCancels

datatype py_value = PyReply reply | PyTrades "Trade list" | PyCancels "OrderId list"

fun py_step :: "py_op \<Rightarrow> py_engine \<Rightarrow> (py_value \<times> py_engine) option" where
  "py_step (PyCall c) s = map_option (map_prod PyReply id) (py_call c s)"
| "py_step TakeTrades s = Some (map_prod PyTrades id (take_trades s))"
| "py_step TakeCancels s = Some (map_prod PyCancels id (take_cancels s))"

definition py_script :: "py_op list \<Rightarrow> py_engine \<Rightarrow> (py_value list \<times> py_engine) option" where
  "py_script = history py_step"

definition calls_of :: "py_op list \<Rightarrow> api list" where
  "calls_of ops = concat (map (\<lambda>op. case op of PyCall c \<Rightarrow> [c] | _ \<Rightarrow> []) ops)"

definition replies_of :: "py_value list \<Rightarrow> reply list" where
  "replies_of vs = concat (map (\<lambda>v. case v of PyReply r \<Rightarrow> [r] | _ \<Rightarrow> []) vs)"

definition drained_trades :: "py_value list \<Rightarrow> Trade list" where
  "drained_trades vs = concat (map (\<lambda>v. case v of PyTrades ts \<Rightarrow> ts | _ \<Rightarrow> []) vs)"

definition drained_cancels :: "py_value list \<Rightarrow> OrderId list" where
  "drained_cancels vs = concat (map (\<lambda>v. case v of PyCancels cs \<Rightarrow> cs | _ \<Rightarrow> []) vs)"

lemmas script_defs = calls_of_def replies_of_def drained_trades_def drained_cancels_def

section \<open>What the collector holds\<close>

definition cancelled_ids :: "event list \<Rightarrow> OrderId list" where
  "cancelled_ids evs = concat (map (\<lambda>ev. case ev of Cancelled oid \<Rightarrow> [oid] | _ \<Rightarrow> []) evs)"

definition reject_count :: "event list \<Rightarrow> nat" where
  "reject_count evs = length (filter (\<lambda>ev. case ev of Rejected _ \<Rightarrow> True | _ \<Rightarrow> False) evs)"

lemma collect_all:
  "py_trades (fold collect evs s) = py_trades s @ trades evs"
  "py_cancels (fold collect evs s) = py_cancels s @ cancelled_ids evs"
  "py_rejects (fold collect evs s) = py_rejects s + of_nat (reject_count evs)"
proof (induction evs arbitrary: s)
  case (Cons ev evs)
  { case 1 show ?case using Cons(1) by (cases ev) (simp_all add: trades_def) }
  { case 2 show ?case using Cons(2) by (cases ev) (simp_all add: cancelled_ids_def) }
  { case 3 show ?case using Cons(3) by (cases ev) (simp_all add: reject_count_def) }
qed (simp_all add: trades_def cancelled_ids_def reject_count_def)

lemma events_append:
  "trades (xs @ ys) = trades xs @ trades ys" "cancelled_ids (xs @ ys) = cancelled_ids xs @ cancelled_ids ys"
  "reject_count (xs @ ys) = reject_count xs + reject_count ys"
  by (simp_all add: trades_def cancelled_ids_def reject_count_def)

text \<open>Drained so far and still held: together, the events on the tape.\<close>

definition accounted :: "py_value list \<Rightarrow> py_engine \<Rightarrow> bool" where
  "accounted vs s \<longleftrightarrow>
     drained_trades vs @ py_trades s = trades (e_tape (py_engine s)) \<and>
     drained_cancels vs @ py_cancels s = cancelled_ids (e_tape (py_engine s)) \<and>
     py_rejects s = of_nat (reject_count (e_tape (py_engine s)))"

lemma accounted_call:
  assumes a: "stands_for (py_engine s) a" and y: "accounted vs s"
  shows "\<exists>r s'. py_step (PyCall c) s = Some (PyReply r, s') \<and> call c (py_engine s) = Some (r, py_engine s') \<and>
    stands_for (py_engine s') (snd (a_call c a)) \<and> accounted (vs @ [PyReply r]) s'"
proof -
  obtain r e' where c: "call c (py_engine s) = Some (r, e')" using stands_for_runs [OF a] by blast
  note st = stands_for_call [OF a c]
  obtain evs where evs: "e_tape e' = e_tape (py_engine s) @ evs" using st(5) by blast
  let ?s' = "fold collect evs (s\<lparr>py_engine := e'\<rparr>)"
  have "py_call c s = Some (r, ?s')"
    unfolding py_call_def by (rule handled_eq [of "call c" py_engine s r e' evs, OF c evs])
  moreover have "py_engine ?s' = e'" by (simp add: py.events_engine)
  moreover from this have "accounted (vs @ [PyReply r]) ?s'"
    using y evs by (simp add: accounted_def collect_all events_append drained_trades_def drained_cancels_def)
  ultimately show ?thesis using c st(1) by simp
qed

lemma accounted_script:
  assumes "stands_for (py_engine s) a" "accounted vs s"
  shows "\<exists>ws s'. py_script ops s = Some (ws, s') \<and>
    history call (calls_of ops) (py_engine s) = Some (replies_of ws, py_engine s') \<and> accounted (vs @ ws) s'"
  using assms
proof (induction ops arbitrary: s a vs)
  case Nil
  then show ?case by (simp add: py_script_def script_defs)
next
  case (Cons op ops)
  have quiet: ?case if st: "py_step op s = Some (v, s1)" "py_engine s1 = py_engine s" "accounted (vs @ [v]) s1"
      "calls_of [op] = []" "replies_of [v] = []" for v s1
  proof -
    from Cons.IH [of s1 a "vs @ [v]"] Cons.prems(1) st obtain ws s' where
      "py_script ops s1 = Some (ws, s')" "history call (calls_of ops) (py_engine s) = Some (replies_of ws, py_engine s')"
      "accounted (vs @ v # ws) s'" by auto
    with st(1,4,5) show ?thesis by (auto simp: py_script_def calls_of_def replies_of_def)
  qed
  show ?case
  proof (cases op)
    case (PyCall c)
    obtain r s1 where *: "py_step (PyCall c) s = Some (PyReply r, s1)" "call c (py_engine s) = Some (r, py_engine s1)"
      "stands_for (py_engine s1) (snd (a_call c a))" "accounted (vs @ [PyReply r]) s1"
      using accounted_call [OF Cons.prems] by blast
    from Cons.IH [OF *(3,4)] * show ?thesis by (auto simp: PyCall py_script_def calls_of_def replies_of_def)
  next
    case TakeTrades
    have "accounted (vs @ [PyTrades (py_trades s)]) (snd (take_trades s))"
      using Cons.prems(2) by (simp add: accounted_def take_trades_def drained_trades_def drained_cancels_def)
    then show ?thesis
      by (intro quiet [of "PyTrades (py_trades s)" "snd (take_trades s)"])
        (simp_all add: TakeTrades take_trades_def calls_of_def replies_of_def)
  next
    case TakeCancels
    have "accounted (vs @ [PyCancels (py_cancels s)]) (snd (take_cancels s))"
      using Cons.prems(2) by (simp add: accounted_def take_cancels_def drained_trades_def drained_cancels_def)
    then show ?thesis
      by (intro quiet [of "PyCancels (py_cancels s)" "snd (take_cancels s)"])
        (simp_all add: TakeCancels take_cancels_def calls_of_def replies_of_def)
  qed
qed

text \<open>C26. A script drives the engine as a plain session of its calls would, with the same
  replies, and always runs to its end.  Whenever it drains, every trade the engine made comes
  out exactly once and in order - what was drained so far and what is still held are together
  the trades of the session - and so does every cancelled id; the reject counter counts every
  rejection.\<close>

theorem scripts_lose_nothing:
  assumes "0 < chunk" "band_ok lo hi" "py_new chunk lo hi expected = Some s0"
  shows "\<exists>vs s. py_script ops s0 = Some (vs, s) \<and>
    session chunk lo hi expected (calls_of ops) = Some (replies_of vs, py_engine s) \<and>
    drained_trades vs @ py_trades s = trades (e_tape (py_engine s)) \<and>
    drained_cancels vs @ py_cancels s = cancelled_ids (e_tape (py_engine s)) \<and>
    py_rejects s = of_nat (reject_count (e_tape (py_engine s)))"
proof -
  obtain e where e: "engine_new chunk lo hi expected = Some e" "s0 = \<lparr>py_engine = e, py_trades = [], py_cancels = [], py_rejects = 0\<rparr>"
    using assms(3) by (auto simp: py_new_def bind_eq_Some_conv)
  have st: "stands_for e (astate_new lo hi)" by (rule stands_for_new [OF assms(1,2) e(1)])
  have "e_tape e = a_tape (astate_new lo hi)" using erelD(16) [OF refinesD(1)] st unfolding stands_for_def by metis
  then have "e_tape e = []" by (simp add: astate_new_def Let_def)
  then have "accounted [] s0" "stands_for (py_engine s0) (astate_new lo hi)"
    using st by (simp_all add: e(2) accounted_def trades_def cancelled_ids_def reject_count_def drained_trades_def drained_cancels_def)
  from accounted_script [OF this(2,1), of ops] show ?thesis by (auto simp: e session_def accounted_def)
qed

definition demo_script :: "py_op list" where
  "demo_script = [PyCall (SubmitLimit Sell 4 10 GTC 0 CancelTaker), PyCall (SubmitLimit Buy 4 3 GTC 0 CancelTaker),
     TakeTrades, PyCall (SubmitLimit Buy 5 4 GTC 0 CancelTaker), PyCall (CancelOrder 1), PyCall (SubmitLimit Buy 9 1 GTC 0 CancelTaker)]"

theorem scripts_lose_nothing_witness:
  "\<exists>s0 vs s. py_new 2 1 6 1 = Some s0 \<and> py_script demo_script s0 = Some (vs, s) \<and>
    replies_of vs = [RId 1, RId 2, RId 3, RBool True, RId 0] \<and>
    drained_trades vs @ py_trades s =
      [\<lparr>t_taker = 2, t_maker = 1, t_price = 4, t_qty = 3, t_side = Buy\<rparr>,
       \<lparr>t_taker = 3, t_maker = 1, t_price = 4, t_qty = 4, t_side = Buy\<rparr>] \<and>
    py_cancels s = [1] \<and> py_rejects s = 1"
proof -
  have b: "band_ok 1 6" by (simp add: band_ok_def)
  have d: "map_option (\<lambda>(rs, e). (rs, trades (e_tape e), cancelled_ids (e_tape e), reject_count (e_tape e)))
      (session 2 1 6 1 (calls_of demo_script)) =
    Some ([RId 1, RId 2, RId 3, RBool True, RId 0], [\<lparr>t_taker = 2, t_maker = 1, t_price = 4, t_qty = 3, t_side = Buy\<rparr>,
       \<lparr>t_taker = 3, t_maker = 1, t_price = 4, t_qty = 4, t_side = Buy\<rparr>], [1], 1)"
    by code_simp
  obtain s0 where s0: "py_new 2 1 6 1 = Some s0" using engine_new_refines [of 2 1 6 1] by (auto simp: py_new_def)
  have "do { s0 \<leftarrow> py_new 2 1 6 1; (vs, s) \<leftarrow> py_script demo_script s0; Some (drained_cancels vs) } = Some []" by code_simp
  with scripts_lose_nothing [OF _ b s0, of demo_script] d s0 show ?thesis by fastforce
qed

end
