(* ===== verification/Xorshift.thy ===== *)
theory Xorshift
  imports Matchbook_Prelude
begin

unbundle bit_operations_syntax

text \<open>
  The generator the tools and the Q-learning quoter share: Marsaglia's xorshift on 64 bits.
  Each of its three steps can be undone, so a seed that is not 0 never leads to 0.
\<close>

definition xorshift :: "64 word \<Rightarrow> 64 word" where
  "xorshift s = (let s1 = s XOR push_bit 13 s; s2 = s1 XOR drop_bit 7 s1 in s2 XOR push_bit 17 s2)"

lemma xor_push_zero:
  fixes s :: "'a::len word"
  assumes "0 < k" "s XOR push_bit k s = 0"
  shows "s = 0"
proof (rule bit_word_eqI)
  fix n assume "n < LENGTH('a)"
  then show "bit s n = bit 0 n"
  proof (induction n rule: less_induct)
    case (less n)
    have "bit s n = bit (push_bit k s) n" using arg_cong [OF assms(2), of "\<lambda>w. bit w n"] by (simp add: bit_xor_iff)
    also have "\<dots> \<longleftrightarrow> k \<le> n \<and> bit s (n - k)" using less.prems by (auto simp: bit_push_bit_iff)
    finally show ?case using less.IH [of "n - k"] less.prems assms(1) by auto
  qed
qed

lemma xor_drop_zero:
  fixes s :: "'a::len word"
  assumes "0 < k" "s XOR drop_bit k s = 0"
  shows "s = 0"
proof -
  have "\<not> bit s n" for n
  proof (induction "LENGTH('a) - n" arbitrary: n rule: less_induct)
    case less
    show ?case
    proof (cases "n < LENGTH('a)")
      case True
      have "bit s n = bit (drop_bit k s) n" using arg_cong [OF assms(2), of "\<lambda>w. bit w n"] by (simp add: bit_xor_iff)
      also have "\<dots> \<longleftrightarrow> bit s (k + n)" by (simp add: bit_drop_bit_eq)
      finally show ?thesis using less [of "k + n"] assms(1) True by simp
    qed (auto dest: bit_imp_le_length)
  qed
  then show ?thesis by (simp add: bit_word_eqI)
qed

lemma xor_zero_eq: "(s :: 'a::len word) XOR t = 0 \<Longrightarrow> s = t"
  by (rule bit_word_eqI) (metis bit_xor_iff bit_0_eq bot_apply bot_bool_def)

lemma xor_mix:
  fixes s t :: "64 word"
  assumes "s XOR f s = t XOR f t" "f (s XOR t) = f s XOR f t"
  shows "(s XOR t) XOR f (s XOR t) = 0"
proof -
  have "(s XOR t) XOR f (s XOR t) = (s XOR f s) XOR (t XOR f t)" using assms(2) by (simp add: ac_simps)
  with assms(1) show ?thesis by simp
qed

lemma xor_mix_inj:
  fixes s t :: "64 word"
  shows "0 < k \<Longrightarrow> s XOR push_bit k s = t XOR push_bit k t \<Longrightarrow> s = t"
    "0 < k \<Longrightarrow> s XOR drop_bit k s = t XOR drop_bit k t \<Longrightarrow> s = t"
proof -
  assume k: "0 < k"
  { assume "s XOR push_bit k s = t XOR push_bit k t"
    then have "(s XOR t) XOR push_bit k (s XOR t) = 0" by (rule xor_mix) (simp add: push_bit_xor)
    from xor_push_zero [OF k this] show "s = t" by (simp add: xor_zero_eq) }
  { assume "s XOR drop_bit k s = t XOR drop_bit k t"
    then have "(s XOR t) XOR drop_bit k (s XOR t) = 0" by (rule xor_mix) (simp add: drop_bit_xor)
    from xor_drop_zero [OF k this] show "s = t" by (simp add: xor_zero_eq) }
qed

lemma xorshift_inj: "xorshift s = xorshift t \<Longrightarrow> s = t"
  unfolding xorshift_def Let_def using xor_mix_inj by (metis zero_less_numeral)

lemma xorshift_nonzero [simp]: "xorshift s = 0 \<longleftrightarrow> s = 0"
  using xorshift_inj [of s 0] by (auto simp: xorshift_def)

text \<open>A draw below \<open>n\<close>.\<close>

definition draw :: "64 word \<Rightarrow> 64 word \<Rightarrow> 64 word \<times> 64 word" where
  "draw n s = (let s1 = xorshift s in (s1 mod n, s1))"

lemma draw_less: "0 < n \<Longrightarrow> fst (draw n s) < n"
  by (simp add: draw_def Let_def word_mod_less_divisor)

lemma draw_nonzero: "snd (draw n s) = 0 \<longleftrightarrow> s = 0"
  by (simp add: draw_def Let_def)

end
