(* ===== verification/Rl_Quoter.thy ===== *)
theory Rl_Quoter
  imports Xorshift "HOL-Library.Signed_Division" "HOL-Library.Monad_Syntax"
begin

text \<open>
  The Q-learning quoter (\<^verbatim>\<open>strategy/rl_quoter.hpp\<close>).  The arithmetic of doubles is a parameter:
  nothing below depends on what adding or multiplying two of them gives.  What is proved is
  about the rest - the state bucket, the table index, the choice of an action, the generator
  and the offsets - for every arithmetic, NaNs included.
\<close>

section \<open>Doubles\<close>

text \<open>
  The operations the quoter uses.  The two casts \<^verbatim>\<open>static_cast<Price>(std::floor(x))\<close> and
  \<^verbatim>\<open>static_cast<Price>(std::ceil(x))\<close> are \<open>None\<close> where the value does not fit 64 bits.
\<close>

record 'f doubles =
  d_zero :: 'f
  d_two64 :: 'f
  d_gt :: "'f \<Rightarrow> 'f \<Rightarrow> bool"
  d_add :: "'f \<Rightarrow> 'f \<Rightarrow> 'f"
  d_sub :: "'f \<Rightarrow> 'f \<Rightarrow> 'f"
  d_mul :: "'f \<Rightarrow> 'f \<Rightarrow> 'f"
  d_div :: "'f \<Rightarrow> 'f \<Rightarrow> 'f"
  d_of_u64 :: "64 word \<Rightarrow> 'f"
  d_floor :: "'f \<Rightarrow> Price option"
  d_ceil :: "'f \<Rightarrow> Price option"

section \<open>The quoter\<close>

record 'f rl_params =
  rp_alpha :: 'f
  rp_discount :: 'f
  rp_inv_bucket :: int
  rp_seed :: "64 word"

record 'f quoter =
  rq_params :: "'f rl_params"
  rq_q :: "'f list"
  rq_rng :: "64 word"
  rq_epsilon :: 'f
  rq_last_state :: nat
  rq_last_action :: "nat option"

record quote_pair =
  q_bid :: Price
  q_ask :: Price

definition kInvRange :: int where "kInvRange = 30"
definition kStates :: nat where "kStates = 61"
definition kOffsets :: "Price list" where "kOffsets = [1, 2, 4, 32]"
definition kActions :: nat where "kActions = length kOffsets * length kOffsets"

definition quoter_new :: "'f doubles \<Rightarrow> 'f rl_params \<Rightarrow> 'f quoter" where
  "quoter_new D p = \<lparr>rq_params = p, rq_q = replicate (kStates * kActions) (d_zero D),
     rq_rng = (if rp_seed p \<noteq> 0 then rp_seed p else 1), rq_epsilon = d_zero D, rq_last_state = 0, rq_last_action = None\<rparr>"

definition set_epsilon :: "'f \<Rightarrow> 'f quoter \<Rightarrow> 'f quoter" where
  "set_epsilon e s = s\<lparr>rq_epsilon := e\<rparr>"

text \<open>Division by zero and the one quotient that does not fit are undefined.\<close>

definition fits_long :: "int \<Rightarrow> bool" where
  "fits_long x \<longleftrightarrow> - (2 ^ 63) \<le> x \<and> x < 2 ^ 63"

definition bucket :: "int \<Rightarrow> 'f quoter \<Rightarrow> nat option" where
  "bucket inventory s =
     (let d = rp_inv_bucket (rq_params s)
      in if d = 0 \<or> \<not> fits_long (inventory sdiv d) then None
         else (let b = inventory sdiv d;
                   b = (if b < - kInvRange then - kInvRange else b);
                   b = (if b > kInvRange then kInvRange else b)
               in Some (nat (b + kInvRange))))"

definition q_at :: "nat \<Rightarrow> nat \<Rightarrow> 'f quoter \<Rightarrow> 'f option" where
  "q_at st a s = vec_at (rq_q s) (st * kActions + a)"

text \<open>\<open>best_from\<close> is the loop of \<^verbatim>\<open>pick\<close> from action \<open>a\<close> on, \<open>max_from\<close> that of \<^verbatim>\<open>learn\<close>.\<close>

fun best_from :: "'f doubles \<Rightarrow> nat \<Rightarrow> nat list \<Rightarrow> nat \<Rightarrow> 'f quoter \<Rightarrow> nat option" where
  "best_from D st [] best s = Some best"
| "best_from D st (a # as) best s = do {
     x \<leftarrow> q_at st a s;
     y \<leftarrow> q_at st best s;
     best_from D st as (if d_gt D x y then a else best) s }"

fun max_from :: "'f doubles \<Rightarrow> nat \<Rightarrow> nat list \<Rightarrow> 'f \<Rightarrow> 'f quoter \<Rightarrow> 'f option" where
  "max_from D st [] best s = Some best"
| "max_from D st (a # as) best s = do {
     x \<leftarrow> q_at st a s;
     max_from D st as (if d_gt D x best then x else best) s }"

definition next_rng :: "'f quoter \<Rightarrow> 64 word \<times> 'f quoter" where
  "next_rng s = (let r = xorshift (rq_rng s) in (r, s\<lparr>rq_rng := r\<rparr>))"

definition uniform :: "'f doubles \<Rightarrow> 'f quoter \<Rightarrow> 'f \<times> 'f quoter" where
  "uniform D s = (let (r, s1) = next_rng s in (d_div D (d_of_u64 D r) (d_two64 D), s1))"

definition greedy :: "'f doubles \<Rightarrow> nat \<Rightarrow> 'f quoter \<Rightarrow> nat option" where
  "greedy D st s = best_from D st [1..<kActions] 0 s"

definition pick :: "'f doubles \<Rightarrow> nat \<Rightarrow> 'f quoter \<Rightarrow> (nat \<times> 'f quoter) option" where
  "pick D st s =
     (let (explore, s1) = (if d_gt D (rq_epsilon s) (d_zero D)
                           then (let (u, s1) = uniform D s in (d_gt D (rq_epsilon s) u, s1)) else (False, s))
      in if explore then (let (r, s2) = next_rng s1 in Some (unat (r mod of_nat kActions), s2))
         else map_option (\<lambda>a. (a, s1)) (greedy D st s1))"

definition price_of :: "int \<Rightarrow> Price option" where
  "price_of x = (if fits_long x then Some x else None)"

definition quotes :: "'f doubles \<Rightarrow> 'f \<Rightarrow> int \<Rightarrow> 'f quoter \<Rightarrow> (quote_pair \<times> 'f quoter) option" where
  "quotes D mid inventory s = do {
     st \<leftarrow> bucket inventory s;
     (a, s1) \<leftarrow> pick D st (s\<lparr>rq_last_state := st\<rparr>);
     let s2 = s1\<lparr>rq_last_action := Some a\<rparr>;
     bid_off \<leftarrow> vec_at kOffsets (a div length kOffsets);
     ask_off \<leftarrow> vec_at kOffsets (a mod length kOffsets);
     f \<leftarrow> d_floor D mid;
     c \<leftarrow> d_ceil D mid;
     bid \<leftarrow> price_of (f - bid_off);
     ask \<leftarrow> price_of (c + ask_off);
     Some (\<lparr>q_bid = bid, q_ask = ask\<rparr>, s2) }"

definition learn :: "'f doubles \<Rightarrow> 'f \<Rightarrow> int \<Rightarrow> 'f quoter \<Rightarrow> 'f quoter option" where
  "learn D reward new_inventory s =
     (case rq_last_action s of
        None \<Rightarrow> Some s
      | Some a \<Rightarrow> do {
          s2 \<leftarrow> bucket new_inventory s;
          b0 \<leftarrow> q_at s2 0 s;
          best \<leftarrow> max_from D s2 [1..<kActions] b0 s;
          q \<leftarrow> q_at (rq_last_state s) a s;
          qs \<leftarrow> vec_set (rq_q s) (rq_last_state s * kActions + a)
                 (d_add D q (d_mul D (rp_alpha (rq_params s))
                    (d_sub D (d_add D reward (d_mul D (rp_discount (rq_params s)) best)) q)));
          Some (s\<lparr>rq_q := qs\<rparr>) })"

section \<open>The invariant\<close>

lemma kActions_eq [simp]: "kActions = 16"
  by (simp add: kActions_def kOffsets_def)

definition quoter_ok :: "'f quoter \<Rightarrow> bool" where
  "quoter_ok s \<longleftrightarrow> length (rq_q s) = kStates * kActions \<and> rq_rng s \<noteq> 0 \<and> rq_last_state s < kStates \<and>
     (\<forall>a. rq_last_action s = Some a \<longrightarrow> a < kActions) \<and> 0 < rp_inv_bucket (rq_params s)"

lemma quoter_ok_new: "0 < rp_inv_bucket p \<Longrightarrow> quoter_ok (quoter_new D p)"
  by (simp add: quoter_ok_def quoter_new_def kStates_def)

lemma sdiv_between:
  fixes k d :: int
  assumes "0 < d"
  shows "0 \<le> k \<Longrightarrow> 0 \<le> k sdiv d \<and> k sdiv d \<le> k" "k < 0 \<Longrightarrow> k \<le> k sdiv d \<and> k sdiv d \<le> 0"
proof -
  have "\<bar>k\<bar> div d \<le> \<bar>k\<bar> div 1" using assms by (intro zdiv_mono2) simp_all
  moreover have "0 \<le> \<bar>k\<bar> div d" using assms by (simp add: pos_imp_zdiv_nonneg_iff)
  ultimately show "0 \<le> k \<Longrightarrow> 0 \<le> k sdiv d \<and> k sdiv d \<le> k" "k < 0 \<Longrightarrow> k \<le> k sdiv d \<and> k sdiv d \<le> 0"
    using assms by (auto simp: signed_divide_int_def sgn_if)
qed

lemma bucket_Some: "bucket inventory s = Some st \<Longrightarrow> st < kStates"
  unfolding bucket_def kInvRange_def kStates_def Let_def by (auto split: if_splits)

lemma bucket_ok:
  assumes "0 < rp_inv_bucket (rq_params s)" "fits_long inventory"
  obtains b where "bucket inventory s = Some b" "b < kStates"
proof -
  have "fits_long (inventory sdiv rp_inv_bucket (rq_params s))"
    using sdiv_between [OF assms(1), of inventory] assms(2) by (cases "0 \<le> inventory") (auto simp: fits_long_def)
  then have "bucket inventory s \<noteq> None" using assms(1) by (simp add: bucket_def Let_def)
  then show ?thesis using that bucket_Some by blast
qed

lemma q_at_ok: "quoter_ok s \<Longrightarrow> st < kStates \<Longrightarrow> a < kActions \<Longrightarrow> q_at st a s = Some (rq_q s ! (st * kActions + a))"
  by (auto simp: q_at_def quoter_ok_def kStates_def)

text \<open>The value the table holds for an action.\<close>

abbreviation val :: "nat \<Rightarrow> 'f quoter \<Rightarrow> nat \<Rightarrow> 'f" where
  "val st s a \<equiv> rq_q s ! (st * kActions + a)"

lemma best_from_ok:
  assumes "quoter_ok s" "st < kStates" "best < kActions" "\<forall>a\<in>set as. a < kActions"
  shows "\<exists>b. best_from D st as best s = Some b \<and> b < kActions \<and>
    ((\<forall>x. \<not> d_gt D x x) \<and> (\<forall>x y z. d_gt D x y \<longrightarrow> d_gt D y z \<longrightarrow> d_gt D x z) \<longrightarrow>
       (\<forall>x. \<not> d_gt D x (val st s best) \<longrightarrow> \<not> d_gt D x (val st s b)) \<and>
       (\<forall>a\<in>set as. \<not> d_gt D (val st s a) (val st s b)))"
  using assms(3,4)
proof (induction "as" arbitrary: best)
  case (Cons a as)
  let ?best = "if d_gt D (val st s a) (val st s best) then a else best"
  have "?best < kActions" "\<forall>x\<in>set as. x < kActions" using Cons.prems by auto
  from Cons.IH [OF this] obtain b where b: "best_from D st as ?best s = Some b" "b < kActions"
    "(\<forall>x. \<not> d_gt D x x) \<and> (\<forall>x y z. d_gt D x y \<longrightarrow> d_gt D y z \<longrightarrow> d_gt D x z) \<longrightarrow>
       (\<forall>x. \<not> d_gt D x (val st s ?best) \<longrightarrow> \<not> d_gt D x (val st s b)) \<and> (\<forall>a\<in>set as. \<not> d_gt D (val st s a) (val st s b))"
    by blast
  have "best_from D st (a # as) best s = Some b"
    using b(1) q_at_ok [OF assms(1,2)] Cons.prems by simp
  moreover have "\<not> d_gt D x (val st s ?best)"
    if "\<forall>x y z. d_gt D x y \<longrightarrow> d_gt D y z \<longrightarrow> d_gt D x z" "\<not> d_gt D x (val st s best)" for x
    using that by auto
  moreover have "\<not> d_gt D (val st s a) (val st s ?best)" if "\<forall>x. \<not> d_gt D x x" using that by auto
  ultimately show ?case using b(2,3) by auto
qed simp

lemma greedy_ok:
  assumes "quoter_ok s" "st < kStates"
  obtains b where "greedy D st s = Some b" "b < kActions"
    "(\<forall>x. \<not> d_gt D x x) \<Longrightarrow> (\<forall>x y z. d_gt D x y \<longrightarrow> d_gt D y z \<longrightarrow> d_gt D x z) \<Longrightarrow>
       \<forall>a<kActions. \<not> d_gt D (val st s a) (val st s b)"
proof -
  have r: "0 < kActions" "\<forall>a\<in>set [1..<kActions]. a < kActions" by auto
  obtain b where b: "greedy D st s = Some b" "b < kActions"
    "(\<forall>x. \<not> d_gt D x x) \<and> (\<forall>x y z. d_gt D x y \<longrightarrow> d_gt D y z \<longrightarrow> d_gt D x z) \<longrightarrow>
       (\<forall>x. \<not> d_gt D x (val st s 0) \<longrightarrow> \<not> d_gt D x (val st s b)) \<and>
       (\<forall>a\<in>set [1..<kActions]. \<not> d_gt D (val st s a) (val st s b))"
    using best_from_ok [OF assms r, of D] unfolding greedy_def by blast
  show ?thesis
  proof (rule that [OF b(1,2)], intro allI impI)
    fix a assume o: "\<forall>x. \<not> d_gt D x x" "\<forall>x y z. d_gt D x y \<longrightarrow> d_gt D y z \<longrightarrow> d_gt D x z" "a < kActions"
    then have "a = 0 \<or> a \<in> set [1..<kActions]" by auto
    with b(3) o(1,2) show "\<not> d_gt D (val st s a) (val st s b)" by blast
  qed
qed

lemma max_from_ok:
  "quoter_ok s \<Longrightarrow> st < kStates \<Longrightarrow> \<forall>a\<in>set as. a < kActions \<Longrightarrow> \<exists>x. max_from D st as best s = Some x"
  by (induction "as" arbitrary: best) (simp_all add: q_at_ok del: kActions_eq)

lemma next_ok: "quoter_ok s \<Longrightarrow> quoter_ok (snd (next_rng s)) \<and> rq_q (snd (next_rng s)) = rq_q s"
  by (simp add: quoter_ok_def next_rng_def Let_def)

lemma pick_ok:
  assumes "quoter_ok s" "st < kStates"
  obtains a s' where "pick D st s = Some (a, s')" "a < kActions" "quoter_ok s'" "rq_q s' = rq_q s"
    "\<not> d_gt D (rq_epsilon s) (d_zero D) \<Longrightarrow> greedy D st s = Some a"
proof -
  obtain e s1 where e: "(if d_gt D (rq_epsilon s) (d_zero D)
      then (let (u, s1) = uniform D s in (d_gt D (rq_epsilon s) u, s1)) else (False, s)) = (e, s1)" by fastforce
  then have s1: "quoter_ok s1" "rq_q s1 = rq_q s" "\<not> d_gt D (rq_epsilon s) (d_zero D) \<Longrightarrow> \<not> e \<and> s1 = s"
    using next_ok [OF assms(1)] assms(1) by (auto simp: uniform_def case_prod_beta Let_def split: if_splits)
  show ?thesis
  proof (cases e)
    case True
    then have g: "d_gt D (rq_epsilon s) (d_zero D)" using s1(3) by blast
    have "r mod of_nat kActions < of_nat kActions" for r :: "64 word" by (simp add: word_mod_less_divisor)
    from word_less_nat_alt [THEN iffD1, OF this] have "unat (r mod of_nat kActions) < kActions" for r :: "64 word"
      by simp
    with that [of "unat (fst (next_rng s1) mod of_nat kActions)" "snd (next_rng s1)"] next_ok [OF s1(1)] s1(1,2) g True e
    show ?thesis by (simp add: pick_def case_prod_beta)
  next
    case False
    obtain b where b: "greedy D st s1 = Some b" "b < kActions" by (rule greedy_ok [OF s1(1) assms(2)])
    with that [OF _ b(2) s1(1,2)] s1(3) False e show ?thesis by (auto simp: pick_def)
  qed
qed

lemma offset_ok: "a < kActions \<Longrightarrow> \<exists>b c. vec_at kOffsets (a div length kOffsets) = Some b \<and>
    vec_at kOffsets (a mod length kOffsets) = Some c \<and> b \<in> {1, 2, 4, 32} \<and> c \<in> {1, 2, 4, 32}"
proof -
  assume "a < kActions"
  then have "a div 4 < 4" "a mod 4 < 4" by simp_all
  moreover have "kOffsets ! i \<in> {1, 2, 4, 32}" if "i < 4" for i
    using that by (auto simp: kOffsets_def less_Suc_eq numeral_eq_Suc)
  ultimately show ?thesis by (simp add: kOffsets_def vec_at_def)
qed

lemma quotes_ok:
  assumes s: "quoter_ok s" and i: "fits_long inventory"
    and m: "d_floor D mid = Some f" "d_ceil D mid = Some c" "f \<le> c" "fits_long (f - 32)" "fits_long (c + 32)"
  obtains st a bo ao s' where "quotes D mid inventory s = Some (\<lparr>q_bid = f - bo, q_ask = c + ao\<rparr>, s')"
    "bucket inventory s = Some st" "st < kStates" "a < kActions" "rq_last_state s' = st" "rq_last_action s' = Some a" "quoter_ok s'"
    "vec_at kOffsets (a div length kOffsets) = Some bo" "vec_at kOffsets (a mod length kOffsets) = Some ao"
    "bo \<in> {1, 2, 4, 32}" "ao \<in> {1, 2, 4, 32}"
    "\<not> d_gt D (rq_epsilon s) (d_zero D) \<Longrightarrow> greedy D st (s\<lparr>rq_last_state := st\<rparr>) = Some a"
proof -
  obtain st where st: "bucket inventory s = Some st" "st < kStates"
    by (rule bucket_ok [of s inventory]) (use s i in \<open>auto simp: quoter_ok_def\<close>)
  let ?s = "s\<lparr>rq_last_state := st\<rparr>"
  have ok: "quoter_ok ?s" using s st by (simp add: quoter_ok_def)
  obtain a s1 where p: "pick D st ?s = Some (a, s1)" "a < kActions" "quoter_ok s1" "rq_q s1 = rq_q ?s"
    "\<not> d_gt D (rq_epsilon ?s) (d_zero D) \<Longrightarrow> greedy D st ?s = Some a"
    by (rule pick_ok [OF ok st(2), of D]) blast
  have ls: "rq_last_state s1 = st"
    using p(1) by (auto simp: pick_def uniform_def next_rng_def Let_def case_prod_beta split: if_splits)
  obtain bo ao where o: "vec_at kOffsets (a div length kOffsets) = Some bo" "vec_at kOffsets (a mod length kOffsets) = Some ao"
    "bo \<in> {1, 2, 4, 32}" "ao \<in> {1, 2, 4, 32}" using offset_ok [OF p(2)] by blast
  have "price_of (f - bo) = Some (f - bo)" "price_of (c + ao) = Some (c + ao)"
    using m(3-5) o(3,4) by (auto simp: price_of_def fits_long_def)
  then have "quotes D mid inventory s = Some (\<lparr>q_bid = f - bo, q_ask = c + ao\<rparr>, s1\<lparr>rq_last_action := Some a\<rparr>)"
    using st(1) p(1) o(1,2) m(1,2) by (simp add: quotes_def del: vec_at_Some)
  then show ?thesis
    using that [of bo ao "s1\<lparr>rq_last_action := Some a\<rparr>" st a] st p o ls by (simp add: quoter_ok_def)
qed

lemma cell_inj: "a < kActions \<Longrightarrow> b < kActions \<Longrightarrow> t * kActions + b = s * kActions + a \<Longrightarrow> t = s \<and> b = a"
  unfolding kActions_eq by presburger

lemma learn_ok:
  assumes "quoter_ok s" "fits_long inventory"
  obtains s' where "learn D r inventory s = Some s'" "quoter_ok s'"
    "\<And>st a. st < kStates \<Longrightarrow> a < kActions \<Longrightarrow> (st, Some a) \<noteq> (rq_last_state s, rq_last_action s) \<Longrightarrow> val st s' a = val st s a"
proof (cases "rq_last_action s")
  case None
  then show ?thesis using that [of s] assms(1) by (simp add: learn_def)
next
  case (Some a)
  obtain st where st: "bucket inventory s = Some st" "st < kStates"
    by (rule bucket_ok [of s inventory]) (use assms in \<open>auto simp: quoter_ok_def\<close>)
  have a: "a < kActions" "rq_last_state s < kStates" using assms(1) Some by (simp_all add: quoter_ok_def)
  obtain mx where mx: "max_from D st [1..<kActions] (val st s 0) s = Some mx"
    using max_from_ok [OF assms(1) st(2), of "[1..<kActions]"] by fastforce
  let ?k = "rq_last_state s * kActions + a"
  have k: "?k < length (rq_q s)" using a assms(1) by (auto simp: quoter_ok_def kStates_def)
  then obtain x where x: "learn D r inventory s = Some (s\<lparr>rq_q := (rq_q s)[?k := x]\<rparr>)"
    using Some st(1) q_at_ok [OF assms(1) st(2), of 0] mx q_at_ok [OF assms(1) a(2,1)] by (simp add: learn_def vec_set_def)
  show ?thesis
  proof (rule that [OF x])
    show "quoter_ok (s\<lparr>rq_q := (rq_q s)[?k := x]\<rparr>)" using assms(1) by (simp add: quoter_ok_def)
    fix st' a' assume o: "st' < kStates" "a' < kActions" "(st', Some a') \<noteq> (rq_last_state s, rq_last_action s)"
    then have "st' * kActions + a' \<noteq> ?k" using cell_inj [OF a(1) o(2)] Some by metis
    then show "val st' (s\<lparr>rq_q := (rq_q s)[?k := x]\<rparr>) a' = val st' s a'" by simp
  qed
qed

section \<open>Histories\<close>

datatype 'f rl_op = Quotes 'f int | Learn 'f int | SetEpsilon 'f

fun rl_step :: "'f doubles \<Rightarrow> 'f rl_op \<Rightarrow> 'f quoter \<Rightarrow> 'f quoter option" where
  "rl_step D (Quotes mid v) s = map_option snd (quotes D mid v s)"
| "rl_step D (Learn r v) s = learn D r v s"
| "rl_step D (SetEpsilon e) s = Some (set_epsilon e s)"

fun rl_run :: "'f doubles \<Rightarrow> 'f rl_op list \<Rightarrow> 'f quoter \<Rightarrow> 'f quoter option" where
  "rl_run D [] s = Some s"
| "rl_run D (x # xs) s = do { s1 \<leftarrow> rl_step D x s; rl_run D xs s1 }"

lemma step_ok: "quoter_ok s \<Longrightarrow> rl_step D x s = Some s' \<Longrightarrow> quoter_ok s'"
proof (cases x)
  case (Quotes mid v)
  assume s: "quoter_ok s" "rl_step D x s = Some s'"
  then obtain st a s1 where q: "bucket v s = Some st" "pick D st (s\<lparr>rq_last_state := st\<rparr>) = Some (a, s1)" "s' = s1\<lparr>rq_last_action := Some a\<rparr>"
    by (auto simp: Quotes quotes_def bind_eq_Some_conv)
  have st: "st < kStates" by (rule bucket_Some [OF q(1)])
  then have "quoter_ok (s\<lparr>rq_last_state := st\<rparr>)" using s(1) by (simp add: quoter_ok_def)
  then obtain b t where "pick D st (s\<lparr>rq_last_state := st\<rparr>) = Some (b, t)" "b < kActions" "quoter_ok t" by (rule pick_ok [OF _ st])
  with q show ?thesis by (simp add: quoter_ok_def)
next
  case (Learn r v)
  assume "quoter_ok s" "rl_step D x s = Some s'"
  then show ?thesis
    by (auto simp: Learn learn_def quoter_ok_def bind_eq_Some_conv split: option.splits)
qed (auto simp: set_epsilon_def quoter_ok_def)

lemma run_ok: "quoter_ok s \<Longrightarrow> rl_run D xs s = Some s' \<Longrightarrow> quoter_ok s'"
proof (induction xs arbitrary: s)
  case (Cons x xs)
  then obtain s1 where "rl_step D x s = Some s1" "rl_run D xs s1 = Some s'" by (auto simp: bind_eq_Some_conv)
  with Cons step_ok show ?case by blast
qed simp

text \<open>C27. After any history of quoting, learning and changes of epsilon, and whatever the arithmetic
  of doubles does, the quoter stays inside its tables.  Let the inventory units per bucket be
  positive (the field can be set to 0 from Python, and \<^verbatim>\<open>bucket\<close> then divides by zero), the
  inventory be one of 64 bits, and the floor and ceiling of mid leave room for the largest
  offset, 32 ticks, on either side in 64 bits.  Then the call returns, its bid is an offset of
  the table below the floor of mid and its ask an offset above the ceiling, so the two never
  cross, and learning returns and changes at most the value of the last state and action.\<close>

theorem quoter_stays_in_bounds:
  assumes "0 < rp_inv_bucket p" "rl_run D xs (quoter_new D p) = Some s" "fits_long inventory"
    and "d_floor D mid = Some f" "d_ceil D mid = Some c" "f \<le> c" "fits_long (f - 32)" "fits_long (c + 32)"
  shows "\<exists>q s' s''. quotes D mid inventory s = Some (q, s') \<and> q_bid q < q_ask q \<and>
    q_bid q \<in> (\<lambda>x. f - x) ` set kOffsets \<and> q_ask q \<in> (\<lambda>x. c + x) ` set kOffsets \<and>
    learn D r inventory s = Some s'' \<and> length (rq_q s'') = kStates * kActions \<and>
    (\<forall>st<kStates. \<forall>a<kActions. (st, Some a) \<noteq> (rq_last_state s, rq_last_action s) \<longrightarrow> q_at st a s'' = q_at st a s)"
proof -
  have s: "quoter_ok s" by (rule run_ok [OF quoter_ok_new [OF assms(1)] assms(2)])
  obtain st a bo ao s' where q: "quotes D mid inventory s = Some (\<lparr>q_bid = f - bo, q_ask = c + ao\<rparr>, s')"
    "bo \<in> {1, 2, 4, 32}" "ao \<in> {1, 2, 4, 32}"
    by (rule quotes_ok [OF s assms(3-8)]) blast
  obtain s'' where l: "learn D r inventory s = Some s''" "quoter_ok s''"
    "\<And>st a. st < kStates \<Longrightarrow> a < kActions \<Longrightarrow> (st, Some a) \<noteq> (rq_last_state s, rq_last_action s) \<Longrightarrow> val st s'' a = val st s a"
    by (rule learn_ok [OF s assms(3), of D r]) blast
  have "\<forall>st<kStates. \<forall>a<kActions. (st, Some a) \<noteq> (rq_last_state s, rq_last_action s) \<longrightarrow> q_at st a s'' = q_at st a s"
    using l(3) q_at_ok [OF s] q_at_ok [OF l(2)] by presburger
  then show ?thesis using q l(1,2) assms(6) by (auto simp: kOffsets_def quoter_ok_def)
qed

text \<open>Doubles that are integers: enough to run the quoter by hand.\<close>

definition whole :: "int doubles" where
  "whole = \<lparr>d_zero = 0, d_two64 = 1, d_gt = (>), d_add = (+), d_sub = (-), d_mul = (*), d_div = (div),
     d_of_u64 = uint, d_floor = Some, d_ceil = Some\<rparr>"

definition whole_params :: "int rl_params" where
  "whole_params = \<lparr>rp_alpha = 1, rp_discount = 1, rp_inv_bucket = 50, rp_seed = 42\<rparr>"

definition rl_demo :: "int rl_op list" where
  "rl_demo = [Learn 5 0, Quotes 100 0, Learn (- 5) 75]"

lemma rl_demo_run:
  obtains s where "rl_run whole rl_demo (quoter_new whole whole_params) = Some s" "rq_epsilon s = 0"
    "bucket 0 s = Some 30" "bucket (- 4000) s = Some 0" "q_at 30 0 s = Some (- 5)"
proof -
  have "map_option (\<lambda>s. (rq_epsilon s, bucket 0 s, bucket (- 4000) s, q_at 30 0 s)) (rl_run whole rl_demo (quoter_new whole whole_params)) =
    Some (0, Some 30, Some 0, Some (- 5))" by code_simp
  with that show ?thesis by blast
qed

theorem quoter_stays_in_bounds_witness:
  "\<exists>s q s' s''. rl_run whole rl_demo (quoter_new whole whole_params) = Some s \<and>
     quotes whole 100 (- 4000) s = Some (q, s') \<and> q_bid q < q_ask q \<and> learn whole 7 (- 4000) s = Some s''"
proof -
  obtain s where s: "rl_run whole rl_demo (quoter_new whole whole_params) = Some s" by (rule rl_demo_run)
  have "0 < rp_inv_bucket whole_params" by (simp add: whole_params_def)
  from quoter_stays_in_bounds [OF this s, of "- 4000" 100 100 100 7] s show ?thesis
    by (auto simp: fits_long_def whole_def)
qed

text \<open>C28. Without exploration the quoter is greedy: it quotes the offsets of an action whose learned
  value no other action of the state beats.  All it takes of the comparison of doubles is that
  it is a strict order, which it is with NaNs too.\<close>

theorem quoter_is_greedy:
  assumes "0 < rp_inv_bucket p" "rl_run D xs (quoter_new D p) = Some s" "quotes D mid inventory s = Some (q, s')"
    and "\<not> d_gt D (rq_epsilon s) (d_zero D)" "\<forall>x. \<not> d_gt D x x" "\<forall>x y z. d_gt D x y \<longrightarrow> d_gt D y z \<longrightarrow> d_gt D x z"
  shows "\<exists>st a x f c. bucket inventory s = Some st \<and> a < kActions \<and> q_at st a s = Some x \<and>
    d_floor D mid = Some f \<and> q_bid q = f - kOffsets ! (a div 4) \<and> d_ceil D mid = Some c \<and> q_ask q = c + kOffsets ! (a mod 4) \<and>
    (\<forall>b<kActions. \<forall>y. q_at st b s = Some y \<longrightarrow> \<not> d_gt D y x)"
proof -
  have s: "quoter_ok s" by (rule run_ok [OF quoter_ok_new [OF assms(1)] assms(2)])
  obtain st a s1 f c where q: "bucket inventory s = Some st" "pick D st (s\<lparr>rq_last_state := st\<rparr>) = Some (a, s1)"
    "d_floor D mid = Some f" "d_ceil D mid = Some c" "q_bid q = f - kOffsets ! (a div 4)" "q_ask q = c + kOffsets ! (a mod 4)"
    using assms(3) by (auto simp: quotes_def price_of_def kOffsets_def bind_eq_Some_conv split: if_splits)
  let ?s = "s\<lparr>rq_last_state := st\<rparr>"
  have st: "st < kStates" by (rule bucket_Some [OF q(1)])
  have ok: "quoter_ok ?s" using s st by (simp add: quoter_ok_def)
  obtain b where b: "greedy D st ?s = Some b" "b < kActions" "\<forall>a<kActions. \<not> d_gt D (val st ?s a) (val st ?s b)"
    by (rule greedy_ok [OF ok st, of D]) (use assms(5,6) in blast)
  moreover have "greedy D st ?s = Some a" using q(2) assms(4) by (auto simp: pick_def)
  ultimately show ?thesis using q q_at_ok [OF s st] by auto
qed

theorem quoter_is_greedy_witness:
  "\<exists>s q s' a x. rl_run whole rl_demo (quoter_new whole whole_params) = Some s \<and> quotes whole 100 0 s = Some (q, s') \<and>
     q_at 30 0 s = Some (- 5) \<and> a < kActions \<and> q_at 30 a s = Some x \<and> - 5 \<le> x"
proof -
  obtain s where s: "rl_run whole rl_demo (quoter_new whole whole_params) = Some s" "rq_epsilon s = 0" "bucket 0 s = Some 30"
    "q_at 30 0 s = Some (- 5)" by (rule rl_demo_run)
  have i: "0 < rp_inv_bucket whole_params" by (simp add: whole_params_def)
  have "do { s \<leftarrow> rl_run whole rl_demo (quoter_new whole whole_params); quotes whole 100 0 s } \<noteq> None" by code_simp
  then obtain q s' where q: "quotes whole 100 0 s = Some (q, s')" using s(1) by auto
  have w: "d_gt whole = (>)" "d_zero whole = 0" by (simp_all add: whole_def)
  obtain a x where "a < kActions" "q_at 30 a s = Some x" "\<forall>b<kActions. \<forall>y. q_at 30 b s = Some y \<longrightarrow> \<not> y > x"
    using quoter_is_greedy [OF i s(1) q] s(2,3) unfolding w by auto
  moreover from this(3) s(4) have "- 5 \<le> x" by force
  ultimately show ?thesis using s q by blast
qed

end
