(* ===== verification/Avellaneda.thy ===== *)
theory Avellaneda
  imports Rl_Quoter
begin

text \<open>
  The closed-form quoter (\<^verbatim>\<open>strategy/avellaneda_stoikov.hpp\<close>), with the arithmetic of doubles as a
  parameter.  Whatever that arithmetic gives, the two prices never cross.
\<close>

record 'f as_doubles = "'f doubles" +
  d_half :: 'f
  d_one :: 'f
  d_two :: 'f
  d_of_long :: "int \<Rightarrow> 'f"
  d_log :: "'f \<Rightarrow> 'f"

record 'f as_params =
  ap_gamma :: 'f
  ap_sigma :: 'f
  ap_k :: 'f
  ap_T :: 'f

definition tau_at :: "'f as_doubles \<Rightarrow> 'f as_params \<Rightarrow> 'f \<Rightarrow> 'f" where
  "tau_at D p t = (if d_gt D (ap_T p) t then d_sub D (ap_T p) t else d_zero D)"

definition reservation_price :: "'f as_doubles \<Rightarrow> 'f as_params \<Rightarrow> 'f \<Rightarrow> int \<Rightarrow> 'f \<Rightarrow> 'f" where
  "reservation_price D p mid inventory t =
     d_sub D mid (d_mul D (d_mul D (d_mul D (d_mul D (d_of_long D inventory) (ap_gamma p)) (ap_sigma p)) (ap_sigma p)) (tau_at D p t))"

definition half_spread :: "'f as_doubles \<Rightarrow> 'f as_params \<Rightarrow> 'f \<Rightarrow> 'f" where
  "half_spread D p t =
     d_mul D (d_half D)
       (d_add D (d_mul D (d_mul D (d_mul D (ap_gamma p) (ap_sigma p)) (ap_sigma p)) (tau_at D p t))
         (d_mul D (d_div D (d_two D) (ap_gamma p)) (d_log D (d_add D (d_one D) (d_div D (ap_gamma p) (ap_k p))))))"

definition as_quotes :: "'f as_doubles \<Rightarrow> 'f as_params \<Rightarrow> 'f \<Rightarrow> int \<Rightarrow> 'f \<Rightarrow> quote_pair option" where
  "as_quotes D p mid inventory t = do {
     let r = reservation_price D p mid inventory t;
     let h = half_spread D p t;
     bid \<leftarrow> d_floor D (d_sub D r h);
     ask \<leftarrow> d_ceil D (d_add D r h);
     ask \<leftarrow> (if ask \<le> bid then price_of (bid + 1) else Some ask);
     Some \<lparr>q_bid = bid, q_ask = ask\<rparr> }"

lemma as_never_crosses: "as_quotes D p mid inventory t = Some q \<Longrightarrow> q_bid q < q_ask q"
  by (auto simp: as_quotes_def Let_def price_of_def bind_eq_Some_conv split: if_splits)

text \<open>It gives quotes whenever the two rounded prices fit and there is a tick above the bid.\<close>

lemma as_quotes_defined:
  assumes "d_floor D (d_sub D (reservation_price D p mid inventory t) (half_spread D p t)) = Some bid" "fits_long (bid + 1)"
    and "d_ceil D (d_add D (reservation_price D p mid inventory t) (half_spread D p t)) = Some ask"
  shows "as_quotes D p mid inventory t = Some \<lparr>q_bid = bid, q_ask = max ask (bid + 1)\<rparr>"
  using assms by (auto simp: as_quotes_def Let_def price_of_def max_def)

end
