(* ===== verification/Transport.thy ===== *)
theory Transport
  imports Mold Book_Builder
begin

text \<open>
  The tools that move a feed: \<^verbatim>\<open>tools/mcast_main.cpp\<close>, which multicasts a file of ITCH messages in
  MoldUDP64 packets and rebuilds a book from the packets that arrive, and the two threads of
  \<^verbatim>\<open>tools/replay_main.cpp\<close>, which rebuild a venue from a file.  Sockets, option parsing, pacing and
  printing are left out; the network is an argument: which datagrams \<^verbatim>\<open>sendto\<close> takes, and what
  \<^verbatim>\<open>recv\<close> returns each time.  The ring between the two threads of a receiver is the list of the
  messages pushed.
\<close>

section \<open>Files of length-prefixed messages\<close>

text \<open>The read loop; a file that ends inside a message ends before it.\<close>

function read_framed :: "byte list \<Rightarrow> byte list list option" where
  "read_framed bytes =
     (if length bytes < 2 then Some []
      else do {
        len \<leftarrow> be16 bytes 0;
        (if length bytes < 2 + unat len then Some []
         else do {
           body \<leftarrow> slice bytes 2 (unat len);
           others \<leftarrow> read_framed (drop (2 + unat len) bytes);
           Some (body # others) }) })"
  by pat_completeness auto

termination
  by (relation "measure length") auto

declare read_framed.simps [simp del]

section \<open>The sender\<close>

definition kSession :: "byte list" where
  "kSession = map ch ''MATCHBOOK''"

definition kMtuBudget :: nat where "kMtuBudget = 1400"

text \<open>\<open>sd_wire\<close> lists the datagrams that left, and \<open>sd_calls\<close> counts the calls of \<^verbatim>\<open>sendto\<close>.\<close>

record sender =
  sd_seq :: "64 word"
  sd_msgs_sent :: "64 word"
  sd_pkts_sent :: "64 word"
  sd_batch :: "byte list list"
  sd_batch_bytes :: nat
  sd_wire :: "byte list list"
  sd_calls :: nat

definition sender_new :: sender where
  "sender_new = \<lparr>sd_seq = 1, sd_msgs_sent = 0, sd_pkts_sent = 0, sd_batch = [], sd_batch_bytes = 0,
     sd_wire = [], sd_calls = 0\<rparr>"

text \<open>\<open>net k\<close> says whether call \<open>k\<close> of \<^verbatim>\<open>sendto\<close> succeeds.\<close>

definition sendto :: "(nat \<Rightarrow> bool) \<Rightarrow> byte list \<Rightarrow> sender \<Rightarrow> bool \<times> sender" where
  "sendto net pkt s =
     (let s1 = s\<lparr>sd_calls := sd_calls s + 1\<rparr>
      in if net (sd_calls s) then (True, s1\<lparr>sd_wire := sd_wire s1 @ [pkt]\<rparr>) else (False, s1))"

definition flush :: "(nat \<Rightarrow> bool) \<Rightarrow> sender \<Rightarrow> bool \<times> sender" where
  "flush net s =
     (if sd_batch s = [] then (True, s)
      else (let (ok, s1) = sendto net (encode kSession (sd_seq s) (sd_batch s) []) s
            in if \<not> ok then (False, s1)
               else (True, s1\<lparr>sd_seq := sd_seq s1 + of_nat (length (sd_batch s1)),
                              sd_msgs_sent := sd_msgs_sent s1 + of_nat (length (sd_batch s1)),
                              sd_pkts_sent := sd_pkts_sent s1 + 1, sd_batch := [], sd_batch_bytes := 0\<rparr>)))"

definition queue_msg :: "(nat \<Rightarrow> bool) \<Rightarrow> byte list \<Rightarrow> sender \<Rightarrow> bool \<times> sender" where
  "queue_msg net body s =
     (let (ok, s1) = (if sd_batch_bytes s + length body + 2 > kMtuBudget - kHeaderSize then flush net s else (True, s))
      in if \<not> ok then (False, s1)
         else (True, s1\<lparr>sd_batch_bytes := sd_batch_bytes s1 + (length body + 2), sd_batch := sd_batch s1 @ [body]\<rparr>))"

fun queue_all :: "(nat \<Rightarrow> bool) \<Rightarrow> byte list list \<Rightarrow> sender \<Rightarrow> bool \<times> sender" where
  "queue_all net [] s = flush net s"
| "queue_all net (body # others) s =
     (let (ok, s1) = queue_msg net body s in if ok then queue_all net others s1 else (False, s1))"

text \<open>Three end-of-session packets close the run; whether they leave is not looked at.\<close>

definition run_send :: "(nat \<Rightarrow> bool) \<Rightarrow> byte list \<Rightarrow> (int \<times> sender) option" where
  "run_send net file = do {
     bodies \<leftarrow> read_framed file;
     let (ok, s) = queue_all net bodies sender_new;
     if \<not> ok then Some (1, s)
     else do {
       pkt \<leftarrow> encode_end kSession (sd_seq s) [];
       Some (0, snd (sendto net pkt (snd (sendto net pkt (snd (sendto net pkt s)))))) } }"

section \<open>The receiver\<close>

datatype arrival = Datagram "byte list" | Timeout | RecvError

text \<open>\<open>rc_idle\<close>, \<open>rc_got_data\<close> and \<open>rc_eos\<close> are the locals of the loop, \<open>rc_pushed\<close> the ring.\<close>

record receiver =
  rc_packets :: "64 word"
  rc_messages :: "64 word"
  rc_dup_blocks :: "64 word"
  rc_malformed :: "64 word"
  rc_tracker :: tracker
  rc_idle :: nat
  rc_got_data :: bool
  rc_eos :: bool
  rc_pushed :: "Message list"

definition receiver_new :: receiver where
  "receiver_new = \<lparr>rc_packets = 0, rc_messages = 0, rc_dup_blocks = 0, rc_malformed = 0, rc_tracker = tracker_new 1,
     rc_idle = 0, rc_got_data = False, rc_eos = False, rc_pushed = []\<rparr>"

text \<open>
  One block: \<open>scratch\<close> is the uninitialised \<^verbatim>\<open>Message\<close> of the callback, \<open>padded\<close> the symbol padded to
  eight bytes.
\<close>

definition on_block :: "Message \<Rightarrow> byte list \<Rightarrow> byte list \<Rightarrow> receiver \<Rightarrow> receiver option" where
  "on_block scratch padded body st = do {
     (ok, m) \<leftarrow> parse body scratch;
     if \<not> ok then Some st
     else if m_type m = Add \<and> take 8 (m_stock m) \<noteq> padded then Some st
     else Some (st\<lparr>rc_pushed := rc_pushed st @ [m]\<rparr>) }"

text \<open>The callback counts blocks in 16 bits; a packet has fewer than 65535 of them.\<close>

fun on_blocks :: "Message \<Rightarrow> byte list \<Rightarrow> 16 word \<Rightarrow> 16 word \<Rightarrow> (64 word \<times> byte list) list \<Rightarrow> receiver \<Rightarrow> receiver option" where
  "on_blocks scratch padded block skip [] st = Some st"
| "on_blocks scratch padded block skip ((seq, body) # others) st =
     (if block < skip then on_blocks scratch padded (block + 1) skip others st
      else do { st1 \<leftarrow> on_block scratch padded body st; on_blocks scratch padded (block + 1) skip others st1 })"

definition track :: "64 word \<Rightarrow> 16 word \<Rightarrow> receiver \<Rightarrow> 16 word \<times> receiver" where
  "track seq count st = (let (skip, t) = on_packet seq count (rc_tracker st) in (skip, st\<lparr>rc_tracker := t\<rparr>))"

definition on_datagram :: "Message \<Rightarrow> mold_header \<Rightarrow> byte list \<Rightarrow> byte list \<Rightarrow> receiver \<Rightarrow> receiver option" where
  "on_datagram scratch hdr padded d st =
     (if length d < kHeaderSize then Some (st\<lparr>rc_malformed := rc_malformed st + 1\<rparr>)
      else do {
        seq \<leftarrow> be64 d 10; count \<leftarrow> be16 d 18;
        if count = kEndOfSession \<or> count = 0
        then (let (_, st1) = track seq 0 st; st2 = st1\<lparr>rc_packets := rc_packets st1 + 1\<rparr>
              in Some (if count = kEndOfSession then st2\<lparr>rc_eos := True\<rparr> else st2))
        else do {
          let (skip, st1) = track seq count st;
          (rc, _, blocks) \<leftarrow> decode d hdr;
          st2 \<leftarrow> on_blocks scratch padded 0 skip blocks st1;
          if rc < 0 then Some (st2\<lparr>rc_malformed := rc_malformed st2 + 1\<rparr>)
          else Some (st2\<lparr>rc_packets := rc_packets st2 + 1,
                         rc_messages := rc_messages st2 + (word_of_int rc - ucast skip),
                         rc_dup_blocks := rc_dup_blocks st2 + ucast skip\<rparr>) } })"

text \<open>
  The receive loop over what \<^verbatim>\<open>recv\<close> returns (a datagram cut to the buffer of 65536 bytes); the first
  component of the result says whether the loop has ended.
\<close>

fun recv_loop :: "Message \<Rightarrow> mold_header \<Rightarrow> byte list \<Rightarrow> arrival list \<Rightarrow> receiver \<Rightarrow> (bool \<times> receiver) option" where
  "recv_loop scratch hdr padded [] st = Some (rc_eos st, st)"
| "recv_loop scratch hdr padded (a # as) st =
     (if rc_eos st then Some (True, st)
      else case a of
        Timeout \<Rightarrow>
          (if rc_got_data st
           then (let st1 = st\<lparr>rc_idle := rc_idle st + 1\<rparr>
                 in if rc_idle st1 \<ge> 5 then Some (True, st1) else recv_loop scratch hdr padded as st1)
           else recv_loop scratch hdr padded as st)
      | RecvError \<Rightarrow> Some (True, st)
      | Datagram d \<Rightarrow> do {
          st1 \<leftarrow> on_datagram scratch hdr padded (take 65536 d) (st\<lparr>rc_idle := 0, rc_got_data := True\<rparr>);
          recv_loop scratch hdr padded as st1 })"

text \<open>
  The matching thread applies what the ring hands it to a fresh engine over the prices
  1 to 20,000,000 with room for 2^21 orders; an Add outside that band rests nowhere.
\<close>

definition run_recv :: "nat \<Rightarrow> Message \<Rightarrow> mold_header \<Rightarrow> byte list \<Rightarrow> arrival list \<Rightarrow>
    (receiver \<times> refmap \<times> engine) option" where
  "run_recv chunk scratch hdr symbol as = do {
     (_, st) \<leftarrow> recv_loop scratch hdr (pad symbol) as receiver_new;
     e \<leftarrow> engine_new chunk 1 20000000 (2 ^ 21);
     b \<leftarrow> apply_messages (rc_pushed st) (Map.empty, e);
     Some (st, b) }"

section \<open>The replay of a file\<close>

text \<open>Counters of the feed thread, and the messages it pushes.\<close>

record feeder =
  fd_parsed :: "64 word"
  fd_matched :: "64 word"
  fd_pushed :: "Message list"

fun feed_bodies :: "Message \<Rightarrow> byte list set \<Rightarrow> byte list list \<Rightarrow> feeder \<Rightarrow> feeder option" where
  "feed_bodies scratch symbols [] f = Some f"
| "feed_bodies scratch symbols (body # others) f = do {
     let f1 = f\<lparr>fd_parsed := fd_parsed f + 1\<rparr>;
     (ok, m) \<leftarrow> parse body scratch;
     if \<not> ok then feed_bodies scratch symbols others f1
     else if (m_type m = Add \<or> m_type m = Action) \<and> take 8 (m_stock m) \<notin> symbols
     then feed_bodies scratch symbols others f1
     else feed_bodies scratch symbols others
       (f1\<lparr>fd_matched := fd_matched f1 + 1, fd_pushed := fd_pushed f1 @ [m]\<rparr>) }"

definition feed_thread :: "Message \<Rightarrow> byte list set \<Rightarrow> byte list \<Rightarrow> feeder option" where
  "feed_thread scratch symbols file = do {
     bodies \<leftarrow> read_framed file;
     feed_bodies scratch symbols bodies \<lparr>fd_parsed = 0, fd_matched = 0, fd_pushed = []\<rparr> }"

text \<open>The symbols of the command line; the default is that of the generator.\<close>

definition replay_symbols :: "byte list list \<Rightarrow> byte list set" where
  "replay_symbols args = (let s = set (map pad args) in if s = {} then {pad (map ch ''MBTEST'')} else s)"

definition replay_main :: "nat \<Rightarrow> Message \<Rightarrow> byte list list \<Rightarrow> byte list \<Rightarrow> (feeder \<times> venue_builder \<times> venue) option" where
  "replay_main chunk scratch args file = do {
     f \<leftarrow> feed_thread scratch (replay_symbols args) file;
     bv \<leftarrow> venue_messages chunk (fd_pushed f) (venue_builder_new (2 ^ 17), venue_new);
     Some (f, bv) }"

section \<open>Reading what was written\<close>

text \<open>A file of framed messages.\<close>

definition file_of :: "byte list list \<Rightarrow> byte list" where
  "file_of ms = fold (\<lambda>m out. frame_msg out m) ms []"

lemma frame_msg_append: "frame_msg out m = out @ frame_msg [] m"
  using u16.put_bytes [of out] by (simp add: frame_msg_def)

lemma file_of_acc: "fold (\<lambda>m out. frame_msg out m) ms out = out @ file_of ms"
proof (induction ms arbitrary: out)
  case (Cons m ms)
  show ?case using Cons.IH [of "frame_msg out m"] Cons.IH [of "frame_msg [] m"] frame_msg_append [of out m]
    by (simp add: file_of_def)
qed (simp add: file_of_def)

lemma file_of_Cons: "file_of (m # ms) = frame_msg [] m @ file_of ms"
  using file_of_acc [of ms "frame_msg [] m"] by (simp add: file_of_def)

lemma read_file_of: "\<forall>m\<in>set ms. length m < 65536 \<Longrightarrow> read_framed (file_of ms) = Some ms"
proof (induction ms)
  case Nil
  show ?case by (simp add: file_of_def read_framed.simps)
next
  case (Cons m ms)
  then have u: "unat (of_nat (length m) :: 16 word) = length m" by (simp add: unat_of_nat)
  show ?case
    using Cons u by (subst read_framed.simps) (simp add: file_of_Cons frame_msg_def wire_reads)
qed

lemma read_framed_total: "\<exists>ms. read_framed bytes = Some ms \<and> (\<forall>m\<in>set ms. length m < 65536)"
proof (induction bytes rule: read_framed.induct)
  case (1 bytes)
  show ?case
  proof (cases "length bytes < 2")
    case False
    then obtain len where l: "be16 bytes 0 = Some len" using u16.reads [of 0 bytes] by auto
    show ?thesis
    proof (cases "length bytes < 2 + unat len")
      case f: False
      have s: "slice bytes 2 (unat len) = Some (take (unat len) (drop 2 bytes))" using f by (simp add: slice_def)
      from 1 [OF False l f s] obtain ms where "read_framed (drop (2 + unat len) bytes) = Some ms" "\<forall>m\<in>set ms. length m < 65536"
        by blast
      with False l f s unsigned_less [where 'a = nat, of len] show ?thesis
        by (subst read_framed.simps) (auto simp: min_def)
    qed (use l in \<open>subst read_framed.simps, simp\<close>)
  qed (subst read_framed.simps, simp)
qed

end
