(* ===== verification/Multicast.thy ===== *)
theory Multicast
  imports Transport
begin

text \<open>
  What the multicast tools do to a feed: the sender's packets carry every message once and in
  order, and a receiver that gets any of those packets, in any order and number, forwards every
  message at most once and in order, and counts exactly the ones it missed.
\<close>

section \<open>The sender's packets\<close>

text \<open>The data packets for a list of batches, the first one numbered \<open>seq\<close>.\<close>

fun packets :: "64 word \<Rightarrow> byte list list list \<Rightarrow> byte list list" where
  "packets seq [] = []"
| "packets seq (g # gs) = encode kSession seq g [] # packets (seq + of_nat (length g)) gs"

lemma packets_append: "packets seq (gs @ hs) = packets seq gs @ packets (seq + of_nat (length (concat gs))) hs"
  by (induction gs arbitrary: seq) (simp_all add: add.assoc)

lemma length_packets [simp]: "length (packets seq gs) = length gs"
  by (induction gs arbitrary: seq) simp_all

definition batch_bytes :: "byte list list \<Rightarrow> nat" where
  "batch_bytes g = sum_list (map (\<lambda>m. length m + 2) g)"

lemma batch_bytes_simps [simp]:
  "batch_bytes [] = 0" "batch_bytes (g @ h) = batch_bytes g + batch_bytes h" "batch_bytes (m # g) = length m + 2 + batch_bytes g"
  by (simp_all add: batch_bytes_def)

text \<open>A batch holds one message, or fits the budget behind the header.\<close>

definition batch_ok :: "byte list list \<Rightarrow> bool" where
  "batch_ok g \<longleftrightarrow> g \<noteq> [] \<and> (length g = 1 \<or> batch_bytes g \<le> kMtuBudget - kHeaderSize)"

lemma batch_bytes_length: "2 * length g \<le> batch_bytes g"
  by (induction g) simp_all

lemma batch_ok_length: "batch_ok g \<Longrightarrow> length g < 65535"
  using batch_bytes_length [of g] by (auto simp: batch_ok_def kMtuBudget_def kHeaderSize_def)

lemma encode_blocks_length: "length (encode_blocks [] g) = batch_bytes g"
proof (induction g)
  case (Cons m g)
  then show ?case using encode_blocks_Nil [of "enc16 [] (of_nat (length m)) @ m" g] by simp
qed simp

lemma packet_length: "length (encode s seq g []) = kHeaderSize + batch_bytes g"
  by (simp add: encode_fields encode_blocks_length kHeaderSize_def)

text \<open>What the sender has done when it holds the messages \<open>ms\<close>, sent or in the batch.\<close>

definition sent_ok :: "byte list list \<Rightarrow> byte list list list \<Rightarrow> sender \<Rightarrow> bool" where
  "sent_ok ms gs s \<longleftrightarrow> sd_wire s = packets 1 gs \<and> (\<forall>g\<in>set gs. batch_ok g) \<and> concat gs @ sd_batch s = ms \<and>
     sd_seq s = 1 + of_nat (length (concat gs)) \<and> sd_msgs_sent s = of_nat (length (concat gs)) \<and>
     sd_pkts_sent s = of_nat (length gs) \<and> sd_batch_bytes s = batch_bytes (sd_batch s) \<and>
     (sd_batch s = [] \<or> batch_ok (sd_batch s))"

lemma sent_new: "sent_ok [] [] sender_new"
  by (simp add: sent_ok_def sender_new_def)

lemma flush_sent:
  assumes "sent_ok ms gs s" "flush net s = (True, s')"
  shows "\<exists>gs'. sent_ok ms gs' s' \<and> sd_batch s' = []"
proof (cases "sd_batch s = []")
  case False
  then have "s' = s\<lparr>sd_calls := sd_calls s + 1, sd_wire := sd_wire s @ [encode kSession (sd_seq s) (sd_batch s) []],
      sd_seq := sd_seq s + of_nat (length (sd_batch s)), sd_msgs_sent := sd_msgs_sent s + of_nat (length (sd_batch s)),
      sd_pkts_sent := sd_pkts_sent s + 1, sd_batch := [], sd_batch_bytes := 0\<rparr>"
    using assms(2) by (cases s) (auto simp: flush_def sendto_def Let_def split: if_splits)
  then have "sent_ok ms (gs @ [sd_batch s]) s'"
    using assms(1) False by (auto simp: sent_ok_def packets_append add_ac)
  with \<open>s' = _\<close> show ?thesis by auto
qed (use assms in \<open>auto simp: flush_def\<close>)

lemma queue_sent:
  assumes "sent_ok ms gs s" "queue_msg net m s = (True, s')"
  shows "\<exists>gs'. sent_ok (ms @ [m]) gs' s'"
proof -
  obtain s1 where s1: "(if sd_batch_bytes s + length m + 2 > kMtuBudget - kHeaderSize then flush net s else (True, s)) = (True, s1)"
    "s' = s1\<lparr>sd_batch_bytes := sd_batch_bytes s1 + (length m + 2), sd_batch := sd_batch s1 @ [m]\<rparr>"
    using assms(2) by (auto simp: queue_msg_def split: prod.splits if_splits)
  obtain gs' where gs: "sent_ok ms gs' s1"
    "sd_batch s1 = [] \<or> batch_bytes (sd_batch s1) + length m + 2 \<le> kMtuBudget - kHeaderSize"
    using s1(1) flush_sent [OF assms(1)] assms(1) by (auto simp: sent_ok_def split: if_splits)
  then have "batch_ok (sd_batch s1 @ [m])" by (auto simp: batch_ok_def)
  with gs(1) s1(2) show ?thesis by (auto simp: sent_ok_def)
qed

lemma queue_all_sent:
  assumes "sent_ok ms gs s" "queue_all net bodies s = (True, s')"
  shows "\<exists>gs'. sent_ok (ms @ bodies) gs' s' \<and> sd_batch s' = []"
  using assms
proof (induction bodies arbitrary: ms gs s)
  case Nil
  then show ?case using flush_sent by simp
next
  case (Cons m bodies)
  then obtain s1 where s1: "queue_msg net m s = (True, s1)" "queue_all net bodies s1 = (True, s')"
    by (auto split: prod.splits if_splits)
  from queue_sent [OF Cons.prems(1) s1(1)] Cons.IH s1(2) show ?case by fastforce
qed

text \<open>The end-of-session packet.\<close>

definition end_packet :: "64 word \<Rightarrow> byte list" where
  "end_packet seq = pad_session kSession @ enc64 [] seq @ [0xFF, 0xFF]"

lemma encode_end_packet: "encode_end kSession seq [] = Some (end_packet seq)"
proof -
  have "encode kSession seq [] [] = (pad_session kSession @ enc64 [] seq) @ enc16 [] 0"
    by (simp add: encode_fields)
  moreover have "length (pad_session kSession @ enc64 [] seq) = 18" by simp
  ultimately show ?thesis
    by (simp add: encode_end_def end_packet_def vec_set_def list_update_append enc16_def numeral_eq_Suc)
qed

lemma sendto_wire: "\<exists>k\<le>1. sd_wire (snd (sendto net pkt s)) = sd_wire s @ replicate k pkt"
  by (cases "net (sd_calls s)") (auto simp: sendto_def Let_def intro: exI [of _ 0] exI [of _ 1])

lemma run_send_frames:
  "\<exists>ms rc s. read_framed input = Some ms \<and> run_send net input = Some (rc, s) \<and> (rc = 0 \<or> rc = 1) \<and>
     (rc = 0 \<longrightarrow> (\<exists>gs k. concat gs = ms \<and> (\<forall>g\<in>set gs. batch_ok g) \<and> k \<le> 3 \<and>
        sd_wire s = packets 1 gs @ replicate k (end_packet (1 + of_nat (length ms))) \<and>
        sd_msgs_sent s = of_nat (length ms) \<and> sd_pkts_sent s = of_nat (length gs)))"
proof -
  obtain ms where ms: "read_framed input = Some ms" using read_framed_total by blast
  obtain ok s where s: "queue_all net ms sender_new = (ok, s)" by fastforce
  show ?thesis
  proof (cases ok)
    case False
    with ms s show ?thesis by (auto simp: run_send_def)
  next
    case True
    with queue_all_sent [OF sent_new] s obtain gs where gs: "sent_ok ms gs s" "sd_batch s = []" by fastforce
    let ?p = "end_packet (sd_seq s)"
    define s1 where "s1 = snd (sendto net ?p s)"
    define s2 where "s2 = snd (sendto net ?p s1)"
    define s3 where "s3 = snd (sendto net ?p s2)"
    have r: "run_send net input = Some (0, s3)"
      using ms s True by (simp add: run_send_def encode_end_packet s3_def s2_def s1_def)
    obtain k1 k2 k3 where "k1 \<le> 1" "k2 \<le> 1" "k3 \<le> 1" "sd_wire s3 = sd_wire s @ replicate (k1 + k2 + k3) ?p"
      using sendto_wire [of net ?p s] sendto_wire [of net ?p s1] sendto_wire [of net ?p s2]
      by (auto simp: s1_def [symmetric] s2_def [symmetric] s3_def [symmetric] replicate_add)
    moreover have "sd_msgs_sent s3 = sd_msgs_sent s" "sd_pkts_sent s3 = sd_pkts_sent s"
      by (simp_all add: s1_def s2_def s3_def sendto_def Let_def)
    moreover have "k1 + k2 + k3 \<le> 3" using calculation by simp
    ultimately show ?thesis
      using r ms gs by (intro exI [of _ ms] exI [of _ 0] exI [of _ s3]) (auto simp: sent_ok_def intro!: exI [of _ gs])
  qed
qed

section \<open>What a receiver forwards\<close>

definition forward :: "Message \<Rightarrow> byte list \<Rightarrow> byte list \<Rightarrow> Message list" where
  "forward scratch padded body = (case parse body scratch of
     Some (True, m) \<Rightarrow> if m_type m = Add \<and> take 8 (m_stock m) \<noteq> padded then [] else [m]
   | _ \<Rightarrow> [])"

definition forwards :: "Message \<Rightarrow> byte list \<Rightarrow> byte list list \<Rightarrow> Message list" where
  "forwards scratch padded bodies = concat (map (forward scratch padded) bodies)"

lemma forwards_simps [simp]:
  "forwards scratch padded [] = []" "forwards scratch padded (a @ b) = forwards scratch padded a @ forwards scratch padded b"
  "forwards scratch padded (m # b) = forward scratch padded m @ forwards scratch padded b"
  by (simp_all add: forwards_def)

lemma on_block_forward:
  "on_block scratch padded body st = Some (st\<lparr>rc_pushed := rc_pushed st @ forward scratch padded body\<rparr>)"
  using parse_inside [of body scratch] by (cases st) (auto simp: on_block_def forward_def split: bool.splits)

lemma on_blocks_forward:
  assumes "unat block + length bs < 2 ^ 16"
  shows "on_blocks scratch padded block skip bs st =
    Some (st\<lparr>rc_pushed := rc_pushed st @ forwards scratch padded (drop (unat skip - unat block) (map snd bs))\<rparr>)"
  using assms
proof (induction bs arbitrary: block st)
  case (Cons b bs)
  obtain seq body where b: "b = (seq, body)" by (cases b)
  have u: "unat (block + 1) = unat block + 1" using Cons.prems by (simp add: unat_plus_if')
  note ih = Cons.IH [of "block + 1"] 
  show ?case
  proof (cases "block < skip")
    case True
    then have "unat skip - unat block = Suc (unat skip - unat (block + 1))"
      using u by (simp add: word_less_nat_alt)
    then show ?thesis using ih u Cons.prems True by (simp add: b)
  next
    case False
    then have "unat skip - unat block = 0" "unat skip - unat (block + 1) = 0"
      using u by (simp_all add: word_less_nat_alt)
    then show ?thesis using ih u Cons.prems False by (simp add: b on_block_forward)
  qed
qed simp

section \<open>Packets as they arrive\<close>

text \<open>
  A data packet of the feed \<open>ms\<close>: its batch stands at an index that fits its number.  The length
  bound is the receive buffer.
\<close>

definition data_packet :: "byte list list \<Rightarrow> 64 word \<Rightarrow> byte list list \<Rightarrow> bool" where
  "data_packet ms seq g \<longleftrightarrow> batch_ok g \<and> 1 \<le> unat seq \<and> unat seq + length g \<le> length ms + 1 \<and>
     g = take (length g) (drop (unat seq - 1) ms) \<and> kHeaderSize + batch_bytes g \<le> 65536"

lemma unat_plus_of_nat: "unat (seq :: 64 word) + k < 2 ^ 64 \<Longrightarrow> unat (seq + of_nat k) = unat seq + k"
  by (simp add: unat_plus_if' unat_of_nat)

lemma packets_data:
  assumes "d \<in> set (packets seq gs)" "drop (unat seq - 1) ms = concat gs" "1 \<le> unat seq"
    "unat seq + length (concat gs) = length ms + 1" "length ms < 2 ^ 64 - 1" "\<forall>g\<in>set gs. batch_ok g"
    "\<forall>m\<in>set ms. length m \<le> 65000"
  shows "\<exists>seq' g. d = encode kSession seq' g [] \<and> data_packet ms seq' g"
  using assms(1-4,6)
proof (induction gs arbitrary: seq)
  case (Cons g gs)
  have u: "unat (seq + of_nat (length g)) = unat seq + length g"
    using Cons.prems(4) assms(5) by (simp add: unat_plus_if' unat_of_nat)
  have g: "g = take (length g) (drop (unat seq - 1) ms)" using Cons.prems(2) by simp
  have sub: "set g \<subseteq> set ms" using g by (metis set_take_subset set_drop_subset order_trans)
  have "batch_bytes g \<le> 65002"
  proof (cases "length g = 1")
    case True
    then obtain m where "g = [m]" by (cases g) auto
    with sub assms(7) show ?thesis by simp
  next
    case False
    with Cons.prems(5) show ?thesis by (simp add: batch_ok_def kMtuBudget_def kHeaderSize_def)
  qed
  then have dg: "data_packet ms seq g"
    using Cons.prems g by (simp add: data_packet_def kHeaderSize_def)
  have "drop (unat (seq + of_nat (length g)) - 1) ms = concat gs"
  proof -
    have "drop (unat seq - 1 + length g) ms = drop (length g) (drop (unat seq - 1) ms)" by (simp add: add.commute)
    also have "\<dots> = concat gs" using Cons.prems(2) by simp
    finally show ?thesis using u Cons.prems(3) by simp
  qed
  with Cons.IH [of "seq + of_nat (length g)"] Cons.prems u dg show ?case by auto
qed simp

lemma encoded_header:
  "be64 (encode kSession seq g []) 10 = Some seq" "be16 (encode kSession seq g []) 18 = Some (of_nat (length g))"
  "be64 (end_packet seq) 10 = Some seq" "be16 (end_packet seq) 18 = Some kEndOfSession"
  "length (end_packet seq) = 20"
proof -
  have "[0xFF, 0xFF] = enc16 [] kEndOfSession" by (simp add: enc16_def kEndOfSession_def)
  then have e: "end_packet seq = pad_session kSession @ enc64 [] seq @ enc16 [] kEndOfSession" by (simp add: end_packet_def)
  show "be64 (encode kSession seq g []) 10 = Some seq" "be16 (encode kSession seq g []) 18 = Some (of_nat (length g))"
    by (simp_all add: encode_fields wire_reads)
  show "be64 (end_packet seq) 10 = Some seq" "be16 (end_packet seq) 18 = Some kEndOfSession" "length (end_packet seq) = 20"
    unfolding e by (simp_all add: wire_reads)
qed

lemma deliver_snoc:
  "deliver t (ps @ [(seq, count)]) =
     (let (ds, t1) = deliver t ps; (skip, t2) = on_packet seq count t1
      in (ds @ map (\<lambda>k. seq + of_nat k) [unat skip..<unat count], t2))"
proof (induction ps arbitrary: t)
  case (Cons p ps)
  then show ?case by (cases p) (simp add: case_prod_beta Let_def)
qed (simp add: case_prod_beta Let_def)

lemma deliver_expected:
  assumes "deliver t ps = (ds, t')" "\<forall>(seq, count)\<in>set ps. unat seq + unat count < 2 ^ 64"
    "unat (tr_gap t) \<le> unat (tr_expected t)"
  shows "unat (tr_expected t) \<le> unat (tr_expected t') \<and>
    (\<forall>(seq, count)\<in>set ps. unat seq + unat count \<le> unat (tr_expected t')) \<and>
    (\<forall>N. unat (tr_expected t) \<le> N \<and> (\<forall>(seq, count)\<in>set ps. unat seq + unat count \<le> N) \<longrightarrow> unat (tr_expected t') \<le> N)"
  using assms
proof (induction ps arbitrary: t ds)
  case (Cons p ps)
  obtain seq count where p: "p = (seq, count)" by (cases p)
  obtain skip t1 where s: "on_packet seq count t = (skip, t1)" by fastforce
  obtain ds1 where r: "deliver t1 ps = (ds1, t')" using Cons.prems(1) by (auto simp: p s split: prod.splits)
  have c: "unat seq + unat count < 2 ^ 64" using Cons.prems(2) p by simp
  note step = on_packet_step [OF s c Cons.prems(3)]
  have ih: "unat (tr_expected t1) \<le> unat (tr_expected t') \<and>
    (\<forall>(seq, count)\<in>set ps. unat seq + unat count \<le> unat (tr_expected t')) \<and>
    (\<forall>N. unat (tr_expected t1) \<le> N \<and> (\<forall>(seq, count)\<in>set ps. unat seq + unat count \<le> N) \<longrightarrow> unat (tr_expected t') \<le> N)"
    by (rule Cons.IH [OF r]) (use Cons.prems(2,3) step(1,2) in auto)
  then show ?case unfolding p using step(1) by auto
qed simp

text \<open>
  The receiver has seen packets with the numbers \<open>ps\<close>, and has forwarded what the tracker let
  through.
\<close>

definition follows :: "byte list list \<Rightarrow> Message \<Rightarrow> byte list \<Rightarrow> (64 word \<times> 16 word) list \<Rightarrow> receiver \<Rightarrow> bool" where
  "follows ms scratch padded ps st \<longleftrightarrow>
     (\<forall>(seq, count)\<in>set ps. 1 \<le> unat seq \<and> unat seq + unat count \<le> length ms + 1) \<and>
     (rc_eos st \<longrightarrow> (of_nat (length ms) + 1, 0) \<in> set ps) \<and> rc_malformed st = 0 \<and>
     (let (ds, t) = deliver (tracker_new 1) ps
      in rc_tracker st = t \<and> rc_messages st = of_nat (length ds) \<and>
         rc_pushed st = forwards scratch padded (map (\<lambda>n. ms ! (unat n - 1)) ds))"

lemma follows_new: "follows ms scratch padded [] receiver_new"
  by (simp add: follows_def receiver_new_def)

lemma skip_le: "on_packet seq count t = (skip, t1) \<Longrightarrow> unat skip \<le> unat count"
proof -
  have "unat (ucast (w :: 64 word) :: 16 word) \<le> unat w" for w
    by (simp add: unsigned_ucast_eq take_bit_nat_less_eq_self)
  moreover assume "on_packet seq count t = (skip, t1)"
  ultimately show ?thesis
    by (auto simp: on_packet_def Let_def word_le_nat_alt not_le split: if_splits intro: order_trans less_imp_le)
qed

lemma follows_data:
  assumes f: "follows ms scratch padded ps st" and d: "data_packet ms seq g" and l: "length ms < 2 ^ 64 - 1"
    and small: "\<forall>m\<in>set ms. length m < 65536"
  shows "\<exists>st'. on_datagram scratch hdr padded (encode kSession seq g []) st = Some st' \<and>
    follows ms scratch padded (ps @ [(seq, of_nat (length g))]) st' \<and> rc_eos st' = rc_eos st"
proof -
  have g: "batch_ok g" "1 \<le> unat seq" "unat seq + length g \<le> length ms + 1" "g = take (length g) (drop (unat seq - 1) ms)"
    using d by (simp_all add: data_packet_def)
  have len: "length g < 65535" "g \<noteq> []" using batch_ok_length [OF g(1)] g(1) by (simp_all add: batch_ok_def)
  have cnt: "unat (of_nat (length g) :: 16 word) = length g" using len(1) by (simp add: unat_of_nat)
  have cnt0: "(of_nat (length g) :: 16 word) \<noteq> 0" using cnt len(2) by (metis length_0_conv unat_0)
  have cntE: "(of_nat (length g) :: 16 word) \<noteq> kEndOfSession"
  proof
    assume "(of_nat (length g) :: 16 word) = kEndOfSession"
    then have "length g = unat kEndOfSession" using cnt by simp
    with len(1) show False by (simp add: kEndOfSession_def)
  qed
  obtain skip t where op: "on_packet seq (of_nat (length g)) (rc_tracker st) = (skip, t)" by fastforce
  obtain ds where ds: "deliver (tracker_new 1) ps = (ds, rc_tracker st)" "rc_messages st = of_nat (length ds)"
    "rc_pushed st = forwards scratch padded (map (\<lambda>n. ms ! (unat n - 1)) ds)"
    using f by (auto simp: follows_def Let_def split: prod.splits)
  have sk: "unat skip \<le> length g" using skip_le [OF op] cnt by simp
  have sub: "set g \<subseteq> set ms" using g(4) by (metis set_take_subset set_drop_subset order_trans)
  have dec: "decode (encode kSession seq g []) hdr = Some (int (length g),
      hdr\<lparr>h_session := pad_session kSession @ [0], h_seq := seq, h_count := of_nat (length g)\<rparr>,
      zip (map (\<lambda>k. seq + of_nat k) [0..<length g]) g)"
    using decode_encoded [of g kSession seq hdr] len(1) sub small by auto
  have snd: "map snd (zip (map (\<lambda>k. seq + of_nat k) [0..<length g]) g) = g" by simp
  let ?st = "st\<lparr>rc_tracker := t\<rparr>"
  have bl: "on_blocks scratch padded 0 skip (zip (map (\<lambda>k. seq + of_nat k) [0..<length g]) g) ?st =
      Some (?st\<lparr>rc_pushed := rc_pushed st @ forwards scratch padded (drop (unat skip) g)\<rparr>)"
    using on_blocks_forward [of 0 "zip (map (\<lambda>k. seq + of_nat k) [0..<length g]) g" scratch padded skip ?st] len(1) snd
    by simp
  define st' where "st' = (?st\<lparr>rc_pushed := rc_pushed st @ forwards scratch padded (drop (unat skip) g)\<rparr>)
      \<lparr>rc_packets := rc_packets st + 1, rc_messages := rc_messages st + (of_nat (length g) - ucast skip),
       rc_dup_blocks := rc_dup_blocks st + ucast skip\<rparr>"
  have step: "on_datagram scratch hdr padded (encode kSession seq g []) st = Some st'"
    using op cnt0 cntE dec bl by (simp add: on_datagram_def packet_length encoded_header track_def st'_def)
  have "map (\<lambda>n. ms ! (unat n - 1)) (map (\<lambda>k. seq + of_nat k) [unat skip..<length g]) = drop (unat skip) g"
  proof (rule nth_equalityI)
    fix i assume "i < length (map (\<lambda>n. ms ! (unat n - 1)) (map (\<lambda>k. seq + of_nat k) [unat skip..<length g]))"
    then have i: "unat skip + i < length g" by simp
    have "unat (seq + of_nat (unat skip + i)) = unat seq + (unat skip + i)"
      by (rule unat_plus_of_nat) (use i g(3) l in simp)
    moreover have "g ! (unat skip + i) = ms ! (unat seq - 1 + (unat skip + i))"
    proof -
      have "g ! (unat skip + i) = take (length g) (drop (unat seq - 1) ms) ! (unat skip + i)" using g(4) by simp
      also have "\<dots> = drop (unat seq - 1) ms ! (unat skip + i)" using i by simp
      also have "\<dots> = ms ! (unat seq - 1 + (unat skip + i))" using g(2,3) by (subst nth_drop) auto
      finally show ?thesis .
    qed
    ultimately show "map (\<lambda>n. ms ! (unat n - 1)) (map (\<lambda>k. seq + of_nat k) [unat skip..<length g]) ! i = drop (unat skip) g ! i"
      using i g(2) by (simp add: nth_map_upt add.assoc)
  qed simp
  then have pushed: "forwards scratch padded (map (\<lambda>n. ms ! (unat n - 1)) (ds @ map (\<lambda>k. seq + of_nat k) [unat skip..<length g])) =
      rc_pushed st'"
    using ds(3) by (simp add: st'_def del: map_map)
  have "of_nat (length g) - ucast skip = (of_nat (length g - unat skip) :: 64 word)"
    using sk by (simp add: of_nat_diff unsigned_ucast_eq word_of_nat_eq_iff)
  then have messages: "rc_messages st' = of_nat (length (ds @ map (\<lambda>k. seq + of_nat k) [unat skip..<length g]))"
    using ds(2) by (simp add: st'_def)
  have "deliver (tracker_new 1) (ps @ [(seq, of_nat (length g))]) = (ds @ map (\<lambda>k. seq + of_nat k) [unat skip..<length g], t)"
    using ds(1) op cnt by (simp add: deliver_snoc)
  moreover have "rc_tracker st' = t" "rc_eos st' = rc_eos st" "rc_malformed st' = rc_malformed st" by (simp_all add: st'_def)
  ultimately have "follows ms scratch padded (ps @ [(seq, of_nat (length g))]) st'"
    using f g(2,3) cnt pushed messages unfolding follows_def by (simp del: map_append map_map)
  with step \<open>rc_eos st' = rc_eos st\<close> show ?thesis by blast
qed

lemma follows_end:
  assumes f: "follows ms scratch padded ps st" and l: "length ms < 2 ^ 64 - 1"
  shows "\<exists>st'. on_datagram scratch hdr padded (end_packet (1 + of_nat (length ms))) st = Some st' \<and>
    follows ms scratch padded (ps @ [(1 + of_nat (length ms), 0)]) st' \<and> rc_eos st'"
proof -
  let ?q = "1 + of_nat (length ms) :: 64 word"
  have q: "unat ?q = 1 + length ms" using l unat_plus_of_nat [of 1 "length ms"] by simp
  obtain skip t where op: "on_packet ?q 0 (rc_tracker st) = (skip, t)" by fastforce
  obtain ds where ds: "deliver (tracker_new 1) ps = (ds, rc_tracker st)" "rc_messages st = of_nat (length ds)"
    "rc_pushed st = forwards scratch padded (map (\<lambda>n. ms ! (unat n - 1)) ds)"
    using f by (auto simp: follows_def Let_def split: prod.splits)
  define st' where "st' = st\<lparr>rc_tracker := t, rc_packets := rc_packets st + 1, rc_eos := True\<rparr>"
  have step: "on_datagram scratch hdr padded (end_packet ?q) st = Some st'"
    using op by (simp add: on_datagram_def encoded_header kHeaderSize_def track_def st'_def Let_def)
  have "deliver (tracker_new 1) (ps @ [(?q, 0)]) = (ds, t)"
    using ds(1) op by (simp add: deliver_snoc)
  moreover have "rc_tracker st' = t" "rc_messages st' = rc_messages st" "rc_pushed st' = rc_pushed st"
    "rc_malformed st' = rc_malformed st" "rc_eos st'" by (simp_all add: st'_def)
  ultimately have "follows ms scratch padded (ps @ [(?q, 0)]) st'"
    using f q ds(2,3) unfolding follows_def by (simp add: add.commute)
  with step \<open>rc_eos st'\<close> show ?thesis by blast
qed

section \<open>The receive loop\<close>

lemma follows_idle: "follows ms scratch padded ps (st\<lparr>rc_idle := i, rc_got_data := b\<rparr>) = follows ms scratch padded ps st"
  "follows ms scratch padded ps (st\<lparr>rc_idle := i\<rparr>) = follows ms scratch padded ps st"
  by (simp_all add: follows_def)

definition feed_packet :: "byte list list \<Rightarrow> byte list \<Rightarrow> bool" where
  "feed_packet ms d \<longleftrightarrow> d = end_packet (1 + of_nat (length ms)) \<or> (\<exists>seq g. d = encode kSession seq g [] \<and> data_packet ms seq g)"

lemma feed_packet_length: "feed_packet ms d \<Longrightarrow> length d \<le> 65536"
  by (auto simp: feed_packet_def data_packet_def packet_length encoded_header)

lemma recv_follows:
  assumes "follows ms scratch padded ps st" "length ms < 2 ^ 64 - 1" "\<forall>m\<in>set ms. length m < 65536"
    "\<forall>d. Datagram d \<in> set as \<longrightarrow> feed_packet ms d"
  shows "\<exists>ended st' ps'. recv_loop scratch hdr padded as st = Some (ended, st') \<and> follows ms scratch padded ps' st'"
  using assms(1,4)
proof (induction as arbitrary: ps st)
  case (Cons a as)
  have tl: "\<forall>d. Datagram d \<in> set as \<longrightarrow> feed_packet ms d" using Cons.prems(2) by simp
  show ?case
  proof (cases "rc_eos st")
    case False
    show ?thesis
    proof (cases a)
      case (Datagram d)
      let ?st = "st\<lparr>rc_idle := 0, rc_got_data := True\<rparr>"
      have d: "feed_packet ms d" using Cons.prems(2) Datagram by simp
      have f: "follows ms scratch padded ps ?st" using Cons.prems(1) by (simp add: follows_idle)
      obtain st1 ps1 where "on_datagram scratch hdr padded d ?st = Some st1" "follows ms scratch padded ps1 st1"
        using d follows_end [OF f assms(2), of hdr] follows_data [OF f _ assms(2,3), of _ _ hdr]
        unfolding feed_packet_def by blast
      with Cons.IH [OF _ tl] Datagram False feed_packet_length [OF d] show ?thesis by simp
    next
      case Timeout
      with False Cons.IH [OF _ tl] Cons.prems(1) follows_idle(2) show ?thesis by (auto simp: Let_def)
    next
      case RecvError
      with False Cons.prems(1) show ?thesis by auto
    qed
  qed (use Cons.prems(1) in auto)
qed auto

text \<open>What the numbers mean.\<close>

lemma follows_accounts:
  assumes f: "follows ms scratch padded ps st" and l: "length ms < 2 ^ 64 - 1"
  obtains ds where "sorted_wrt (<) ds" "\<forall>i\<in>set ds. i < length ms"
    "rc_pushed st = forwards scratch padded (map ((!) ms) ds)" "unat (rc_messages st) = length ds"
    "rc_eos st \<longrightarrow> length ds + unat (tr_gap (rc_tracker st)) = length ms"
proof -
  obtain dw where dw: "deliver (tracker_new 1) ps = (dw, rc_tracker st)" "rc_messages st = of_nat (length dw)"
    "rc_pushed st = forwards scratch padded (map (\<lambda>n. ms ! (unat n - 1)) dw)"
    using f by (auto simp: follows_def Let_def split: prod.splits)
  have ps: "\<forall>(seq, count)\<in>set ps. 1 \<le> unat seq \<and> unat seq + unat count \<le> length ms + 1"
    and eos: "rc_eos st \<longrightarrow> (of_nat (length ms) + 1, 0) \<in> set ps" using f by (simp_all add: follows_def)
  have b: "\<forall>(seq, count)\<in>set ps. unat seq + unat count < 2 ^ 64" using ps l by fastforce
  have a: "sorted_wrt (<) dw" "\<forall>n\<in>set dw. 1 \<le> n \<and> n < tr_expected (rc_tracker st)"
    "unat (tr_expected (rc_tracker st)) = 1 + length dw + unat (tr_gap (rc_tracker st))"
    using deliver_accounts [OF dw(1) b] by (simp_all add: tracker_new_def)
  have e: "unat (tr_expected (rc_tracker st)) \<le> length ms + 1 \<and> (\<forall>(seq, count)\<in>set ps. unat seq + unat count \<le> unat (tr_expected (rc_tracker st)))"
    using deliver_expected [OF dw(1) b] ps by (fastforce simp: tracker_new_def)
  show thesis
  proof (rule that [of "map (\<lambda>n. unat n - 1) dw"])
    have n: "1 \<le> unat n" "unat n \<le> length ms" if "n \<in> set dw" for n
      using a(2) e that by (force simp: word_le_nat_alt word_less_nat_alt)+
    show "\<forall>i\<in>set (map (\<lambda>n. unat n - 1) dw). i < length ms" using n by fastforce
    show "sorted_wrt (<) (map (\<lambda>n. unat n - 1) dw)"
      unfolding sorted_wrt_map
      by (rule sorted_wrt_mono_rel [OF _ a(1)]) (use n in \<open>fastforce simp: word_less_nat_alt\<close>)
    show "rc_pushed st = forwards scratch padded (map ((!) ms) (map (\<lambda>n. unat n - 1) dw))"
      using dw(3) by (simp add: comp_def)
    show "unat (rc_messages st) = length (map (\<lambda>n. unat n - 1) dw)"
      using dw(2) a(3) e l by (simp add: unat_of_nat)
    have q: "unat (of_nat (length ms) + 1 :: 64 word) = length ms + 1"
      using l unat_plus_of_nat [of 1 "length ms"] by (simp add: add.commute)
    show "rc_eos st \<longrightarrow> length (map (\<lambda>n. unat n - 1) dw) + unat (tr_gap (rc_tracker st)) = length ms"
      using eos e a(3) q by fastforce
  qed
qed

section \<open>Properties\<close>

text \<open>The blocks a packet delivers.\<close>

definition blocks_of :: "mold_header \<Rightarrow> byte list \<Rightarrow> (64 word \<times> byte list) list" where
  "blocks_of hdr p = (case decode p hdr of Some (_, _, blocks) \<Rightarrow> blocks | None \<Rightarrow> [])"

lemma packets_blocks:
  assumes "\<forall>g\<in>set gs. batch_ok g" "\<forall>m\<in>set (concat gs). length m < 65536"
  shows "concat (map (blocks_of hdr) (packets seq gs)) =
    zip (map (\<lambda>k. seq + of_nat k) [0..<length (concat gs)]) (concat gs)"
  using assms
proof (induction gs arbitrary: seq)
  case (Cons g gs)
  have "blocks_of hdr (encode kSession seq g []) = zip (map (\<lambda>k. seq + of_nat k) [0..<length g]) g"
    using decode_encoded [of g kSession seq hdr] batch_ok_length [of g] Cons.prems by (simp add: blocks_of_def)
  moreover have "map (\<lambda>k. seq + of_nat k) [0..<length g + n] =
      map (\<lambda>k. seq + of_nat k) [0..<length g] @ map (\<lambda>k. (seq + of_nat (length g)) + of_nat k) [0..<n]" for n
  proof -
    have "[0..<length g + n] = [0..<length g] @ map (\<lambda>k. k + length g) [0..<n]"
      using upt_add_eq_append [of 0 "length g" n] map_add_upt [of "length g" n] by (simp add: add.commute)
    then show ?thesis by (simp add: comp_def add_ac)
  qed
  ultimately show ?case using Cons.IH [of "seq + of_nat (length g)"] Cons.prems by simp
qed simp

lemma packets_each:
  assumes "p \<in> set (packets seq gs)" "\<forall>g\<in>set gs. batch_ok g" "\<forall>m\<in>set (concat gs). length m < 65536"
  shows "length p \<le> kMtuBudget \<or> length (blocks_of hdr p) = 1"
  using assms
proof (induction gs arbitrary: seq)
  case (Cons g gs)
  have "length (encode kSession seq g []) \<le> kMtuBudget \<or> length (blocks_of hdr (encode kSession seq g [])) = 1"
    using decode_encoded [of g kSession seq hdr] batch_ok_length [of g] Cons.prems(2,3)
    by (auto simp: blocks_of_def packet_length batch_ok_def kMtuBudget_def kHeaderSize_def)
  with Cons.IH [of "seq + of_nat (length g)"] Cons.prems show ?case by auto
qed simp

lemma decode_end_packet:
  "decode (end_packet seq) hdr = Some (0, hdr\<lparr>h_session := pad_session kSession @ [0], h_seq := seq, h_count := kEndOfSession\<rparr>, [])"
proof -
  have "slice (end_packet seq) 0 10 = Some (pad_session kSession)" by (simp add: end_packet_def wire_reads)
  then show ?thesis by (simp add: decode_def encoded_header kHeaderSize_def)
qed

text \<open>C32. The multicast sender turns any file into packets that carry exactly the file's messages: when
  it reports success, the data packets decode to the messages of the file in order, numbered
  from 1 without a gap, each packet stays within the MTU budget unless a single message
  exceeds it, and the packets after them are end-of-session packets that name the next number.
  The message count it prints is that of the file.\<close>

theorem sender_frames_file:
  "\<exists>ms rc s. read_framed input = Some ms \<and> run_send net input = Some (rc, s) \<and>
     (rc = 0 \<longrightarrow> sd_msgs_sent s = of_nat (length ms) \<and> (\<exists>ps ends. sd_wire s = ps @ ends \<and>
        concat (map (blocks_of hdr) ps) = zip (map (\<lambda>k. 1 + of_nat k) [0..<length ms]) ms \<and>
        (\<forall>p\<in>set ps. length p \<le> kMtuBudget \<or> length (blocks_of hdr p) = 1) \<and>
        (\<forall>p\<in>set ends. \<exists>h. decode p hdr = Some (0, h, []) \<and> h_count h = kEndOfSession \<and> h_seq h = 1 + of_nat (length ms))))"
proof -
  obtain ms where ms: "read_framed input = Some ms" "\<forall>m\<in>set ms. length m < 65536" using read_framed_total by blast
  obtain rc s where s: "run_send net input = Some (rc, s)"
    "rc = 0 \<longrightarrow> (\<exists>gs k. concat gs = ms \<and> (\<forall>g\<in>set gs. batch_ok g) \<and> k \<le> 3 \<and>
        sd_wire s = packets 1 gs @ replicate k (end_packet (1 + of_nat (length ms))) \<and>
        sd_msgs_sent s = of_nat (length ms) \<and> sd_pkts_sent s = of_nat (length gs))"
    using run_send_frames [of input net] ms(1) by auto
  have "sd_msgs_sent s = of_nat (length ms) \<and> (\<exists>ps ends. sd_wire s = ps @ ends \<and>
        concat (map (blocks_of hdr) ps) = zip (map (\<lambda>k. 1 + of_nat k) [0..<length ms]) ms \<and>
        (\<forall>p\<in>set ps. length p \<le> kMtuBudget \<or> length (blocks_of hdr p) = 1) \<and>
        (\<forall>p\<in>set ends. \<exists>h. decode p hdr = Some (0, h, []) \<and> h_count h = kEndOfSession \<and> h_seq h = 1 + of_nat (length ms)))"
    if rc0: "rc = 0"
  proof -
    obtain gs k where gs: "concat gs = ms" "\<forall>g\<in>set gs. batch_ok g"
      "sd_wire s = packets 1 gs @ replicate k (end_packet (1 + of_nat (length ms)))" "sd_msgs_sent s = of_nat (length ms)"
      using s(2) rc0 by blast
    have l: "\<forall>m\<in>set (concat gs). length m < 65536" using gs(1) ms(2) by simp
    show ?thesis
      using gs packets_blocks [OF gs(2) l, of hdr 1] packets_each [OF _ gs(2) l, of _ 1 hdr]
      by (intro conjI [OF gs(4)] exI [of _ "packets 1 gs"] exI [of _ "replicate k (end_packet (1 + of_nat (length ms)))"])
        (simp add: decode_end_packet)
  qed
  with ms(1) s(1) show ?thesis by blast
qed

definition feed_file :: "byte list" where
  "feed_file = file_of [[68, 1], [88, 2, 3]]"

lemma feed_file_sent:
  "read_framed feed_file = Some [[68, 1], [88, 2, 3]]"
  "\<exists>s. run_send (\<lambda>_. True) feed_file = Some (0, s) \<and>
     sd_wire s = [encode kSession 1 [[68, 1], [88, 2, 3]] []] @ replicate 3 (end_packet 3)"
proof -
  show r: "read_framed feed_file = Some [[68, 1], [88, 2, 3]]" unfolding feed_file_def by (rule read_file_of) simp
  have "queue_all (\<lambda>_. True) [[68, 1], [88, 2, 3]] sender_new =
      (True, \<lparr>sd_seq = 3, sd_msgs_sent = 2, sd_pkts_sent = 1, sd_batch = [], sd_batch_bytes = 0,
        sd_wire = [encode kSession 1 [[68, 1], [88, 2, 3]] []], sd_calls = 1\<rparr>)"
    by (simp add: queue_msg_def flush_def sendto_def sender_new_def kMtuBudget_def kHeaderSize_def Let_def)
  then show "\<exists>s. run_send (\<lambda>_. True) feed_file = Some (0, s) \<and>
     sd_wire s = [encode kSession 1 [[68, 1], [88, 2, 3]] []] @ replicate 3 (end_packet 3)"
    by (simp add: run_send_def r encode_end_packet sendto_def numeral_eq_Suc)
qed

theorem sender_frames_file_witness:
  "\<exists>s. run_send (\<lambda>_. True) feed_file = Some (0, s) \<and> sd_msgs_sent s = 2"
proof -
  obtain s where s: "run_send (\<lambda>_. True) feed_file = Some (0, s)" using feed_file_sent(2) by blast
  with sender_frames_file [of feed_file "\<lambda>_. True"] feed_file_sent(1) show ?thesis by auto
qed

text \<open>A packet of the sender is a packet of the feed.\<close>

lemma wire_feed:
  assumes "run_send net input = Some (0, s)" "read_framed input = Some ms" "length ms < 2 ^ 64 - 1"
    "\<forall>m\<in>set ms. length m \<le> 65000" "d \<in> set (sd_wire s)"
  shows "feed_packet ms d"
proof -
  obtain gs k where gs: "concat gs = ms" "\<forall>g\<in>set gs. batch_ok g"
    "sd_wire s = packets 1 gs @ replicate k (end_packet (1 + of_nat (length ms)))"
    using run_send_frames [of input net] assms(1,2) by auto
  show ?thesis
  proof (cases "d \<in> set (packets 1 gs)")
    case True
    from packets_data [OF this, of ms] gs assms(3,4) show ?thesis by (simp add: feed_packet_def)
  qed (use gs(3) assms(5) in \<open>auto simp: feed_packet_def\<close>)
qed

text \<open>C31. Whatever subset of the sender's packets reaches the receiver, with whatever duplication,
  reordering and silence, no step fails, and the messages handed to the book are those at
  strictly increasing positions of the file: nothing is applied twice, out of order or
  invented.  Its message counter is the number of those positions, nothing is counted as
  malformed, and if an end-of-session packet arrived, received plus lost in gaps is exactly
  what was sent.\<close>

theorem receiver_accounts:
  assumes "run_send net input = Some (0, s)" "read_framed input = Some ms" "length ms < 2 ^ 64 - 1"
    "\<forall>m\<in>set ms. length m \<le> 65000" "\<forall>d. Datagram d \<in> set as \<longrightarrow> d \<in> set (sd_wire s)"
  shows "\<exists>ended st ds. recv_loop scratch hdr padded as receiver_new = Some (ended, st) \<and>
    sorted_wrt (<) ds \<and> (\<forall>i\<in>set ds. i < length ms) \<and>
    rc_pushed st = forwards scratch padded (map ((!) ms) ds) \<and> unat (rc_messages st) = length ds \<and> rc_malformed st = 0 \<and>
    (rc_eos st \<longrightarrow> length ds + unat (tr_gap (rc_tracker st)) = length ms)"
proof -
  have "\<forall>d. Datagram d \<in> set as \<longrightarrow> feed_packet ms d" using wire_feed [OF assms(1-4)] assms(5) by blast
  moreover have "\<forall>m\<in>set ms. length m < 65536" using assms(4) by fastforce
  ultimately obtain ended st ps where r: "recv_loop scratch hdr padded as receiver_new = Some (ended, st)"
    "follows ms scratch padded ps st"
    using recv_follows [OF follows_new assms(3)] by blast
  from follows_accounts [OF r(2) assms(3)] obtain ds where "sorted_wrt (<) ds" "\<forall>i\<in>set ds. i < length ms"
    "rc_pushed st = forwards scratch padded (map ((!) ms) ds)" "unat (rc_messages st) = length ds"
    "rc_eos st \<longrightarrow> length ds + unat (tr_gap (rc_tracker st)) = length ms" .
  with r show ?thesis by (auto simp: follows_def)
qed

definition feed_arrivals :: "arrival list" where
  "feed_arrivals = [Timeout, Datagram (encode kSession 1 [[68, 1], [88, 2, 3]] []), Timeout,
     Datagram (encode kSession 1 [[68, 1], [88, 2, 3]] []), Datagram (end_packet 3)]"

theorem receiver_accounts_witness:
  "\<exists>ended st. recv_loop blank \<lparr>h_session = [], h_seq = 0, h_count = 0\<rparr> (pad [65]) feed_arrivals receiver_new = Some (ended, st) \<and>
     rc_malformed st = 0 \<and> (rc_eos st \<longrightarrow> unat (rc_messages st) + unat (tr_gap (rc_tracker st)) = 2)"
proof -
  obtain s where s: "run_send (\<lambda>_. True) feed_file = Some (0, s)"
    "sd_wire s = [encode kSession 1 [[68, 1], [88, 2, 3]] []] @ replicate 3 (end_packet 3)"
    using feed_file_sent(2) by blast
  then have "\<forall>d. Datagram d \<in> set feed_arrivals \<longrightarrow> d \<in> set (sd_wire s)" by (simp add: feed_arrivals_def)
  from receiver_accounts [OF s(1) feed_file_sent(1) _ _ this, of blank "\<lparr>h_session = [], h_seq = 0, h_count = 0\<rparr>" "pad [65]"]
  show ?thesis by auto
qed

end
