(* ===== verification/Market_Feed.thy ===== *)
theory Market_Feed
  imports Multicast Feed_Properties
begin

text \<open>
  The whole path of the market data: a publisher writes a file of its messages, the sender
  multicasts it, the receiver rebuilds the book.  The theory shows that everything a publisher
  writes survives the framing, the packets and the symbol filter.
\<close>

section \<open>What a publisher writes\<close>

text \<open>
  A message that fits a datagram, never makes the parser read outside it, and is an Add only for
  the publisher's own symbol.
\<close>

definition tame :: "byte list \<Rightarrow> byte list \<Rightarrow> bool" where
  "tame stock m \<longleftrightarrow> length m \<le> 65000 \<and>
     (\<forall>scratch ok x. parse m scratch = Some (ok, x) \<and> ok \<and> m_type x = Add \<longrightarrow> take 8 (m_stock x) = stock)"

lemma cross_untracked: "parse (encode_cross [] ts shares stock price match kind) out = Some (False, out\<lparr>m_type := Other\<rparr>)"
proof -
  obtain rest where "encode_cross [] ts shares stock price match kind = enc_head [] CHR ''Q'' ts @ rest"
    using u64.put_bytes u32.put_bytes unfolding encode_cross_def by (metis append.assoc)
  then show ?thesis by (simp add: parse_def head_type)
qed

lemma tame_encoded:
  assumes "length stock = 8"
  shows "tame stock (encode_add [] ts ref side shares stock price)" "tame stock (encode_execute [] ts ref shares match)"
    "tame stock (encode_execute_px [] ts ref shares match price printable)" "tame stock (encode_cancel [] ts ref shares)"
    "tame stock (encode_delete [] ts ref)" "tame stock (encode_action [] ts stock state)"
    "tame stock (encode_cross [] ts wide stock price match kind)"
  using assms by (auto simp: tame_def parse_encoded cross_untracked)
    (simp_all add: message_fields encode_cross_def)

definition all_tame :: "publisher \<Rightarrow> bool" where
  "all_tame p \<longleftrightarrow> length (pb_stock p) = 8 \<and> (\<forall>m\<in>set (pb_out p). tame (pb_stock p) m)"

lemma all_tame_publish: "all_tame p \<Longrightarrow> tame (pb_stock p) m \<Longrightarrow> all_tame (publish m p)"
  by (simp add: all_tame_def)

lemma all_tame_cong: "pb_stock q = pb_stock p \<Longrightarrow> pb_out q = pb_out p \<Longrightarrow> all_tame q = all_tame p"
  by (simp add: all_tame_def)

lemma all_tame_fields [simp]:
  "all_tame (set_slot oid r p) = all_tame p" "all_tame (p\<lparr>pb_engine := e\<rparr>) = all_tame p"
  "all_tame (p\<lparr>pb_match := n\<rparr>) = all_tame p" "all_tame (p\<lparr>pb_in_cross := b\<rparr>) = all_tame p"
  "all_tame (p\<lparr>pb_saw_book_event := b\<rparr>) = all_tame p" "all_tame (p\<lparr>pb_refs := rs\<rparr>) = all_tame p"
  "all_tame (p\<lparr>pb_next_ref := n\<rparr>) = all_tame p"
  by (rule all_tame_cong; simp)+

lemma all_tame_exec: "all_tame p \<Longrightarrow> all_tame (exec_cross oid fill px p)"
  by (auto simp: exec_cross_def Let_def all_tame_def tame_encoded split: option.split)

lemma all_tame_event: "all_tame p \<Longrightarrow> all_tame (pub_event ev p)"
proof (cases ev)
  case (Traded t)
  assume "all_tame p"
  then have "all_tame (exec_cross (t_maker t) q px (exec_cross (t_taker t) q px p))" for q px
    by (intro all_tame_exec)
  with \<open>all_tame p\<close> show ?thesis
    by (cases "pb_in_cross p") (auto simp: Traded pub_event_def pub_trade_def Let_def all_tame_def tame_encoded split: option.split)
qed (auto simp: pub_event_def pub_cancel_def ev_rest_def Let_def all_tame_def tame_encoded split: option.split)

lemma all_tame_events: "all_tame p \<Longrightarrow> all_tame (fold pub_event evs p)"
  by (induction evs arbitrary: p) (simp_all add: all_tame_event)

text \<open>A step of the publisher keeps the symbol, and writes only such messages.\<close>

definition keeps :: "publisher \<Rightarrow> publisher \<Rightarrow> bool" where
  "keeps p q \<longleftrightarrow> pb_stock q = pb_stock p \<and> (all_tame p \<longrightarrow> all_tame q)"

lemma keeps_trans [trans]: "keeps p q \<Longrightarrow> keeps q r \<Longrightarrow> keeps p r"
  by (simp add: keeps_def)

lemma keeps_event: "keeps p (pub_event ev p)"
  by (auto simp: keeps_def all_tame_event)
    (auto simp: pub_event_def pub_trade_def exec_cross_def pub_cancel_def ev_rest_def Let_def split: event.split option.split)

lemma keeps_call: "pub_call f p = Some (r, q) \<Longrightarrow> keeps p q"
proof -
  have "keeps q (fold pub_event evs q)" for evs q
    by (induction evs arbitrary: q) (auto simp: keeps_def [of q q for q] intro: keeps_trans keeps_event)
  moreover have "keeps p (p\<lparr>pb_engine := e\<rparr>)" for e by (simp add: keeps_def)
  moreover assume "pub_call f p = Some (r, q)"
  ultimately show ?thesis by (auto simp: pub_call_def handled_def bind_eq_Some_conv intro: keeps_trans)
qed

lemma keeps_shrink: "keeps p (publish_shrink oid n p)"
  by (auto simp: keeps_def publish_shrink_def Let_def all_tame_def tame_encoded split: option.split)

lemma keeps_action: "keeps p (emit_action x p)"
  by (auto simp: keeps_def emit_action_def all_tame_def tame_encoded)

lemma keeps_modify: "pub_modify oid px q p = Some (ok, p') \<Longrightarrow> keeps p p'"
proof -
  assume "pub_modify oid px q p = Some (ok, p')"
  then obtain p1 where p1: "pub_call (modify oid px q) (p\<lparr>pb_saw_book_event := False\<rparr>) = Some (ok, p1)"
    "p' = publish_shrink oid (order_qty (pb_engine p) oid) p1 \<or> p' = p1"
    by (auto simp: pub_modify_def Let_def bind_eq_Some_conv split: if_splits)
  have "keeps p (p\<lparr>pb_saw_book_event := False\<rparr>)" by (simp add: keeps_def)
  also have "keeps \<dots> p1" by (rule keeps_call [OF p1(1)])
  also have "keeps \<dots> p'" using p1(2) keeps_shrink by (auto simp: keeps_def [of p1 p1])
  finally show ?thesis .
qed

lemma keeps_reduce: "pub_reduce oid q p = Some (ok, p') \<Longrightarrow> keeps p p'"
proof -
  assume "pub_reduce oid q p = Some (ok, p')"
  then obtain p1 where p1: "pub_call (reduce oid q) p = Some (ok, p1)"
    "p' = publish_shrink oid (order_qty (pb_engine p) oid) p1 \<or> p' = p1"
    by (auto simp: pub_reduce_def Let_def bind_eq_Some_conv split: if_splits)
  have "keeps p p1" by (rule keeps_call [OF p1(1)])
  also have "keeps \<dots> p'" using p1(2) keeps_shrink by (auto simp: keeps_def [of p1 p1])
  finally show ?thesis .
qed

lemma keeps_uncross: "pub_uncross p = Some (t, p') \<Longrightarrow> keeps p p'"
proof -
  assume "pub_uncross p = Some (t, p')"
  then obtain p1 where p1: "pub_call uncross (p\<lparr>pb_in_cross := True\<rparr>) = Some (t, p1)"
    and p': "let p2 = p1\<lparr>pb_in_cross := False\<rparr> in p' = (if 0 < t
       then publish (encode_cross [] (pb_seq p2) t (pb_stock p2) (price32 (e_last_px (pb_engine p2))) (pb_match p2 + 1) (ch CHR ''O''))
              (p2\<lparr>pb_match := pb_match p2 + 1\<rparr>) else p2)"
    by (auto simp: pub_uncross_def Let_def bind_eq_Some_conv)
  have "keeps p (p\<lparr>pb_in_cross := True\<rparr>)" by (simp add: keeps_def)
  also have "keeps \<dots> p1" by (rule keeps_call [OF p1])
  also have "keeps \<dots> p'" using p' by (auto simp: keeps_def all_tame_def tame_encoded Let_def)
  finally show ?thesis .
qed

lemma keeps_api: "pub_api c p = Some (r, p') \<Longrightarrow> keeps p p'"
  by (cases c) (auto simp: pub_reply_def pub_submit_limit_def pub_submit_market_def pub_submit_iceberg_def
    pub_submit_stop_def pub_submit_stop_limit_def pub_cancel_order_def pub_halt_def pub_resume_def
    intro: keeps_modify keeps_reduce keeps_uncross keeps_call keeps_trans [OF keeps_action keeps_call])

lemma keeps_run: "pub_run cs p = Some p' \<Longrightarrow> keeps p p'"
proof (induction cs arbitrary: p)
  case (Cons c cs)
  then obtain r p1 where "pub_api c p = Some (r, p1)" "pub_run cs p1 = Some p'" by (auto simp: bind_eq_Some_conv)
  with Cons.IH keeps_api keeps_trans show ?case by blast
qed (simp add: keeps_def)

section \<open>The receiver's book\<close>

text \<open>Parsing and applying is what the two threads of the receiver do between them.\<close>

lemma consume_forwards:
  assumes "\<forall>m\<in>set ms. tame padded m"
  shows "consume scratch ms b = apply_messages (forwards scratch padded ms) b"
  using assms
proof (induction ms arbitrary: b)
  case (Cons m ms)
  obtain ok x where p: "parse m scratch = Some (ok, x)" using parse_inside by blast
  with Cons.prems have "ok \<and> m_type x = Add \<longrightarrow> take 8 (m_stock x) = padded" unfolding tame_def by auto
  with p Cons show ?case by (cases ok) (auto simp: forward_def split: Option.bind_split)
qed simp

text \<open>Any list of messages can be applied to an engine at rest.\<close>

lemma rest_call:
  assumes "stands_for e a" "call c e = reply_as h x"
  obtains r e' a' where "x = Some (r, e')" "stands_for e' a'"
proof -
  obtain r e' where "call c e = Some (r, e')" using stands_for_runs [OF assms(1)] by blast
  with stands_for_call(1) [OF assms(1) this] assms(2) that show thesis by (cases x) (auto simp: reply_as_def)
qed

lemma apply_total:
  assumes "stands_for e a"
  shows "\<exists>rm' e' a'. apply_message m (rm, e) = Some (rm', e') \<and> stands_for e' a'"
proof -
  obtain r1 e1 a1 where add: "submit_limit (m_side m) (m_price m) (m_qty m) GTC 0 CancelTaker e = Some (r1, e1)" "stands_for e1 a1"
    by (rule rest_call [OF assms call.simps(1)])
  obtain r2 e2 a2 where halt: "halt e = Some (r2, e2)" "stands_for e2 a2" by (rule rest_call [OF assms call.simps(9)])
  obtain r3 e3 a3 where resume: "resume e = Some (r3, e3)" "stands_for e3 a3" by (rule rest_call [OF assms call.simps(10)])
  have known: "\<exists>r e' a'. reduce oid (m_qty m) e = Some (r, e') \<and> stands_for e' a'"
    "\<exists>r e' a'. cancel oid e = Some (r, e') \<and> stands_for e' a'"
    "\<exists>r e' a'. modify oid (m_price m) (m_qty m) e = Some (r, e') \<and> stands_for e' a'" for oid
    by (rule rest_call [OF assms call.simps(7)], blast, rule rest_call [OF assms call.simps(6)], blast,
        rule rest_call [OF assms call.simps(8)], blast)
  show ?thesis
  proof (cases "m_type m = Add \<or> m_type m = Action \<or> m_type m = Other")
    case True
    then show ?thesis using add halt resume assms
      by (auto simp: apply_message_def apply_add_def apply_action_def)
  next
    case False
    show ?thesis
    proof (cases "rm (m_ref m)")
      case None
      with False assms show ?thesis
        by (auto simp: apply_message_def apply_reduce_def apply_delete_def apply_replace_def split: MsgType.split)
    next
      case (Some oid)
      obtain r4 e4 a4 r5 e5 a5 r6 e6 a6 where
        "reduce oid (m_qty m) e = Some (r4, e4)" "stands_for e4 a4" "cancel oid e = Some (r5, e5)" "stands_for e5 a5"
        "modify oid (m_price m) (m_qty m) e = Some (r6, e6)" "stands_for e6 a6"
        using known [of oid] by blast
      with False Some show ?thesis
        by (auto simp: apply_message_def apply_reduce_def apply_delete_def apply_replace_def split: MsgType.split)
    qed
  qed
qed

lemma apply_all_total:
  "stands_for e a \<Longrightarrow> \<exists>rm' e' a'. apply_messages ms (rm, e) = Some (rm', e') \<and> stands_for e' a'"
proof (induction ms arbitrary: rm e a)
  case (Cons m ms)
  from apply_total [OF Cons.prems, of m rm] Cons.IH show ?case by fastforce
qed auto

section \<open>From publisher to receiver\<close>

lemma forwards_all:
  assumes "sorted_wrt (<) ds" "\<forall>i\<in>set ds. i < n" "length ds = n"
  shows "ds = [0..<n]"
proof -
  have "distinct ds" using assms(1) by (simp add: strict_sorted_iff)
  then have "set ds = {0..<n}" using assms by (intro card_subset_eq) (auto simp: distinct_card)
  then show ?thesis using assms(1) by (intro sorted_distinct_set_unique) (auto simp: strict_sorted_iff)
qed

text \<open>C4. A publisher's session over any finite history of calls is written to a file, sent as
  multicast packets and received, with any loss, duplication and reordering on the way.  The
  receiver, whose engine covers the prices 1 to 20,000,000, always ends with a book.  If it saw
  an end-of-session packet and counted no gap, if the publisher's band lies within the
  receiver's (an order outside is dropped there), and the session meets the conditions of the
  parsing loop (32-bit quantities, trading resumed on uncrossed books, no iceberg in an
  auction), its book is the publisher's displayed book: on both sides the same prices and
  quantities in the same queue positions, the orders under a one-to-one renaming.\<close>

theorem multicast_rebuilds_book:
  assumes "0 < chunk" "0 < chunk'" "lo \<le> hi" "0 \<le> lo" "hi < 2 ^ 32"
    "publisher_new chunk lo hi symbol expected = Some p0" "pub_run cs p0 = Some p"
    "append_stream [] p = (stream, p')" "length (pb_out p) < 2 ^ 64 - 1" "run_send net stream = Some (0, s)"
    "\<forall>d. Datagram d \<in> set as \<longrightarrow> d \<in> set (sd_wire s)"
  shows "\<exists>st rm e bids asks. run_recv chunk' scratch hdr symbol as = Some (st, rm, e) \<and>
    visit_orders (pb_engine p) Buy = Some bids \<and> visit_orders (pb_engine p) Sell = Some asks \<and>
    (rc_eos st \<and> tr_gap (rc_tracker st) = 0 \<and> 1 \<le> lo \<and> hi \<le> 20000000 \<and> careful_run cs p0 \<and> small (e_tape (pb_engine p)) \<longrightarrow>
      (\<exists>\<tau>. visit_orders e Buy = Some (rename \<tau> bids) \<and> visit_orders e Sell = Some (rename \<tau> asks) \<and>
        inj_on \<tau> (fst ` set bids \<union> fst ` set asks)))"
proof -
  have stock: "pb_stock p0 = pad symbol" "pb_out p0 = []"
    using assms(6) by (auto simp: publisher_new_def pad_stock_def pad_def bind_eq_Some_conv)
  have len: "length (pad symbol) = 8" by (simp add: pad_def Let_def)
  have "all_tame p0" using stock len by (simp add: all_tame_def)
  then have tame: "\<forall>m\<in>set (pb_out p). tame (pad symbol) m"
    using keeps_run [OF assms(7)] stock by (auto simp: keeps_def all_tame_def)
  then have short: "\<forall>m\<in>set (pb_out p). length m \<le> 65000" by (simp add: tame_def)
  then have "\<forall>m\<in>set (pb_out p). length m < 65536" by fastforce
  moreover have "stream = file_of (pb_out p)" using assms(8) by (simp add: append_stream_def file_of_def)
  ultimately have read: "read_framed stream = Some (pb_out p)" using read_file_of by simp
  have "\<forall>d. Datagram d \<in> set as \<longrightarrow> feed_packet (pb_out p) d"
    using wire_feed [OF assms(10) read assms(9) short] assms(11) by blast
  then obtain ended st ps where r: "recv_loop scratch hdr (pad symbol) as receiver_new = Some (ended, st)"
    "follows (pb_out p) scratch (pad symbol) ps st"
    using recv_follows [OF follows_new assms(9) \<open>\<forall>m\<in>set (pb_out p). length m < 65536\<close>] by blast
  have bo: "band_ok 1 20000000" by (simp add: band_ok_def)
  obtain e0 where e0: "engine_new chunk' 1 20000000 (2 ^ 21) = Some e0"
    using engine_new_refines [OF assms(2), of 1 20000000 "2 ^ 21"] by auto
  obtain rm e a where app: "apply_messages (rc_pushed st) (Map.empty, e0) = Some (rm, e)"
    using apply_all_total [OF stands_for_new [OF assms(2) bo e0]] by blast
  obtain bids asks where v: "visit_orders (pb_engine p) Buy = Some bids" "visit_orders (pb_engine p) Sell = Some asks"
    using feed_walks [OF assms(1,3,4,5,6,7)] by blast
  have loop: "\<exists>rm e \<tau>. consume scratch (pb_out p) (Map.empty, e0) = Some (rm, e) \<and>
      visit_orders e Buy = Some (rename \<tau> bids) \<and> visit_orders e Sell = Some (rename \<tau> asks) \<and>
      inj_on \<tau> (fst ` set bids \<union> fst ` set asks)"
    if "1 \<le> lo" "hi \<le> 20000000" "careful_run cs p0" "small (e_tape (pb_engine p))"
  proof -
    from feed_rebuilds [where cs = cs and out = scratch, OF assms(1-3) that(1,2) _ _ assms(6) e0]
    obtain q bs as' where q: "pub_run cs p0 = Some q" "visit_orders (pb_engine q) Buy = Some bs"
      "visit_orders (pb_engine q) Sell = Some as'"
      "careful_run cs p0 \<and> small (e_tape (pb_engine q)) \<longrightarrow>
        (\<exists>rm e \<tau>. consume scratch (pb_out q) (Map.empty, e0) = Some (rm, e) \<and>
          visit_orders e Buy = Some (rename \<tau> bs) \<and> visit_orders e Sell = Some (rename \<tau> as') \<and>
          inj_on \<tau> (fst ` set bs \<union> fst ` set as'))"
      by fastforce
    then have "q = p" "bs = bids" "as' = asks" using assms(7) v by simp_all
    with q(4) that(3,4) show ?thesis by blast
  qed
  have "consume scratch (pb_out p) (Map.empty, e0) = Some (rm, e)" if lossless: "rc_eos st" "tr_gap (rc_tracker st) = 0"
  proof -
    from follows_accounts [OF r(2) assms(9)] obtain ds where ds: "sorted_wrt (<) ds" "\<forall>i\<in>set ds. i < length (pb_out p)"
      "rc_pushed st = forwards scratch (pad symbol) (map ((!) (pb_out p)) ds)" "unat (rc_messages st) = length ds"
      "rc_eos st \<longrightarrow> length ds + unat (tr_gap (rc_tracker st)) = length (pb_out p)" .
    then have full: "length ds = length (pb_out p)" using lossless by simp
    have "map ((!) (pb_out p)) ds = pb_out p" using forwards_all [OF ds(1,2) full] by (simp add: map_nth)
    then show ?thesis using consume_forwards [OF tame, of scratch] app ds(3) by simp
  qed
  then have "rc_eos st \<and> tr_gap (rc_tracker st) = 0 \<and> 1 \<le> lo \<and> hi \<le> 20000000 \<and> careful_run cs p0 \<and> small (e_tape (pb_engine p)) \<longrightarrow>
      (\<exists>\<tau>. visit_orders e Buy = Some (rename \<tau> bids) \<and> visit_orders e Sell = Some (rename \<tau> asks) \<and>
        inj_on \<tau> (fst ` set bids \<union> fst ` set asks))"
    using loop by fastforce
  moreover have "run_recv chunk' scratch hdr symbol as = Some (st, rm, e)"
    using r(1) e0 app by (simp add: run_recv_def)
  ultimately show ?thesis using v by blast
qed

text \<open>
  The demonstration session, received complete and in order: the receiver sees the end of the
  session, counts no gap, and holds the publisher's book.
\<close>

text \<open>The end of the session and the gaps are read off the headers alone.\<close>

fun header_track :: "byte list \<Rightarrow> bool \<times> tracker \<Rightarrow> bool \<times> tracker" where
  "header_track d (eos, t) =
     (if length d < kHeaderSize then (eos, t)
      else case (be64 d 10, be16 d 18) of
        (Some seq, Some count) \<Rightarrow>
          if count = kEndOfSession \<or> count = 0 then (eos \<or> count = kEndOfSession, snd (on_packet seq 0 t))
          else (eos, snd (on_packet seq count t))
      | _ \<Rightarrow> (eos, t))"

fun header_tracks :: "byte list list \<Rightarrow> bool \<times> tracker \<Rightarrow> bool \<times> tracker" where
  "header_tracks [] x = x"
| "header_tracks (d # ds) x = (if fst x then x else header_tracks ds (header_track d x))"

lemma blocks_keep:
  "on_blocks scratch padded block skip bs st = Some st' \<Longrightarrow> rc_eos st' = rc_eos st \<and> rc_tracker st' = rc_tracker st"
proof (induction bs arbitrary: block st)
  case (Cons b bs)
  obtain seq body where b: "b = (seq, body)" by (cases b)
  have "rc_eos st1 = rc_eos st \<and> rc_tracker st1 = rc_tracker st" if "on_block scratch padded body st = Some st1" for st1
    using that by (auto simp: on_block_def bind_eq_Some_conv split: if_splits)
  with Cons b show ?case by (fastforce simp: bind_eq_Some_conv split: if_splits)
qed simp

lemma datagram_tracks:
  assumes "on_datagram scratch hdr padded d st = Some st'"
  shows "(rc_eos st', rc_tracker st') = header_track d (rc_eos st, rc_tracker st)"
  using assms
  by (auto simp: on_datagram_def track_def Let_def bind_eq_Some_conv split: if_splits prod.splits dest!: blocks_keep)

lemma loop_tracks:
  "\<forall>d\<in>set ds. length d \<le> 65536 \<Longrightarrow> recv_loop scratch hdr padded (map Datagram ds) st = Some (ended, st') \<Longrightarrow>
   (rc_eos st', rc_tracker st') = header_tracks ds (rc_eos st, rc_tracker st)"
proof (induction ds arbitrary: st)
  case (Cons d ds)
  show ?case
  proof (cases "rc_eos st")
    case False
    with Cons.prems obtain st1 where st1: "on_datagram scratch hdr padded d (st\<lparr>rc_idle := 0, rc_got_data := True\<rparr>) = Some st1"
      "recv_loop scratch hdr padded (map Datagram ds) st1 = Some (ended, st')"
      by (auto simp: bind_eq_Some_conv)
    with Cons.IH [OF _ st1(2)] datagram_tracks [OF st1(1)] False Cons.prems(1) show ?thesis by simp
  qed (use Cons.prems in auto)
qed simp

lemma demo_received:
  "do { p0 \<leftarrow> feed_start; p \<leftarrow> pub_run feed_demo p0; (rc, s) \<leftarrow> run_send (\<lambda>_. True) (fst (append_stream [] p));
        Some (rc, list_all (\<lambda>d. length d < 1000) (sd_wire s),
          let (eos, t) = header_tracks (sd_wire s) (False, tracker_new 1) in (eos, tr_gap t)) } = Some (0, True, True, 0)"
  by code_simp

theorem multicast_rebuilds_book_witness:
  "\<exists>p0 p s st rm e (\<tau> :: OrderId \<Rightarrow> OrderId). feed_start = Some p0 \<and> pub_run feed_demo p0 = Some p \<and>
     run_send (\<lambda>_. True) (fst (append_stream [] p)) = Some (0, s) \<and>
     run_recv 2 blank \<lparr>h_session = [], h_seq = 0, h_count = 0\<rparr> [77, 66] (map Datagram (sd_wire s)) = Some (st, rm, e) \<and>
     visit_orders e Buy = Some [(\<tau> 6, Buy, 3, 2), (\<tau> 5, Buy, 2, 4)] \<and> visit_orders e Sell = Some [(\<tau> 1, Sell, 4, 2)]"
proof -
  obtain p0 p where p0: "feed_start = Some p0" "pub_run feed_demo p0 = Some p" "careful_run feed_demo p0"
    and tape: "e_tape (pb_engine p) = [Accept 1 Sell 4 10, Rested 1 Sell 4 10, Accept 2 Sell 5 9, Rested 2 Sell 5 4, Accept 3 Buy 5 3,
      Accept 4 Buy 4 6, Traded \<lparr>t_taker = 4, t_maker = 1, t_price = 4, t_qty = 6, t_side = Buy\<rparr>,
      Accept 5 Buy 2 7, Rested 5 Buy 2 7, Accept 6 Buy 3 2, Rested 6 Buy 3 2, Cancelled 2]"
    and v: "visit_orders (pb_engine p) Buy = Some [(6, Buy, 3, 2), (5, Buy, 2, 4)]" "visit_orders (pb_engine p) Sell = Some [(1, Sell, 4, 2)]"
    using feed_demo_run by (auto simp: bind_eq_Some_conv)
  have sm: "small (e_tape (pb_engine p))" unfolding tape by (simp add: small_def fits_def)
  have n: "publisher_new 2 1 6 [77, 66] 1 = Some p0" using p0(1) by (simp add: feed_start_def)
  have "do { p0 \<leftarrow> feed_start; p \<leftarrow> pub_run feed_demo p0; Some (length (pb_out p) < 100) } = Some True" by code_simp
  then have "length (pb_out p) < 100" by (simp add: p0)
  then have out: "length (pb_out p) < 2 ^ 64 - 1" by simp
  obtain stream p' where st: "append_stream [] p = (stream, p')" by fastforce
  let ?hdr = "\<lparr>h_session = [], h_seq = 0, h_count = 0\<rparr> :: mold_header"
  obtain s where s: "run_send (\<lambda>_. True) stream = Some (0, s)" "list_all (\<lambda>d. length d < 1000) (sd_wire s)"
    "(let (eos, t) = header_tracks (sd_wire s) (False, tracker_new 1) in (eos, tr_gap t)) = (True, 0)"
    using demo_received by (auto simp: p0 st bind_eq_Some_conv)
  have fit: "\<forall>d\<in>set (sd_wire s). length d \<le> 65536" using s(2) by (fastforce simp: list_all_iff)
  have "\<forall>d. Datagram d \<in> set (map Datagram (sd_wire s)) \<longrightarrow> d \<in> set (sd_wire s)" by auto
  from multicast_rebuilds_book [OF _ _ _ _ _ n p0(2) st out s(1) this, of 2 blank ?hdr] v
  obtain r' rm e where k: "run_recv 2 blank ?hdr [77, 66] (map Datagram (sd_wire s)) = Some (r', rm, e)"
    "rc_eos r' \<and> tr_gap (rc_tracker r') = 0 \<and> (1 :: Price) \<le> 1 \<and> (6 :: Price) \<le> 20000000 \<and> careful_run feed_demo p0 \<and> small (e_tape (pb_engine p)) \<longrightarrow>
      (\<exists>\<tau>. visit_orders e Buy = Some (rename \<tau> [(6, Buy, 3, 2), (5, Buy, 2, 4)]) \<and>
        visit_orders e Sell = Some (rename \<tau> [(1, Sell, 4, 2)]))"
    by auto
  from k(1) obtain ended where "recv_loop blank ?hdr (pad [77, 66]) (map Datagram (sd_wire s)) receiver_new = Some (ended, r')"
    by (auto simp: run_recv_def bind_eq_Some_conv)
  from loop_tracks [OF fit this] s(3) have "rc_eos r'" "tr_gap (rc_tracker r') = 0"
    by (simp_all add: receiver_new_def split: prod.splits)
  with k(2) p0(3) sm obtain \<tau> where w: "visit_orders e Buy = Some (rename \<tau> [(6, Buy, 3, 2), (5, Buy, 2, 4)])"
    "visit_orders e Sell = Some (rename \<tau> [(1, Sell, 4, 2)])" by auto
  have "rename \<tau> [(6, Buy, 3, 2), (5, Buy, 2, 4)] = [(\<tau> 6, Buy, 3, 2), (\<tau> 5, Buy, 2, 4)]"
    "rename \<tau> [(1, Sell, 4, 2)] = [(\<tau> 1, Sell, 4, 2)]" by (simp_all add: rename_def)
  with w k(1) p0(1,2) s(1) st show ?thesis by (metis fst_conv)
qed

end
