(* ===== verification/Replay.thy ===== *)
theory Replay
  imports Market_Feed
begin

text \<open>
  Replaying a file into a venue (\<^verbatim>\<open>tools/replay_main.cpp\<close> with the venue builder of
  \<^verbatim>\<open>itch_book_builder.hpp\<close>): it returns whatever the bytes are, and if the feed names every order
  once, as ITCH does, each symbol's book is what a builder of that symbol alone would hold.
\<close>

section \<open>What a parsed message carries\<close>

definition wire_msg :: "byte list set \<Rightarrow> Message \<Rightarrow> bool" where
  "wire_msg K m \<longleftrightarrow> (m_type m = Add \<longrightarrow> pad (m_stock m) \<in> K \<and> 0 \<le> m_price m \<and> m_price m < 2 ^ 32)"

lemma parse_wire:
  assumes "parse body scratch = Some (True, m)"
  shows "m_type m = Add \<longrightarrow> (0 \<le> m_price m \<and> m_price m < 2 ^ 32 \<and> m_stock m = take 8 (m_stock m) @ [0])"
proof -
  have "uint (x :: 32 word) < 2 ^ 32" for x using uint_bounded [of x] by simp
  moreover have "slice body 24 8 = Some st \<Longrightarrow> length st = 8" for st by (auto simp: slice_def split: if_splits)
  ultimately show ?thesis using assms
    by (auto simp: parse_def parse_case_defs bind_eq_Some_conv split: if_splits)
qed

definition listed :: "byte list list \<Rightarrow> byte list set" where
  "listed args = (\<lambda>x. pad (x @ [0])) ` replay_symbols args"

lemma listed_small: "length args < 2 ^ 32 - 1 \<Longrightarrow> finite (listed args) \<and> card (listed args) < 2 ^ 32 - 1"
proof -
  assume l: "length args < 2 ^ 32 - 1"
  have "card (set (map pad args)) < 2 ^ 32 - 1" using card_length [of "map pad args"] l by simp
  then have "finite (replay_symbols args) \<and> card (replay_symbols args) < 2 ^ 32 - 1"
    by (simp add: replay_symbols_def Let_def)
  with card_image_le [of "replay_symbols args" "\<lambda>x. pad (x @ [0])"] show ?thesis by (simp add: listed_def)
qed

lemma feed_wire:
  "\<forall>m\<in>set (fd_pushed f). wire_msg (listed args) m \<Longrightarrow>
   \<exists>f'. feed_bodies scratch (replay_symbols args) bodies f = Some f' \<and> (\<forall>m\<in>set (fd_pushed f'). wire_msg (listed args) m)"
proof (induction bodies arbitrary: f)
  case (Cons body bodies)
  obtain ok m where p: "parse body scratch = Some (ok, m)" using parse_inside by blast
  show ?case
  proof (cases "ok \<and> \<not> ((m_type m = Add \<or> m_type m = Action) \<and> take 8 (m_stock m) \<notin> replay_symbols args)")
    case True
    have w: "m_type m = Add \<longrightarrow> 0 \<le> m_price m \<and> m_price m < 2 ^ 32 \<and> m_stock m = take 8 (m_stock m) @ [0]"
      using parse_wire [of body scratch m] p True by simp
    have "m_type m = Add \<longrightarrow> pad (take 8 (m_stock m) @ [0]) \<in> listed args" using True by (auto simp: listed_def)
    with w have "wire_msg (listed args) m" unfolding wire_msg_def by metis
    with True p Cons show ?thesis by (auto simp: Let_def)
  next
    case False
    with p Cons show ?thesis by (auto simp: Let_def)
  qed
qed auto

section \<open>The venue's invariant\<close>

definition venue_ok :: "byte list set \<Rightarrow> venue \<Rightarrow> bool" where
  "venue_ok K v \<longleftrightarrow>
     finite K \<and> card K < 2 ^ 32 - 1 \<and> dom (v_by_name v) \<subseteq> K \<and> length (v_engines v) = card (dom (v_by_name v)) \<and>
     inj_on (v_by_name v) (dom (v_by_name v)) \<and>
     (\<forall>k s. v_by_name v k = Some s \<longrightarrow> unat s < length (v_engines v)) \<and>
     (\<forall>i<length (v_engines v). \<exists>a. stands_for (v_engines v ! i) a)"

definition refs_ok :: "venue_builder \<Rightarrow> venue \<Rightarrow> bool" where
  "refs_ok b v \<longleftrightarrow> vb_auto_band b = 2 ^ 17 \<and> (\<forall>r s oid. vb_refs b r = Some (s, oid) \<longrightarrow> unat s < length (v_engines v))"

lemma venue_ok_size: "venue_ok K v \<Longrightarrow> length (v_engines v) < 2 ^ 32 - 1"
  unfolding venue_ok_def by (metis card_mono le_less_trans)

lemma venue_ok_find:
  assumes "venue_ok K v"
  shows "find_symbol name v = kInvalidSymbol \<longleftrightarrow> v_by_name v (pad name) = None"
    "v_by_name v (pad name) = Some s \<Longrightarrow> find_symbol name v = s"
proof -
  have "s \<noteq> kInvalidSymbol" if "v_by_name v (pad name) = Some s" for s
  proof -
    have "unat s < length (v_engines v)" using that assms by (auto simp: venue_ok_def)
    with venue_ok_size [OF assms] have "unat s < 2 ^ 32 - 1" by linarith
    then show ?thesis by (auto simp: kInvalidSymbol_def)
  qed
  then show "find_symbol name v = kInvalidSymbol \<longleftrightarrow> v_by_name v (pad name) = None"
    "v_by_name v (pad name) = Some s \<Longrightarrow> find_symbol name v = s"
    by (auto simp: find_symbol_def split: option.splits)
qed

text \<open>An operation of one symbol.\<close>

lemma at_symbol_ok:
  assumes v: "venue_ok K v" and s: "unat s < length (v_engines v)"
    and c: "call c (v_engines v ! unat s) = reply_as h (f (v_engines v ! unat s))"
  obtains r e' where "f (v_engines v ! unat s) = Some (r, e')"
    "at_symbol s f v = Some (r, v\<lparr>v_engines := (v_engines v)[unat s := e']\<rparr>)"
    "venue_ok K (v\<lparr>v_engines := (v_engines v)[unat s := e']\<rparr>)"
proof -
  obtain a where "stands_for (v_engines v ! unat s) a" using v s by (auto simp: venue_ok_def)
  from rest_call [OF this c] obtain r e' a' where "f (v_engines v ! unat s) = Some (r, e')" "stands_for e' a'" by blast
  moreover have "engine_at v s = Some (v_engines v ! unat s)" using s by (simp add: engine_at_def)
  moreover have "venue_ok K (v\<lparr>v_engines := (v_engines v)[unat s := e']\<rparr>)"
  proof -
    have "\<exists>a. stands_for ((v_engines v)[unat s := e'] ! i) a" if "i < length (v_engines v)" for i
      using v calculation(2) that s by (cases "i = unat s") (auto simp: venue_ok_def)
    then show ?thesis using v by (auto simp: venue_ok_def)
  qed
  ultimately show ?thesis using that [of r e'] by (simp add: at_symbol_def)
qed

lemma refs_ok_update [simp]: "refs_ok b (v\<lparr>v_engines := (v_engines v)[i := e]\<rparr>) = refs_ok b v"
  by (simp add: refs_ok_def)

section \<open>A book per symbol\<close>

text \<open>The references of one symbol.\<close>

definition refs_of :: "SymbolId \<Rightarrow> venue_builder \<Rightarrow> refmap" where
  "refs_of s b r = (case vb_refs b r of None \<Rightarrow> None | Some (t, oid) \<Rightarrow> if t = s then Some oid else None)"

lemma refs_of_update [simp]:
  "refs_of s (b\<lparr>vb_refs := (vb_refs b)(r := None)\<rparr>) = (refs_of s b)(r := None)"
  "refs_of s (b\<lparr>vb_refs := (vb_refs b)(r \<mapsto> (t, oid))\<rparr>) = (refs_of s b)(r := (if t = s then Some oid else None))"
  "refs_of s (b\<lparr>vb_refs := (vb_refs b)(r := None, r2 \<mapsto> (t, oid))\<rparr>) =
    (refs_of s b)(r := None, r2 := (if t = s then Some oid else None))"
  "refs_of s (b\<lparr>vb_dropped := d\<rparr>) = refs_of s b"
  by (auto simp: refs_of_def)

text \<open>
  The builder of one symbol alone: it starts its engine at the first add of the symbol, with the
  band the venue would give it, and from then on applies what concerns the symbol or is keyed
  by reference.
\<close>

definition first_engine :: "nat \<Rightarrow> Message \<Rightarrow> engine option" where
  "first_engine chunk m = engine_new chunk (if m_price m > 2 ^ 17 then m_price m - 2 ^ 17 else 1) (m_price m + 2 ^ 17) kExpectedOrders"

definition concerns :: "byte list \<Rightarrow> Message \<Rightarrow> bool" where
  "concerns key m \<longleftrightarrow> (m_type m = Add \<or> m_type m = Action \<longrightarrow> pad (m_stock m) = key)"

definition book_step :: "nat \<Rightarrow> byte list \<Rightarrow> Message \<Rightarrow> (refmap \<times> engine) option \<Rightarrow> (refmap \<times> engine) option option" where
  "book_step chunk key m st =
     (case st of
        None \<Rightarrow> if m_type m = Add \<and> pad (m_stock m) = key
                then do { e \<leftarrow> first_engine chunk m; map_option Some (apply_message m (Map.empty, e)) }
                else Some None
      | Some b \<Rightarrow> if concerns key m then map_option Some (apply_message m b) else Some (Some b))"

fun book_alone :: "nat \<Rightarrow> byte list \<Rightarrow> Message list \<Rightarrow> (refmap \<times> engine) option \<Rightarrow> (refmap \<times> engine) option option" where
  "book_alone chunk key [] st = Some st"
| "book_alone chunk key (m # ms) st = do { st1 \<leftarrow> book_step chunk key m st; book_alone chunk key ms st1 }"

text \<open>The venue's side of a symbol.\<close>

definition book_in :: "byte list \<Rightarrow> venue_builder \<Rightarrow> venue \<Rightarrow> (refmap \<times> engine) option" where
  "book_in key b v = map_option (\<lambda>s. (refs_of s b, v_engines v ! unat s)) (v_by_name v key)"

definition new_refs :: "Message list \<Rightarrow> 64 word list" where
  "new_refs ms = concat (map (\<lambda>m. case m_type m of Add \<Rightarrow> [m_ref m] | Replace \<Rightarrow> [m_new_ref m] | _ \<Rightarrow> []) ms)"

definition fresh :: "Message \<Rightarrow> venue_builder \<Rightarrow> bool" where
  "fresh m b \<longleftrightarrow> (\<forall>r\<in>set (new_refs [m]). vb_refs b r = None)"

text \<open>A message that reaches no book, and a message that reaches the book of one symbol.\<close>

lemma idle_step:
  assumes "m_type m = Add \<Longrightarrow> v_by_name v (pad (m_stock m)) \<noteq> None"
    and "\<And>k s e. v_by_name v k = Some s \<Longrightarrow> concerns k m \<Longrightarrow> apply_message m (refs_of s b, e) = Some (refs_of s b, e)"
  shows "book_step chunk key m (book_in key b v) = Some (book_in key b v)"
  using assms by (cases "v_by_name v key") (auto simp: book_step_def book_in_def)

lemma target_step:
  assumes v: "venue_ok K v" and t: "unat t < length (v_engines v)"
    and add: "m_type m = Add \<Longrightarrow> v_by_name v (pad (m_stock m)) \<noteq> None"
    and off: "\<And>k s e. v_by_name v k = Some s \<Longrightarrow> s \<noteq> t \<Longrightarrow> concerns k m \<Longrightarrow> apply_message m (refs_of s b, e) = Some (refs_of s b, e)"
    and on: "\<And>k. v_by_name v k = Some t \<Longrightarrow> concerns k m \<and> apply_message m (refs_of t b, v_engines v ! unat t) = Some (refs_of t b', e')"
    and same: "\<And>s. s \<noteq> t \<Longrightarrow> refs_of s b' = refs_of s b"
  shows "book_step chunk key m (book_in key b v) = Some (book_in key b' (v\<lparr>v_engines := (v_engines v)[unat t := e']\<rparr>))"
proof (cases "v_by_name v key")
  case None
  then show ?thesis using add by (auto simp: book_step_def book_in_def)
next
  case (Some s)
  show ?thesis
  proof (cases "s = t")
    case True
    with Some on [of key] t show ?thesis by (simp add: book_step_def book_in_def)
  next
    case False
    then have "unat t \<noteq> unat s" by (simp add: word_unat_eq_iff)
    with Some False off [OF Some False] same [OF False] show ?thesis by (auto simp: book_step_def book_in_def)
  qed
qed

lemma refs_of_None: "vb_refs b r = None \<Longrightarrow> refs_of s b r = None"
  "vb_refs b r = Some (t, oid) \<Longrightarrow> s \<noteq> t \<Longrightarrow> refs_of s b r = None"
  "vb_refs b r = Some (t, oid) \<Longrightarrow> refs_of t b r = Some oid"
  by (simp_all add: refs_of_def)

section \<open>One message\<close>

text \<open>What a step has to show.\<close>

definition routed :: "byte list set \<Rightarrow> nat \<Rightarrow> Message \<Rightarrow> venue_builder \<Rightarrow> venue \<Rightarrow> venue_builder \<Rightarrow> venue \<Rightarrow> bool" where
  "routed K chunk m b v b' v' \<longleftrightarrow> venue_ok K v' \<and> refs_ok b' v' \<and>
     dom (vb_refs b') \<subseteq> dom (vb_refs b) \<union> set (new_refs [m]) \<and>
     (fresh m b \<longrightarrow> (\<forall>key. book_step chunk key m (book_in key b v) = Some (book_in key b' v')))"

lemma routed_idle:
  "venue_ok K v \<Longrightarrow> refs_ok b v \<Longrightarrow> (m_type m = Add \<Longrightarrow> v_by_name v (pad (m_stock m)) \<noteq> None) \<Longrightarrow>
   (\<And>k s e. v_by_name v k = Some s \<Longrightarrow> concerns k m \<Longrightarrow> apply_message m (refs_of s b, e) = Some (refs_of s b, e)) \<Longrightarrow>
   routed K chunk m b v b v"
  using idle_step [of m v b] by (simp add: routed_def)

lemma keyed_apply:
  "m_type m = Execute \<or> m_type m = Cancel \<Longrightarrow> apply_message m = apply_reduce m"
  "m_type m = Delete \<Longrightarrow> apply_message m = apply_delete m"
  "m_type m = Replace \<Longrightarrow> apply_message m = apply_replace m"
  by (auto simp: apply_message_def fun_eq_iff)

lemma reduce_routed:
  assumes v: "venue_ok K v" "refs_ok b v" and m: "m_type m = Execute \<or> m_type m = Cancel"
  shows "\<exists>b' v'. venue_reduce m (b, v) = Some (b', v') \<and> routed K chunk m b v b' v'"
proof (cases "vb_refs b (m_ref m)")
  case None
  have "routed K chunk m b v b v"
    by (rule routed_idle [OF v]) (use m refs_of_None(1) [OF None] in \<open>auto simp: keyed_apply apply_reduce_def\<close>)
  with None show ?thesis by (simp add: venue_reduce_def)
next
  case (Some x)
  obtain t oid where x: "vb_refs b (m_ref m) = Some (t, oid)" using Some by (cases x) simp
  have t: "unat t < length (v_engines v)" using v(2) x by (auto simp: refs_ok_def)
  obtain ok e' where f: "reduce oid (m_qty m) (v_engines v ! unat t) = Some (ok, e')"
    "at_symbol t (reduce oid (m_qty m)) v = Some (ok, v\<lparr>v_engines := (v_engines v)[unat t := e']\<rparr>)"
    "venue_ok K (v\<lparr>v_engines := (v_engines v)[unat t := e']\<rparr>)"
    by (rule at_symbol_ok [OF v(1) t, of "ReduceOrder oid (m_qty m)" RBool "reduce oid (m_qty m)"]) (simp, blast)
  let ?b = "if ok then b else b\<lparr>vb_refs := (vb_refs b)(m_ref m := None)\<rparr>"
  have "book_step chunk key m (book_in key b v) = Some (book_in key ?b (v\<lparr>v_engines := (v_engines v)[unat t := e']\<rparr>))" for key
    by (rule target_step [OF v(1) t])
      (use m f(1) refs_of_None(2,3) [OF x] in \<open>auto simp: keyed_apply apply_reduce_def concerns_def fun_upd_idem\<close>)
  moreover have "refs_ok ?b v" "dom (vb_refs ?b) \<subseteq> dom (vb_refs b)" using v(2) by (auto simp: refs_ok_def)
  ultimately have "routed K chunk m b v ?b (v\<lparr>v_engines := (v_engines v)[unat t := e']\<rparr>)"
    using f(3) by (auto simp: routed_def)
  with f(2) x show ?thesis by (auto simp: venue_reduce_def)
qed

lemma delete_routed:
  assumes v: "venue_ok K v" "refs_ok b v" and m: "m_type m = Delete"
  shows "\<exists>b' v'. venue_delete m (b, v) = Some (b', v') \<and> routed K chunk m b v b' v'"
proof (cases "vb_refs b (m_ref m)")
  case None
  have "routed K chunk m b v b v"
    by (rule routed_idle [OF v]) (use m refs_of_None(1) [OF None] in \<open>auto simp: keyed_apply apply_delete_def\<close>)
  with None show ?thesis by (simp add: venue_delete_def)
next
  case (Some x)
  obtain t oid where x: "vb_refs b (m_ref m) = Some (t, oid)" using Some by (cases x) simp
  have t: "unat t < length (v_engines v)" using v(2) x by (auto simp: refs_ok_def)
  obtain ok e' where f: "cancel oid (v_engines v ! unat t) = Some (ok, e')"
    "at_symbol t (cancel oid) v = Some (ok, v\<lparr>v_engines := (v_engines v)[unat t := e']\<rparr>)"
    "venue_ok K (v\<lparr>v_engines := (v_engines v)[unat t := e']\<rparr>)"
    by (rule at_symbol_ok [OF v(1) t, of "CancelOrder oid" RBool "cancel oid"]) (simp, blast)
  let ?b = "b\<lparr>vb_refs := (vb_refs b)(m_ref m := None)\<rparr>"
  have "book_step chunk key m (book_in key b v) = Some (book_in key ?b (v\<lparr>v_engines := (v_engines v)[unat t := e']\<rparr>))" for key
    by (rule target_step [OF v(1) t])
      (use m f(1) refs_of_None(2,3) [OF x] in \<open>auto simp: keyed_apply apply_delete_def concerns_def fun_upd_idem\<close>)
  moreover have "refs_ok ?b v" "dom (vb_refs ?b) \<subseteq> dom (vb_refs b)" using v(2) by (auto simp: refs_ok_def)
  ultimately have "routed K chunk m b v ?b (v\<lparr>v_engines := (v_engines v)[unat t := e']\<rparr>)"
    using f(3) by (auto simp: routed_def)
  with f(2) x show ?thesis by (auto simp: venue_delete_def)
qed

lemma replace_routed:
  assumes v: "venue_ok K v" "refs_ok b v" and m: "m_type m = Replace"
  shows "\<exists>b' v'. venue_replace m (b, v) = Some (b', v') \<and> routed K chunk m b v b' v'"
proof (cases "vb_refs b (m_ref m)")
  case None
  have "routed K chunk m b v b v"
    by (rule routed_idle [OF v]) (use m refs_of_None(1) [OF None] in \<open>auto simp: keyed_apply apply_replace_def\<close>)
  with None show ?thesis by (simp add: venue_replace_def)
next
  case (Some x)
  obtain t oid where x: "vb_refs b (m_ref m) = Some (t, oid)" using Some by (cases x) simp
  have t: "unat t < length (v_engines v)" using v(2) x by (auto simp: refs_ok_def)
  obtain ok e' where f: "modify oid (m_price m) (m_qty m) (v_engines v ! unat t) = Some (ok, e')"
    "at_symbol t (modify oid (m_price m) (m_qty m)) v = Some (ok, v\<lparr>v_engines := (v_engines v)[unat t := e']\<rparr>)"
    "venue_ok K (v\<lparr>v_engines := (v_engines v)[unat t := e']\<rparr>)"
    by (rule at_symbol_ok [OF v(1) t, of "ModifyOrder oid (m_price m) (m_qty m)" RBool "modify oid (m_price m) (m_qty m)"]) (simp, blast)
  let ?b = "if ok then b\<lparr>vb_refs := (vb_refs b)(m_ref m := None, m_new_ref m \<mapsto> (t, oid))\<rparr> else b"
  have "book_step chunk key m (book_in key b v) = Some (book_in key ?b (v\<lparr>v_engines := (v_engines v)[unat t := e']\<rparr>))"
    if "fresh m b" for key
  proof -
    have n: "refs_of s b (m_new_ref m) = None" for s using that m by (intro refs_of_None(1)) (simp add: fresh_def new_refs_def)
    show ?thesis
      by (rule target_step [OF v(1) t])
        (use m f(1) refs_of_None(2,3) [OF x] n in \<open>auto simp: keyed_apply apply_replace_def concerns_def fun_upd_idem\<close>)
  qed
  moreover have "refs_ok ?b v" "dom (vb_refs ?b) \<subseteq> dom (vb_refs b) \<union> set (new_refs [m])"
    using v(2) t m by (auto simp: refs_ok_def new_refs_def)
  ultimately have "routed K chunk m b v ?b (v\<lparr>v_engines := (v_engines v)[unat t := e']\<rparr>)"
    using f(3) by (auto simp: routed_def)
  with f(2) x show ?thesis by (auto simp: venue_replace_def)
qed

lemma venue_ok_same: "venue_ok K v \<Longrightarrow> v_by_name v k = Some t \<Longrightarrow> v_by_name v k' = Some t \<Longrightarrow> k' = k"
  unfolding venue_ok_def by (metis domI inj_onD)

lemma action_routed:
  assumes v: "venue_ok K v" "refs_ok b v" and m: "m_type m = Action"
  shows "\<exists>b' v'. venue_action m (b, v) = Some (b', v') \<and> routed K chunk m b v b' v'"
proof (cases "v_by_name v (pad (m_stock m))")
  case None
  have "routed K chunk m b v b v" by (rule routed_idle [OF v]) (use m None in \<open>auto simp: concerns_def\<close>)
  with None venue_ok_find(1) [OF v(1)] show ?thesis by (simp add: venue_action_def Let_def)
next
  case (Some t)
  have fs: "find_symbol (m_stock m) v = t" "t \<noteq> kInvalidSymbol"
    using venue_ok_find [OF v(1), of "m_stock m"] Some by auto
  have t: "unat t < length (v_engines v)" using v(1) Some by (auto simp: venue_ok_def)
  have other: "\<not> concerns k m" if "v_by_name v k = Some s" "s \<noteq> t" for k s using that Some m by (auto simp: concerns_def)
  have mine: "concerns k m" if "v_by_name v k = Some t" for k
    using venue_ok_same [OF v(1) Some that] by (simp add: concerns_def)
  have go: "routed K chunk m b v b (v\<lparr>v_engines := (v_engines v)[unat t := e']\<rparr>)"
    if "apply_message m (refs_of t b, v_engines v ! unat t) = Some (refs_of t b, e')"
      "venue_ok K (v\<lparr>v_engines := (v_engines v)[unat t := e']\<rparr>)" for e'
  proof -
    have "book_step chunk key m (book_in key b v) = Some (book_in key b (v\<lparr>v_engines := (v_engines v)[unat t := e']\<rparr>))" for key
      by (rule target_step [OF v(1) t]) (use m that(1) other mine in auto)
    with v(2) that(2) show ?thesis by (simp add: routed_def)
  qed
  obtain r e1 where h: "halt (v_engines v ! unat t) = Some (r, e1)" "at_symbol t halt v = Some (r, v\<lparr>v_engines := (v_engines v)[unat t := e1]\<rparr>)"
    "venue_ok K (v\<lparr>v_engines := (v_engines v)[unat t := e1]\<rparr>)"
    by (rule at_symbol_ok [OF v(1) t, of Halt "\<lambda>_. RVoid" halt]) (simp, blast)
  obtain q e2 where u: "resume (v_engines v ! unat t) = Some (q, e2)" "at_symbol t resume v = Some (q, v\<lparr>v_engines := (v_engines v)[unat t := e2]\<rparr>)"
    "venue_ok K (v\<lparr>v_engines := (v_engines v)[unat t := e2]\<rparr>)"
    by (rule at_symbol_ok [OF v(1) t, of Resume "\<lambda>_. RVoid" resume]) (simp, blast)
  have same: "v\<lparr>v_engines := (v_engines v)[unat t := v_engines v ! unat t]\<rparr> = v" by simp
  show ?thesis
    using go [of e1] go [of e2] go [of "v_engines v ! unat t", unfolded same] h u fs m v(1)
    by (auto simp: venue_action_def apply_message_def apply_action_def Let_def)
qed

text \<open>An add registers an unknown symbol first.\<close>

lemma register:
  assumes v: "venue_ok K v" "refs_ok b v" and c: "0 < chunk" and m: "m_type m = Add" "wire_msg K m"
    and none: "v_by_name v (pad (m_stock m)) = None"
  obtains t e where "add_target chunk m b v = Some (Some t, v\<lparr>v_engines := v_engines v @ [e],
      v_names := v_names v @ [take 8 (pad (m_stock m)) @ [0]], v_by_name := (v_by_name v)(pad (m_stock m) \<mapsto> t)\<rparr>)"
    "first_engine chunk m = Some e" "unat t = length (v_engines v)" "\<exists>a. stands_for e a"
proof -
  let ?key = "pad (m_stock m)"
  let ?lo = "if m_price m > 2 ^ 17 then m_price m - 2 ^ 17 else 1"
  have p: "0 \<le> m_price m" "m_price m < 2 ^ 32" "?key \<in> K" using m by (auto simp: wire_msg_def)
  then have b: "band_ok ?lo (m_price m + 2 ^ 17)" by (auto simp: band_ok_def)
  obtain e where e: "first_engine chunk m = Some e"
    using engine_new_refines [of chunk ?lo "m_price m + 2 ^ 17" kExpectedOrders] c b by (auto simp: first_engine_def band_ok_def)
  then have "engine_new chunk ?lo (m_price m + 2 ^ 17) kExpectedOrders = Some e" by (simp add: first_engine_def)
  from stands_for_new [OF c b this] have st: "stands_for e (astate_new ?lo (m_price m + 2 ^ 17))" .
  have "length (v_engines v) < 2 ^ 32" using venue_ok_size [OF v(1)] by simp
  then have u: "unat (of_nat (length (v_engines v)) :: 32 word) = length (v_engines v)" by (simp add: unat_of_nat)
  have f: "find_symbol (m_stock m) v = kInvalidSymbol" using venue_ok_find(1) [OF v(1)] none by simp
  have ab: "vb_auto_band b = 2 ^ 17" using v(2) by (simp add: refs_ok_def)
  have "add_target chunk m b v = Some (Some (of_nat (length (v_engines v))), v\<lparr>v_engines := v_engines v @ [e],
      v_names := v_names v @ [take 8 (pad (m_stock m)) @ [0]], v_by_name := (v_by_name v)(pad (m_stock m) \<mapsto> of_nat (length (v_engines v)))\<rparr>)"
    using e unfolding add_target_def add_symbol_def first_engine_def ab f none Let_def by simp
  with that [OF _ e u] st show ?thesis by blast
qed

lemma registered:
  assumes v: "venue_ok K v" "refs_ok b v" and k: "k \<in> K" "v_by_name v k = None"
    and e: "unat t = length (v_engines v)" "\<exists>a. stands_for e a"
    and v1: "v1 = v\<lparr>v_engines := v_engines v @ [e], v_names := ns, v_by_name := (v_by_name v)(k \<mapsto> t)\<rparr>"
  shows "venue_ok K v1" "refs_ok b v1" "book_in k b v1 = Some (Map.empty, e)" "k' \<noteq> k \<Longrightarrow> book_in k' b v1 = book_in k' b v"
proof -
  have fin: "finite (dom (v_by_name v))" using v(1) unfolding venue_ok_def by (metis finite_subset)
  have old: "unat s < length (v_engines v)" if "v_by_name v x = Some s" for x s using v(1) that by (auto simp: venue_ok_def)
  have "card (dom (v_by_name v1)) = Suc (card (dom (v_by_name v)))" using fin k(2) by (simp add: v1 domIff)
  moreover have "inj_on (v_by_name v1) (dom (v_by_name v1))"
  proof (rule inj_onI)
    fix x y assume d: "x \<in> dom (v_by_name v1)" "y \<in> dom (v_by_name v1)" "v_by_name v1 x = v_by_name v1 y"
    have "v_by_name v z \<noteq> Some t" for z using old [of z t] e(1) by auto
    with d venue_ok_same [OF v(1)] show "x = y" by (auto simp: v1 split: if_splits)
  qed
  moreover have "\<exists>a. stands_for (v_engines v1 ! i) a" if "i < length (v_engines v1)" for i
    using v(1) e(2) that by (cases "i = length (v_engines v)") (auto simp: v1 venue_ok_def nth_append)
  moreover have "unat s < length (v_engines v1)" if "v_by_name v1 x = Some s" for x s
    using that old [of x s] e(1) by (auto simp: v1 split: if_splits)
  moreover have "length (v_engines v1) = Suc (card (dom (v_by_name v)))" using v(1) by (simp add: v1 venue_ok_def)
  moreover have "dom (v_by_name v1) \<subseteq> K" using v(1) k(1) by (auto simp: v1 venue_ok_def)
  ultimately show "venue_ok K v1" using v(1) unfolding venue_ok_def by metis
  show "refs_ok b v1" using v(2) by (force simp: refs_ok_def v1)
  have "refs_of t b r = None" for r
  proof -
    have "vb_refs b r \<noteq> Some (t, oid)" for oid using v(2) e(1) by (force simp: refs_ok_def)
    then show ?thesis by (auto simp: refs_of_def split: option.splits)
  qed
  then show "book_in k b v1 = Some (Map.empty, e)" using e(1) by (simp add: book_in_def v1 fun_eq_iff)
  show "book_in k' b v1 = book_in k' b v" if "k' \<noteq> k"
    using that old [of k'] by (cases "v_by_name v k'") (auto simp: book_in_def v1 nth_append)
qed

lemma add_known:
  assumes v: "venue_ok K v" "refs_ok b v" and m: "m_type m = Add" and k: "v_by_name v (pad (m_stock m)) = Some t"
  obtains oid e' where "at_symbol t (submit_limit (m_side m) (m_price m) (m_qty m) GTC 0 CancelTaker) v =
      Some (oid, v\<lparr>v_engines := (v_engines v)[unat t := e']\<rparr>)"
    "routed K chunk m b v (if oid \<noteq> kInvalidOrderId then b\<lparr>vb_refs := (vb_refs b)(m_ref m \<mapsto> (t, oid))\<rparr>
      else b\<lparr>vb_dropped := vb_dropped b + 1\<rparr>) (v\<lparr>v_engines := (v_engines v)[unat t := e']\<rparr>)"
proof -
  have t: "unat t < length (v_engines v)" using v(1) k by (auto simp: venue_ok_def)
  let ?f = "submit_limit (m_side m) (m_price m) (m_qty m) GTC 0 CancelTaker"
  obtain oid e' where f: "?f (v_engines v ! unat t) = Some (oid, e')"
    "at_symbol t ?f v = Some (oid, v\<lparr>v_engines := (v_engines v)[unat t := e']\<rparr>)"
    "venue_ok K (v\<lparr>v_engines := (v_engines v)[unat t := e']\<rparr>)"
    by (rule at_symbol_ok [OF v(1) t, of "SubmitLimit (m_side m) (m_price m) (m_qty m) GTC 0 CancelTaker" RId ?f]) (simp, blast)
  let ?b = "if oid \<noteq> kInvalidOrderId then b\<lparr>vb_refs := (vb_refs b)(m_ref m \<mapsto> (t, oid))\<rparr> else b\<lparr>vb_dropped := vb_dropped b + 1\<rparr>"
  have "book_step chunk key m (book_in key b v) = Some (book_in key ?b (v\<lparr>v_engines := (v_engines v)[unat t := e']\<rparr>))"
    if fr: "fresh m b" for key
  proof (rule target_step [OF v(1) t])
    show "m_type m = Add \<Longrightarrow> v_by_name v (pad (m_stock m)) \<noteq> None" using k by simp
    show "apply_message m (refs_of s b, e) = Some (refs_of s b, e)"
      if "v_by_name v x = Some s" "s \<noteq> t" "concerns x m" for x s e using that k m by (auto simp: concerns_def)
    show "concerns x m \<and> apply_message m (refs_of t b, v_engines v ! unat t) = Some (refs_of t ?b, e')"
      if "v_by_name v x = Some t" for x
      using venue_ok_same [OF v(1) k that] f(1) m by (simp add: concerns_def apply_message_def apply_add_def)
    have "refs_of s b (m_ref m) = None" for s using fr m by (intro refs_of_None(1)) (simp add: fresh_def new_refs_def)
    then show "refs_of s ?b = refs_of s b" if "s \<noteq> t" for s using that by (auto simp: fun_upd_idem)
  qed
  moreover have "refs_ok ?b v" "dom (vb_refs ?b) \<subseteq> dom (vb_refs b) \<union> set (new_refs [m])"
    using v(2) t m by (auto simp: refs_ok_def new_refs_def)
  ultimately have "routed K chunk m b v ?b (v\<lparr>v_engines := (v_engines v)[unat t := e']\<rparr>)"
    using f(3) by (simp add: routed_def)
  with that f(2) show ?thesis by blast
qed

lemma add_routed:
  assumes v: "venue_ok K v" "refs_ok b v" and c: "0 < chunk" and m: "m_type m = Add" "wire_msg K m"
  shows "\<exists>b' v'. venue_add chunk m (b, v) = Some (b', v') \<and> routed K chunk m b v b' v'"
proof (cases "v_by_name v (pad (m_stock m))")
  case (Some t)
  then have tgt: "add_target chunk m b v = Some (Some t, v)"
    using venue_ok_find [OF v(1), of "m_stock m"] by (auto simp: add_target_def)
  show ?thesis by (rule add_known [OF v m(1) Some, of chunk]) (auto simp: venue_add_def tgt)
next
  case None
  let ?key = "pad (m_stock m)"
  obtain t e where r: "add_target chunk m b v = Some (Some t, v\<lparr>v_engines := v_engines v @ [e],
      v_names := v_names v @ [take 8 ?key @ [0]], v_by_name := (v_by_name v)(?key \<mapsto> t)\<rparr>)"
    "first_engine chunk m = Some e" "unat t = length (v_engines v)" "\<exists>a. stands_for e a"
    by (rule register [OF v c m None])
  define v1 where "v1 = v\<lparr>v_engines := v_engines v @ [e], v_names := v_names v @ [take 8 ?key @ [0]], v_by_name := (v_by_name v)(?key \<mapsto> t)\<rparr>"
  have key: "?key \<in> K" using m by (simp add: wire_msg_def)
  note R = registered [OF v key None r(3,4) v1_def]
  have k1: "v_by_name v1 ?key = Some t" by (simp add: v1_def)
  obtain oid e' where a: "at_symbol t (submit_limit (m_side m) (m_price m) (m_qty m) GTC 0 CancelTaker) v1 =
      Some (oid, v1\<lparr>v_engines := (v_engines v1)[unat t := e']\<rparr>)"
    "routed K chunk m b v1 (if oid \<noteq> kInvalidOrderId then b\<lparr>vb_refs := (vb_refs b)(m_ref m \<mapsto> (t, oid))\<rparr>
      else b\<lparr>vb_dropped := vb_dropped b + 1\<rparr>) (v1\<lparr>v_engines := (v_engines v1)[unat t := e']\<rparr>)"
    by (rule add_known [OF R(1,2) m(1) k1])
  have "book_step chunk k m (book_in k b v) = book_step chunk k m (book_in k b v1)" for k
  proof (cases "k = ?key")
    case True
    then have "book_in k b v = None" using None by (simp add: book_in_def)
    then show ?thesis using True R(3) r(2) m(1) by (simp add: book_step_def concerns_def)
  qed (simp add: R(4))
  with a(2) have "routed K chunk m b v (if oid \<noteq> kInvalidOrderId then b\<lparr>vb_refs := (vb_refs b)(m_ref m \<mapsto> (t, oid))\<rparr>
      else b\<lparr>vb_dropped := vb_dropped b + 1\<rparr>) (v1\<lparr>v_engines := (v_engines v1)[unat t := e']\<rparr>)"
    by (simp add: routed_def)
  with r(1) a(1) show ?thesis unfolding v1_def [symmetric] by (auto simp: venue_add_def)
qed

lemma message_routed:
  assumes "venue_ok K v" "refs_ok b v" "0 < chunk" "wire_msg K m"
  shows "\<exists>b' v'. venue_message chunk m (b, v) = Some (b', v') \<and> routed K chunk m b v b' v'"
proof (cases "m_type m")
  case Other
  have "routed K chunk m b v b v" by (rule routed_idle [OF assms(1,2)]) (simp_all add: Other apply_message_def)
  then show ?thesis by (simp add: venue_message_def Other)
qed (use add_routed [OF assms(1-3) _ assms(4)] reduce_routed [OF assms(1,2), of m chunk] delete_routed [OF assms(1,2), of m chunk]
      replace_routed [OF assms(1,2), of m chunk] action_routed [OF assms(1,2), of m chunk] in \<open>auto simp: venue_message_def\<close>)

section \<open>The whole feed\<close>

lemma new_refs_Cons: "new_refs (m # ms) = new_refs [m] @ new_refs ms"
  by (simp add: new_refs_def)

lemma messages_routed:
  assumes "venue_ok K v" "refs_ok b v" "0 < chunk" "\<forall>m\<in>set ms. wire_msg K m"
  shows "\<exists>b' v'. venue_messages chunk ms (b, v) = Some (b', v') \<and> venue_ok K v' \<and>
    (distinct (new_refs ms) \<and> dom (vb_refs b) \<inter> set (new_refs ms) = {} \<longrightarrow>
      (\<forall>key. book_alone chunk key ms (book_in key b v) = Some (book_in key b' v')))"
  using assms
proof (induction ms arbitrary: b v)
  case (Cons m ms)
  have w: "wire_msg K m" "\<forall>m\<in>set ms. wire_msg K m" using Cons.prems(4) by auto
  obtain b1 v1 where s: "venue_message chunk m (b, v) = Some (b1, v1)" "routed K chunk m b v b1 v1"
    using message_routed [OF Cons.prems(1-3) w(1)] by blast
  have ok: "venue_ok K v1" "refs_ok b1 v1" using s(2) by (simp_all add: routed_def)
  obtain b' v' where t: "venue_messages chunk ms (b1, v1) = Some (b', v')" "venue_ok K v'"
    "distinct (new_refs ms) \<and> dom (vb_refs b1) \<inter> set (new_refs ms) = {} \<longrightarrow>
      (\<forall>key. book_alone chunk key ms (book_in key b1 v1) = Some (book_in key b' v'))"
    using Cons.IH [OF ok Cons.prems(3) w(2)] by blast
  { assume d: "distinct (new_refs (m # ms))" "dom (vb_refs b) \<inter> set (new_refs (m # ms)) = {}"
    then have "fresh m b" unfolding fresh_def new_refs_Cons [of m ms] by auto
    then have "\<forall>key. book_step chunk key m (book_in key b v) = Some (book_in key b1 v1)" using s(2) by (simp add: routed_def)
    moreover have n: "distinct (new_refs ms)" "set (new_refs [m]) \<inter> set (new_refs ms) = {}" "dom (vb_refs b) \<inter> set (new_refs ms) = {}"
      using d unfolding new_refs_Cons [of m ms] by auto
    moreover have "dom (vb_refs b1) \<subseteq> dom (vb_refs b) \<union> set (new_refs [m])" using s(2) by (simp add: routed_def)
    then have "dom (vb_refs b1) \<inter> set (new_refs ms) = {}" using n(2,3) by blast
    ultimately have "\<forall>key. book_alone chunk key (m # ms) (book_in key b v) = Some (book_in key b' v')" using t(3) by simp }
  with s(1) t(1,2) show ?case by auto
qed auto

lemma venue_ok_new: "finite K \<Longrightarrow> card K < 2 ^ 32 - 1 \<Longrightarrow> venue_ok K venue_new \<and> refs_ok (venue_builder_new (2 ^ 17)) venue_new"
  by (simp add: venue_ok_def refs_ok_def venue_new_def venue_builder_new_def)

lemma replayed:
  assumes "0 < chunk" "length args < 2 ^ 32 - 1"
  shows "\<exists>f b v. replay_main chunk scratch args file = Some (f, b, v) \<and>
    (distinct (new_refs (fd_pushed f)) \<longrightarrow>
      (\<forall>key. book_alone chunk key (fd_pushed f) None = Some (book_in key b v)))"
proof -
  obtain bodies where rd: "read_framed file = Some bodies" using read_framed_total by blast
  obtain f where f: "feed_bodies scratch (replay_symbols args) bodies \<lparr>fd_parsed = 0, fd_matched = 0, fd_pushed = []\<rparr> = Some f"
    "\<forall>m\<in>set (fd_pushed f). wire_msg (listed args) m"
    using feed_wire [of "\<lparr>fd_parsed = 0, fd_matched = 0, fd_pushed = []\<rparr>" args scratch bodies] by auto
  have ok: "venue_ok (listed args) venue_new" "refs_ok (venue_builder_new (2 ^ 17)) venue_new"
    using venue_ok_new listed_small [OF assms(2)] by blast+
  obtain b v where "venue_messages chunk (fd_pushed f) (venue_builder_new (2 ^ 17), venue_new) = Some (b, v)"
    "distinct (new_refs (fd_pushed f)) \<and> dom (vb_refs (venue_builder_new (2 ^ 17))) \<inter> set (new_refs (fd_pushed f)) = {} \<longrightarrow>
      (\<forall>key. book_alone chunk key (fd_pushed f) (book_in key (venue_builder_new (2 ^ 17)) venue_new) = Some (book_in key b v))"
    using messages_routed [OF ok assms(1) f(2)] by blast
  moreover have "replay_main chunk scratch args file = Some (f, b, v)" using calculation(1) rd f(1) by (simp add: replay_main_def feed_thread_def)
  moreover have "book_in key (venue_builder_new (2 ^ 17)) venue_new = None" for key by (simp add: book_in_def venue_new_def)
  ultimately show ?thesis by (simp add: venue_builder_new_def)
qed

text \<open>C5. Replaying ends, whatever the bytes of the file and the symbols asked for: no framing, no
  message and no order of messages reads out of range or fails.  If the feed gives every new
  order a reference of its own, as ITCH does within a day, the symbols do not affect each
  other: the book the venue holds for a symbol is the one a builder of that symbol alone makes
  of the feed, and a symbol without a book is one whose builder never started.\<close>

theorem replay_books:
  assumes "0 < chunk" "length args < 2 ^ 32 - 1"
  shows "\<exists>f b v. replay_main chunk scratch args file = Some (f, b, v) \<and>
    (distinct (new_refs (fd_pushed f)) \<longrightarrow>
      (\<forall>key. book_alone chunk key (fd_pushed f) None = Some (book_in key b v)))"
  using replayed [OF assms] .

definition replay_file :: "byte list" where
  "replay_file = file_of [encode_add [] 1 7 66 5 (pad [65]) 100, encode_add [] 2 8 83 4 (pad [66]) 90,
     encode_add [] 3 9 83 4 (pad [67]) 90, encode_execute [] 4 7 2 1, [88, 1]]"

theorem replay_books_witness:
  "\<exists>f b v. replay_main 2 blank [[65], [66]] replay_file = Some (f, b, v) \<and> fd_parsed f = 5 \<and> fd_matched f = 3 \<and>
     (\<forall>key. book_alone 2 key (fd_pushed f) None = Some (book_in key b v))"
proof -
  have d: "map_option (\<lambda>f. (fd_parsed f, fd_matched f, distinct (new_refs (fd_pushed f)))) (feed_thread blank (replay_symbols [[65], [66]]) replay_file) =
    Some (5, 3, True)" by code_simp
  obtain f b v where r: "replay_main 2 blank [[65], [66]] replay_file = Some (f, b, v)"
    "distinct (new_refs (fd_pushed f)) \<longrightarrow> (\<forall>key. book_alone 2 key (fd_pushed f) None = Some (book_in key b v))"
    using replay_books [of 2 "[[65], [66]]" blank replay_file] by auto
  have "feed_thread blank (replay_symbols [[65], [66]]) replay_file = Some f" using r(1) by (auto simp: replay_main_def bind_eq_Some_conv)
  with d r show ?thesis by auto
qed

end
