(* ===== verification/Itchgen.thy ===== *)
theory Itchgen
  imports Replay Xorshift "HOL-Library.Multiset"
begin

text \<open>
  The generator of demo feeds (\<^verbatim>\<open>tools/itchgen_main.cpp\<close>).  Prices come from a random walk in
  doubles and are a parameter; the draws, the references, the live orders and the bytes are
  modelled.  The feed it writes is a valid one: every order gets a reference of its own, and
  every later message names a live order and takes no more from it than it has.
\<close>

section \<open>The generator\<close>

text \<open>The price walk: its start, a step from a draw below 200, and a wire price from a draw below 30.\<close>

record 'f price_walk =
  pw_start :: 'f
  pw_drift :: "'f \<Rightarrow> 64 word \<Rightarrow> 'f"
  pw_price :: "'f \<Rightarrow> bool \<Rightarrow> 64 word \<Rightarrow> 32 word"

record 'f generator =
  ge_rng :: "64 word"
  ge_next_ref :: "64 word"
  ge_ts :: "64 word"
  ge_mid :: 'f
  ge_live :: "(64 word \<times> 32 word) list"

definition generator_new :: "'f price_walk \<Rightarrow> 'f generator" where
  "generator_new W = \<lparr>ge_rng = 0xDEADBEEF, ge_next_ref = 1, ge_ts = 0, ge_mid = pw_start W, ge_live = []\<rparr>"

definition stock :: "byte list" where
  "stock = [77, 66, 84, 69, 83, 84, 32, 32]"

definition pick_below :: "64 word \<Rightarrow> 'f generator \<Rightarrow> 64 word \<times> 'f generator" where
  "pick_below n g = (let (x, r) = draw n (ge_rng g) in (x, g\<lparr>ge_rng := r\<rparr>))"

text \<open>\<^verbatim>\<open>live[k] = live.back(); live.pop_back();\<close>\<close>

definition swap_remove :: "nat \<Rightarrow> 'a list \<Rightarrow> 'a list" where
  "swap_remove k xs = butlast (xs[k := last xs])"

definition lot :: "64 word \<Rightarrow> 32 word" where
  "lot x = ucast ((1 + x) * 100)"

definition gen_add :: "'f price_walk \<Rightarrow> 'f generator \<Rightarrow> byte list \<times> 'f generator" where
  "gen_add W g =
     (let ref = ge_next_ref g; g = g\<lparr>ge_next_ref := ref + 1\<rparr>;
          (sd, g) = pick_below 2 g; buy = (sd = 0);
          (off, g) = pick_below 30 g; price = pw_price W (ge_mid g) (\<not> buy) off;
          (x, g) = pick_below 10 g; shares = lot x;
          b = enc64 (enc48 (enc16 (enc16 [ch CHR ''A''] 1) 0) (ge_ts g)) ref @ [if buy then ch CHR ''B'' else ch CHR ''S''];
          b = enc32 (enc32 b shares @ stock) price
      in (b, g\<lparr>ge_live := ge_live g @ [(ref, shares)]\<rparr>))"

definition gen_delete :: "'f generator \<Rightarrow> (byte list \<times> 'f generator) option" where
  "gen_delete g0 =
     (let (k, g) = pick_below (of_nat (length (ge_live g0))) g0
      in do {
        (ref, shares) \<leftarrow> vec_at (ge_live g) (unat k);
        let b = enc64 (enc48 (enc16 (enc16 [ch CHR ''D''] 1) 0) (ge_ts g)) ref;
        Some (b, g\<lparr>ge_live := swap_remove (unat k) (ge_live g)\<rparr>) })"

text \<open>Executions carry the message index as match number; cancels end after the quantity.\<close>

definition gen_reduce :: "char \<Rightarrow> byte list \<Rightarrow> 'f generator \<Rightarrow> (byte list \<times> 'f generator) option" where
  "gen_reduce t tail g0 =
     (let (k, g) = pick_below (of_nat (length (ge_live g0))) g0
      in do {
        (ref, shares) \<leftarrow> vec_at (ge_live g) (unat k);
        let ex = (if 100 \<ge> shares then shares else 100);
        let b = enc32 (enc64 (enc48 (enc16 (enc16 [ch t] 1) 0) (ge_ts g)) ref) ex @ tail;
        let live = (ge_live g)[unat k := (ref, shares - ex)];
        Some (b, g\<lparr>ge_live := (if shares - ex = 0 then swap_remove (unat k) live else live)\<rparr>) })"

definition gen_replace :: "'f price_walk \<Rightarrow> 'f generator \<Rightarrow> (byte list \<times> 'f generator) option" where
  "gen_replace W g0 =
     (let (k, g) = pick_below (of_nat (length (ge_live g0))) g0;
          new_ref = ge_next_ref g; g = g\<lparr>ge_next_ref := new_ref + 1\<rparr>;
          (off, g) = pick_below 30 g; (sd, g) = pick_below 2 g;
          price = pw_price W (ge_mid g) (sd \<noteq> 0) off;
          (x, g) = pick_below 10 g; shares = lot x
      in do {
        (ref, old) \<leftarrow> vec_at (ge_live g) (unat k);
        let b = enc64 (enc64 (enc48 (enc16 (enc16 [ch CHR ''U''] 1) 0) (ge_ts g)) ref) new_ref;
        let b = enc32 (enc32 b shares) price;
        Some (b, g\<lparr>ge_live := (ge_live g)[unat k := (new_ref, shares)]\<rparr>) })"

definition gen_message :: "'f price_walk \<Rightarrow> 64 word \<Rightarrow> 'f generator \<Rightarrow> (byte list \<times> 'f generator) option" where
  "gen_message W i g =
     (let (dt, g) = pick_below 5000 g; g = g\<lparr>ge_ts := ge_ts g + 1000 + dt\<rparr>;
          (dm, g) = pick_below 200 g; g = g\<lparr>ge_mid := pw_drift W (ge_mid g) dm\<rparr>;
          (roll, g) = pick_below 100 g
      in if roll < 55 \<or> ge_live g = [] then Some (gen_add W g)
         else if roll < 75 then gen_delete g
         else if roll < 88 then gen_reduce CHR ''E'' (enc64 [] i) g
         else if roll < 95 then gen_reduce CHR ''X'' [] g
         else gen_replace W g)"

fun gen_messages :: "'f price_walk \<Rightarrow> nat \<Rightarrow> 64 word \<Rightarrow> 'f generator \<Rightarrow> (byte list list \<times> 'f generator) option" where
  "gen_messages W 0 i g = Some ([], g)"
| "gen_messages W (Suc n) i g = do {
     (b, g1) \<leftarrow> gen_message W i g;
     (bs, g2) \<leftarrow> gen_messages W n (i + 1) g1;
     Some (b # bs, g2) }"

text \<open>The file the program writes.\<close>

definition itchgen :: "'f price_walk \<Rightarrow> nat \<Rightarrow> byte list option" where
  "itchgen W n_msgs = map_option (\<lambda>(bs, g). file_of bs) (gen_messages W n_msgs 0 (generator_new W))"

section \<open>A valid feed\<close>

text \<open>The displayed shares of each live reference, message by message; \<open>None\<close> is a message no venue would send.\<close>

fun life :: "Message \<Rightarrow> (64 word \<rightharpoonup> Qty) \<Rightarrow> (64 word \<rightharpoonup> Qty) option" where
  "life m live =
     (case m_type m of
        Add \<Rightarrow> if live (m_ref m) = None \<and> m_qty m \<noteq> 0 then Some (live(m_ref m \<mapsto> m_qty m)) else None
      | Delete \<Rightarrow> if live (m_ref m) \<noteq> None then Some (live(m_ref m := None)) else None
      | Replace \<Rightarrow> if live (m_ref m) \<noteq> None \<and> live (m_new_ref m) = None \<and> m_qty m \<noteq> 0
          then Some (live(m_ref m := None, m_new_ref m \<mapsto> m_qty m)) else None
      | Action \<Rightarrow> Some live
      | Other \<Rightarrow> Some live
      | _ \<Rightarrow> (case live (m_ref m) of
          None \<Rightarrow> None
        | Some q \<Rightarrow> if m_qty m = 0 \<or> q < m_qty m then None
            else Some (live(m_ref m := (if m_qty m = q then None else Some (q - m_qty m))))))"

fun lives :: "Message list \<Rightarrow> (64 word \<rightharpoonup> Qty) \<Rightarrow> (64 word \<rightharpoonup> Qty) option" where
  "lives [] live = Some live"
| "lives (m # ms) live = do { live1 \<leftarrow> life m live; lives ms live1 }"

section \<open>Removing by swapping\<close>

lemma swap_remove_refs:
  assumes "distinct (map fst xs)" "k < length xs"
  shows "distinct (map fst (swap_remove k xs))" "set (swap_remove k xs) = set xs - {xs ! k}"
proof -
  obtain ys z where xs: "xs = ys @ [z]" using assms(2) by (cases xs rule: rev_exhaust) auto
  have d: "distinct (map fst ys)" "fst z \<notin> set (map fst ys)" "z \<notin> set ys" "distinct ys"
    using assms(1) by (auto simp: xs dest: distinct_map [THEN iffD1])
  have "distinct (map fst (swap_remove k xs)) \<and> set (swap_remove k xs) = set xs - {xs ! k}"
  proof (cases "k = length ys")
    case True
    with d show ?thesis by (auto simp: swap_remove_def xs)
  next
    case False
    with assms(2) have k: "k < length ys" by (simp add: xs)
    then have e: "swap_remove k xs = ys[k := z]" by (simp add: swap_remove_def xs list_update_append)
    have "distinct (map fst (ys[k := z]))"
      unfolding map_update by (rule distinct_list_update [OF d(1)]) (use d(2) in auto)
    moreover have "set (ys[k := z]) = insert z (set ys - {ys ! k})" by (rule set_update_distinct [OF d(4) k])
    moreover have "ys ! k \<noteq> z" using d(3) k by (metis nth_mem)
    then have "set (ys @ [z]) - {ys ! k} = insert z (set ys - {ys ! k})" by auto
    moreover have "xs ! k = ys ! k" using k by (simp add: xs nth_append)
    ultimately show ?thesis unfolding e by (simp only: xs)
  qed
  then show "distinct (map fst (swap_remove k xs))" "set (swap_remove k xs) = set xs - {xs ! k}" by blast+
qed

section \<open>The generator keeps its list of live orders true\<close>

definition holds :: "(64 word \<times> 32 word) list \<Rightarrow> (64 word \<rightharpoonup> Qty) \<Rightarrow> bool" where
  "holds xs live \<longleftrightarrow> distinct (map fst xs) \<and> (\<forall>r q. live r = Some q \<longleftrightarrow> (\<exists>n. (r, n) \<in> set xs \<and> q = ucast n)) \<and>
     (\<forall>(r, n)\<in>set xs. n \<noteq> 0)"

lemma holds_mem: "holds xs live \<Longrightarrow> (r, n) \<in> set xs \<Longrightarrow> live r = Some (ucast n) \<and> n \<noteq> 0"
  unfolding holds_def by blast

lemma holds_one: "holds xs live \<Longrightarrow> (r, n) \<in> set xs \<Longrightarrow> (r, n') \<in> set xs \<Longrightarrow> n' = n"
  unfolding holds_def by (metis eq_key_imp_eq_value)

lemma holds_add:
  assumes h: "holds xs live" and r: "live r = None" and n: "n \<noteq> 0"
  shows "holds (xs @ [(r, n)]) (live(r \<mapsto> ucast n))"
proof -
  have "(r, n') \<notin> set xs" for n' using holds_mem [OF h] r by fastforce
  then have "r \<notin> set (map fst xs)" by auto
  with h n \<open>\<And>n'. (r, n') \<notin> set xs\<close> show ?thesis by (auto simp: holds_def)
qed

lemma holds_remove:
  assumes h: "holds xs live" and k: "k < length xs" "xs ! k = (r, n)"
  shows "holds (swap_remove k xs) (live(r := None))"
proof -
  have d: "distinct (map fst xs)" using h by (simp add: holds_def)
  have m: "(r, n) \<in> set xs" using k by (metis nth_mem)
  have "set (swap_remove k xs) = set xs - {(r, n)}" using swap_remove_refs(2) [OF d k(1)] k(2) by simp
  moreover have "(r, n') \<in> set xs \<Longrightarrow> n' = n" for n' by (rule holds_one [OF h m])
  ultimately show ?thesis using h swap_remove_refs(1) [OF d k(1)] by (auto simp: holds_def)
qed

lemma holds_set:
  assumes h: "holds xs live" and k: "k < length xs" "xs ! k = (r, n)" and r': "r' = r \<or> live r' = None" and n': "n' \<noteq> 0"
  shows "holds (xs[k := (r', n')]) (live(r := None, r' \<mapsto> ucast n'))"
proof -
  have d: "distinct (map fst xs)" "distinct xs" using h by (auto simp: holds_def dest: distinct_map [THEN iffD1])
  have m: "(r, n) \<in> set xs" using k by (metis nth_mem)
  have s: "set (xs[k := (r', n')]) = insert (r', n') (set xs - {(r, n)})" using set_update_distinct [OF d(2) k(1)] k(2) by simp
  have o: "(r, x) \<in> set xs \<Longrightarrow> x = n" for x by (rule holds_one [OF h m])
  have f: "r' \<noteq> r \<Longrightarrow> (r', x) \<notin> set xs" for x using holds_mem [OF h] r' by fastforce
  have "r' \<in> set (map fst xs) - {map fst xs ! k} \<Longrightarrow> False" using f o k by auto
  then have "distinct (map fst (xs[k := (r', n')]))"
    unfolding map_update by (intro distinct_list_update [OF d(1)]) auto
  with h n' show ?thesis unfolding holds_def s using o f by auto
qed

section \<open>One message\<close>

definition generator_ok :: "'f generator \<Rightarrow> (64 word \<rightharpoonup> Qty) \<Rightarrow> bool" where
  "generator_ok g live \<longleftrightarrow> holds (ge_live g) live \<and> length (ge_live g) \<le> unat (ge_next_ref g) \<and>
     (\<forall>r. live r \<noteq> None \<longrightarrow> unat r < unat (ge_next_ref g))"

lemma pick_below_fields [simp]:
  "ge_next_ref (snd (pick_below n g)) = ge_next_ref g" "ge_ts (snd (pick_below n g)) = ge_ts g"
  "ge_mid (snd (pick_below n g)) = ge_mid g" "ge_live (snd (pick_below n g)) = ge_live g"
  by (simp_all add: pick_below_def case_prod_beta Let_def)

lemma pick_below_less: "0 < n \<Longrightarrow> fst (pick_below n g) < n"
  using draw_less [of n "ge_rng g"] by (simp add: pick_below_def case_prod_beta Let_def)

lemma unat_below: "unat (x :: 64 word) < 2 ^ 64" "unat (y :: 32 word) < 2 ^ 32"
proof -
  have "(unsigned x :: nat) < 2 ^ LENGTH(64)" "(unsigned y :: nat) < 2 ^ LENGTH(32)" by (rule unsigned_less)+
  then show "unat (x :: 64 word) < 2 ^ 64" "unat (y :: 32 word) < 2 ^ 32" by simp_all
qed

lemma pick_live:
  assumes "generator_ok g live" "ge_live g \<noteq> []"
  shows "unat (fst (pick_below (of_nat (length (ge_live g))) h)) < length (ge_live g)"
proof -
  have "length (ge_live g) < 2 ^ 64" using assms(1) unat_below(1) [of "ge_next_ref g"] by (simp add: generator_ok_def)
  then have u: "unat (of_nat (length (ge_live g)) :: 64 word) = length (ge_live g)" by (simp add: unat_of_nat)
  then have "(0 :: 64 word) < of_nat (length (ge_live g))" using assms(2) by (simp add: word_less_nat_alt)
  from pick_below_less [OF this, of h] u show ?thesis by (simp add: word_less_nat_alt)
qed

lemma lot_some: "x < 10 \<Longrightarrow> lot x \<noteq> 0"
proof -
  assume "x < 10"
  then have u: "unat x < 10" by (simp add: word_less_nat_alt)
  then have "unat ((1 + x) * 100) = (1 + unat x) * 100" by (simp add: unat_word_ariths)
  then have "unat (lot x) = (1 + unat x) * 100" using u by (simp add: lot_def unsigned_ucast_eq take_bit_eq_mod)
  then show ?thesis by auto
qed

text \<open>What a generated message is: accepted, within the life of the orders, and with a new reference or none.\<close>

definition sound_step :: "'f generator \<Rightarrow> (64 word \<rightharpoonup> Qty) \<Rightarrow> byte list \<Rightarrow> 'f generator \<Rightarrow> Message \<Rightarrow> Message \<Rightarrow> bool" where
  "sound_step g live b g' scratch m \<longleftrightarrow>
     parse b scratch = Some (True, m) \<and> length b < 100 \<and>
     m_type m \<noteq> Action \<and> (m_type m = Add \<longrightarrow> m_stock m = stock @ [0]) \<and>
     (\<exists>live'. life m live = Some live' \<and> generator_ok g' live') \<and>
     (new_refs [m] = [] \<and> ge_next_ref g' = ge_next_ref g \<or> new_refs [m] = [ge_next_ref g] \<and> ge_next_ref g' = ge_next_ref g + 1)"

lemma stock_length [simp]: "length stock = 8"
  by (simp add: stock_def)

lemma next_unat: "unat (r :: 64 word) + 1 < 2 ^ 64 \<Longrightarrow> unat (r + 1) = unat r + 1"
  by (simp add: unat_word_ariths)

lemma widen_unat: "unat (ucast (n :: 32 word) :: 64 word) = unat n"
proof -
  have "unat n < 2 ^ 64" using unat_below(2) [of n] by simp
  then show ?thesis by (simp add: unsigned_ucast_eq take_bit_nat_eq_self)
qed

lemma widen_nonzero: "(ucast (n :: 32 word) :: 64 word) = 0 \<longleftrightarrow> n = 0"
  by (metis widen_unat unat_eq_zero)

text \<open>A new reference: the bounds of the invariant move up by one.\<close>

lemma generator_grow:
  assumes "generator_ok g live" "unat (ge_next_ref g) + 1 < 2 ^ 64" "holds xs live'" "length xs \<le> length (ge_live g) + 1"
    and "\<And>r. live' r \<noteq> None \<Longrightarrow> live r \<noteq> None \<or> r = ge_next_ref g"
    and "ge_live g' = xs" "ge_next_ref g' = ge_next_ref g + 1"
  shows "generator_ok g' live'"
proof -
  have u: "unat (ge_next_ref g') = unat (ge_next_ref g) + 1" using next_unat [OF assms(2)] assms(7) by simp
  have "unat r < unat (ge_next_ref g')" if "live' r \<noteq> None" for r
    using assms(5) [OF that] assms(1) unfolding u generator_ok_def by (metis less_add_one trans_less_add1)
  with assms(1,3,4,6) u show ?thesis unfolding generator_ok_def by simp
qed

lemma add_sound:
  assumes g: "generator_ok g live" "unat (ge_next_ref g) + 1 < 2 ^ 64"
  shows "\<exists>m. sound_step g live (fst (gen_add W g)) (snd (gen_add W g)) scratch m"
proof -
  let ?r = "ge_next_ref g"
  define g1 where "g1 = g\<lparr>ge_next_ref := ?r + 1\<rparr>"
  define sd where "sd = pick_below 2 g1"
  define off where "off = pick_below 30 (snd sd)"
  define x where "x = pick_below 10 (snd off)"
  let ?px = "pw_price W (ge_mid (snd off)) (\<not> fst sd = 0) (fst off)" and ?n = "lot (fst x)"
  let ?side = "if fst sd = 0 then ch CHR ''B'' else ch CHR ''S''"
  let ?b = "encode_add [] (ge_ts g) ?r ?side ?n stock ?px"
  have b: "fst (gen_add W g) = ?b" "snd (gen_add W g) = (snd x)\<lparr>ge_live := ge_live g @ [(?r, ?n)]\<rparr>"
    by (simp_all add: gen_add_def Let_def case_prod_beta encode_add_def enc_head_def g1_def [symmetric] sd_def [symmetric]
        off_def [symmetric] x_def [symmetric]) (simp_all add: g1_def sd_def off_def x_def)
  have n: "?n \<noteq> 0" using pick_below_less [of 10 "snd off"] by (intro lot_some) (simp add: x_def)
  have fr: "live ?r = None" using g(1) by (auto simp: generator_ok_def)
  have nx: "ge_next_ref (snd x) = ?r + 1" by (simp add: x_def off_def sd_def g1_def)
  have "holds (ge_live g @ [(?r, ?n)]) (live(?r \<mapsto> ucast ?n))"
    using g(1) fr n by (intro holds_add) (simp_all add: generator_ok_def)
  then have ok: "generator_ok (snd (gen_add W g)) (live(?r \<mapsto> ucast ?n))"
    by (rule generator_grow [OF g]) (simp_all add: b nx split: if_splits)
  have "(ucast ?n :: Qty) \<noteq> 0" using n by (simp add: widen_nonzero)
  with ok fr show ?thesis
    unfolding sound_step_def b(1) parse_encoded(1) [OF stock_length]
    by (auto simp: new_refs_def b(2) nx message_fields)
qed

lemma live_at:
  assumes "generator_ok g live" "k < length (ge_live g)"
  obtains r n where "ge_live g ! k = (r, n)" "live r = Some (ucast n)" "n \<noteq> 0"
proof -
  obtain r n where rn: "ge_live g ! k = (r, n)" by fastforce
  then have "(r, n) \<in> set (ge_live g)" using assms(2) by (metis nth_mem)
  with holds_mem [of "ge_live g" live] assms(1) rn that show ?thesis by (auto simp: generator_ok_def)
qed

lemma generator_shrink:
  assumes "generator_ok g live" "holds xs live'" "length xs \<le> length (ge_live g)" "dom live' \<subseteq> dom live"
    and "ge_live g' = xs" "ge_next_ref g' = ge_next_ref g"
  shows "generator_ok g' live'"
  using assms unfolding generator_ok_def by (auto simp: dom_def subset_iff)

lemma delete_sound:
  assumes g: "generator_ok g live" "ge_live g \<noteq> []"
  shows "\<exists>b g' m. gen_delete g = Some (b, g') \<and> sound_step g live b g' scratch m"
proof -
  define k where "k = pick_below (of_nat (length (ge_live g))) g"
  have k: "unat (fst k) < length (ge_live g)" using pick_live [OF g, of g] by (simp add: k_def)
  have kl: "ge_live (snd k) = ge_live g" "ge_next_ref (snd k) = ge_next_ref g" "ge_ts (snd k) = ge_ts g" by (simp_all add: k_def)
  obtain r n where rn: "ge_live g ! unat (fst k) = (r, n)" "live r = Some (ucast n)" "n \<noteq> 0" by (rule live_at [OF g(1) k])
  let ?b = "encode_delete [] (ge_ts g) r" and ?g = "(snd k)\<lparr>ge_live := swap_remove (unat (fst k)) (ge_live g)\<rparr>"
  have del: "gen_delete g = Some (?b, ?g)"
    unfolding gen_delete_def k_def [symmetric]
    using k rn(1) by (simp add: case_prod_beta Let_def kl vec_at_in encode_delete_def enc_head_def)
  have "length (swap_remove (unat (fst k)) (ge_live g)) \<le> length (ge_live g)" by (simp add: swap_remove_def)
  then have "generator_ok ?g (live(r := None))"
    using holds_remove [OF _ k rn(1), of live] g(1) by (intro generator_shrink [OF g(1)]) (auto simp: generator_ok_def kl)
  then have "sound_step g live ?b ?g scratch (scratch\<lparr>m_type := Delete, m_ref := r\<rparr>)"
    unfolding sound_step_def parse_encoded(5) [OF stock_length]
    using rn(2) by (auto simp: new_refs_def kl message_fields)
  with del show ?thesis by blast
qed

lemma reduce_sound:
  assumes g: "generator_ok g live" "ge_live g \<noteq> []"
    and t: "(t, tail) = (CHR ''E'', enc64 [] i) \<and> ty = Execute \<or> (t, tail) = (CHR ''X'', []) \<and> ty = Cancel"
  shows "\<exists>b g' m. gen_reduce t tail g = Some (b, g') \<and> sound_step g live b g' scratch m"
proof -
  define k where "k = pick_below (of_nat (length (ge_live g))) g"
  have k: "unat (fst k) < length (ge_live g)" using pick_live [OF g, of g] by (simp add: k_def)
  have kl: "ge_live (snd k) = ge_live g" "ge_next_ref (snd k) = ge_next_ref g" "ge_ts (snd k) = ge_ts g" by (simp_all add: k_def)
  obtain r n where rn: "ge_live g ! unat (fst k) = (r, n)" "live r = Some (ucast n)" "n \<noteq> 0" by (rule live_at [OF g(1) k])
  define ex where "ex = (if 100 \<ge> n then n else 100 :: 32 word)"
  have ex: "ex \<noteq> 0" "ex \<le> n" using rn(3) by (auto simp: ex_def)
  let ?b = "enc32 (enc64 (enc_head [] t (ge_ts g)) r) ex @ tail"
  define xs where "xs = (ge_live g)[unat (fst k) := (r, n - ex)]"
  let ?g = "(snd k)\<lparr>ge_live := (if n - ex = 0 then swap_remove (unat (fst k)) xs else xs)\<rparr>"
  have red: "gen_reduce t tail g = Some (?b, ?g)"
    unfolding gen_reduce_def k_def [symmetric]
    using k rn(1) by (simp add: case_prod_beta Let_def kl vec_at_in enc_head_def xs_def ex_def)
  have w: "(ucast ex :: Qty) \<noteq> 0" "\<not> (ucast n :: Qty) < ucast ex" "(ucast n :: Qty) - ucast ex = ucast (n - ex)"
    "(ucast ex :: Qty) = ucast n \<longleftrightarrow> n - ex = 0"
  proof -
    show "(ucast ex :: Qty) \<noteq> 0" using ex(1) by (simp add: widen_nonzero)
    show le: "\<not> (ucast n :: Qty) < ucast ex" using ex(2) by (simp add: word_less_nat_alt word_le_nat_alt widen_unat not_less)
    show "(ucast n :: Qty) - ucast ex = ucast (n - ex)"
      using ex(2) le by (simp add: word_unat_eq_iff widen_unat unat_sub word_le_nat_alt not_less)
    have "(ucast ex :: Qty) = ucast n \<longleftrightarrow> ex = n" by (metis widen_unat word_unat_eq_iff)
    then show "(ucast ex :: Qty) = ucast n \<longleftrightarrow> n - ex = 0" by auto
  qed
  let ?live = "live(r := (if n - ex = 0 then None else Some (ucast (n - ex))))"
  have h: "holds (ge_live ?g) ?live"
  proof (cases "n - ex = 0")
    case True
    then have "swap_remove (unat (fst k)) xs = swap_remove (unat (fst k)) (ge_live g)"
      using k g(2) by (cases "unat (fst k) = length (ge_live g) - 1")
        (auto simp: swap_remove_def xs_def butlast_list_update last_list_update)
    with True holds_remove [OF _ k rn(1), of live] g(1) show ?thesis by (simp add: generator_ok_def)
  next
    case False
    have "live(r := None, r \<mapsto> ucast (n - ex)) = ?live" using False by simp
    with False holds_set [OF _ k rn(1), of live r "n - ex"] g(1) show ?thesis by (simp add: generator_ok_def xs_def)
  qed
  have "length (ge_live ?g) \<le> length (ge_live g)" by (simp add: swap_remove_def xs_def)
  then have ok: "generator_ok ?g ?live" using h rn(2) by (intro generator_shrink [OF g(1)]) (auto simp: kl)
  have p: "parse ?b scratch = Some (True, scratch\<lparr>m_type := ty, m_ref := r, m_qty := ucast ex\<rparr>) \<and> length ?b < 100"
  proof -
    have e: "encode_execute [] (ge_ts g) r ex i = enc32 (enc64 (enc_head [] CHR ''E'' (ge_ts g)) r) ex @ enc64 [] i"
      "encode_cancel [] (ge_ts g) r ex = enc32 (enc64 (enc_head [] CHR ''X'' (ge_ts g)) r) ex @ []"
      by (simp_all add: encode_execute_def encode_cancel_def enc64_def)
    have l: "length tail \<le> 8" using t by auto
    have "parse ?b scratch = Some (True, scratch\<lparr>m_type := ty, m_ref := r, m_qty := ucast ex\<rparr>)"
      using t parse_encoded(2) [OF stock_length, of "ge_ts g" r ex i scratch, unfolded e]
        parse_encoded(4) [OF stock_length, of "ge_ts g" r ex scratch, unfolded e]
      by (elim disjE conjE) simp_all
    with l show ?thesis by simp
  qed
  have "life (scratch\<lparr>m_type := ty, m_ref := r, m_qty := ucast ex\<rparr>) live = Some ?live"
    using t rn(2) w by (auto simp: life.simps)
  with p ok t have "sound_step g live ?b ?g scratch (scratch\<lparr>m_type := ty, m_ref := r, m_qty := ucast ex\<rparr>)"
    unfolding sound_step_def by (auto simp: new_refs_def kl)
  with red show ?thesis by blast
qed

lemma parse_replace_bytes:
  "parse (enc32 (enc32 (enc64 (enc64 (enc_head [] CHR ''U'' ts) ref) new_ref) shares) price) out =
    Some (True, out\<lparr>m_type := Replace, m_ref := ref, m_new_ref := new_ref, m_qty := ucast shares, m_price := uint price\<rparr>)"
proof -
  have "enc32 (enc32 (enc64 (enc64 (enc_head [] CHR ''U'' ts) ref) new_ref) shares) price =
      enc_head [] CHR ''U'' ts @ enc64 [] ref @ enc64 [] new_ref @ enc32 [] shares @ enc32 [] price"
    by (simp add: enc32_def enc64_def)
  then show ?thesis by (simp add: parse_def parse_case_defs head_type wire_reads)
qed

lemma replace_sound:
  assumes g: "generator_ok g live" "unat (ge_next_ref g) + 1 < 2 ^ 64" "ge_live g \<noteq> []"
  shows "\<exists>b g' m. gen_replace W g = Some (b, g') \<and> sound_step g live b g' scratch m"
proof -
  let ?new = "ge_next_ref g"
  define k where "k = pick_below (of_nat (length (ge_live g))) g"
  define off where "off = pick_below 30 ((snd k)\<lparr>ge_next_ref := ?new + 1\<rparr>)"
  define sd where "sd = pick_below 2 (snd off)"
  define x where "x = pick_below 10 (snd sd)"
  let ?px = "pw_price W (ge_mid (snd sd)) (fst sd \<noteq> 0) (fst off)" and ?n = "lot (fst x)"
  have k: "unat (fst k) < length (ge_live g)" using pick_live [OF g(1,3), of g] by (simp add: k_def)
  have xl: "ge_live (snd x) = ge_live g" "ge_next_ref (snd x) = ?new + 1" "ge_ts (snd x) = ge_ts g" "ge_next_ref (snd k) = ?new"
    "ge_live (snd k) = ge_live g" "ge_ts (snd k) = ge_ts g" "ge_mid (snd k) = ge_mid g" "ge_mid (snd sd) = ge_mid g"
    by (simp_all add: x_def sd_def off_def k_def)
  obtain r n where rn: "ge_live g ! unat (fst k) = (r, n)" "live r = Some (ucast n)" "n \<noteq> 0" by (rule live_at [OF g(1) k])
  let ?b = "enc32 (enc32 (enc64 (enc64 (enc_head [] CHR ''U'' (ge_ts g)) r) ?new) ?n) ?px"
  let ?g = "(snd x)\<lparr>ge_live := (ge_live g)[unat (fst k) := (?new, ?n)]\<rparr>"
  have rep: "gen_replace W g = Some (?b, ?g)"
    unfolding gen_replace_def k_def [symmetric]
    using k rn(1) by (simp add: case_prod_beta Let_def xl off_def [symmetric] sd_def [symmetric] x_def [symmetric] vec_at_in enc_head_def)
  have n: "?n \<noteq> 0" using pick_below_less [of 10 "snd sd"] by (intro lot_some) (simp add: x_def)
  have fr: "live ?new = None" using g(1) by (auto simp: generator_ok_def)
  let ?live = "live(r := None, ?new \<mapsto> ucast ?n)"
  have "generator_ok ?g ?live"
    using holds_set [OF _ k rn(1) _ n, of live ?new] g(1) fr
    by (intro generator_grow [OF g(1,2)]) (auto simp: xl generator_ok_def split: if_splits)
  moreover have "life (scratch\<lparr>m_type := Replace, m_ref := r, m_new_ref := ?new, m_qty := ucast ?n, m_price := uint ?px\<rparr>) live = Some ?live"
    using rn(2) fr n by (simp add: widen_nonzero)
  ultimately have "sound_step g live ?b ?g scratch
      (scratch\<lparr>m_type := Replace, m_ref := r, m_new_ref := ?new, m_qty := ucast ?n, m_price := uint ?px\<rparr>)"
    unfolding sound_step_def parse_replace_bytes by (simp add: new_refs_def xl)
  with rep show ?thesis by blast
qed

lemma sound_step_cong:
  "ge_next_ref h = ge_next_ref g \<Longrightarrow> sound_step h live b g' scratch m = sound_step g live b g' scratch m"
  by (simp add: sound_step_def)

lemma message_sound:
  assumes g: "generator_ok g live" "unat (ge_next_ref g) + 1 < 2 ^ 64"
  shows "\<exists>b g' m. gen_message W i g = Some (b, g') \<and> sound_step g live b g' scratch m"
proof -
  define a where "a = pick_below 5000 g"
  define c where "c = pick_below 200 ((snd a)\<lparr>ge_ts := ge_ts (snd a) + 1000 + fst a\<rparr>)"
  define h where "h = pick_below 100 ((snd c)\<lparr>ge_mid := pw_drift W (ge_mid (snd c)) (fst c)\<rparr>)"
  have f: "ge_next_ref (snd h) = ge_next_ref g" "ge_live (snd h) = ge_live g" by (simp_all add: h_def c_def a_def)
  have ok: "generator_ok (snd h) live" "unat (ge_next_ref (snd h)) + 1 < 2 ^ 64" using g by (simp_all add: generator_ok_def f)
  have m: "gen_message W i g =
      (if fst h < 55 \<or> ge_live (snd h) = [] then Some (gen_add W (snd h))
       else if fst h < 75 then gen_delete (snd h)
       else if fst h < 88 then gen_reduce CHR ''E'' (enc64 [] i) (snd h)
       else if fst h < 95 then gen_reduce CHR ''X'' [] (snd h)
       else gen_replace W (snd h))"
    by (simp only: gen_message_def case_prod_beta Let_def a_def c_def h_def)
  have "\<exists>b g' m. gen_message W i g = Some (b, g') \<and> sound_step (snd h) live b g' scratch m"
  proof (cases "fst h < 55 \<or> ge_live (snd h) = []")
    case True
    with add_sound [OF ok, of W scratch] m show ?thesis by (metis prod.collapse)
  next
    case False
    then have ne: "ge_live (snd h) \<noteq> []" by blast
    show ?thesis
      using False m delete_sound [OF ok(1) ne, of scratch] replace_sound [OF ok ne, of W scratch]
        reduce_sound [OF ok(1) ne, of "CHR ''E''" "enc64 [] i" i Execute scratch]
        reduce_sound [OF ok(1) ne, of "CHR ''X''" "[]" i Cancel scratch]
      by (auto split: if_splits)
  qed
  then show ?thesis using sound_step_cong [OF f(1)] by simp
qed

section \<open>The whole file\<close>

lemma messages_sound:
  assumes "generator_ok g live" "unat (ge_next_ref g) + n < 2 ^ 64"
  shows "\<exists>bs g' ms live'. gen_messages W n i g = Some (bs, g') \<and> map (\<lambda>b. parse b scratch) bs = map (\<lambda>m. Some (True, m)) ms \<and>
    length bs = n \<and> (\<forall>b\<in>set bs. length b < 100) \<and> (\<forall>m\<in>set ms. m_type m \<noteq> Action \<and> (m_type m = Add \<longrightarrow> m_stock m = stock @ [0])) \<and>
    lives ms live = Some live' \<and> distinct (new_refs ms) \<and> (\<forall>r\<in>set (new_refs ms). unat (ge_next_ref g) \<le> unat r)"
  using assms
proof (induction n arbitrary: i g live)
  case 0
  then show ?case by (simp add: new_refs_def)
next
  case (Suc n)
  have b: "unat (ge_next_ref g) + 1 < 2 ^ 64" using Suc.prems(2) by simp
  obtain b g1 m where s: "gen_message W i g = Some (b, g1)" "sound_step g live b g1 scratch m"
    using message_sound [OF Suc.prems(1) b, of W i scratch] by blast
  then obtain live1 where l: "life m live = Some live1" "generator_ok g1 live1" by (auto simp: sound_step_def simp del: life.simps)
  have nx: "new_refs [m] = [] \<and> unat (ge_next_ref g1) = unat (ge_next_ref g) \<or>
      new_refs [m] = [ge_next_ref g] \<and> unat (ge_next_ref g1) = unat (ge_next_ref g) + 1"
    using s(2) next_unat [OF b] by (auto simp: sound_step_def)
  then have "unat (ge_next_ref g1) + n < 2 ^ 64" using Suc.prems(2) by auto
  from Suc.IH [OF l(2) this, of "i + 1"] obtain bs g' ms live' where
    r: "gen_messages W n (i + 1) g1 = Some (bs, g')" "map (\<lambda>b. parse b scratch) bs = map (\<lambda>m. Some (True, m)) ms"
      "length bs = n" "\<forall>b\<in>set bs. length b < 100" "\<forall>m\<in>set ms. m_type m \<noteq> Action \<and> (m_type m = Add \<longrightarrow> m_stock m = stock @ [0])"
      "lives ms live1 = Some live'" "distinct (new_refs ms)" "\<forall>r\<in>set (new_refs ms). unat (ge_next_ref g1) \<le> unat r"
    by blast
  have "distinct (new_refs (m # ms))" "\<forall>r\<in>set (new_refs (m # ms)). unat (ge_next_ref g) \<le> unat r"
    using nx r(7,8) unfolding new_refs_Cons [of m ms] by fastforce+
  moreover have "lives (m # ms) live = Some live'" using l(1) r(6) by (simp del: life.simps)
  moreover have "gen_messages W (Suc n) i g = Some (b # bs, g')" using s(1) r(1) by simp
  ultimately show ?case using s(2) r(2-5)
    by (intro exI [of _ "b # bs"] exI [of _ g'] exI [of _ "m # ms"] exI [of _ live']) (auto simp: sound_step_def)
qed

lemma feed_all:
  assumes "map (\<lambda>b. parse b scratch) bs = map (\<lambda>m. Some (True, m)) ms"
    and "\<forall>m\<in>set ms. m_type m \<noteq> Action \<and> (m_type m = Add \<longrightarrow> take 8 (m_stock m) \<in> symbols)"
  shows "feed_bodies scratch symbols bs f =
    Some (f\<lparr>fd_parsed := fd_parsed f + of_nat (length bs), fd_matched := fd_matched f + of_nat (length bs), fd_pushed := fd_pushed f @ ms\<rparr>)"
  using assms
proof (induction bs arbitrary: ms f)
  case (Cons b bs)
  then obtain m ms' where ms: "ms = m # ms'" "parse b scratch = Some (True, m)" by (cases ms) auto
  with Cons.prems have "\<not> ((m_type m = Add \<or> m_type m = Action) \<and> take 8 (m_stock m) \<notin> symbols)" by auto
  with ms Cons.prems Cons.IH [of ms'] show ?case by (auto simp: Let_def add.assoc)
qed simp

lemma default_symbol: "stock \<in> replay_symbols []"
  by (simp add: replay_symbols_def stock_def) code_simp

text \<open>C25. The generator writes a valid feed, whatever its price walk: it always returns, and when the
  file is replayed with the default symbol every one of its messages is parsed and applied;
  every order gets a reference of its own, and every later message names an order that is live
  at that point and takes no more than its remaining shares.  So the replayed venue holds
  exactly the book of that one symbol.\<close>

theorem generated_feed_valid:
  assumes "n < 2 ^ 63" "0 < chunk"
  shows "\<exists>out f b v live. itchgen W n = Some out \<and> replay_main chunk scratch [] out = Some (f, b, v) \<and>
    fd_parsed f = of_nat n \<and> fd_matched f = of_nat n \<and> length (fd_pushed f) = n \<and>
    lives (fd_pushed f) Map.empty = Some live \<and> distinct (new_refs (fd_pushed f)) \<and>
    book_alone chunk (pad stock) (fd_pushed f) None = Some (book_in (pad stock) b v)"
proof -
  have ok: "generator_ok (generator_new W) Map.empty"
    by (simp add: generator_ok_def generator_new_def holds_def)
  have "unat (ge_next_ref (generator_new W)) + n < 2 ^ 64" using assms(1) by (simp add: generator_new_def)
  from messages_sound [OF ok this, of W 0 scratch] obtain bs g' ms live where
    r: "gen_messages W n 0 (generator_new W) = Some (bs, g')" "map (\<lambda>b. parse b scratch) bs = map (\<lambda>m. Some (True, m)) ms"
      "length bs = n" "\<forall>b\<in>set bs. length b < 100" "\<forall>m\<in>set ms. m_type m \<noteq> Action \<and> (m_type m = Add \<longrightarrow> m_stock m = stock @ [0])"
      "lives ms Map.empty = Some live" "distinct (new_refs ms)" by blast
  have written: "itchgen W n = Some (file_of bs)" using r(1) by (simp add: itchgen_def)
  have "\<forall>b\<in>set bs. length b < 65536" using r(4) by fastforce
  then have rd: "read_framed (file_of bs) = Some bs" by (rule read_file_of)
  have "\<forall>m\<in>set ms. m_type m \<noteq> Action \<and> (m_type m = Add \<longrightarrow> take 8 (m_stock m) \<in> replay_symbols [])"
    using r(5) default_symbol by simp
  from feed_all [OF r(2) this] rd
  have ft: "feed_thread scratch (replay_symbols []) (file_of bs) = Some \<lparr>fd_parsed = of_nat n, fd_matched = of_nat n, fd_pushed = ms\<rparr>"
    using r(3) by (simp add: feed_thread_def)
  obtain b v where p: "replay_main chunk scratch [] (file_of bs) = Some (\<lparr>fd_parsed = of_nat n, fd_matched = of_nat n, fd_pushed = ms\<rparr>, b, v)"
    "\<forall>key. book_alone chunk key ms None = Some (book_in key b v)"
    using replayed [OF assms(2), of "[]" scratch "file_of bs"] ft r(7) by (auto simp: replay_main_def bind_eq_Some_conv)
  have "length ms = n" using r(2,3) by (metis length_map)
  with written p r(6,7) show ?thesis by auto
qed

definition flat_walk :: "unit price_walk" where
  "flat_walk = \<lparr>pw_start = (), pw_drift = (\<lambda>_ _. ()), pw_price = (\<lambda>_ above off. if above then 1000001 + ucast off else 999999 - ucast off)\<rparr>"

theorem generated_feed_valid_witness:
  "\<exists>out f b v. itchgen flat_walk 40 = Some out \<and> replay_main 2 blank [] out = Some (f, b, v) \<and> fd_matched f = 40 \<and>
     distinct (new_refs (fd_pushed f))"
  using generated_feed_valid [of 40 2 flat_walk blank] by auto

end
