(* ===== verification/Spec2Isabelle.thy ===== *)
theory Spec2Isabelle
  imports Engine_Properties Order_Pool Level_Bitmap Itch Mold Gateway Risk_Gate Spsc_Ring Feed_Properties Deferred Execution Py_Engine Avellaneda Itchgen
begin

text \<open>
  A model of the matchbook exchange: a single-symbol matching engine, the protocols and
  wrappers around it, and the infrastructure under it.  All paths below are relative to
  \<^verbatim>\<open>src/include/matchbook/\<close>.

  \<^bold>\<open>The program.\<close>  \<^verbatim>\<open>matching_engine.hpp\<close> is the core: a price band of levels, each a doubly
  linked chain of order nodes with cached aggregates, an occupancy bitmap and a cached best
  index per side, a node pool, an id map, two lazily created stop books, and the operations
  submit (limit, market, iceberg, stop, stop-limit), cancel, reduce, modify, halt, resume and
  uncross, followed by the stop pump.  Everything that happens is told to a handler as
  events.  Three components wrap an engine and are its handler: the ITCH publisher
  (\<^verbatim>\<open>itch_publisher.hpp\<close>), the OUCH gateway (\<^verbatim>\<open>ouch.hpp\<close>) and the risk gate
  (\<^verbatim>\<open>risk_gate.hpp\<close>).  Downstream of the publisher stand the encoder, the MoldUDP64 framing with
  its sequence tracker, the parser, and the book builders, single-symbol and per venue.  The
  ring of \<^verbatim>\<open>spsc_ring.hpp\<close> hands messages from one thread to another.  Two tools compose them:
  \<^verbatim>\<open>tools/mcast_main.cpp\<close> sends a recorded stream as packets and rebuilds the book from what
  arrives, \<^verbatim>\<open>tools/replay_main.cpp\<close> feeds a recorded stream to the builder of a venue, and
  \<^verbatim>\<open>tools/itchgen_main.cpp\<close> makes up such a stream.  Beside them stand two quoting strategies and
  the engine class of the Python bindings.

  \<^bold>\<open>Foundations.\<close>
  \<^item> \<^verbatim>\<open>Matchbook_Prelude\<close>: \<^verbatim>\<open>types.hpp\<close> (ids, prices, sides, policies, trades), the events of the
    handler interface, checked vector access, and generic lemmas.
  \<^item> \<^verbatim>\<open>Level_Bitmap\<close>: \<^verbatim>\<open>level_bitmap.hpp\<close>; the locale \<^verbatim>\<open>level_index\<close> is the contract (find the
    nearest set bit at or below, at or above), interpreted on the word-level code.
  \<^item> \<^verbatim>\<open>Order_Pool\<close>: \<^verbatim>\<open>pool.hpp\<close>; the locale \<^verbatim>\<open>node_pool\<close> is the contract (an allocation never
    returns a live slot), interpreted on the free-list code.
  \<^item> \<^verbatim>\<open>Refinement\<close>: the locale \<^verbatim>\<open>refinement\<close>, forward simulation between a machine that can fail
    and an abstract one; \<^verbatim>\<open>Handler\<close>: the locale \<^verbatim>\<open>handler\<close>, the contract of a component that wraps
    an engine and listens to it.

  \<^bold>\<open>The engine.\<close>
  \<^item> \<^verbatim>\<open>Order_Store\<close>: order nodes, side table, id map, allocation and release; a chain is read
    through \<^verbatim>\<open>lookup\<close>, and a dead node is \<^verbatim>\<open>None\<close>.
  \<^item> \<^verbatim>\<open>Engine\<close>: the state record and every private and public operation, in the order of the
    source.  An operation returns \<^verbatim>\<open>None\<close> when it would read out of range, follow a dead node or
    loop for ever.  \<^verbatim>\<open>Engine_History\<close>: the public calls as data, and sessions of them.
  \<^item> \<^verbatim>\<open>Engine_Spec\<close>: the abstract engine.  Its state is, per side and level, the list of the
    orders in queue order; no pool, ids map, aggregates, bitmap, cached best or chains.
  \<^item> \<^verbatim>\<open>Book_Relation\<close>, \<^verbatim>\<open>Engine_Relation\<close>: what the detailed state stands for, and the lemmas for
    updates of one level; \<^verbatim>\<open>Matching_Refinement\<close>, \<^verbatim>\<open>Pass_Refinement\<close>, \<^verbatim>\<open>Stop_Refinement\<close>,
    \<^verbatim>\<open>Uncross_Refinement\<close>, \<^verbatim>\<open>Engine_Refinement\<close>: operation by operation, the detailed engine returns
    and simulates the abstract one.
  \<^item> \<^verbatim>\<open>Market_Data\<close>: the book walks, depth, counts, top levels and quotes against the abstract book;
    \<^verbatim>\<open>Match_Facts\<close>, \<^verbatim>\<open>Uncrossed\<close>, \<^verbatim>\<open>Amend\<close>, \<^verbatim>\<open>Engine_Events\<close>, \<^verbatim>\<open>Engine_Invariants\<close>: what matching, the pump,
    cancel and reduce do to the abstract book and to the tape of events, and the invariants of
    reachable states; \<^verbatim>\<open>Last_Trade\<close>: the last price against the tape, and where pending stops lie;
    \<^verbatim>\<open>Engine_Properties\<close>: the theorems of the engine as a whole.
  \<^item> \<^verbatim>\<open>Execution\<close>: price-time priority, as an executable reference on the order walks that market data
    shows, and the proof that a submitted limit order does what the reference says.
  \<^item> \<^verbatim>\<open>Deferred\<close>: the engine built for handlers that call back.  A call leaves its events in a queue;
    the outermost call delivers them one by one, and a delivery may run any program of further
    calls or throw.  The calls of a session turn out to be one serial history of the plain engine,
    every event sees the engine at rest, and with a handler that does not call back the mode is
    the plain one.

  \<^bold>\<open>Protocols and wrappers.\<close>
  \<^item> \<^verbatim>\<open>Wire\<close>: big-endian fields (locale \<^verbatim>\<open>field\<close>, three widths) and checked reads; \<^verbatim>\<open>Itch\<close>:
    \<^verbatim>\<open>itch_parser.hpp\<close> and \<^verbatim>\<open>itch_encode.hpp\<close>; \<^verbatim>\<open>Mold\<close>: \<^verbatim>\<open>mold_udp64.hpp\<close>; \<^verbatim>\<open>Ouch\<close>: the codec of
    \<^verbatim>\<open>ouch.hpp\<close>.  The lemmas: round trips, no read outside the message whatever the bytes, and
    in-order at-most-once delivery by the tracker.
  \<^item> \<^verbatim>\<open>Gateway\<close>: the session of \<^verbatim>\<open>ouch.hpp\<close>, an order token map on top of an engine; \<^verbatim>\<open>Risk_Gate\<close>:
    the check ladder, exposure tracking and the kill switch of \<^verbatim>\<open>risk_gate.hpp\<close>.
  \<^item> \<^verbatim>\<open>Publisher\<close>: \<^verbatim>\<open>itch_publisher.hpp\<close>; \<^verbatim>\<open>Book_Builder\<close>: \<^verbatim>\<open>itch_book_builder.hpp\<close> (both builders) and
    \<^verbatim>\<open>venue.hpp\<close>.  \<^verbatim>\<open>Displayed\<close> folds the events of an engine into its displayed book, \<^verbatim>\<open>Rebuild\<close>
    reads the builder's calls as steps of a displayed book, \<^verbatim>\<open>Feed\<close> and \<^verbatim>\<open>Feed_Calls\<close> relate the two
    books through the published bytes, and \<^verbatim>\<open>Feed_Properties\<close> states the loop: whoever parses and
    applies the published messages holds the publisher's displayed book.
  \<^item> \<^verbatim>\<open>Transport\<close>: the framed file, the batching sender, the receive loop and the consumer of
    \<^verbatim>\<open>mcast_main.cpp\<close>, and the feed thread and consumer of \<^verbatim>\<open>replay_main.cpp\<close>; \<^verbatim>\<open>Multicast\<close>: what the sender puts on
    the wire and what the receiver accounts for, whatever the network does; \<^verbatim>\<open>Market_Feed\<close>: the
    publisher's book at one end is the receiver's book at the other, if the publisher's band lies
    within the 1 to 20,000,000 of the receiver.
  \<^item> \<^verbatim>\<open>Replay\<close>: the venue's invariant, that replaying ends on any bytes, and that the symbols of a
    venue do not affect each other; \<^verbatim>\<open>Itchgen\<close>: the generator, and that the feed it writes is valid
    and replayed in full.
  \<^item> \<^verbatim>\<open>Py_Engine\<close>: the collecting handler and engine class of \<^verbatim>\<open>src/bindings/py_matchbook.cpp\<close>.
  \<^item> \<^verbatim>\<open>Xorshift\<close>: the generator of random numbers that tools and strategies share (a bijection, so a
    seed other than 0 never dies); \<^verbatim>\<open>Rl_Quoter\<close>: \<^verbatim>\<open>strategy/rl_quoter.hpp\<close>; \<^verbatim>\<open>Avellaneda\<close>:
    \<^verbatim>\<open>strategy/avellaneda_stoikov.hpp\<close>.  The arithmetic of doubles is a record of operations that
    the definitions take; the theorems hold for every choice of it, and the witnesses run the
    code on whole numbers.
  \<^item> \<^verbatim>\<open>Spsc_Ring\<close>: the ring as two step machines, split at their atomic accesses and arbitrarily
    interleaved; an acquire load may return any value published since the last one seen.

  \<^bold>\<open>Conventions.\<close>  Quantities, owners, symbol ids, the aggregates of a level, and the sequence numbers,
  references and counters of the protocols, tools and ring are words of their C++ width and wrap
  as there; the gate's positions and the sums of its checks are integers wrapped into 64 signed
  bits (\<^verbatim>\<open>wrap64\<close>).  Not wrapped: order ids and the slots of the pool and of the side table are \<^verbatim>\<open>nat\<close>,
  being indices into vectors that memory bounds long before the width does, and so are the count
  of pending stops, the nesting depth of deferred sessions and the receiver's idle seconds.
  Prices are unbounded \<^verbatim>\<open>int\<close>: the premise \<^verbatim>\<open>band_ok\<close> (a band of fewer than 2^63 levels) makes every
  level index fit, but says nothing of where the band lies, and the code's own sums of a bound
  and a number of levels are free of overflow only if the band also starts at -2^63 or above and
  ends below 2^63 - 1; the theorems are to be read under that condition.  The queue of a level is
  the list of its ids: the surgery on previous and next links is not represented.  A pointer is
  an index with a liveness check; undefined behaviour is \<^verbatim>\<open>None\<close>.  Time stamps
  are arguments.  Handler events are appended to a tape in the order the code calls the
  handler; a wrapper's handler never calls its engine, so folding the events of a call over the
  wrapper when the call returns is the same as calling it in between (see \<^verbatim>\<open>Handler\<close>).

  \<^bold>\<open>Loops.\<close>  The C++ loops that follow the book (matching pass, crossing loop, stop pump, walks)
  are \<^verbatim>\<open>partial_function (option)\<close>: a loop that does not end, like a read out of range, is \<^verbatim>\<open>None\<close>.
  The refinement theorems prove that they return from every state that stands for an abstract
  one, so no theorem is conditional on termination.  Only the deferred mode takes fuel, because
  a handler that keeps calling back need not come to an end; a call returns there if and only if
  the handler makes finitely many calls during it (\<^verbatim>\<open>finite_calls\<close>; \<^verbatim>\<open>deferred_returns\<close> and
  \<^verbatim>\<open>returned_finite_calls\<close>), with any fuel from some amount on.

  \<^bold>\<open>Not modelled.\<close>  The results of floating-point arithmetic, hence the profit-and-loss
  simulation of \<^verbatim>\<open>tools/mmsim_main.cpp\<close> and the prices of the generator; sockets, option parsing,
  pacing, printing and timing of the tools and of \<^verbatim>\<open>src/bench/\<close>; the table of method names of the
  Python module; allocation failure and exceptions of the standard library.
\<close>

end
